(* ===== verification/Nvme_Prelude.thy ===== *)
theory Nvme_Prelude
  imports Main "HOL-Library.Word"
begin

text \<open>
  Shared vocabulary of the libnvme development: the machine integer types of the C code,
  the error values, the result type of code that may stop abnormally, and the generic
  facts on lists, words and results that the component theories use.
\<close>

unbundle bit_operations_syntax

subsection \<open>Machine integers\<close>

type_synonym u8 = "8 word"
type_synonym u16 = "16 word"
type_synonym u32 = "32 word"
type_synonym u64 = "64 word"

subsection \<open>Collections of facts\<close>

named_theorems nvme_defs \<open>definitions unfolded when an operation is evaluated\<close>
named_theorems ring_simps \<open>rewrite rules of the submission and completion rings\<close>

subsection \<open>Error codes\<close>

text \<open>The negative \<open>errno\<close> values the library returns, as on Linux.\<close>

definition ENOENT :: int where "ENOENT = 2"
definition ENXIO :: int where "ENXIO = 6"
definition ENOMEM :: int where "ENOMEM = 12"
definition EFAULT :: int where "EFAULT = 14"
definition ENODEV :: int where "ENODEV = 19"
definition EINVAL :: int where "EINVAL = 22"

lemmas errno_defs = ENOENT_def ENXIO_def ENOMEM_def EFAULT_def ENODEV_def EINVAL_def

lemma errno_pos [simp]:
  "0 < ENOENT" "0 < ENXIO" "0 < ENOMEM" "0 < EFAULT" "0 < ENODEV" "0 < EINVAL"
  by (simp_all add: errno_defs)

subsection \<open>Abnormal termination\<close>

text \<open>
  A computation that may stop abnormally returns \<open>Inl\<close> of a fault: a failed assertion or
  an explicit panic (\<open>nvme_panic\<close> calls \<open>abort\<close>), an access outside an array or through a
  null pointer (undefined in C), or exhausted fuel, which stands for a recursion that has
  not returned within the given number of calls.
\<close>

datatype fault = Panic | BadAccess | OutOfFuel

type_synonym 'a res = "fault + 'a"

definition rbind :: "'a res \<Rightarrow> ('a \<Rightarrow> 'b res) \<Rightarrow> 'b res" where
  "rbind r f = (case r of Inl e \<Rightarrow> Inl e | Inr x \<Rightarrow> f x)"

definition nvme_assert :: "bool \<Rightarrow> 'a res \<Rightarrow> 'a res" where
  "nvme_assert c r = (if c then r else Inl Panic)"

lemma rbind_simps [simp]:
  "rbind (Inl e) f = Inl e"
  "rbind (Inr x) f = f x"
  by (simp_all add: rbind_def)

lemma rbind_eq_Inr [simp]: "rbind r f = Inr y \<longleftrightarrow> (\<exists>x. r = Inr x \<and> f x = Inr y)"
  by (cases r) simp_all

lemma rbind_eq_Inl:
  "rbind r f = Inl e \<longleftrightarrow> r = Inl e \<or> (\<exists>x. r = Inr x \<and> f x = Inl e)"
  by (cases r) simp_all

lemma rbind_assoc: "rbind (rbind r f) g = rbind r (\<lambda>x. rbind (f x) g)"
  by (cases r) simp_all

lemma rbind_cong [fundef_cong]:
  "r = r' \<Longrightarrow> (\<And>x. r' = Inr x \<Longrightarrow> f x = g x) \<Longrightarrow> rbind r f = rbind r' g"
  by (cases r') simp_all

lemma nvme_assert_simps [simp]:
  "nvme_assert True r = r" "nvme_assert False r = Inl Panic"
  by (simp_all add: nvme_assert_def)

lemma nvme_assert_eq_Inr [simp]: "nvme_assert c r = Inr y \<longleftrightarrow> c \<and> r = Inr y"
  by (simp add: nvme_assert_def)

subsection \<open>Unsigned 64-bit counters\<close>

text \<open>
  Arithmetic on \<open>size_t\<close> counters kept as natural numbers below \<open>2 ^ 64\<close>, with the
  wrap-around of C's unsigned arithmetic.
\<close>

definition sz_add :: "nat \<Rightarrow> nat \<Rightarrow> nat" where
  "sz_add a b = (a + b) mod 2 ^ 64"

definition sz_sub :: "nat \<Rightarrow> nat \<Rightarrow> nat" where
  "sz_sub a b = (a + (2 ^ 64 - b mod 2 ^ 64)) mod 2 ^ 64"

lemma sz_add_small [simp]: "a + b < 2 ^ 64 \<Longrightarrow> sz_add a b = a + b"
  by (simp add: sz_add_def)

lemma sz_sub_small [simp]:
  assumes "b \<le> a" and "a < 2 ^ 64"
  shows "sz_sub a b = a - b"
proof -
  have "sz_sub a b = ((a - b) + 2 ^ 64) mod 2 ^ 64" using assms by (simp add: sz_sub_def)
  also have "\<dots> = a - b" using assms by (simp only: mod_add_self2) simp
  finally show ?thesis .
qed

subsection \<open>Lists\<close>

lemma distinct_remove1_set [simp]: "distinct xs \<Longrightarrow> set (remove1 x xs) = set xs - {x}"
  by simp

lemma nth_list_update_if:
  "i < length xs \<Longrightarrow> xs[i := v] ! j = (if i = j then v else xs ! j)"
  by simp

lemma filter_upt_Suc:
  "filter P [0..<Suc n] = filter P [0..<n] @ (if P n then [n] else [])"
  by simp

lemma card_filter_upt: "length (filter P [0..<n]) = card {i. i < n \<and> P i}"
proof -
  have "length (filter P [0..<n]) = card (set (filter P [0..<n]))"
    by (metis distinct_card distinct_filter distinct_upt)
  also have "set (filter P [0..<n]) = {i. i < n \<and> P i}" by auto
  finally show ?thesis .
qed

lemma find_upt_shift:
  assumes "a \<le> n" and "\<And>j. j < a \<Longrightarrow> \<not> P j"
  shows "find P [0..<n] = find P [a..<n]"
proof -
  have "find P [0..<a] = None" using assms(2) by (simp add: find_None_iff)
  moreover have "find P (xs @ ys) = (case find P xs of None \<Rightarrow> find P ys | Some x \<Rightarrow> Some x)" for xs ys
    by (induction xs) auto
  moreover have "[0..<n] = [0..<a] @ [a..<n]"
    using assms(1) by (metis le_add_diff_inverse upt_add_eq_append zero_le)
  ultimately show ?thesis by simp
qed

subsection \<open>Words\<close>

lemma unat_drop_bit_div: "unat (drop_bit n w) = unat w div 2 ^ n"
  unfolding unat_drop_bit_eq by (simp add: drop_bit_eq_div)

lemma unat_and_mask: "unat (w AND mask n) = unat w mod 2 ^ n"
proof -
  have "unat (w AND mask n) = take_bit n (unat w)"
    by (simp flip: take_bit_eq_mask add: unsigned_take_bit_eq)
  also have "\<dots> = unat w mod 2 ^ n" by (rule take_bit_eq_mod)
  finally show ?thesis .
qed

lemma nat_power_interval:
  assumes "0 < (m::nat)"
  obtains k where "2 ^ k \<le> m" and "m < 2 ^ Suc k"
  using ex_power_ivl1 [of 2 m] assms by auto

lemma bit_unat_div: "bit w n \<longleftrightarrow> odd (unat w div 2 ^ n)"
proof -
  have "bit w n \<longleftrightarrow> bit (unat w) n" by (simp add: bit_unsigned_iff)
  then show ?thesis by (simp add: bit_iff_odd)
qed

lemma drop_bit_neq_0: "drop_bit n w \<noteq> 0 \<longleftrightarrow> 2 ^ n \<le> unat w"
proof -
  have "drop_bit n w \<noteq> 0 \<longleftrightarrow> unat (drop_bit n w) \<noteq> 0"
    by (simp only: unat_eq_0)
  also have "\<dots> \<longleftrightarrow> unat w div 2 ^ n \<noteq> 0" by (simp only: unat_drop_bit_div)
  also have "\<dots> \<longleftrightarrow> 2 ^ n \<le> unat w" by (simp add: div_eq_0_iff not_less)
  finally show ?thesis .
qed

lemma drop_bit_neq_0_bits: "drop_bit n w \<noteq> 0 \<longleftrightarrow> (\<exists>j. bit w (n + j))"
  for w :: "'a::len word"
proof -
  have "drop_bit n w \<noteq> 0 \<longleftrightarrow> (\<exists>j. bit (drop_bit n w) j)"
    by (metis bit_0_eq bit_eqI bot_apply bot_bool_def)
  then show ?thesis by (simp add: bit_drop_bit_eq)
qed

lemma word_div_lt: "(w :: 'a::len word) \<noteq> 0 \<Longrightarrow> unat w div 2 < unat w"
  by (simp add: unat_gt_0)

lemma unat_shift_lt: "drop_bit (Suc 0) (w :: 'a::len word) \<noteq> 0 \<Longrightarrow> unat (drop_bit (Suc 0) w) < unat w"
  by (cases "w = 0") (use word_div_lt [of w] unat_drop_bit_div [of "Suc 0" w] in auto)

lemma unat_of_nat_small: "n < 2 ^ LENGTH('a) \<Longrightarrow> unat (of_nat n :: 'a::len word) = n"
  by (simp add: unat_of_nat)

end
