(* ===== verification/Nvme_Types.thy ===== *)
theory Nvme_Types
  imports Nvme_Prelude
begin

text \<open>
  The data of the NVMe command path: submission and completion queue entries
  (\<^verbatim>\<open>include/libnvme/nvme_spec.h\<close>), payloads, requests, trackers and queue pairs
  (\<^verbatim>\<open>lib/nvme/nvme_internal.h\<close>).

  Requests and trackers are elements of the arrays \<open>reqs\<close> and \<open>tr\<close> of their queue pair and are
  named by their index; the intrusive lists that link them are lists of indices. The record
  \<open>qctx\<close> extends a queue pair with what its operations read and write of the controller, with
  the log of the user callbacks that were called and of the doorbell writes.
\<close>

subsection \<open>Constants\<close>

definition PAGE_SHIFT :: nat where "PAGE_SHIFT = 12"
definition PAGE_SIZE :: nat where "PAGE_SIZE = 4096"
definition NVME_MAX_PRP_LIST_ENTRIES :: nat where "NVME_MAX_PRP_LIST_ENTRIES = 506"
definition NVME_MAX_XFER_SIZE :: nat where "NVME_MAX_XFER_SIZE = NVME_MAX_PRP_LIST_ENTRIES * PAGE_SIZE"
definition NVME_MAX_SGL_DESCRIPTORS :: nat where "NVME_MAX_SGL_DESCRIPTORS = 253"
definition NVME_IO_ENTRIES :: nat where "NVME_IO_ENTRIES = 1024"
definition NVME_IO_TRACKERS :: nat where "NVME_IO_TRACKERS = 128"
definition NVME_IO_ENTRIES_VS_TRACKERS_RATIO :: nat where
  "NVME_IO_ENTRIES_VS_TRACKERS_RATIO = NVME_IO_ENTRIES div NVME_IO_TRACKERS"
definition NVME_ADMIN_TRACKERS :: nat where "NVME_ADMIN_TRACKERS = 16"
definition NVME_ADMIN_ENTRIES :: nat where "NVME_ADMIN_ENTRIES = 128"
definition NVME_MAX_ASYNC_EVENTS :: nat where "NVME_MAX_ASYNC_EVENTS = 8"
definition NVME_MAX_RETRY_COUNT :: u8 where "NVME_MAX_RETRY_COUNT = 3"

definition NVME_SCT_GENERIC :: "3 word" where "NVME_SCT_GENERIC = 0"
definition NVME_SC_INVALID_FIELD :: u8 where "NVME_SC_INVALID_FIELD = 0x02"
definition NVME_SC_ABORTED_BY_REQUEST :: u8 where "NVME_SC_ABORTED_BY_REQUEST = 0x07"
definition NVME_SC_ABORTED_SQ_DELETION :: u8 where "NVME_SC_ABORTED_SQ_DELETION = 0x08"
definition NVME_SC_NAMESPACE_NOT_READY :: u8 where "NVME_SC_NAMESPACE_NOT_READY = 0x82"
definition NVME_SC_FORMAT_IN_PROGRESS :: u8 where "NVME_SC_FORMAT_IN_PROGRESS = 0x84"

lemmas status_defs = NVME_SCT_GENERIC_def NVME_SC_INVALID_FIELD_def NVME_SC_ABORTED_BY_REQUEST_def
  NVME_SC_ABORTED_SQ_DELETION_def NVME_SC_NAMESPACE_NOT_READY_def NVME_SC_FORMAT_IN_PROGRESS_def

subsection \<open>Opcodes\<close>

datatype nvme_admin_opcode =
    NVME_OPC_DELETE_IO_SQ | NVME_OPC_CREATE_IO_SQ | NVME_OPC_GET_LOG_PAGE
  | NVME_OPC_DELETE_IO_CQ | NVME_OPC_CREATE_IO_CQ | NVME_OPC_IDENTIFY
  | NVME_OPC_ABORT | NVME_OPC_SET_FEATURES | NVME_OPC_GET_FEATURES
  | NVME_OPC_ASYNC_EVENT_REQUEST | NVME_OPC_NS_MANAGEMENT | NVME_OPC_FIRMWARE_COMMIT
  | NVME_OPC_FIRMWARE_IMAGE_DOWNLOAD | NVME_OPC_NS_ATTACHMENT | NVME_OPC_KEEP_ALIVE
  | NVME_OPC_FORMAT_NVM | NVME_OPC_SECURITY_SEND | NVME_OPC_SECURITY_RECEIVE

primrec admin_opc :: "nvme_admin_opcode \<Rightarrow> u8" where
  "admin_opc NVME_OPC_DELETE_IO_SQ = 0x00"
| "admin_opc NVME_OPC_CREATE_IO_SQ = 0x01"
| "admin_opc NVME_OPC_GET_LOG_PAGE = 0x02"
| "admin_opc NVME_OPC_DELETE_IO_CQ = 0x04"
| "admin_opc NVME_OPC_CREATE_IO_CQ = 0x05"
| "admin_opc NVME_OPC_IDENTIFY = 0x06"
| "admin_opc NVME_OPC_ABORT = 0x08"
| "admin_opc NVME_OPC_SET_FEATURES = 0x09"
| "admin_opc NVME_OPC_GET_FEATURES = 0x0a"
| "admin_opc NVME_OPC_ASYNC_EVENT_REQUEST = 0x0c"
| "admin_opc NVME_OPC_NS_MANAGEMENT = 0x0d"
| "admin_opc NVME_OPC_FIRMWARE_COMMIT = 0x10"
| "admin_opc NVME_OPC_FIRMWARE_IMAGE_DOWNLOAD = 0x11"
| "admin_opc NVME_OPC_NS_ATTACHMENT = 0x15"
| "admin_opc NVME_OPC_KEEP_ALIVE = 0x18"
| "admin_opc NVME_OPC_FORMAT_NVM = 0x80"
| "admin_opc NVME_OPC_SECURITY_SEND = 0x81"
| "admin_opc NVME_OPC_SECURITY_RECEIVE = 0x82"

datatype nvme_nvm_opcode =
    NVME_OPC_FLUSH | NVME_OPC_WRITE | NVME_OPC_READ
  | NVME_OPC_WRITE_UNCORRECTABLE | NVME_OPC_COMPARE | NVME_OPC_WRITE_ZEROES
  | NVME_OPC_DATASET_MANAGEMENT | NVME_OPC_RESERVATION_REGISTER | NVME_OPC_RESERVATION_REPORT
  | NVME_OPC_RESERVATION_ACQUIRE | NVME_OPC_RESERVATION_RELEASE

primrec nvm_opc :: "nvme_nvm_opcode \<Rightarrow> u8" where
  "nvm_opc NVME_OPC_FLUSH = 0x00"
| "nvm_opc NVME_OPC_WRITE = 0x01"
| "nvm_opc NVME_OPC_READ = 0x02"
| "nvm_opc NVME_OPC_WRITE_UNCORRECTABLE = 0x04"
| "nvm_opc NVME_OPC_COMPARE = 0x05"
| "nvm_opc NVME_OPC_WRITE_ZEROES = 0x08"
| "nvm_opc NVME_OPC_DATASET_MANAGEMENT = 0x09"
| "nvm_opc NVME_OPC_RESERVATION_REGISTER = 0x0d"
| "nvm_opc NVME_OPC_RESERVATION_REPORT = 0x0e"
| "nvm_opc NVME_OPC_RESERVATION_ACQUIRE = 0x11"
| "nvm_opc NVME_OPC_RESERVATION_RELEASE = 0x15"

subsection \<open>Commands and completions\<close>

record nvme_sgl_descriptor =
  sgl_address :: u64
  sgl_length :: u32
  sgl_subtype :: "4 word"
  sgl_type :: "4 word"

definition NVME_SGL_TYPE_DATA_BLOCK :: "4 word" where "NVME_SGL_TYPE_DATA_BLOCK = 0x0"
definition NVME_SGL_TYPE_LAST_SEGMENT :: "4 word" where "NVME_SGL_TYPE_LAST_SEGMENT = 0x3"

datatype nvme_psdt_value = NVME_PSDT_PRP | NVME_PSDT_SGL_MPTR_CONTIG | NVME_PSDT_SGL_MPTR_SGL | NVME_PSDT_RESERVED

text \<open>The data pointer is a union: two PRP entries or one SGL descriptor.\<close>

datatype nvme_dptr = DptrPrp u64 u64 | DptrSgl nvme_sgl_descriptor

record nvme_cmd =
  opc :: u8
  fuse :: "2 word"
  psdt :: nvme_psdt_value
  cmd_cid :: u16
  nsid :: u32
  mptr :: u64
  dptr :: nvme_dptr
  cdw10 :: u32
  cdw11 :: u32
  cdw12 :: u32
  cdw13 :: u32
  cdw14 :: u32
  cdw15 :: u32

definition cmd_zero :: nvme_cmd where
  "cmd_zero = \<lparr>opc = 0, fuse = 0, psdt = NVME_PSDT_PRP, cmd_cid = 0, nsid = 0, mptr = 0, dptr = DptrPrp 0 0,
     cdw10 = 0, cdw11 = 0, cdw12 = 0, cdw13 = 0, cdw14 = 0, cdw15 = 0\<rparr>"

record nvme_status =
  st_p :: bool
  st_sc :: u8
  st_sct :: "3 word"
  st_m :: bool
  st_dnr :: bool

record nvme_cpl =
  cpl_cdw0 :: u32
  cpl_sqhd :: u16
  cpl_sqid :: u16
  cpl_cid :: u16
  cpl_status :: nvme_status

definition cpl_zero :: nvme_cpl where
  "cpl_zero = \<lparr>cpl_cdw0 = 0, cpl_sqhd = 0, cpl_sqid = 0, cpl_cid = 0,
     cpl_status = \<lparr>st_p = False, st_sc = 0, st_sct = 0, st_m = False, st_dnr = False\<rparr>\<rparr>"

definition nvme_cpl_is_error :: "nvme_cpl \<Rightarrow> bool" where
  "nvme_cpl_is_error cpl \<longleftrightarrow> st_sc (cpl_status cpl) \<noteq> 0 \<or> st_sct (cpl_status cpl) \<noteq> 0"

subsection \<open>Payloads and requests\<close>

datatype nvme_payload_type = NVME_PAYLOAD_TYPE_INVALID | NVME_PAYLOAD_TYPE_CONTIG | NVME_PAYLOAD_TYPE_SGL

text \<open>
  The scatter-gather callbacks are code of the user. \<open>pl_sgl\<close> gives what they answer: after
  \<open>reset_sgl_fn\<close> was called with an offset, the \<open>k\<close>-th call of \<open>next_sge_fn\<close> returns a code, a
  physical address and a length. It is \<open>None\<close> when the callbacks are null.
\<close>

type_synonym sge_source = "u32 \<Rightarrow> nat \<Rightarrow> int \<times> u64 \<times> u32"

record nvme_payload =
  pl_contig :: nat
  pl_sgl :: "sge_source option"
  pl_md :: "nat option"
  pl_type :: nvme_payload_type

text \<open>
  The completion callbacks: none, one of the user's, the internal ones of a child request, of a
  command that is polled for, and of an asynchronous event request (by its index in
  \<^verbatim>\<open>ctrlr->aer\<close>).
\<close>

datatype nvme_cb = CbNull | CbUser nat | CbCompleteChild nat | CbPoll nat | CbAsyncEvent nat

record nvme_request =
  req_cmd :: nvme_cmd
  req_payload :: nvme_payload
  req_retries :: u8
  req_child_reqs :: u8
  req_payload_size :: u32
  req_payload_offset :: u32
  req_md_offset :: u32
  req_cb :: nvme_cb
  req_children :: "nat list"
  req_parent :: "nat option"
  req_parent_status :: nvme_cpl

record nvme_tracker =
  tr_req :: "nat option"
  tr_cid :: u16
  tr_active :: bool
  tr_bus_addr :: u64
  tr_prp :: "u64 list"
  tr_sgl :: "nvme_sgl_descriptor list"

record nvme_qpair =
  qp_id :: u16
  qp_cmd :: "nvme_cmd list"
  qp_cpl :: "nvme_cpl list"
  free_tr :: "nat list"
  outstanding_tr :: "nat list"
  trackers :: nat
  qp_tr :: "nvme_tracker list"
  reqs :: "nvme_request list"
  free_req :: "nat list"
  queued_req :: "nat list"
  entries :: nat
  sq_tail :: nat
  cq_head :: nat
  phase :: bool
  qp_enabled :: bool
  sq_in_cmb :: bool
  qprio :: nat
  cmd_bus_addr :: u64
  cpl_bus_addr :: u64

record nvme_completion_poll_status =
  poll_cpl :: nvme_cpl
  poll_done :: bool

record nvme_async_event_request =
  aer_req :: "nat option"
  aer_cpl :: nvme_cpl

text \<open>Doorbell writes: the submission queue tail and the completion queue head registers.\<close>

datatype doorbell = SqTail nat | CqHead nat

record qctx = nvme_qpair +
  ct_failed :: bool
  ct_resetting :: bool
  ct_sgl_supported :: bool
  ct_enabled_io_qpairs :: int
  ct_aer :: "nvme_async_event_request list"
  ct_aer_cb :: bool
  ct_poll :: "nat \<Rightarrow> nvme_completion_poll_status"
  ct_vtophys :: "nat \<Rightarrow> u64"
  user_calls :: "(nat \<times> nvme_cpl) list"
  aer_calls :: "nvme_cpl list"
  doorbells :: "doorbell list"

end
