(* ===== verification/Nvme_Request.thy ===== *)
theory Nvme_Request
  imports Nvme_Types
begin

text \<open>
  Request descriptors (\<^verbatim>\<open>lib/nvme/nvme_request.c\<close>): the pool of a queue pair, allocation and release, and the
  tree of a request that was split into children.
\<close>

subsection \<open>Definitions\<close>

abbreviation req_at :: "'a nvme_qpair_scheme \<Rightarrow> nat \<Rightarrow> nvme_request" where
  "req_at q r \<equiv> reqs q ! r"

definition upd_req :: "nat \<Rightarrow> (nvme_request \<Rightarrow> nvme_request) \<Rightarrow> 'a nvme_qpair_scheme \<Rightarrow> 'a nvme_qpair_scheme" where
  "upd_req r f q = q\<lparr>reqs := (reqs q)[r := f (reqs q ! r)]\<rparr>"

text \<open>\<^verbatim>\<open>nvme_alloc_request\<close>: the head of the free list, its command cleared.\<close>

definition nvme_alloc_request :: "'a nvme_qpair_scheme \<Rightarrow> nat option \<times> 'a nvme_qpair_scheme" where
  "nvme_alloc_request q =
     (case free_req q of
        [] \<Rightarrow> (None, q)
      | r # rs \<Rightarrow> (Some r, upd_req r (\<lambda>req. req\<lparr>req_cmd := cmd_zero\<rparr>) (q\<lparr>free_req := rs\<rparr>)))"

definition payload_null :: nvme_payload where
  "payload_null = \<lparr>pl_contig = 0, pl_sgl = None, pl_md = None, pl_type = NVME_PAYLOAD_TYPE_INVALID\<rparr>"

text \<open>
  \<^verbatim>\<open>nvme_request_allocate\<close> clears the descriptor up to, but not including, the list of children.
\<close>

definition nvme_request_allocate ::
  "'a nvme_qpair_scheme \<Rightarrow> nvme_payload \<Rightarrow> u32 \<Rightarrow> nvme_cb \<Rightarrow> nat option \<times> 'a nvme_qpair_scheme" where
  "nvme_request_allocate q payload payload_size cb =
     (case nvme_alloc_request q of
        (None, q) \<Rightarrow> (None, q)
      | (Some r, q) \<Rightarrow>
          (Some r, upd_req r (\<lambda>req. req\<lparr>req_cmd := cmd_zero, req_payload := payload, req_retries := 0,
             req_child_reqs := 0, req_payload_size := payload_size, req_payload_offset := 0,
             req_md_offset := 0, req_cb := cb\<rparr>) q))"

definition nvme_request_allocate_contig ::
  "'a nvme_qpair_scheme \<Rightarrow> nat \<Rightarrow> u32 \<Rightarrow> nvme_cb \<Rightarrow> nat option \<times> 'a nvme_qpair_scheme" where
  "nvme_request_allocate_contig q buffer payload_size cb =
     nvme_request_allocate q
       \<lparr>pl_contig = buffer, pl_sgl = None, pl_md = None, pl_type = NVME_PAYLOAD_TYPE_CONTIG\<rparr> payload_size cb"

definition nvme_request_allocate_null ::
  "'a nvme_qpair_scheme \<Rightarrow> nvme_cb \<Rightarrow> nat option \<times> 'a nvme_qpair_scheme" where
  "nvme_request_allocate_null q cb = nvme_request_allocate_contig q 0 0 cb"

definition nvme_request_free :: "nat \<Rightarrow> 'a nvme_qpair_scheme \<Rightarrow> 'a nvme_qpair_scheme res" where
  "nvme_request_free r q =
     nvme_assert (req_child_reqs (req_at q r) = 0) (Inr (q\<lparr>free_req := r # free_req q\<rparr>))"

text \<open>The 8-bit counter of children wraps; the first child (re)initialises the list.\<close>

definition nvme_request_add_child :: "nat \<Rightarrow> nat \<Rightarrow> 'a nvme_qpair_scheme \<Rightarrow> 'a nvme_qpair_scheme" where
  "nvme_request_add_child parent child q =
     (let q = (if req_child_reqs (req_at q parent) = 0
               then upd_req parent (\<lambda>p. p\<lparr>req_children := [], req_parent := None, req_parent_status := cpl_zero\<rparr>) q
               else q);
          q = upd_req parent (\<lambda>p. p\<lparr>req_child_reqs := req_child_reqs p + 1,
                                    req_children := req_children p @ [child]\<rparr>) q
      in upd_req child (\<lambda>c. c\<lparr>req_parent := Some parent, req_cb := CbCompleteChild child\<rparr>) q)"

definition nvme_request_remove_child :: "nat \<Rightarrow> nat \<Rightarrow> 'a nvme_qpair_scheme \<Rightarrow> 'a nvme_qpair_scheme res" where
  "nvme_request_remove_child parent child q =
     nvme_assert (req_parent (req_at q child) = Some parent)
     (nvme_assert (req_child_reqs (req_at q parent) \<noteq> 0)
       (Inr (upd_req parent (\<lambda>p. p\<lparr>req_child_reqs := req_child_reqs p - 1,
                                   req_children := remove1 child (req_children p)\<rparr>) q)))"

text \<open>
  \<^verbatim>\<open>nvme_request_pool_construct\<close>: eight requests for each tracker; \<open>calloc_ok\<close> is the answer of \<open>calloc\<close>.
\<close>

definition request_zero :: nvme_request where
  "request_zero = \<lparr>req_cmd = cmd_zero, req_payload = payload_null, req_retries = 0, req_child_reqs = 0,
     req_payload_size = 0, req_payload_offset = 0, req_md_offset = 0, req_cb = CbNull, req_children = [],
     req_parent = None, req_parent_status = cpl_zero\<rparr>"

definition nvme_request_pool_construct :: "bool \<Rightarrow> 'a nvme_qpair_scheme \<Rightarrow> int \<times> 'a nvme_qpair_scheme" where
  "nvme_request_pool_construct calloc_ok q =
     (let num_reqs = trackers q * NVME_IO_ENTRIES_VS_TRACKERS_RATIO
      in if \<not> calloc_ok then (- ENOMEM, q\<lparr>reqs := []\<rparr>)
         else (0, q\<lparr>reqs := replicate num_reqs request_zero, free_req := free_req q @ [0..<num_reqs]\<rparr>))"

definition nvme_request_pool_destroy :: "'a nvme_qpair_scheme \<Rightarrow> 'a nvme_qpair_scheme" where
  "nvme_request_pool_destroy q = q\<lparr>free_req := [], reqs := []\<rparr>"

subsection \<open>Basic facts\<close>

lemma upd_req_simps [simp]:
  "length (reqs (upd_req r f q)) = length (reqs q)" "free_req (upd_req r f q) = free_req q"
  "queued_req (upd_req r f q) = queued_req q" "qp_tr (upd_req r f q) = qp_tr q"
  "outstanding_tr (upd_req r f q) = outstanding_tr q" "free_tr (upd_req r f q) = free_tr q"
  "trackers (upd_req r f q) = trackers q" "entries (upd_req r f q) = entries q"
  "sq_tail (upd_req r f q) = sq_tail q" "cq_head (upd_req r f q) = cq_head q"
  "phase (upd_req r f q) = phase q" "qp_enabled (upd_req r f q) = qp_enabled q"
  "qp_cmd (upd_req r f q) = qp_cmd q" "qp_cpl (upd_req r f q) = qp_cpl q" "qp_id (upd_req r f q) = qp_id q"
  by (simp_all add: upd_req_def)

lemma upd_req_ctx [simp]:
  "ct_failed (upd_req r f s) = ct_failed s" "ct_resetting (upd_req r f s) = ct_resetting s"
  "ct_sgl_supported (upd_req r f s) = ct_sgl_supported s" "ct_aer (upd_req r f s) = ct_aer s"
  "ct_vtophys (upd_req r f s) = ct_vtophys s" "user_calls (upd_req r f s) = user_calls s"
  "aer_calls (upd_req r f s) = aer_calls s" "doorbells (upd_req r f s) = doorbells s"
  "ct_poll (upd_req r f s) = ct_poll s" "ct_aer_cb (upd_req r f s) = ct_aer_cb s"
  "ct_enabled_io_qpairs (upd_req r f s) = ct_enabled_io_qpairs s"
  for s :: qctx
  by (simp_all add: upd_req_def)

lemma req_at_upd_req:
  "r < length (reqs q) \<Longrightarrow> req_at (upd_req r f q) i = (if i = r then f (req_at q r) else req_at q i)"
  by (simp add: upd_req_def nth_list_update)

lemma req_at_upd_req_other [simp]: "i \<noteq> r \<Longrightarrow> req_at (upd_req r f q) i = req_at q i"
  by (simp add: upd_req_def)

end
