(* ===== verification/Nvme_Util.thy ===== *)
theory Nvme_Util
  imports Nvme_Prelude
begin

text \<open>
  The inline helpers of \<^verbatim>\<open>lib/common/nvme_common.h\<close>: powers of two, alignment and the byte
  bitmaps of the memory pools. Sizes are 64-bit words (\<open>size_t\<close>, \<open>__u64\<close>); bit numbers are
  natural numbers below \<open>2 ^ 32\<close> (\<open>unsigned int\<close>), with the wrap-around of the word count
  written out.
\<close>

subsection \<open>Definitions: powers of two and alignment\<close>

definition nvme_is_pow2 :: "u64 \<Rightarrow> bool" where
  "nvme_is_pow2 v \<longleftrightarrow> v \<noteq> 0 \<and> v AND (v - 1) = 0"

definition nvme_align_pow2 :: "u64 \<Rightarrow> u64" where
  "nvme_align_pow2 v =
     (let v = v - 1;
          v = v OR drop_bit 1 v;
          v = v OR drop_bit 2 v;
          v = v OR drop_bit 4 v;
          v = v OR drop_bit 8 v;
          v = v OR drop_bit 16 v;
          v = v OR drop_bit 32 v
      in v + 1)"

text \<open>The loop \<^verbatim>\<open>while (size >>= 1) bits++\<close>.\<close>

function log2_loop :: "u64 \<Rightarrow> u64 \<Rightarrow> u64" where
  "log2_loop sz bits =
     (let sz = drop_bit 1 sz
      in if sz \<noteq> 0 then log2_loop sz (bits + 1) else bits)"
  by pat_completeness auto
termination
  by (relation "measure (\<lambda>(sz, bits). unat sz)") (auto intro: unat_shift_lt)

declare log2_loop.simps [simp del]

definition nvme_log2 :: "u64 \<Rightarrow> u64" where
  "nvme_log2 sz = (if \<not> nvme_is_pow2 sz then 0 else log2_loop sz 0)"

definition nvme_align_down :: "u64 \<Rightarrow> u64 \<Rightarrow> u64" where
  "nvme_align_down val align = val AND NOT (align - 1)"

definition nvme_align_up :: "u64 \<Rightarrow> u64 \<Rightarrow> u64" where
  "nvme_align_up val align = nvme_align_down (val + align - 1) align"

text \<open>The value address translation returns when there is no translation (\<^verbatim>\<open>nvme_mem.h\<close>).\<close>

definition NVME_VTOPHYS_ERROR :: u64 where "NVME_VTOPHYS_ERROR = NOT 0"

subsection \<open>Definitions: bitmaps\<close>

type_synonym bitmap = "u8 list"

definition test_bit_bm :: "bitmap \<Rightarrow> nat \<Rightarrow> bool" where
  "test_bit_bm bm b \<longleftrightarrow> (bm ! (b div 8)) AND push_bit (b mod 8) 1 \<noteq> 0"

definition set_bit_bm :: "bitmap \<Rightarrow> nat \<Rightarrow> bitmap" where
  "set_bit_bm bm b = bm[b div 8 := (bm ! (b div 8)) OR push_bit (b mod 8) 1]"

definition clear_bit_bm :: "bitmap \<Rightarrow> nat \<Rightarrow> bitmap" where
  "clear_bit_bm bm b = bm[b div 8 := (bm ! (b div 8)) AND NOT (push_bit (b mod 8) 1)]"

text \<open>
  \<^verbatim>\<open>((__u64 *)bitmap)[i]\<close>: the eight bytes of word \<open>i\<close>, least significant first.
\<close>

definition u64_of_bytes :: "u8 list \<Rightarrow> u64" where
  "u64_of_bytes bs = foldr (\<lambda>b w. (ucast b :: u64) OR push_bit 8 w) bs 0"

definition bm_word :: "bitmap \<Rightarrow> nat \<Rightarrow> u64" where
  "bm_word bm i = u64_of_bytes (take 8 (drop (8 * i) bm))"

function ffz_words :: "bitmap \<Rightarrow> nat \<Rightarrow> nat \<Rightarrow> nat" where
  "ffz_words bm i count =
     (if i < count \<and> bm_word bm i = NOT 0 then ffz_words bm (Suc i) count else i)"
  by pat_completeness auto
termination
  by (relation "measure (\<lambda>(bm, i, count). count - i)") auto

function ffz_bits :: "bitmap \<Rightarrow> nat \<Rightarrow> nat \<Rightarrow> int" where
  "ffz_bits bm j nr_bits =
     (if j < nr_bits then (if \<not> test_bit_bm bm j then int j else ffz_bits bm (Suc j) nr_bits)
      else -1)"
  by pat_completeness auto
termination
  by (relation "measure (\<lambda>(bm, j, nr_bits). nr_bits - j)") auto

declare ffz_words.simps [simp del] ffz_bits.simps [simp del]

definition find_first_zero_bit :: "bitmap \<Rightarrow> nat \<Rightarrow> int" where
  "find_first_zero_bit bm nr_bits =
     (let count = ((nr_bits + 63) mod 2 ^ 32) div 64;
          i = ffz_words bm 0 count
      in ffz_bits bm (i * 64) nr_bits)"


subsection \<open>Powers of two\<close>

lemma unat_pow2: "k < 64 \<Longrightarrow> unat (2 ^ k :: u64) = 2 ^ k"
proof -
  assume "k < 64"
  then have "(2::nat) ^ k < 2 ^ 64" by (intro power_strict_increasing) simp_all
  then show ?thesis using unat_of_nat [of "2 ^ k", where 'a = 64] by simp
qed

lemma pow2_less_64: "2 ^ k \<le> unat (v::u64) \<Longrightarrow> k < 64"
proof -
  assume "2 ^ k \<le> unat v"
  moreover have "unat v < 2 ^ 64" using unsigned_less [of v, where 'a = nat] by simp
  ultimately have "(2::nat) ^ k < 2 ^ 64" by linarith
  then show "k < 64" by (simp only: power_strict_increasing_iff [of 2 k 64])
qed

lemma and_pred_pow2: "k < 64 \<Longrightarrow> (2 ^ k :: u64) AND (2 ^ k - 1) = 0"
  by (rule bit_word_eqI) (simp add: bit_and_iff bit_exp_iff bit_mask_iff flip: mask_eq_exp_minus_1)

lemma is_pow2_exists:
  assumes "nvme_is_pow2 v"
  obtains k where "k < 64" and "v = 2 ^ k"
proof -
  have v0: "v \<noteq> 0" and vand: "v AND (v - 1) = 0"
    using assms by (simp_all add: nvme_is_pow2_def)
  obtain k where k: "2 ^ k \<le> unat v" "unat v < 2 ^ Suc k"
    using nat_power_interval [of "unat v"] v0 by (auto simp: unat_gt_0)
  have uv: "unat (v - 1) = unat v - 1"
    using v0 by (simp add: unat_minus_one)
  have "\<not> 2 ^ k \<le> unat v - 1"
  proof
    assume le: "2 ^ k \<le> unat v - 1"
    have "unat v div 2 ^ k = 1" and "(unat v - 1) div 2 ^ k = 1"
      using k le by (simp_all add: div_nat_eqI)
    then have "bit v k" and "bit (v - 1) k"
      by (simp_all add: bit_unat_div uv)
    then have "bit (v AND (v - 1)) k" by (simp add: bit_and_iff)
    with vand show False by simp
  qed
  then have "unat v = 2 ^ k" using k by linarith
  moreover have "k < 64" using k(1) by (rule pow2_less_64)
  ultimately have "v = 2 ^ k" by (metis unat_pow2 word_unat_eq_iff)
  with \<open>k < 64\<close> show thesis by (rule that)
qed

lemma is_pow2_iff: "nvme_is_pow2 v \<longleftrightarrow> (\<exists>k<64. v = 2 ^ k)"
proof
  assume "nvme_is_pow2 v"
  then show "\<exists>k<64. v = 2 ^ k" using is_pow2_exists by blast
next
  assume "\<exists>k<64. v = 2 ^ k"
  then obtain k where "k < 64" "v = 2 ^ k" by blast
  moreover from this have "unat v \<noteq> 0" by (simp add: unat_pow2)
  ultimately show "nvme_is_pow2 v"
    by (auto simp: nvme_is_pow2_def and_pred_pow2)
qed

lemma is_pow2_power [simp]: "k < 64 \<Longrightarrow> nvme_is_pow2 (2 ^ k)"
  by (auto simp: is_pow2_iff)

text \<open>One step of the bit smearing doubles the distance every set bit has been copied down.\<close>

lemma bit_smear_step:
  fixes x v :: u64
  assumes "\<And>n. bit x n \<longleftrightarrow> (\<exists>j<w. bit v (n + j))" and "w2 = 2 * w"
  shows "bit (x OR drop_bit w x) n \<longleftrightarrow> (\<exists>j<w2. bit v (n + j))"
proof -
  have "bit (x OR drop_bit w x) n \<longleftrightarrow> (\<exists>j<w. bit v (n + j)) \<or> (\<exists>j<w. bit v (w + n + j))"
    by (simp add: bit_or_iff bit_drop_bit_eq assms(1))
  also have "\<dots> \<longleftrightarrow> (\<exists>j<w2. bit v (n + j))"
  proof (intro iffI; elim exE conjE disjE)
    fix j assume "j < w" "bit v (w + n + j)"
    then show "\<exists>j<w2. bit v (n + j)"
      using assms(2) by (intro exI [of _ "w + j"]) (simp add: ac_simps)
  next
    fix j assume j: "j < w2" "bit v (n + j)"
    show "(\<exists>j<w. bit v (n + j)) \<or> (\<exists>j<w. bit v (w + n + j))"
    proof (cases "j < w")
      case False
      with j assms(2) have "j - w < w \<and> bit v (w + n + (j - w))" by (simp add: ac_simps)
      then show ?thesis by blast
    qed (use j in blast)
  next
    fix j assume "j < w" "bit v (n + j)"
    then show "\<exists>j<w2. bit v (n + j)" using assms(2) by (intro exI [of _ j]) simp
  qed
  finally show ?thesis .
qed

definition smear :: "u64 \<Rightarrow> u64" where
  "smear v =
     (let v = v OR drop_bit 1 v; v = v OR drop_bit 2 v; v = v OR drop_bit 4 v;
          v = v OR drop_bit 8 v; v = v OR drop_bit 16 v
      in v OR drop_bit 32 v)"

lemma align_pow2_smear: "nvme_align_pow2 v = smear (v - 1) + 1"
  by (simp add: nvme_align_pow2_def smear_def Let_def)

lemma bit_smear: "bit (smear v) n \<longleftrightarrow> 2 ^ n \<le> unat v"
proof -
  let ?R = "\<lambda>(x::u64) w. \<forall>n. bit x n \<longleftrightarrow> (\<exists>j<w. bit v (n + j))"
  have step: "?R (x OR drop_bit w x) w2" if R: "?R x w" and w2: "w2 = 2 * w" for x w w2
    using w2 by (intro allI bit_smear_step) (rule R [rule_format])
  have "?R v 1" by simp
  have "?R (smear v) 64"
    unfolding smear_def Let_def
    by (rule step [of _ 32], rule step [of _ 16], rule step [of _ 8], rule step [of _ 4],
        rule step [of _ 2], rule step [of _ 1]) simp_all
  then have "bit (smear v) n \<longleftrightarrow> (\<exists>j<64. bit v (n + j))" by blast
  also have "\<dots> \<longleftrightarrow> (\<exists>j. bit v (n + j))"
  proof -
    have "bit v (n + j) \<Longrightarrow> j < 64" for j
      using bit_imp_le_length [of v "n + j"] by simp
    then show ?thesis by blast
  qed
  also have "\<dots> \<longleftrightarrow> 2 ^ n \<le> unat v"
    using drop_bit_neq_0 [of n v] drop_bit_neq_0_bits [of n v] by blast
  finally show ?thesis .
qed

lemma smear_interval:
  assumes "2 ^ k \<le> unat v" and "unat v < 2 ^ Suc k"
  shows "smear v = mask (Suc k)"
proof (rule bit_word_eqI)
  fix n assume "n < LENGTH(64)"
  have "2 ^ n \<le> unat v \<longleftrightarrow> n < Suc k"
    using assms by (metis le_trans less_Suc_eq_le linorder_not_less one_less_numeral_iff
        order_le_less_trans power_increasing_iff power_strict_increasing_iff semiring_norm(76))
  then show "bit (smear v) n \<longleftrightarrow> bit (mask (Suc k) :: u64) n"
    using \<open>n < LENGTH(64)\<close> by (simp add: bit_smear bit_mask_iff)
qed

lemma align_pow2_one [simp]: "nvme_align_pow2 1 = 1"
  by (simp add: nvme_align_pow2_def)

lemma align_pow2_power:
  assumes "0 < unat v" and "unat v \<le> 2 ^ 63"
  obtains k where "k < 64" and "nvme_align_pow2 v = 2 ^ k"
    and "unat v \<le> 2 ^ k" and "2 ^ k < 2 * unat v"
proof (cases "unat v = 1")
  case True
  then have "v = 1" by (simp add: word_unat_eq_iff)
  then show thesis by (intro that [of 0]) simp_all
next
  case False
  have uv: "unat (v - 1) = unat v - 1"
    using assms(1) by (metis unat_0 unat_minus_one less_irrefl)
  have "0 < unat v - 1" using False assms(1) by linarith
  then obtain k where k: "2 ^ k \<le> unat v - 1" "unat v - 1 < 2 ^ Suc k"
    by (rule nat_power_interval)
  have "(2::nat) ^ k < 2 ^ 63" using k(1) assms by linarith
  then have "k < 63" by (simp only: power_strict_increasing_iff [of 2 k 63])
  have "nvme_align_pow2 v = mask (Suc k) + 1"
    using k by (simp add: align_pow2_smear smear_interval uv)
  also have "\<dots> = 2 ^ Suc k" by (simp add: mask_eq_exp_minus_1)
  finally show thesis
    using k \<open>k < 63\<close> assms(1) by (intro that [of "Suc k"]) auto
qed

subsection \<open>Binary logarithm\<close>

lemma log2_loop_pow2: "k < 64 \<Longrightarrow> log2_loop (2 ^ k) b = b + of_nat k"
proof (induction k arbitrary: b)
  case 0
  then show ?case by (subst log2_loop.simps) simp
next
  case (Suc k)
  have "drop_bit 1 (2 ^ Suc k :: u64) = 2 ^ k"
    using Suc.prems
    by (intro bit_word_eqI) (auto simp: bit_drop_bit_eq bit_exp_iff simp del: power_Suc)
  moreover have "(2 ^ k :: u64) \<noteq> 0"
    using Suc.prems unat_pow2 [of k] by (metis Suc_lessD power_not_zero unat_0 zero_neq_numeral)
  ultimately show ?case
    using Suc by (subst log2_loop.simps) (simp add: ac_simps)
qed

lemma log2_pow2 [simp]: "k < 64 \<Longrightarrow> nvme_log2 (2 ^ k) = of_nat k"
  by (simp add: nvme_log2_def log2_loop_pow2)

subsection \<open>Alignment\<close>

lemma unat_align_down:
  assumes "k < 64"
  shows "unat (nvme_align_down v (2 ^ k)) = unat v div 2 ^ k * 2 ^ k"
proof -
  have "v AND NOT (mask k) = v - (v AND mask k)"
    by (subst disjunctive_diff) (auto intro!: bit_word_eqI simp: bit_simps)
  moreover have "v AND mask k \<le> v" by (rule word_and_le2)
  ultimately have "unat (v AND NOT (mask k)) = unat v - unat (v AND mask k)"
    by (simp add: unat_sub)
  then show ?thesis
    by (simp add: nvme_align_down_def unat_and_mask minus_mod_eq_div_mult
        flip: mask_eq_exp_minus_1)
qed

lemma unat_align_up:
  assumes "k < 64" and "unat v + 2 ^ k \<le> 2 ^ 64"
  shows "unat (nvme_align_up v (2 ^ k)) = (unat v + 2 ^ k - 1) div 2 ^ k * 2 ^ k"
proof -
  have eq: "v + 2 ^ k - 1 = of_nat (unat v + 2 ^ k - 1)"
  proof -
    have "1 \<le> unat v + 2 ^ k" using one_le_power [of "2::nat" k] by linarith
    then have "of_nat (unat v + 2 ^ k - 1) = (of_nat (unat v + 2 ^ k) - of_nat 1 :: u64)"
      by (rule of_nat_diff)
    then show ?thesis by (simp only: of_nat_add of_nat_power of_nat_numeral of_nat_1) simp
  qed
  have lt: "unat v + 2 ^ k - 1 < 2 ^ LENGTH(64)"
    using assms(2) by (simp add: less_le_trans [of _ "unat v + 2 ^ k"])
  have "unat (v + 2 ^ k - 1) = unat v + 2 ^ k - 1"
    unfolding eq by (rule unat_of_nat_small [OF lt])
  then show ?thesis by (simp only: nvme_align_up_def unat_align_down [OF assms(1)])
qed

subsection \<open>Bitmaps\<close>

lemma test_bit_bm_iff: "test_bit_bm bm b \<longleftrightarrow> bit (bm ! (b div 8)) (b mod 8)"
  by (simp add: test_bit_bm_def bit_iff_and_push_bit_not_eq_0)

lemma length_set_bit_bm [simp]: "length (set_bit_bm bm b) = length bm"
  by (simp add: set_bit_bm_def)

lemma length_clear_bit_bm [simp]: "length (clear_bit_bm bm b) = length bm"
  by (simp add: clear_bit_bm_def)

lemma div_mod_8_eq: "(c::nat) div 8 = b div 8 \<Longrightarrow> c mod 8 = b mod 8 \<Longrightarrow> c = b"
  by (metis div_mult_mod_eq)

lemma test_set_bit_bm:
  assumes "b div 8 < length bm"
  shows "test_bit_bm (set_bit_bm bm b) c \<longleftrightarrow> c = b \<or> test_bit_bm bm c"
  using assms div_mod_8_eq [of c b]
  by (auto simp: test_bit_bm_iff set_bit_bm_def nth_list_update bit_or_iff bit_exp_iff)

lemma test_clear_bit_bm:
  assumes "b div 8 < length bm"
  shows "test_bit_bm (clear_bit_bm bm b) c \<longleftrightarrow> c \<noteq> b \<and> test_bit_bm bm c"
  using assms div_mod_8_eq [of c b]
  by (auto simp: test_bit_bm_iff clear_bit_bm_def nth_list_update bit_and_iff bit_not_iff bit_exp_iff)

lemma test_bit_replicate_0 [simp]: "b div 8 < n \<Longrightarrow> \<not> test_bit_bm (replicate n 0) b"
  by (simp add: test_bit_bm_iff)

lemma clear_set_bit_bm:
  assumes "b div 8 < length bm" and "\<not> test_bit_bm bm b"
  shows "clear_bit_bm (set_bit_bm bm b) b = bm"
proof -
  have "((bm ! (b div 8)) OR push_bit (b mod 8) 1) AND NOT (push_bit (b mod 8) 1) = bm ! (b div 8)"
    using assms(2)
    by (intro bit_word_eqI)
       (auto simp: test_bit_bm_iff bit_and_iff bit_or_iff bit_not_iff bit_exp_iff)
  then show ?thesis
    using assms(1) by (simp add: clear_bit_bm_def set_bit_bm_def)
qed

lemma bit_u64_of_bytes:
  "bit (u64_of_bytes bs) n \<longleftrightarrow> n < 64 \<and> n div 8 < length bs \<and> bit (bs ! (n div 8)) (n mod 8)"
proof (induction bs arbitrary: n)
  case Nil
  then show ?case by (simp add: u64_of_bytes_def)
next
  case (Cons b bs)
  have "bit (u64_of_bytes (b # bs)) n \<longleftrightarrow>
      bit (ucast b :: u64) n \<or> 8 \<le> n \<and> n < 64 \<and> bit (u64_of_bytes bs) (n - 8)"
    by (auto simp: u64_of_bytes_def bit_or_iff bit_push_bit_iff)
  moreover have "n div 8 = Suc ((n - 8) div 8)" "(n - 8) mod 8 = n mod 8" if "8 \<le> n"
    using that by (simp_all add: le_div_geq le_mod_geq)
  ultimately show ?case
    using bit_imp_le_length [of b n]
    by (cases "n < 8") (auto simp: Cons.IH bit_ucast_iff)
qed

lemma bm_word_full:
  assumes "bm_word bm i = NOT 0" and "i * 64 \<le> j" and "j < (i + 1) * 64" and "8 * (i + 1) \<le> length bm"
  shows "test_bit_bm bm j"
proof -
  have "bit (bm_word bm i) (j - i * 64)"
    using assms(2,3) by (simp add: assms(1) bit_not_iff)
  moreover have "(j - i * 64) div 8 = j div 8 - 8 * i" and "(j - i * 64) mod 8 = j mod 8"
    using assms(2) div_mult_self1 [of 8 "j - i * 64" "8 * i"] mod_mult_self1 [of "j - i * 64" "8 * i" 8]
    by simp_all
  moreover have "8 * i \<le> j div 8" using assms(2) by linarith
  ultimately show ?thesis
    using assms(4) by (auto simp: bm_word_def bit_u64_of_bytes test_bit_bm_iff)
qed

lemma ffz_words_skips:
  "i \<le> ffz_words bm i count \<and> (\<forall>k. i \<le> k \<longrightarrow> k < ffz_words bm i count \<longrightarrow> bm_word bm k = NOT 0 \<and> k < count)"
proof (induction bm i count rule: ffz_words.induct)
  case (1 bm i count)
  show ?case
  proof (cases "i < count \<and> bm_word bm i = NOT 0")
    case True
    then have "ffz_words bm i count = ffz_words bm (Suc i) count"
      by (subst ffz_words.simps) simp
    moreover have IH: "Suc i \<le> ffz_words bm (Suc i) count"
      "\<And>k. Suc i \<le> k \<Longrightarrow> k < ffz_words bm (Suc i) count \<Longrightarrow> bm_word bm k = NOT 0 \<and> k < count"
      using "1.IH" [OF True] by blast+
    moreover have "bm_word bm k = NOT 0 \<and> k < count"
      if "i \<le> k" and "k < ffz_words bm (Suc i) count" for k
      using that True IH(2) [of k] by (cases "k = i") (blast, linarith)
    ultimately show ?thesis by (metis Suc_leD)
  next
    case False
    then have "ffz_words bm i count = i" by (subst ffz_words.simps) auto
    then show ?thesis by simp
  qed
qed

lemma ffz_bits_find:
  "ffz_bits bm j n = (case find (\<lambda>b. \<not> test_bit_bm bm b) [j..<n] of None \<Rightarrow> -1 | Some b \<Rightarrow> int b)"
proof (induction bm j n rule: ffz_bits.induct)
  case (1 bm j n)
  then show ?case by (subst ffz_bits.simps) (auto simp: upt_rec [of j n])
qed

text \<open>The optimised search agrees with the bit-by-bit search of the whole bitmap.\<close>

lemma find_first_zero_bit_find:
  assumes "n + 63 < 2 ^ 32" and "8 * ((n + 63) div 64) \<le> length bm"
  shows "find_first_zero_bit bm n =
    (case find (\<lambda>b. \<not> test_bit_bm bm b) [0..<n] of None \<Rightarrow> -1 | Some b \<Rightarrow> int b)"
proof -
  let ?c = "(n + 63) div 64" and ?P = "\<lambda>b. \<not> test_bit_bm bm b"
  let ?i = "ffz_words bm 0 ?c"
  have full: "\<not> ?P j" if "j < ?i * 64" for j
  proof -
    have "j div 64 < ?i" using that by (simp add: less_mult_imp_div_less)
    then have "bm_word bm (j div 64) = NOT 0" and lt: "j div 64 < ?c"
      using ffz_words_skips [of 0 bm ?c] by blast+
    moreover have "8 * (j div 64 + 1) \<le> 8 * ?c"
      using lt by (intro mult_le_mono2) simp
    then have "8 * (j div 64 + 1) \<le> length bm" using assms(2) by (rule order_trans)
    ultimately show ?thesis
      using bm_word_full [of bm "j div 64" j] by (simp add: div_mult_self_is_m)
  qed
  have "find ?P [0..<n] = find ?P [?i * 64..<n]"
  proof (cases "?i * 64 \<le> n")
    case True
    then show ?thesis by (rule find_upt_shift) (rule full)
  next
    case False
    then have "find ?P [0..<n] = None" using full by (auto simp: find_None_iff)
    with False show ?thesis by simp
  qed
  then show ?thesis
    using assms(1) by (simp add: find_first_zero_bit_def ffz_bits_find Let_def)
qed

lemma find_first_zero_bit_Some:
  assumes "n + 63 < 2 ^ 32" and "8 * ((n + 63) div 64) \<le> length bm"
    and "b < n" and "\<not> test_bit_bm bm b"
  obtains j where "find_first_zero_bit bm n = int j" and "j < n" and "\<not> test_bit_bm bm j"
    and "\<And>i. i < j \<Longrightarrow> test_bit_bm bm i"
proof -
  obtain j where j: "find (\<lambda>b. \<not> test_bit_bm bm b) [0..<n] = Some j"
    using assms(3,4) by (cases "find (\<lambda>b. \<not> test_bit_bm bm b) [0..<n]") (auto simp: find_None_iff)
  then obtain i where "i < n" "j = [0..<n] ! i" "\<not> test_bit_bm bm j"
      "\<And>k. k < i \<Longrightarrow> test_bit_bm bm ([0..<n] ! k)"
    by (auto simp: find_Some_iff)
  then show thesis
    using j assms(1,2) by (intro that [of j]) (auto simp: find_first_zero_bit_find)
qed

subsection \<open>Properties\<close>

text \<open>
  Rounding: for a size between 1 and \<open>2 ^ 63\<close>, \<^verbatim>\<open>nvme_align_pow2\<close> is the least power of two that is
  not smaller, and \<^verbatim>\<open>nvme_log2\<close> gives its exponent.
\<close>

theorem align_pow2_least:
  assumes "0 < unat v" and "unat v \<le> 2 ^ 63"
  shows "nvme_is_pow2 (nvme_align_pow2 v) \<and> v \<le> nvme_align_pow2 v
    \<and> (\<forall>w. nvme_is_pow2 w \<longrightarrow> v \<le> w \<longrightarrow> nvme_align_pow2 v \<le> w)
    \<and> 2 ^ unat (nvme_log2 (nvme_align_pow2 v)) = nvme_align_pow2 v"
proof -
  obtain k where k: "k < 64" "nvme_align_pow2 v = 2 ^ k" "unat v \<le> 2 ^ k" "2 ^ k < 2 * unat v"
    using assms by (rule align_pow2_power)
  have "nvme_align_pow2 v \<le> w" if w: "nvme_is_pow2 w" "v \<le> w" for w
  proof -
    obtain j where j: "j < 64" "w = 2 ^ j" using w(1) by (rule is_pow2_exists)
    then have "(2::nat) ^ k < 2 ^ Suc j" using k(4) w(2) by (simp add: word_le_nat_alt unat_pow2)
    then have "k \<le> j" by (simp only: power_strict_increasing_iff [of 2] less_Suc_eq_le)
    then show ?thesis using k j by (simp add: word_le_nat_alt unat_pow2 power_increasing)
  qed
  moreover have "v \<le> nvme_align_pow2 v" using k by (simp add: word_le_nat_alt unat_pow2)
  moreover have "2 ^ unat (nvme_log2 (nvme_align_pow2 v)) = nvme_align_pow2 v"
    using k by (simp add: unat_of_nat_small)
  ultimately show ?thesis using k by simp
qed

theorem align_pow2_least_witness: "nvme_is_pow2 (nvme_align_pow2 5000) \<and> 5000 \<le> nvme_align_pow2 5000"
  using align_pow2_least [of 5000] by simp



end
