(* ===== verification/Nvme_Prp.thy ===== *)
theory Nvme_Prp
  imports Nvme_Types Nvme_Util
begin

text \<open>
  The data pointer of a command (\<^verbatim>\<open>lib/nvme/nvme_qpair.c\<close>): \<^verbatim>\<open>_nvme_qpair_build_contig_request\<close>,
  \<^verbatim>\<open>_nvme_qpair_build_hw_sgl_request\<close> and \<^verbatim>\<open>_nvme_qpair_build_prps_sgl_request\<close>.

  A builder gets the request and the tracker and gives back a return code, the command and the
  tracker as it left them. When the code is not 0 the caller completes the tracker with an
  error, as \<^verbatim>\<open>_nvme_qpair_req_bad_phys\<close> does. Address translation is the argument \<open>vtophys\<close>.
\<close>

subsection \<open>Definitions: the data pointer union\<close>

fun dptr_words :: "nvme_dptr \<Rightarrow> u64 \<times> u64" where
  "dptr_words (DptrPrp p1 p2) = (p1, p2)"
| "dptr_words (DptrSgl d) = (sgl_address d,
     ucast (sgl_length d) OR push_bit 56 (ucast (sgl_subtype d)) OR push_bit 60 (ucast (sgl_type d)))"

definition set_prp1 :: "u64 \<Rightarrow> nvme_cmd \<Rightarrow> nvme_cmd" where
  "set_prp1 p c = c\<lparr>dptr := DptrPrp p (snd (dptr_words (dptr c)))\<rparr>"

definition set_prp2 :: "u64 \<Rightarrow> nvme_cmd \<Rightarrow> nvme_cmd" where
  "set_prp2 p c = c\<lparr>dptr := DptrPrp (fst (dptr_words (dptr c))) p\<rparr>"

fun dptr_sgl1 :: "nvme_dptr \<Rightarrow> nvme_sgl_descriptor" where
  "dptr_sgl1 (DptrSgl d) = d"
| "dptr_sgl1 (DptrPrp p1 p2) = \<lparr>sgl_address = p1, sgl_length = ucast p2,
     sgl_subtype = ucast (drop_bit 56 p2), sgl_type = ucast (drop_bit 60 p2)\<rparr>"

definition set_sgl1 :: "(nvme_sgl_descriptor \<Rightarrow> nvme_sgl_descriptor) \<Rightarrow> nvme_cmd \<Rightarrow> nvme_cmd" where
  "set_sgl1 f c = c\<lparr>dptr := DptrSgl (f (dptr_sgl1 (dptr c)))\<rparr>"

subsection \<open>Definitions: number of pages\<close>

text \<open>The number of pages a piece of \<open>len\<close> bytes at physical address \<open>pa\<close> touches, in 32-bit arithmetic.\<close>

definition seg_count :: "u64 \<Rightarrow> u32 \<Rightarrow> u32" where
  "seg_count pa len =
     (let nseg = drop_bit PAGE_SHIFT len;
          modulo = len AND 0xFFF;
          unaligned = ucast (pa AND 0xFFF)
      in if modulo \<noteq> 0 \<or> unaligned \<noteq> 0
         then nseg + (1 + drop_bit PAGE_SHIFT (modulo + unaligned - 1)) else nseg)"

subsection \<open>Definitions: contiguous payload\<close>

function contig_loop ::
  "(nat \<Rightarrow> u64) \<Rightarrow> nat \<Rightarrow> nat \<Rightarrow> nat \<Rightarrow> nat \<Rightarrow> u64 list \<Rightarrow> (bool \<times> u64 list) res" where
  "contig_loop vtophys payload unaligned cur_nseg nseg prp =
     (if cur_nseg < nseg then
        let phys_addr = vtophys (payload + cur_nseg * PAGE_SIZE - unaligned)
        in if phys_addr = NVME_VTOPHYS_ERROR then Inr (False, prp)
           else if length prp \<le> cur_nseg - 1 then Inl BadAccess
           else contig_loop vtophys payload unaligned (cur_nseg + 1) nseg (prp[cur_nseg - 1 := phys_addr])
      else Inr (True, prp))"
  by pat_completeness auto
termination
  by (relation "measure (\<lambda>(v, p, u, cur_nseg, nseg, prp). nseg - cur_nseg)") auto

declare contig_loop.simps [simp del]

definition build_contig_request ::
  "(nat \<Rightarrow> u64) \<Rightarrow> nvme_request \<Rightarrow> nvme_tracker \<Rightarrow> (int \<times> nvme_cmd \<times> nvme_tracker) res" where
  "build_contig_request vtophys req t =
     (let payload = pl_contig (req_payload req) + unat (req_payload_offset req);
          phys_addr = vtophys payload;
          cmd = req_cmd req
      in if phys_addr = NVME_VTOPHYS_ERROR then Inr (-1, cmd, t)
         else
           let unaligned = unat (phys_addr AND 0xFFF);
               nseg = seg_count phys_addr (req_payload_size req);
               md = (case pl_md (req_payload req) of
                       None \<Rightarrow> None
                     | Some m \<Rightarrow> Some (vtophys (m + unat (req_md_offset req))));
               cmd = (case md of None \<Rightarrow> cmd | Some pa \<Rightarrow> cmd\<lparr>mptr := pa\<rparr>)
           in if md = Some NVME_VTOPHYS_ERROR then Inr (-1, cmd, t)
              else
                let cmd = set_prp1 phys_addr (cmd\<lparr>psdt := NVME_PSDT_PRP\<rparr>)
                in if nseg = 2 then
                     Inr (0, set_prp2 (vtophys (payload + PAGE_SIZE - unaligned)) cmd, t)
                   else if nseg > 2 then
                     rbind (contig_loop vtophys payload unaligned 1 (unat nseg) (tr_prp t))
                       (\<lambda>(ok, prp). Inr (if ok then 0 else -1, set_prp2 (tr_bus_addr t) cmd, t\<lparr>tr_prp := prp\<rparr>))
                   else Inr (0, cmd, t))"

subsection \<open>Definitions: scatter-gather list descriptors\<close>

function hw_sgl_loop ::
  "(nat \<Rightarrow> int \<times> u64 \<times> u32) \<Rightarrow> nat \<Rightarrow> u32 \<Rightarrow> nvme_sgl_descriptor list
    \<Rightarrow> int \<times> nat \<times> nvme_sgl_descriptor list" where
  "hw_sgl_loop next_sge nseg remaining sgl =
     (if remaining = 0 then (0, nseg, sgl)
      else if nseg \<ge> NVME_MAX_SGL_DESCRIPTORS then (-1, nseg, sgl)
      else case next_sge nseg of (ret, phys_addr, len) \<Rightarrow>
        if ret \<noteq> 0 then (ret, nseg, sgl)
        else
          let len = (if remaining < len then remaining else len)
          in hw_sgl_loop next_sge (nseg + 1) (remaining - len)
               (sgl[nseg := \<lparr>sgl_address = phys_addr, sgl_length = len, sgl_subtype = 0,
                            sgl_type = NVME_SGL_TYPE_DATA_BLOCK\<rparr>]))"
  by pat_completeness auto
termination
  by (relation "measure (\<lambda>(s, nseg, r, l). NVME_MAX_SGL_DESCRIPTORS - nseg)") auto

declare hw_sgl_loop.simps [simp del]

definition build_hw_sgl_request ::
  "nvme_request \<Rightarrow> nvme_tracker \<Rightarrow> (int \<times> nvme_cmd \<times> nvme_tracker) res" where
  "build_hw_sgl_request req t =
     nvme_assert (req_payload_size req \<noteq> 0)
     (nvme_assert (pl_type (req_payload req) = NVME_PAYLOAD_TYPE_SGL)
     (case pl_sgl (req_payload req) of
        None \<Rightarrow> Inl Panic
      | Some sgl_fn \<Rightarrow>
          let cmd = set_sgl1 (\<lambda>d. d\<lparr>sgl_subtype := 0\<rparr>) ((req_cmd req)\<lparr>psdt := NVME_PSDT_SGL_MPTR_SGL\<rparr>)
          in case hw_sgl_loop (sgl_fn (req_payload_offset req)) 0 (req_payload_size req) (tr_sgl t) of
               (ret, nseg, sgl) \<Rightarrow>
                 let t = t\<lparr>tr_sgl := sgl\<rparr>
                 in if ret \<noteq> 0 then Inr (ret, cmd, t)
                    else if nseg = 1 then
                      Inr (0, set_sgl1 (\<lambda>d. d\<lparr>sgl_type := NVME_SGL_TYPE_DATA_BLOCK, sgl_address := sgl_address (sgl ! 0),
                                              sgl_length := sgl_length (sgl ! 0)\<rparr>) cmd, t)
                    else
                      Inr (0, set_sgl1 (\<lambda>d. d\<lparr>sgl_type := NVME_SGL_TYPE_LAST_SEGMENT, sgl_address := tr_bus_addr t,
                                              sgl_length := of_nat (nseg * 16)\<rparr>) cmd, t)))"

subsection \<open>Definitions: PRP list of a scattered payload\<close>

record prps_state =
  ps_cmd :: nvme_cmd
  ps_prp :: "u64 list"
  ps_prp2 :: u64
  ps_total_nseg :: u32
  ps_last_nseg :: u32
  ps_sge_count :: u32

text \<open>The inner loop that writes the entries of one element to the PRP list of the tracker.\<close>

function prps_fill :: "u64 \<Rightarrow> u64 \<Rightarrow> nat \<Rightarrow> nat \<Rightarrow> prps_state \<Rightarrow> prps_state res" where
  "prps_fill phys_addr unaligned cur_nseg nseg st =
     (if cur_nseg < nseg then
        let e = phys_addr + of_nat (cur_nseg * PAGE_SIZE) - unaligned;
            i = unat (ps_last_nseg st) + (if ps_prp2 st \<noteq> 0 then 1 else 0);
            prp = (if ps_prp2 st \<noteq> 0 then (ps_prp st)[0 := ps_prp2 st] else ps_prp st)
        in if length prp \<le> i then Inl BadAccess
           else prps_fill phys_addr unaligned (cur_nseg + 1) nseg
                  (st\<lparr>ps_prp := prp[i := e], ps_last_nseg := ps_last_nseg st + 1\<rparr>)
      else Inr st)"
  by pat_completeness auto
termination
  by (relation "measure (\<lambda>(p, u, cur_nseg, nseg, st). nseg - cur_nseg)") auto

declare prps_fill.simps [simp del]

text \<open>What one scatter-gather element of \<open>len\<close> bytes that is accepted adds.\<close>

definition prps_element :: "u64 \<Rightarrow> u64 \<Rightarrow> u32 \<Rightarrow> prps_state \<Rightarrow> prps_state res" where
  "prps_element bus phys_addr data_transferred st =
     (let nseg = seg_count phys_addr data_transferred;
          unaligned = phys_addr AND 0xFFF;
          st = (if ps_total_nseg st = 0
                then st\<lparr>ps_cmd := set_prp1 phys_addr ((ps_cmd st)\<lparr>psdt := NVME_PSDT_PRP\<rparr>)\<rparr> else st);
          st = st\<lparr>ps_total_nseg := ps_total_nseg st + nseg, ps_sge_count := ps_sge_count st + 1\<rparr>
      in if ps_total_nseg st = 2 then
           let cmd = (if ps_sge_count st = 1 then set_prp2 (phys_addr + 4096 - unaligned) (ps_cmd st)
                      else if ps_sge_count st = 2 then set_prp2 phys_addr (ps_cmd st) else ps_cmd st)
           in Inr (st\<lparr>ps_cmd := cmd, ps_prp2 := snd (dptr_words (dptr cmd))\<rparr>)
         else if ps_total_nseg st > 2 then
           prps_fill phys_addr unaligned (if ps_sge_count st = 1 then 1 else 0) (unat nseg)
             (st\<lparr>ps_cmd := set_prp2 bus (ps_cmd st)\<rparr>)
         else Inr st)"

text \<open>
  The outer loop. Elements of length 0 make no progress, so the loop has fuel; the \<open>bool\<close> tells
  whether all elements were accepted.
\<close>

fun prps_loop ::
  "nat \<Rightarrow> u64 \<Rightarrow> (nat \<Rightarrow> int \<times> u64 \<times> u32) \<Rightarrow> nat \<Rightarrow> u32 \<Rightarrow> prps_state \<Rightarrow> (bool \<times> prps_state) res" where
  "prps_loop fuel bus next_sge k remaining st =
     (if remaining = 0 then Inr (True, st)
      else case fuel of 0 \<Rightarrow> Inl OutOfFuel | Suc fuel \<Rightarrow>
        (case next_sge k of (ret, phys_addr, len) \<Rightarrow>
           if ret \<noteq> 0 then Inr (False, st)
           else if phys_addr AND 3 \<noteq> 0 then Inr (False, st)
           else if len \<noteq> remaining \<and> (phys_addr + ucast len) AND 0xFFF \<noteq> 0 then Inr (False, st)
           else if ps_sge_count st \<noteq> 0 \<and> phys_addr AND 0xFFF \<noteq> 0 then Inr (False, st)
           else
             let data_transferred = (if remaining < len then remaining else len)
             in rbind (prps_element bus phys_addr data_transferred st)
                  (\<lambda>st. prps_loop fuel bus next_sge (Suc k) (remaining - data_transferred) st)))"

declare prps_loop.simps [simp del]

definition build_prps_sgl_request ::
  "nat \<Rightarrow> nvme_request \<Rightarrow> nvme_tracker \<Rightarrow> (int \<times> nvme_cmd \<times> nvme_tracker) res" where
  "build_prps_sgl_request fuel req t =
     nvme_assert (pl_type (req_payload req) = NVME_PAYLOAD_TYPE_SGL)
     (case pl_sgl (req_payload req) of
        None \<Rightarrow> Inl Panic
      | Some sgl_fn \<Rightarrow>
          rbind (prps_loop fuel (tr_bus_addr t) (sgl_fn (req_payload_offset req)) 0 (req_payload_size req)
                   \<lparr>ps_cmd = req_cmd req, ps_prp = tr_prp t, ps_prp2 = 0, ps_total_nseg = 0,
                    ps_last_nseg = 0, ps_sge_count = 0\<rparr>)
            (\<lambda>(ok, st). Inr (if ok then 0 else -1, ps_cmd st, t\<lparr>tr_prp := ps_prp st\<rparr>)))"

subsection \<open>Page arithmetic\<close>

lemma mask12: "(0xFFF :: 'a::len word) = mask 12"
  by (simp add: mask_eq_exp_minus_1)

lemma unat_and_fff: "unat (w AND 0xFFF :: 'a::len word) = unat w mod 4096"
  using unat_and_mask [of w 12] by (simp only: mask12) simp

lemma word_and_fff_0: "(w AND 0xFFF :: 'a::len word) = 0 \<longleftrightarrow> 4096 dvd unat w"
  by (metis unat_and_fff unat_eq_0 mod_eq_0_iff_dvd)

lemma unat_low12: "unat (ucast (pa AND 0xFFF :: u64) :: u32) = unat pa mod 4096"
proof -
  have "unat (ucast (pa AND 0xFFF :: u64) :: u32) = unat (pa AND 0xFFF) mod 2 ^ 32"
    by (simp add: unsigned_ucast_eq take_bit_eq_mod)
  also have "\<dots> = unat pa mod 4096" by (simp add: unat_and_fff)
  finally show ?thesis .
qed

text \<open>The 32-bit computation of the number of pages does not overflow and counts the pages touched.\<close>

definition pages_of :: "u64 \<Rightarrow> u32 \<Rightarrow> nat" where
  "pages_of pa len = (unat pa mod 4096 + unat len + 4095) div 4096"

lemma pages_split:
  fixes q m u :: nat
  shows "(u + (q * 4096 + m) + 4095) div 4096 = (if m \<noteq> 0 \<or> u \<noteq> 0 then q + 1 + (m + u - 1) div 4096 else q)"
proof (cases "m \<noteq> 0 \<or> u \<noteq> 0")
  case True
  then have "u + (q * 4096 + m) + 4095 = (m + u - 1) + (q + 1) * 4096" by simp
  then have "(u + (q * 4096 + m) + 4095) div 4096 = ((m + u - 1) + (q + 1) * 4096) div 4096" by presburger
  also have "\<dots> = (q + 1) + (m + u - 1) div 4096" by (rule div_mult_self1) simp
  finally show ?thesis using True by simp
qed simp

lemma seg_count_pages: "unat (seg_count pa len) = pages_of pa len"
proof -
  define q m u where "q = unat len div 4096" and "m = unat len mod 4096" and "u = unat pa mod 4096"
  have len: "unat len = q * 4096 + m" by (simp add: q_def m_def)
  have lt: "unat len < 2 ^ 32" using unsigned_less [of len, where 'a = nat] by simp
  have q: "unat (drop_bit PAGE_SHIFT len) = q" by (simp add: unat_drop_bit_div PAGE_SHIFT_def q_def)
  have mu: "unat (len AND 0xFFF) = m" "unat (ucast (pa AND 0xFFF) :: u32) = u"
    by (simp_all add: m_def u_def unat_and_fff unat_low12)
  have nz: "len AND 0xFFF \<noteq> 0 \<or> (ucast (pa AND 0xFFF) :: u32) \<noteq> 0 \<longleftrightarrow> m \<noteq> 0 \<or> u \<noteq> 0"
    using mu by (metis unat_eq_0)
  have bd: "q < 2 ^ 20" "m < 4096" "u < 4096" using lt by (simp_all add: q_def m_def u_def less_mult_imp_div_less)
  show ?thesis
  proof (cases "m \<noteq> 0 \<or> u \<noteq> 0")
    case True
    have "unat ((len AND 0xFFF) + ucast (pa AND 0xFFF) - 1 :: u32) = m + u - 1"
    proof -
      have "unat ((len AND 0xFFF) + ucast (pa AND 0xFFF) :: u32) = m + u"
        using mu bd by (simp add: unat_word_ariths)
      moreover from this True have "(len AND 0xFFF) + ucast (pa AND 0xFFF) \<noteq> (0 :: u32)" by (metis add_eq_0_iff_both_eq_0 unat_0)
      ultimately show ?thesis by (simp add: unat_minus_one)
    qed
    then have d: "unat (drop_bit PAGE_SHIFT ((len AND 0xFFF) + ucast (pa AND 0xFFF) - 1 :: u32)) = (m + u - 1) div 4096"
      by (simp add: unat_drop_bit_div PAGE_SHIFT_def)
    have "(m + u - 1) div 4096 \<le> 1" using bd by simp
    then have "unat (drop_bit PAGE_SHIFT len + (1 + drop_bit PAGE_SHIFT ((len AND 0xFFF) + ucast (pa AND 0xFFF) - 1)))
        = q + (1 + (m + u - 1) div 4096)"
      using q d bd(1) by (simp add: unat_word_ariths)
    then show ?thesis
      using True nz pages_split [of u q m] by (simp add: seg_count_def Let_def pages_of_def len u_def)
  next
    case False
    then show ?thesis using nz q by (simp add: seg_count_def Let_def pages_of_def len u_def)
  qed
qed

subsection \<open>Contiguous payloads\<close>

lemma contig_loop_entries:
  assumes "contig_loop vt p u cur n prp = Inr (True, prp')" and "1 \<le> cur"
  shows "length prp' = length prp
    \<and> (\<forall>i. i < length prp \<longrightarrow> prp' ! i = (if cur - 1 \<le> i \<and> i < n - 1 then vt (p + (i + 1) * PAGE_SIZE - u) else prp ! i))
    \<and> (\<forall>i. cur \<le> i \<longrightarrow> i < n \<longrightarrow> vt (p + i * PAGE_SIZE - u) \<noteq> NVME_VTOPHYS_ERROR) \<and> (cur < n \<longrightarrow> n - 1 \<le> length prp)"
  using assms
proof (induction vt p u cur n prp rule: contig_loop.induct)
  case (1 vt p u cur n prp)
  show ?case
  proof (cases "cur < n")
    case False
    then show ?thesis using "1.prems" by (subst (asm) contig_loop.simps) auto
  next
    case True
    let ?pa = "vt (p + cur * PAGE_SIZE - u)"
    have step: "?pa \<noteq> NVME_VTOPHYS_ERROR" "cur - 1 < length prp"
      "contig_loop vt p u (cur + 1) n (prp[cur - 1 := ?pa]) = Inr (True, prp')"
      using "1.prems"(1) True by (subst (asm) contig_loop.simps, auto simp: Let_def split: if_splits)+
    have IH: "length prp' = length prp
      \<and> (\<forall>i. i < length prp \<longrightarrow> prp' ! i = (if cur \<le> i \<and> i < n - 1 then vt (p + (i + 1) * PAGE_SIZE - u) else prp[cur - 1 := ?pa] ! i))
      \<and> (\<forall>i. cur + 1 \<le> i \<longrightarrow> i < n \<longrightarrow> vt (p + i * PAGE_SIZE - u) \<noteq> NVME_VTOPHYS_ERROR) \<and> (cur + 1 < n \<longrightarrow> n - 1 \<le> length prp)"
      using "1.IH" [OF True refl] step by simp
    have idx: "cur - 1 \<le> i \<and> i < n - 1 \<longleftrightarrow> i = cur - 1 \<or> cur \<le> i \<and> i < n - 1" for i
      using True "1.prems"(2) by auto
    show ?thesis
    proof (intro conjI allI impI)
      show "length prp' = length prp" using IH by blast
      show "prp' ! i = (if cur - 1 \<le> i \<and> i < n - 1 then vt (p + (i + 1) * PAGE_SIZE - u) else prp ! i)" if "i < length prp" for i
        using IH that "1.prems"(2) step(2) unfolding idx by (cases "i = cur - 1") auto
      show "vt (p + i * PAGE_SIZE - u) \<noteq> NVME_VTOPHYS_ERROR" if "cur \<le> i" "i < n" for i
        using IH that step(1) by (cases "i = cur") auto
      show "n - 1 \<le> length prp" using IH step(2) True by (cases "cur + 1 < n") auto
    qed
  qed
qed

lemma contig_loop_total:
  "1 \<le> cur \<Longrightarrow> n - 1 \<le> length prp \<Longrightarrow> \<exists>ok prp'. contig_loop vt p u cur n prp = Inr (ok, prp')
     \<and> (ok \<longleftrightarrow> (\<forall>i. cur \<le> i \<longrightarrow> i < n \<longrightarrow> vt (p + i * PAGE_SIZE - u) \<noteq> NVME_VTOPHYS_ERROR))"
proof (induction vt p u cur n prp rule: contig_loop.induct)
  case (1 vt p u cur n prp)
  show ?case
  proof (cases "cur < n \<and> vt (p + cur * PAGE_SIZE - u) \<noteq> NVME_VTOPHYS_ERROR")
    case True
    then have "\<not> length prp \<le> cur - 1" using "1.prems" by linarith
    have le_split: "cur \<le> i \<longleftrightarrow> i = cur \<or> cur + 1 \<le> i" for i by auto
    from True \<open>\<not> length prp \<le> cur - 1\<close> "1.IH" [OF _ refl] "1.prems" obtain ok prp' where
      "contig_loop vt p u (cur + 1) n (prp[cur - 1 := vt (p + cur * PAGE_SIZE - u)]) = Inr (ok, prp')"
      "ok \<longleftrightarrow> (\<forall>i. cur + 1 \<le> i \<longrightarrow> i < n \<longrightarrow> vt (p + i * PAGE_SIZE - u) \<noteq> NVME_VTOPHYS_ERROR)" by auto
    moreover from True have "(\<forall>i. cur \<le> i \<longrightarrow> i < n \<longrightarrow> vt (p + i * PAGE_SIZE - u) \<noteq> NVME_VTOPHYS_ERROR)
       \<longleftrightarrow> (\<forall>i. cur + 1 \<le> i \<longrightarrow> i < n \<longrightarrow> vt (p + i * PAGE_SIZE - u) \<noteq> NVME_VTOPHYS_ERROR)"
      unfolding le_split by blast
    ultimately show ?thesis using True \<open>\<not> length prp \<le> cur - 1\<close> by (subst contig_loop.simps) (simp add: Let_def)
  next
    case False
    then show ?thesis by (subst contig_loop.simps) (auto simp: Let_def)
  qed
qed

text \<open>
  The PRP entries the controller reads for a transfer of \<open>n\<close> pages: the first in the command, the
  second in the command or, when there are more, in the list the second field points to.
\<close>

definition prp_view :: "nvme_cmd \<Rightarrow> nvme_tracker \<Rightarrow> nat \<Rightarrow> u64 list" where
  "prp_view cmd t n =
     (let (p1, p2) = dptr_words (dptr cmd)
      in if n \<le> 1 then [p1] else if n = 2 then [p1, p2]
         else if p2 = tr_bus_addr t then p1 # take (n - 1) (tr_prp t) else [])"

lemma cmd_prp_simps [simp]:
  "dptr_words (dptr (set_prp1 p c)) = (p, snd (dptr_words (dptr c)))"
  "dptr_words (dptr (set_prp2 p c)) = (fst (dptr_words (dptr c)), p)"
  "psdt (set_prp1 p c) = psdt c" "psdt (set_prp2 p c) = psdt c"
  "cmd_cid (set_prp1 p c) = cmd_cid c" "cmd_cid (set_prp2 p c) = cmd_cid c"
  "opc (set_prp1 p c) = opc c" "opc (set_prp2 p c) = opc c"
  "mptr (set_prp1 p c) = mptr c" "mptr (set_prp2 p c) = mptr c"
  by (simp_all add: set_prp1_def set_prp2_def)

definition contig_page :: "(nat \<Rightarrow> u64) \<Rightarrow> nat \<Rightarrow> nat \<Rightarrow> nat \<Rightarrow> u64" where
  "contig_page vt payload u i = (if i = 0 then vt payload else vt (payload + i * PAGE_SIZE - u))"

lemma prp_view_list:
  assumes "2 < n" and "n - 1 \<le> length (tr_prp t)" and "dptr_words (dptr cmd) = (f 0, tr_bus_addr t)"
    and "\<And>i. i < n - 1 \<Longrightarrow> tr_prp t ! i = f (i + 1)"
  shows "prp_view cmd t n = map f [0..<n]"
proof (rule nth_equalityI)
  show len: "length (prp_view cmd t n) = length (map f [0..<n])" using assms(1-3) by (simp add: prp_view_def)
  fix i assume "i < length (prp_view cmd t n)"
  then show "prp_view cmd t n ! i = map f [0..<n] ! i"
    using assms len by (cases i) (simp_all add: prp_view_def)
qed

lemma word_nseg_cases:
  fixes nseg :: u32
  shows "nseg = 2 \<longleftrightarrow> unat nseg = 2" "nseg > 2 \<longleftrightarrow> unat nseg > 2"
  by (simp_all add: word_unat_eq_iff word_less_nat_alt)

lemma build_contig_ok:
  assumes b: "build_contig_request vt req t = Inr (0, cmd', t')"
  defines "payload \<equiv> pl_contig (req_payload req) + unat (req_payload_offset req)"
  defines "n \<equiv> pages_of (vt payload) (req_payload_size req)"
  shows "vt payload \<noteq> NVME_VTOPHYS_ERROR" "psdt cmd' = NVME_PSDT_PRP" "cmd_cid cmd' = cmd_cid (req_cmd req)"
    "opc cmd' = opc (req_cmd req)" "tr_bus_addr t' = tr_bus_addr t"
    "length (tr_prp t') = length (tr_prp t)" "tr_sgl t' = tr_sgl t" "tr_cid t' = tr_cid t"
    "tr_req t' = tr_req t" "tr_active t' = tr_active t"
    "0 < n \<Longrightarrow> prp_view cmd' t' n = map (contig_page vt payload (unat (vt payload) mod 4096)) [0..<n]"
    "case pl_md (req_payload req) of None \<Rightarrow> mptr cmd' = mptr (req_cmd req)
       | Some m \<Rightarrow> mptr cmd' = vt (m + unat (req_md_offset req)) \<and> mptr cmd' \<noteq> NVME_VTOPHYS_ERROR"
proof -
  let ?u = "unat (vt payload) mod 4096" and ?f = "contig_page vt payload (unat (vt payload) mod 4096)"
  show p: "vt payload \<noteq> NVME_VTOPHYS_ERROR"
    using b by (auto simp: build_contig_request_def payload_def Let_def split: if_splits)
  define cmd1 where "cmd1 = (case pl_md (req_payload req) of None \<Rightarrow> req_cmd req
       | Some m \<Rightarrow> (req_cmd req)\<lparr>mptr := vt (m + unat (req_md_offset req))\<rparr>)"
  define cmd2 where "cmd2 = set_prp1 (vt payload) (cmd1\<lparr>psdt := NVME_PSDT_PRP\<rparr>)"
  have md: "case pl_md (req_payload req) of None \<Rightarrow> True | Some m \<Rightarrow> vt (m + unat (req_md_offset req)) \<noteq> NVME_VTOPHYS_ERROR"
    and rest: "(if n = 2 then Inr (0::int, set_prp2 (vt (payload + PAGE_SIZE - ?u)) cmd2, t)
       else if n > 2 then rbind (contig_loop vt payload ?u 1 n (tr_prp t))
              (\<lambda>(ok, prp). Inr (if ok then 0 else -1, set_prp2 (tr_bus_addr t) cmd2, t\<lparr>tr_prp := prp\<rparr>))
       else Inr (0, cmd2, t)) = Inr (0, cmd', t')"
    using b p unfolding build_contig_request_def Let_def cmd2_def cmd1_def n_def payload_def
    by (auto simp: unat_and_fff seg_count_pages word_nseg_cases split: option.splits if_splits)
  have c2: "psdt cmd2 = NVME_PSDT_PRP" "cmd_cid cmd2 = cmd_cid (req_cmd req)" "opc cmd2 = opc (req_cmd req)"
    "fst (dptr_words (dptr cmd2)) = vt payload" "mptr cmd2 = mptr cmd1"
    by (auto simp: cmd2_def cmd1_def split: option.splits)
  have cases: "n \<noteq> 2 \<and> \<not> n > 2 \<and> cmd' = cmd2 \<and> t' = t
    \<or> n = 2 \<and> cmd' = set_prp2 (vt (payload + PAGE_SIZE - ?u)) cmd2 \<and> t' = t
    \<or> n > 2 \<and> (\<exists>prp. contig_loop vt payload ?u 1 n (tr_prp t) = Inr (True, prp)
        \<and> cmd' = set_prp2 (tr_bus_addr t) cmd2 \<and> t' = t\<lparr>tr_prp := prp\<rparr>)"
    using rest by (auto split: if_splits)
  then show "psdt cmd' = NVME_PSDT_PRP" "cmd_cid cmd' = cmd_cid (req_cmd req)" "opc cmd' = opc (req_cmd req)"
    "tr_bus_addr t' = tr_bus_addr t" "length (tr_prp t') = length (tr_prp t)" "tr_sgl t' = tr_sgl t"
    "tr_cid t' = tr_cid t" "tr_req t' = tr_req t" "tr_active t' = tr_active t"
    using c2 by (auto dest!: contig_loop_entries)
  show "case pl_md (req_payload req) of None \<Rightarrow> mptr cmd' = mptr (req_cmd req)
       | Some m \<Rightarrow> mptr cmd' = vt (m + unat (req_md_offset req)) \<and> mptr cmd' \<noteq> NVME_VTOPHYS_ERROR"
    using cases c2(5) md by (auto simp: cmd1_def split: option.splits)
  show "prp_view cmd' t' n = map ?f [0..<n]" if "0 < n"
    using cases
  proof (elim disjE conjE exE)
    assume "n \<noteq> 2" "\<not> n > 2" "cmd' = cmd2" "t' = t"
    moreover from this that have "n = 1" by simp
    ultimately show ?thesis using c2(4) by (simp add: prp_view_def split_beta contig_page_def)
  next
    assume "n = 2" "cmd' = set_prp2 (vt (payload + PAGE_SIZE - ?u)) cmd2" "t' = t"
    then show ?thesis using c2(4) by (simp add: prp_view_def contig_page_def upt_rec)
  next
    fix prp assume a: "n > 2" "contig_loop vt payload ?u 1 n (tr_prp t) = Inr (True, prp)"
      "cmd' = set_prp2 (tr_bus_addr t) cmd2" "t' = t\<lparr>tr_prp := prp\<rparr>"
    note L = contig_loop_entries [OF a(2)]
    show ?thesis
      by (rule prp_view_list) (use L a c2(4) in \<open>auto simp: contig_page_def\<close>)
  qed
qed

lemma contig_loop_length: "contig_loop vt p u cur n prp = Inr (ok, prp') \<Longrightarrow> length prp' = length prp"
proof (induction vt p u cur n prp rule: contig_loop.induct)
  case (1 vt p u cur n prp)
  from "1.prems" show ?case
    by (subst (asm) contig_loop.simps) (auto simp: Let_def split: if_splits dest!: "1.IH" [OF _ refl])
qed

text \<open>What every builder keeps of the command and of the tracker.\<close>

definition build_frame :: "nvme_request \<Rightarrow> nvme_tracker \<Rightarrow> nvme_cmd \<Rightarrow> nvme_tracker \<Rightarrow> bool" where
  "build_frame req t cmd' t' \<longleftrightarrow> cmd_cid cmd' = cmd_cid (req_cmd req) \<and> opc cmd' = opc (req_cmd req)
     \<and> tr_req t' = tr_req t \<and> tr_cid t' = tr_cid t \<and> tr_active t' = tr_active t
     \<and> tr_bus_addr t' = tr_bus_addr t \<and> length (tr_prp t') = length (tr_prp t)
     \<and> length (tr_sgl t') = length (tr_sgl t)"

lemma build_contig_frame: "build_contig_request vt req t = Inr (ret, cmd', t') \<Longrightarrow> build_frame req t cmd' t'"
  unfolding build_contig_request_def build_frame_def Let_def
  by (auto split: option.splits if_splits dest: contig_loop_length)

lemma build_contig_total:
  assumes "unat (req_payload_size req) \<le> NVME_MAX_XFER_SIZE" and "length (tr_prp t) = NVME_MAX_PRP_LIST_ENTRIES"
  shows "\<exists>ret cmd' t'. build_contig_request vt req t = Inr (ret, cmd', t') \<and> (ret = 0 \<or> ret = -1)"
proof -
  define payload where "payload = pl_contig (req_payload req) + unat (req_payload_offset req)"
  have "pages_of (vt payload) (req_payload_size req) \<le> (4095 + 506 * 4096 + 4095) div 4096"
    unfolding pages_of_def using assms(1)
    by (intro div_le_mono add_mono) (simp_all add: NVME_MAX_XFER_SIZE_def NVME_MAX_PRP_LIST_ENTRIES_def PAGE_SIZE_def less_Suc_eq_le [symmetric])
  then have "unat (seg_count (vt payload) (req_payload_size req)) - 1 \<le> length (tr_prp t)"
    using assms(2) by (simp add: seg_count_pages NVME_MAX_PRP_LIST_ENTRIES_def)
  from contig_loop_total [OF _ this, of 1 vt payload "unat (vt payload AND 0xFFF)"]
  obtain ok prp' where "contig_loop vt payload (unat (vt payload AND 0xFFF)) 1
      (unat (seg_count (vt payload) (req_payload_size req))) (tr_prp t) = Inr (ok, prp')" by auto
  then show ?thesis
    unfolding build_contig_request_def Let_def payload_def by (auto split: option.splits)
qed

subsection \<open>Hardware scatter-gather lists\<close>

text \<open>The elements the loop consumes: lengths are cut so that they add up to the transfer length.\<close>

fun sge_prefix :: "nat \<Rightarrow> (nat \<Rightarrow> int \<times> u64 \<times> u32) \<Rightarrow> nat \<Rightarrow> nat \<Rightarrow> (u64 \<times> nat) list" where
  "sge_prefix 0 next_sge k remaining = []"
| "sge_prefix (Suc n) next_sge k remaining =
     (case next_sge k of (ret, pa, len) \<Rightarrow>
        (pa, min remaining (unat len)) # sge_prefix n next_sge (Suc k) (remaining - min remaining (unat len)))"

lemma unat_min_u32: "unat (if r < l then r else l :: u32) = min (unat r) (unat l)"
  by (simp add: word_less_nat_alt min_def)

lemma hw_sgl_loop_ok:
  assumes "hw_sgl_loop nx k r sgl = (0, n, sgl')" and "length sgl = NVME_MAX_SGL_DESCRIPTORS" and "k \<le> NVME_MAX_SGL_DESCRIPTORS"
  shows "k \<le> n \<and> n \<le> NVME_MAX_SGL_DESCRIPTORS \<and> length sgl' = length sgl \<and> take k sgl' = take k sgl
    \<and> map (\<lambda>d. (sgl_address d, unat (sgl_length d))) (drop k (take n sgl')) = sge_prefix (n - k) nx k (unat r)
    \<and> (\<forall>d\<in>set (drop k (take n sgl')). sgl_type d = NVME_SGL_TYPE_DATA_BLOCK \<and> sgl_subtype d = 0)
    \<and> sum_list (map snd (sge_prefix (n - k) nx k (unat r))) = unat r \<and> (\<forall>j. k \<le> j \<longrightarrow> j < n \<longrightarrow> fst (nx j) = 0)
    \<and> (r \<noteq> 0 \<longrightarrow> k < n)"
  using assms
proof (induction nx k r sgl rule: hw_sgl_loop.induct)
  case (1 nx k r sgl)
  show ?case
  proof (cases "r = 0")
    case True
    then show ?thesis using "1.prems" by (subst (asm) hw_sgl_loop.simps) simp
  next
    case False
    obtain ret pa len where nx: "nx k = (ret, pa, len)" by (cases "nx k")
    let ?l = "if r < len then r else len"
    let ?d = "\<lparr>sgl_address = pa, sgl_length = ?l, sgl_subtype = 0, sgl_type = NVME_SGL_TYPE_DATA_BLOCK\<rparr>"
    have st: "\<not> NVME_MAX_SGL_DESCRIPTORS \<le> k" "ret = 0"
      "hw_sgl_loop nx (k + 1) (r - ?l) (sgl[k := ?d]) = (0, n, sgl')"
      using "1.prems"(1) False nx by (subst (asm) hw_sgl_loop.simps, auto simp: Let_def split: if_splits)+
    have ul: "unat (r - ?l) = unat r - min (unat r) (unat len)" "unat ?l = min (unat r) (unat len)"
      by (auto simp: unat_min_u32 unat_sub word_le_nat_alt word_less_nat_alt)
    have kl: "k < length sgl" using st(1) "1.prems"(2) by simp
    have IH: "k + 1 \<le> n \<and> n \<le> NVME_MAX_SGL_DESCRIPTORS \<and> length sgl' = length sgl \<and> take (k + 1) sgl' = take (k + 1) (sgl[k := ?d])
      \<and> map (\<lambda>d. (sgl_address d, unat (sgl_length d))) (drop (k + 1) (take n sgl')) = sge_prefix (n - (k + 1)) nx (k + 1) (unat (r - ?l))
      \<and> (\<forall>d\<in>set (drop (k + 1) (take n sgl')). sgl_type d = NVME_SGL_TYPE_DATA_BLOCK \<and> sgl_subtype d = 0)
      \<and> sum_list (map snd (sge_prefix (n - (k + 1)) nx (k + 1) (unat (r - ?l)))) = unat (r - ?l)
      \<and> (\<forall>j. k + 1 \<le> j \<longrightarrow> j < n \<longrightarrow> fst (nx j) = 0)"
      using "1.IH" [OF False st(1) nx [symmetric] _ _ refl] st "1.prems"(2) by simp
    have hd: "sgl' ! k = ?d" "k < n" "k < length sgl'"
    proof -
      have "take (k + 1) sgl' ! k = take (k + 1) (sgl[k := ?d]) ! k" using IH by simp
      then show "sgl' ! k = ?d" using kl by simp
    qed (use IH kl in auto)
    have tk: "take k sgl' = take k sgl"
    proof -
      have "take k (take (k + 1) sgl') = take k (take (k + 1) (sgl[k := ?d]))" using IH by simp
      then show ?thesis by simp
    qed
    have dr: "drop k (take n sgl') = ?d # drop (k + 1) (take n sgl')"
      using hd by (subst Cons_nth_drop_Suc [symmetric]) simp_all
    have pre: "sge_prefix (n - k) nx k (unat r) = (pa, unat ?l) # sge_prefix (n - (k + 1)) nx (k + 1) (unat (r - ?l))"
    proof -
      have "n - k = Suc (n - (k + 1))" using hd(2) by simp
      then show ?thesis by (simp add: nx ul)
    qed
    have nxk: "\<forall>j. k \<le> j \<longrightarrow> j < n \<longrightarrow> fst (nx j) = 0"
      using IH nx st(2) by (metis Suc_eq_plus1 fst_conv le_neq_implies_less Suc_leI)
    show ?thesis unfolding dr pre using IH tk hd(2) nxk ul by simp
  qed
qed

lemma hw_sgl_loop_length: "hw_sgl_loop nx k r sgl = (ret, n, sgl') \<Longrightarrow> length sgl' = length sgl"
proof (induction nx k r sgl rule: hw_sgl_loop.induct)
  case (1 nx k r sgl)
  obtain c pa len where nx: "nx k = (c, pa, len)" by (cases "nx k")
  note IH = "1.IH" [OF _ _ nx [symmetric] refl _ refl]
  from "1.prems" show ?case
    by (subst (asm) hw_sgl_loop.simps) (auto simp: nx Let_def split: if_splits dest!: IH)
qed

lemma build_hw_sgl_frame: "build_hw_sgl_request req t = Inr (ret, cmd', t') \<Longrightarrow> build_frame req t cmd' t'"
  unfolding build_hw_sgl_request_def build_frame_def Let_def
  by (auto simp: set_sgl1_def split: option.splits prod.splits if_splits dest: hw_sgl_loop_length)

lemma build_hw_sgl_total:
  assumes "req_payload_size req \<noteq> 0" "pl_type (req_payload req) = NVME_PAYLOAD_TYPE_SGL" "pl_sgl (req_payload req) = Some nx"
  shows "\<exists>ret cmd' t'. build_hw_sgl_request req t = Inr (ret, cmd', t')"
  using assms unfolding build_hw_sgl_request_def Let_def by (auto split: prod.splits)

lemma build_hw_sgl_ok:
  assumes b: "build_hw_sgl_request req t = Inr (0, cmd', t')" and len: "length (tr_sgl t) = NVME_MAX_SGL_DESCRIPTORS"
  obtains nx n where "pl_sgl (req_payload req) = Some nx" "0 < n" "n \<le> NVME_MAX_SGL_DESCRIPTORS"
    "psdt cmd' = NVME_PSDT_SGL_MPTR_SGL"
    "map (\<lambda>d. (sgl_address d, unat (sgl_length d))) (take n (tr_sgl t')) =
       sge_prefix n (nx (req_payload_offset req)) 0 (unat (req_payload_size req))"
    "sum_list (map (\<lambda>d. unat (sgl_length d)) (take n (tr_sgl t'))) = unat (req_payload_size req)"
    "dptr cmd' = DptrSgl (if n = 1
       then \<lparr>sgl_address = sgl_address (tr_sgl t' ! 0), sgl_length = sgl_length (tr_sgl t' ! 0),
             sgl_subtype = 0, sgl_type = NVME_SGL_TYPE_DATA_BLOCK\<rparr>
       else \<lparr>sgl_address = tr_bus_addr t, sgl_length = of_nat (n * 16),
             sgl_subtype = 0, sgl_type = NVME_SGL_TYPE_LAST_SEGMENT\<rparr>)"
proof -
  obtain nx where nx: "pl_sgl (req_payload req) = Some nx" and sz: "req_payload_size req \<noteq> 0"
    using b by (auto simp: build_hw_sgl_request_def split: option.splits)
  obtain ret n sgl where L: "hw_sgl_loop (nx (req_payload_offset req)) 0 (req_payload_size req) (tr_sgl t) = (ret, n, sgl)"
    by (cases "hw_sgl_loop (nx (req_payload_offset req)) 0 (req_payload_size req) (tr_sgl t)")
  have r0: "ret = 0" using b L nx by (auto simp: build_hw_sgl_request_def Let_def split: if_splits)
  note H = hw_sgl_loop_ok [OF L [unfolded r0] len, simplified]
  have t': "t' = t\<lparr>tr_sgl := sgl\<rparr>"
    using b L nx r0 by (auto simp: build_hw_sgl_request_def Let_def split: if_splits)
  have c: "cmd' = (if n = 1
     then set_sgl1 (\<lambda>d. d\<lparr>sgl_type := NVME_SGL_TYPE_DATA_BLOCK, sgl_address := sgl_address (sgl ! 0), sgl_length := sgl_length (sgl ! 0)\<rparr>)
            (set_sgl1 (\<lambda>d. d\<lparr>sgl_subtype := 0\<rparr>) ((req_cmd req)\<lparr>psdt := NVME_PSDT_SGL_MPTR_SGL\<rparr>))
     else set_sgl1 (\<lambda>d. d\<lparr>sgl_type := NVME_SGL_TYPE_LAST_SEGMENT, sgl_address := tr_bus_addr t, sgl_length := of_nat (n * 16)\<rparr>)
            (set_sgl1 (\<lambda>d. d\<lparr>sgl_subtype := 0\<rparr>) ((req_cmd req)\<lparr>psdt := NVME_PSDT_SGL_MPTR_SGL\<rparr>)))"
    using b L nx r0 by (auto simp: build_hw_sgl_request_def Let_def split: if_splits)
  have sum: "sum_list (map (\<lambda>d. unat (sgl_length d)) (take n sgl)) = unat (req_payload_size req)"
  proof -
    have "map (\<lambda>d. unat (sgl_length d)) (take n sgl) = map snd (map (\<lambda>d. (sgl_address d, unat (sgl_length d))) (take n sgl))"
      by simp
    then show ?thesis using H by metis
  qed
  show thesis
    by (rule that [OF nx, of n]) (use H sz sum in \<open>simp_all add: t' c set_sgl1_def\<close>)
qed

subsection \<open>PRP lists of scattered payloads\<close>

text \<open>The page addresses of \<open>len\<close> bytes at physical address \<open>pa\<close>: the first may be in the middle of its page.\<close>

definition sge_pages :: "u64 \<Rightarrow> nat \<Rightarrow> u64 list" where
  "sge_pages pa len = map (\<lambda>j. if j = 0 then pa else pa + of_nat (j * PAGE_SIZE) - (pa AND 0xFFF))
     [0..<(unat pa mod 4096 + len + 4095) div 4096]"

lemma length_sge_pages: "length (sge_pages pa (unat len)) = pages_of pa len"
  by (simp add: sge_pages_def pages_of_def)

lemma sge_pages_bounds:
  assumes "0 < len"
  shows "0 < length (sge_pages pa len)" "length (sge_pages pa len) \<le> len"
proof -
  have u: "unat pa mod 4096 < 4096" by simp
  show "0 < length (sge_pages pa len)" using assms by (simp add: sge_pages_def div_greater_zero_iff)
  have "(unat pa mod 4096 + len + 4095) div 4096 \<le> len"
  proof -
    have "(unat pa mod 4096 + len + 4095) div 4096 \<le> (4095 + len * 4096) div 4096"
      using u assms by (intro div_le_mono) linarith
    then show ?thesis by simp
  qed
  then show "length (sge_pages pa len) \<le> len" by (simp add: sge_pages_def)
qed

text \<open>Overwriting a list with another from a position on.\<close>

definition write_at :: "'a list \<Rightarrow> nat \<Rightarrow> 'a list \<Rightarrow> 'a list" where
  "write_at xs i ys = take i xs @ ys @ drop (i + length ys) xs"

lemma write_at_Nil [simp]: "write_at xs i [] = xs"
  by (simp add: write_at_def)

lemma write_at_update: "i < length xs \<Longrightarrow> write_at (xs[i := y]) (Suc i) ys = write_at xs i (y # ys)"
  by (simp add: write_at_def take_Suc_conv_app_nth)

lemma length_write_at [simp]: "i + length ys \<le> length xs \<Longrightarrow> length (write_at xs i ys) = length xs"
  by (simp add: write_at_def)

lemma nth_write_at:
  assumes "i + length ys \<le> length xs" "j < length xs"
  shows "write_at xs i ys ! j = (if i \<le> j \<and> j < i + length ys then ys ! (j - i) else xs ! j)"
  using assms by (auto simp: write_at_def nth_append)

lemma prps_fill_write:
  assumes "prps_fill pa u cur nseg st = Inr st'" and "unat (ps_last_nseg st) + (nseg - cur) < 2 ^ 32"
  shows "\<exists>es. es = map (\<lambda>j. pa + of_nat (j * PAGE_SIZE) - u) [cur..<nseg]
    \<and> (cur < nseg \<longrightarrow> unat (ps_last_nseg st) + (if ps_prp2 st \<noteq> 0 then 1 else 0) + length es \<le> length (ps_prp st))
    \<and> st' = st\<lparr>ps_prp := write_at (if cur < nseg \<and> ps_prp2 st \<noteq> 0 then (ps_prp st)[0 := ps_prp2 st] else ps_prp st)
                           (unat (ps_last_nseg st) + (if ps_prp2 st \<noteq> 0 then 1 else 0)) es,
               ps_last_nseg := ps_last_nseg st + of_nat (nseg - cur)\<rparr>"
  using assms
proof (induction "nseg - cur" arbitrary: cur st)
  case 0
  then show ?case by (subst (asm) prps_fill.simps) simp
next
  case (Suc n)
  then have cur: "cur < nseg" by simp
  define d where "d = (if ps_prp2 st \<noteq> 0 then 1 else 0 :: nat)"
  define i where "i = unat (ps_last_nseg st) + d"
  define prp where "prp = (if ps_prp2 st \<noteq> 0 then (ps_prp st)[0 := ps_prp2 st] else ps_prp st)"
  define e where "e = (\<lambda>j. pa + of_nat (j * PAGE_SIZE) - u)"
  define st1 where "st1 = st\<lparr>ps_prp := prp[i := e cur], ps_last_nseg := ps_last_nseg st + 1\<rparr>"
  have st: "i < length prp" "prps_fill pa u (cur + 1) nseg st1 = Inr st'"
    using Suc.prems(1) cur unfolding st1_def e_def i_def d_def prp_def
    by (subst (asm) prps_fill.simps, simp add: Let_def split: if_splits)+
  have last: "unat (ps_last_nseg st1) = unat (ps_last_nseg st) + 1"
    using Suc.prems(2) cur by (simp add: st1_def unat_word_ariths)
  have bound: "unat (ps_last_nseg st1) + (nseg - (cur + 1)) < 2 ^ 32"
    using Suc.prems(2) cur unfolding last by linarith
  have lp: "length prp = length (ps_prp st)" by (simp add: prp_def)
  have n1: "n = nseg - (cur + 1)" using Suc.hyps(2) by simp
  have st1: "ps_prp2 st1 = ps_prp2 st" "ps_prp st1 = prp[i := e cur]" by (simp_all add: st1_def)
  obtain es where es: "es = map e [cur + 1..<nseg]"
    "cur + 1 < nseg \<Longrightarrow> i + 1 + length es \<le> length (ps_prp st)"
    "st' = st1\<lparr>ps_prp := write_at (if cur + 1 < nseg \<and> ps_prp2 st \<noteq> 0 then (ps_prp st1)[0 := ps_prp2 st] else ps_prp st1) (i + 1) es,
              ps_last_nseg := ps_last_nseg st1 + of_nat (nseg - (cur + 1))\<rparr>"
    using Suc.hyps(1) [OF n1 st(2) bound] lp unfolding last st1 i_def d_def e_def by (simp add: add.commute)
  have same: "(if cur + 1 < nseg \<and> ps_prp2 st \<noteq> 0 then (prp[i := e cur])[0 := ps_prp2 st] else prp[i := e cur]) = prp[i := e cur]"
    using st(1) by (auto simp: prp_def i_def d_def list_update_swap)
  have up: "[cur..<nseg] = cur # [cur + 1..<nseg]" using cur by (simp add: upt_conv_Cons)
  have "write_at (prp[i := e cur]) (i + 1) es = write_at prp i (map e [cur..<nseg])"
    using write_at_update [OF st(1), of "e cur" es] unfolding up by (simp add: es(1))
  moreover have "i + length (map e [cur..<nseg]) \<le> length (ps_prp st)"
    using es(2) st(1) lp cur by (cases "cur + 1 < nseg") (auto simp: es(1))
  moreover have "ps_last_nseg st1 + of_nat (nseg - (cur + 1)) = ps_last_nseg st + of_nat (nseg - cur)"
    using cur by (simp add: st1_def of_nat_diff)
  ultimately show ?case
    using cur es(3) same unfolding st1 by (intro exI [of _ "map e [cur..<nseg]"])
      (simp add: e_def i_def d_def prp_def st1_def)
qed

text \<open>
  The state of the loop after the pages \<open>P\<close> of \<open>cnt\<close> elements: \<open>P\<close> is what the controller will
  read, and the bookkeeping variables follow its length.
\<close>

definition prps_inv :: "u64 \<Rightarrow> u64 list \<Rightarrow> nat \<Rightarrow> prps_state \<Rightarrow> bool" where
  "prps_inv bus P cnt st \<longleftrightarrow>
     length P < 2 ^ 32 \<and> cnt \<le> length P \<and> (cnt = 0 \<longleftrightarrow> P = [])
     \<and> ps_total_nseg st = of_nat (length P) \<and> ps_sge_count st = of_nat cnt
     \<and> (P \<noteq> [] \<longrightarrow> psdt (ps_cmd st) = NVME_PSDT_PRP \<and> fst (dptr_words (dptr (ps_cmd st))) = P ! 0)
     \<and> (length P = 2 \<longrightarrow> snd (dptr_words (dptr (ps_cmd st))) = P ! 1 \<and> ps_prp2 st = P ! 1)
     \<and> (2 < length P \<longrightarrow> snd (dptr_words (dptr (ps_cmd st))) = bus \<and> length P - 1 \<le> length (ps_prp st)
          \<and> (\<forall>i<length P - 1. ps_prp st ! i = P ! (i + 1)))
     \<and> (if ps_prp2 st = 0 then unat (ps_last_nseg st) = length P - 1
        else 2 \<le> length P \<and> ps_prp2 st = P ! 1 \<and> unat (ps_last_nseg st) = length P - 2)"

lemma of_nat_u32_inj:
  "a < 2 ^ 32 \<Longrightarrow> b < 2 ^ 32 \<Longrightarrow> (of_nat a = (of_nat b :: u32)) \<longleftrightarrow> a = b"
  "a < 2 ^ 32 \<Longrightarrow> b < 2 ^ 32 \<Longrightarrow> (of_nat a < (of_nat b :: u32)) \<longleftrightarrow> a < b"
proof -
  assume "a < 2 ^ 32" "b < 2 ^ 32"
  then have "unat (of_nat a :: u32) = a" "unat (of_nat b :: u32) = b" by (simp_all add: unat_of_nat_small)
  then show "(of_nat a = (of_nat b :: u32)) \<longleftrightarrow> a = b" "(of_nat a < (of_nat b :: u32)) \<longleftrightarrow> a < b"
    by (metis, simp only: word_less_nat_alt)
qed

lemma seg_count_of_nat: "seg_count pa len = of_nat (length (sge_pages pa (unat len)))"
  by (simp add: length_sge_pages flip: seg_count_pages)

lemma sge_pages_nth:
  "j < length (sge_pages pa len) \<Longrightarrow>
    sge_pages pa len ! j = (if j = 0 then pa else pa + of_nat (j * PAGE_SIZE) - (pa AND 0xFFF))"
  by (simp add: sge_pages_def)

text \<open>Where the entries of the next element \<open>Q\<close> go: behind the entries of the pages \<open>P\<close> but the first.\<close>

lemma write_next_pages:
  assumes prp: "\<And>i. i + 1 < length P \<Longrightarrow> prp ! i = P ! (i + 1)"
    and Q: "\<And>j. j < length Q \<Longrightarrow> Q ! j = (if j = 0 \<and> P = [] then pa else e j)"
    and fits: "length P - 1 + length (map e [(if P = [] then 1 else 0)..<length Q]) \<le> length prp"
    and i: "i + 1 < length P + length Q"
  shows "write_at prp (length P - 1) (map e [(if P = [] then 1 else 0)..<length Q]) ! i = (P @ Q) ! (i + 1)"
proof (cases P)
  case Nil
  then have "i < length Q - 1" using i by simp
  with Nil show ?thesis using Q [of "i + 1"] i fits by (simp add: nth_write_at)
next
  case (Cons x xs)
  then have il: "i < length prp" using i fits by simp
  show ?thesis
  proof (cases "i < length xs")
    case True
    then show ?thesis using Cons prp [of i] il fits by (simp add: nth_write_at nth_append)
  next
    case False
    then have "i - length xs < length Q" "i < length xs + length Q" using i Cons by simp_all
    then show ?thesis using False Cons Q [of "i - length xs"] il fits by (simp add: nth_write_at nth_append)
  qed
qed

lemma prps_inv_last:
  assumes "prps_inv bus P cnt st"
  shows "unat (ps_last_nseg st) + (if ps_prp2 st \<noteq> 0 then 1 else 0) = length P - 1"
  using assms by (auto simp: prps_inv_def split: if_splits)

text \<open>The first page of an element with room for more than two entries in all.\<close>

lemma prps_fill_inv:
  assumes inv: "prps_inv bus P cnt st" and s: "ps_prp2 s = ps_prp2 st" "ps_prp s = ps_prp st" "ps_last_nseg s = ps_last_nseg st"
    "ps_total_nseg s = of_nat (length (P @ Q))" "ps_sge_count s = of_nat (cnt + 1)" "psdt (ps_cmd s) = NVME_PSDT_PRP"
    "dptr_words (dptr (ps_cmd s)) = ((P @ Q) ! 0, bus)"
    and fill: "prps_fill pa (pa AND 0xFFF) (if cnt = 0 then 1 else 0) (length Q) s = Inr st'"
    and Q: "\<And>j. j < length Q \<Longrightarrow> Q ! j = (if j = 0 \<and> P = [] then pa else pa + of_nat (j * PAGE_SIZE) - (pa AND 0xFFF))"
    and len: "2 < length (P @ Q)" "length (P @ Q) < 2 ^ 32" "cnt + 1 \<le> length (P @ Q)" "Q \<noteq> []"
    and nz: "0 \<notin> set P"
  shows "prps_inv bus (P @ Q) (cnt + 1) st'"
proof -
  let ?e = "\<lambda>j. pa + of_nat (j * PAGE_SIZE) - (pa AND 0xFFF)" and ?c = "if P = [] then 1 else 0 :: nat"
  let ?prp = "if ps_prp2 st \<noteq> 0 then (ps_prp st)[0 := ps_prp2 st] else ps_prp st"
  have P: "cnt = 0 \<longleftrightarrow> P = []" using inv by (auto simp: prps_inv_def)
  have cl: "?c < length Q" using len(1,4) by (cases P) auto
  note b = prps_inv_last [OF inv]
  have lb: "unat (ps_last_nseg st) + (length Q - ?c) < 2 ^ 32" using len(2) b by (cases P) auto
  have W: "length P - 1 + length (map ?e [?c..<length Q]) \<le> length (ps_prp st)"
    "st' = s\<lparr>ps_prp := write_at ?prp (length P - 1) (map ?e [?c..<length Q]), ps_last_nseg := ps_last_nseg st + of_nat (length Q - ?c)\<rparr>"
    using prps_fill_write [OF fill] lb cl unfolding s P b by simp_all
  have prp: "?prp ! i = P ! (i + 1)" if "i + 1 < length P" for i
  proof -
    have "i < length (ps_prp st)" using W(1) that by simp
    moreover have "P ! 1 \<in> set P" using that by (intro nth_mem) simp
    then have "P ! 1 \<noteq> 0" using nz by metis
    ultimately show ?thesis
      using inv that by (cases "length P = 2"; cases i) (auto simp: prps_inv_def nth_list_update split: if_splits)
  qed
  have ent: "\<forall>i<length (P @ Q) - 1. ps_prp st' ! i = (P @ Q) ! (i + 1)"
  proof (intro allI impI)
    fix i assume "i < length (P @ Q) - 1"
    then have "i + 1 < length P + length Q" by simp
    with write_next_pages [OF prp Q, of i] W(1) show "ps_prp st' ! i = (P @ Q) ! (i + 1)" by (simp add: W(2))
  qed
  have "unat (ps_last_nseg st') = unat (ps_last_nseg st) + (length Q - ?c)"
    using lb by (simp add: W(2) unat_word_ariths unat_of_nat)
  also have "\<dots> = (if ps_prp2 st = 0 then length (P @ Q) - 1 else length (P @ Q) - 2)"
    using inv by (cases P) (auto simp: prps_inv_def split: if_splits)
  finally have last: "unat (ps_last_nseg st') = (if ps_prp2 st = 0 then length (P @ Q) - 1 else length (P @ Q) - 2)" .
  have "length (P @ Q) - 1 \<le> length (ps_prp st')" using W(1) cl by (cases P) (simp_all add: W(2))
  moreover have "ps_prp2 st \<noteq> 0 \<Longrightarrow> ps_prp2 st = (P @ Q) ! 1"
    using inv by (auto simp: prps_inv_def nth_append split: if_splits)
  ultimately show ?thesis
    using len ent last unfolding prps_inv_def by (simp add: W(2) s)
qed

lemma prps_element_inv:
  assumes inv: "prps_inv bus P cnt st" and el: "prps_element bus pa len st = Inr st'"
    and len: "len \<noteq> 0" and al: "cnt \<noteq> 0 \<Longrightarrow> pa AND 0xFFF = 0"
    and bd: "length (P @ sge_pages pa (unat len)) < 2 ^ 32"
    and nz: "0 \<notin> set (P @ sge_pages pa (unat len))"
  shows "prps_inv bus (P @ sge_pages pa (unat len)) (cnt + 1) st'"
proof -
  define Q where "Q = sge_pages pa (unat len)"
  define R where "R = P @ Q"
  let ?s = "if ps_total_nseg st = 0 then st\<lparr>ps_cmd := set_prp1 pa ((ps_cmd st)\<lparr>psdt := NVME_PSDT_PRP\<rparr>)\<rparr> else st"
  define st1 where "st1 = ?s\<lparr>ps_total_nseg := of_nat (length R), ps_sge_count := of_nat (cnt + 1)\<rparr>"
  have lq: "0 < length Q" using sge_pages_bounds(1) [of "unat len" pa] len by (simp add: Q_def unat_gt_0)
  have I: "cnt \<le> length P" "cnt = 0 \<longleftrightarrow> P = []" "ps_total_nseg st = of_nat (length P)" "ps_sge_count st = of_nat cnt"
    using inv by (auto simp: prps_inv_def)
  have Qn: "Q ! j = (if j = 0 \<and> P = [] then pa else pa + of_nat (j * PAGE_SIZE) - (pa AND 0xFFF))" if "j < length Q" for j
    using sge_pages_nth that al I(2) by (auto simp: Q_def)
  have lR: "length R = length P + length Q" by (simp add: R_def)
  have bdR: "length R < 2 ^ 32" "cnt + 1 \<le> length R" "cnt + 1 < 2 ^ 32" "R \<noteq> []"
    using bd I(1) lq lR unfolding R_def Q_def by (linarith, linarith, linarith, auto)
  have t0: "ps_total_nseg st = 0 \<longleftrightarrow> P = []"
    using of_nat_u32_inj(1) [of "length P" 0] bdR(1) lR I(3) by simp
  have fst1: "fst (dptr_words (dptr (ps_cmd st1))) = R ! 0" "psdt (ps_cmd st1) = NVME_PSDT_PRP"
    using inv Qn [OF lq] lq by (auto simp: st1_def t0 prps_inv_def R_def nth_append)
  have s1: "ps_prp2 st1 = ps_prp2 st" "ps_prp st1 = ps_prp st" "ps_last_nseg st1 = ps_last_nseg st"
    "ps_total_nseg st1 = of_nat (length R)" "ps_sge_count st1 = of_nat (cnt + 1)"
    by (simp_all add: st1_def)
  have c2: "(of_nat (length R) :: u32) = 2 \<longleftrightarrow> length R = 2" "(2 :: u32) < of_nat (length R) \<longleftrightarrow> 2 < length R"
    using of_nat_u32_inj(1) [of "length R" 2] of_nat_u32_inj(2) [of 2 "length R"] bdR(1) by simp_all
  have cc: "(of_nat (cnt + 1) :: u32) = 1 \<longleftrightarrow> cnt = 0" "(of_nat (cnt + 1) :: u32) = 2 \<longleftrightarrow> cnt = 1"
    using of_nat_u32_inj(1) [of "cnt + 1" 1] of_nat_u32_inj(1) [of "cnt + 1" 2] bdR(3) by simp_all
  have "?s\<lparr>ps_total_nseg := ps_total_nseg ?s + seg_count pa len, ps_sge_count := ps_sge_count ?s + 1\<rparr> = st1"
    by (simp add: st1_def I(3,4) seg_count_of_nat lR Q_def)
  moreover have "unat (seg_count pa len) = length Q" by (simp add: seg_count_pages Q_def length_sge_pages)
  ultimately have el': "(if length R = 2 then
        Inr (st1\<lparr>ps_cmd := (if cnt = 0 then set_prp2 (pa + 4096 - (pa AND 0xFFF)) (ps_cmd st1)
                           else if cnt = 1 then set_prp2 pa (ps_cmd st1) else ps_cmd st1),
                 ps_prp2 := snd (dptr_words (dptr (if cnt = 0 then set_prp2 (pa + 4096 - (pa AND 0xFFF)) (ps_cmd st1)
                           else if cnt = 1 then set_prp2 pa (ps_cmd st1) else ps_cmd st1)))\<rparr>)
      else if 2 < length R then prps_fill pa (pa AND 0xFFF) (if cnt = 0 then 1 else 0) (length Q)
             (st1\<lparr>ps_cmd := set_prp2 bus (ps_cmd st1)\<rparr>)
      else Inr st1) = Inr st'"
    using el unfolding prps_element_def Let_def by (simp only: s1 c2 cc)
  consider "length R = 1" | "length R = 2" | "2 < length R" using bdR(4) by (cases "length R") (auto, linarith)
  then have "prps_inv bus R (cnt + 1) st'"
  proof cases
    case 1
    then have "length P = 0" using lq lR by linarith
    moreover from this have "ps_prp2 st = 0 \<and> unat (ps_last_nseg st) = 0"
      using inv by (auto simp: prps_inv_def split: if_splits)
    ultimately show ?thesis using 1 el' bdR fst1 s1 by (simp add: prps_inv_def)
  next
    case 2
    then have "length P \<le> 1" using lR lq by linarith
    then have P2: "P = [] \<and> cnt = 0 \<or> length P = 1 \<and> cnt = 1" using I(1,2) by (cases P) auto
    then have "(if cnt = 0 then pa + 4096 - (pa AND 0xFFF) else pa) = R ! 1"
      using 2 lq lR al Qn [of 0] Qn [of 1] by (auto simp: PAGE_SIZE_def R_def nth_append)
    then have "st' = st1\<lparr>ps_cmd := set_prp2 (R ! 1) (ps_cmd st1), ps_prp2 := R ! 1\<rparr>"
      using el' 2 P2 by auto
    moreover have "unat (ps_last_nseg st) = 0" using inv P2 by (auto simp: prps_inv_def split: if_splits)
    moreover have "R ! 1 \<noteq> 0" using nz 2 nth_mem [of 1 R] by (auto simp: R_def Q_def)
    ultimately show ?thesis using 2 bdR fst1 s1 by (simp add: prps_inv_def)
  next
    case 3
    then show ?thesis
      using el' lq bdR fst1 Qn s1 nz unfolding R_def
      by (intro prps_fill_inv [OF inv, where s = "st1\<lparr>ps_cmd := set_prp2 bus (ps_cmd st1)\<rparr>"]) simp_all
  qed
  then show ?thesis by (simp add: R_def Q_def)
qed

text \<open>The elements \<open>k..<k + n\<close> are accepted: dword aligned, page boundaries inside the transfer.\<close>

fun sges_accepted :: "nat \<Rightarrow> (nat \<Rightarrow> int \<times> u64 \<times> u32) \<Rightarrow> nat \<Rightarrow> nat \<Rightarrow> bool" where
  "sges_accepted 0 nx k remaining \<longleftrightarrow> remaining = 0"
| "sges_accepted (Suc n) nx k remaining \<longleftrightarrow>
     (case nx k of (ret, pa, len) \<Rightarrow> remaining \<noteq> 0 \<and> ret = 0 \<and> pa AND 3 = 0
        \<and> (unat len \<noteq> remaining \<longrightarrow> (pa + ucast len) AND 0xFFF = 0)
        \<and> (k \<noteq> 0 \<longrightarrow> pa AND 0xFFF = 0)
        \<and> sges_accepted n nx (Suc k) (remaining - min remaining (unat len)))"

lemma prps_loop_ok:
  assumes "prps_loop fuel bus nx k r st = Inr (True, st')" and "prps_inv bus P k st"
    and "\<And>j. snd (snd (nx j)) \<noteq> 0" and "\<And>n. 0 \<notin> set (P @ concat (map (\<lambda>(pa, l). sge_pages pa l) (sge_prefix n nx k (unat r))))"
    and "length P + unat r < 2 ^ 32"
  shows "\<exists>n. sges_accepted n nx k (unat r) \<and> sum_list (map snd (sge_prefix n nx k (unat r))) = unat r
    \<and> prps_inv bus (P @ concat (map (\<lambda>(pa, l). sge_pages pa l) (sge_prefix n nx k (unat r)))) (k + n) st'"
  using assms
proof (induction fuel arbitrary: k r st P)
  case 0
  then show ?case by (intro exI [of _ 0]) (auto simp: prps_loop.simps split: if_splits)
next
  case (Suc fuel)
  show ?case
  proof (cases "r = 0")
    case True
    then show ?thesis using Suc.prems by (intro exI [of _ 0]) (auto simp: prps_loop.simps)
  next
    case False
    obtain ret pa len where nx: "nx k = (ret, pa, len)" by (cases "nx k")
    let ?l = "if r < len then r else len"
    have len: "len \<noteq> 0" "?l \<noteq> 0" using Suc.prems(3) [of k] nx False by (auto simp: word_less_nat_alt)
    have kP: "ps_sge_count st = of_nat k" "k < 2 ^ 32" using Suc.prems(2,5) by (auto simp: prps_inv_def)
    have k0: "ps_sge_count st = 0 \<longleftrightarrow> k = 0" using kP of_nat_u32_inj(1) [of k 0] by simp
    have G: "ret = 0" "pa AND 3 = 0" "len \<noteq> r \<Longrightarrow> (pa + ucast len) AND 0xFFF = 0" "k \<noteq> 0 \<Longrightarrow> pa AND 0xFFF = 0"
      using Suc.prems(1) False k0 nx by (auto simp: prps_loop.simps [of "Suc fuel"] split: if_splits)
    obtain st1 where el: "prps_element bus pa ?l st = Inr st1" "prps_loop fuel bus nx (Suc k) (r - ?l) st1 = Inr (True, st')"
      using Suc.prems(1) False k0 nx by (auto simp: prps_loop.simps [of "Suc fuel"] Let_def split: if_splits)
    have ul: "unat (r - ?l) = unat r - min (unat r) (unat len)" "unat ?l = min (unat r) (unat len)"
      by (auto simp: unat_min_u32 unat_sub word_le_nat_alt word_less_nat_alt)
    let ?Q = "sge_pages pa (unat ?l)"
    have lQ: "length ?Q \<le> unat ?l" using sge_pages_bounds(2) [of "unat ?l" pa] len(2) by (simp add: unat_gt_0)
    have pre: "sge_prefix (Suc n) nx k (unat r) = (pa, unat ?l) # sge_prefix n nx (Suc k) (unat (r - ?l))" for n
      by (simp only: sge_prefix.simps nx prod.case ul)
    have nz: "0 \<notin> set ((P @ ?Q) @ concat (map (\<lambda>(pa, l). sge_pages pa l) (sge_prefix n nx (Suc k) (unat (r - ?l)))))" for n
      using Suc.prems(4) [of "Suc n"] unfolding pre by simp
    have inv1: "prps_inv bus (P @ ?Q) (k + 1) st1"
    proof (rule prps_element_inv [OF Suc.prems(2) el(1) len(2) G(4)])
      show "length (P @ ?Q) < 2 ^ 32" using Suc.prems(5) lQ ul(2) by simp
      show "0 \<notin> set (P @ ?Q)" using nz [of 0] by simp
    qed
    have bd1: "length (P @ ?Q) + unat (r - ?l) < 2 ^ 32"
      using Suc.prems(5) lQ ul min.cobounded1 [of "unat r" "unat len"] unfolding length_append by linarith
    obtain n where n: "sges_accepted n nx (Suc k) (unat (r - ?l))"
      "sum_list (map snd (sge_prefix n nx (Suc k) (unat (r - ?l)))) = unat (r - ?l)"
      "prps_inv bus ((P @ ?Q) @ concat (map (\<lambda>(pa, l). sge_pages pa l) (sge_prefix n nx (Suc k) (unat (r - ?l))))) (Suc k + n) st'"
      using Suc.IH [OF el(2) inv1 [unfolded Suc_eq_plus1 [symmetric]] Suc.prems(3) nz bd1] by blast
    have "sges_accepted (Suc n) nx k (unat r)"
      using n(1) G False nx unfolding ul by (auto simp: word_unat_eq_iff)
    moreover have "sum_list (map snd (sge_prefix (Suc n) nx k (unat r))) = unat r"
      unfolding pre using n(2) ul by simp
    moreover have "prps_inv bus (P @ concat (map (\<lambda>(pa, l). sge_pages pa l) (sge_prefix (Suc n) nx k (unat r)))) (k + Suc n) st'"
      unfolding pre using n(3) by simp
    ultimately show ?thesis by blast
  qed
qed

lemma prp_view_inv:
  assumes "prps_inv (tr_bus_addr t) P n st" "P \<noteq> []" "tr_prp t = ps_prp st"
  shows "prp_view (ps_cmd st) t (length P) = P" "psdt (ps_cmd st) = NVME_PSDT_PRP"
proof -
  have w: "dptr_words (dptr (ps_cmd st)) = (P ! 0, snd (dptr_words (dptr (ps_cmd st))))"
    using assms(1,2) by (simp add: prps_inv_def prod_eq_iff)
  show "psdt (ps_cmd st) = NVME_PSDT_PRP" using assms(1,2) by (simp add: prps_inv_def)
  consider "length P = 1" | "length P = 2" | "2 < length P" using assms(2) by (cases "length P") (auto, linarith)
  then show "prp_view (ps_cmd st) t (length P) = P"
  proof cases
    case 1
    then show ?thesis using arg_cong [OF w, of fst] by (cases P) (auto simp: prp_view_def split_beta)
  next
    case 2
    then obtain a b where "P = [a, b]" by (auto simp: numeral_2_eq_2 length_Suc_conv)
    then show ?thesis using w assms(1) by (auto simp: prp_view_def prps_inv_def)
  next
    case 3
    then have "prp_view (ps_cmd st) t (length P) = map ((!) P) [0..<length P]"
      using assms w by (intro prp_view_list) (auto simp: prps_inv_def prod_eq_iff)
    then show ?thesis by (simp add: map_nth)
  qed
qed

lemma prps_fill_frame:
  "prps_fill pa u cur n st = Inr st' \<Longrightarrow> length (ps_prp st') = length (ps_prp st) \<and> ps_cmd st' = ps_cmd st"
proof (induction pa u cur n st rule: prps_fill.induct)
  case (1 pa u cur n st)
  note IH = "1.IH" [OF _ refl refl refl]
  from "1.prems" show ?case
    by (subst (asm) prps_fill.simps) (auto simp: Let_def split: if_splits dest!: IH)
qed

lemma prps_element_frame:
  "prps_element bus pa len st = Inr st' \<Longrightarrow> length (ps_prp st') = length (ps_prp st)
     \<and> cmd_cid (ps_cmd st') = cmd_cid (ps_cmd st) \<and> opc (ps_cmd st') = opc (ps_cmd st)"
  unfolding prps_element_def Let_def by (auto split: if_splits dest: prps_fill_frame)

lemma prps_loop_frame:
  "prps_loop fuel bus nx k r st = Inr (ok, st') \<Longrightarrow> length (ps_prp st') = length (ps_prp st)
     \<and> cmd_cid (ps_cmd st') = cmd_cid (ps_cmd st) \<and> opc (ps_cmd st') = opc (ps_cmd st)"
proof (induction fuel arbitrary: k r st)
  case 0
  then show ?case by (auto simp: prps_loop.simps split: if_splits)
next
  case (Suc fuel)
  obtain c pa len where nx: "nx k = (c, pa, len)" by (cases "nx k")
  from Suc.prems show ?case
    by (auto simp: prps_loop.simps [of "Suc fuel"] nx Let_def split: if_splits dest!: Suc.IH prps_element_frame)
qed

lemma build_prps_frame: "build_prps_sgl_request fuel req t = Inr (ret, cmd', t') \<Longrightarrow> build_frame req t cmd' t'"
  unfolding build_prps_sgl_request_def build_frame_def
  by (auto split: option.splits dest!: prps_loop_frame)

text \<open>With elements of positive length the loop ends: as many rounds as bytes are enough.\<close>

lemma prps_fill_no_fuel: "prps_fill pa u cur n st \<noteq> Inl OutOfFuel"
proof (induction pa u cur n st rule: prps_fill.induct)
  case (1 pa u cur n st)
  then show ?case by (subst prps_fill.simps) (auto simp: Let_def)
qed

lemma prps_element_no_fuel: "prps_element bus pa len st \<noteq> Inl OutOfFuel"
  unfolding prps_element_def Let_def by (simp add: prps_fill_no_fuel)

lemma prps_loop_ends:
  assumes "\<And>j. snd (snd (nx j)) \<noteq> 0" and "unat r \<le> fuel"
  shows "prps_loop fuel bus nx k r st \<noteq> Inl OutOfFuel"
  using assms(2)
proof (induction fuel arbitrary: k r st)
  case 0
  then show ?case by (simp add: prps_loop.simps unat_eq_0)
next
  case (Suc fuel)
  obtain c pa len where nx: "nx k = (c, pa, len)" by (cases "nx k")
  have "unat (r - (if r < len then r else len)) \<le> fuel"
    using Suc.prems assms(1) [of k] nx
    by (auto simp: unat_sub word_le_nat_alt word_less_nat_alt unat_eq_0 [symmetric])
  with Suc.IH show ?case
    by (auto simp: prps_loop.simps [of "Suc fuel"] nx Let_def rbind_eq_Inl prps_element_no_fuel)
qed

text \<open>
  The PRP builder stays inside the list when the transfer is at most \<^verbatim>\<open>NVME_MAX_XFER_SIZE\<close> bytes:
  while bytes remain, every element seen so far ended on a page boundary, so that the pages counted
  are those of one contiguous buffer with the same first offset.
\<close>

lemma prps_fill_fits:
  assumes "unat (ps_last_nseg st) + (if ps_prp2 st \<noteq> 0 then 1 else 0) + (nseg - cur) \<le> length (ps_prp st)"
    and "length (ps_prp st) < 2 ^ 32 - 1"
  shows "\<exists>st'. prps_fill pa u cur nseg st = Inr st' \<and> ps_total_nseg st' = ps_total_nseg st \<and> ps_sge_count st' = ps_sge_count st
    \<and> ps_prp2 st' = ps_prp2 st \<and> unat (ps_last_nseg st') = unat (ps_last_nseg st) + (nseg - cur)
    \<and> length (ps_prp st') = length (ps_prp st)"
  using assms
proof (induction "nseg - cur" arbitrary: cur st)
  case 0
  then show ?case by (subst prps_fill.simps) simp
next
  case (Suc n)
  then have cur: "cur < nseg" by simp
  let ?i = "unat (ps_last_nseg st) + (if ps_prp2 st \<noteq> 0 then 1 else 0)"
  let ?prp = "if ps_prp2 st \<noteq> 0 then (ps_prp st)[0 := ps_prp2 st] else ps_prp st"
  let ?st = "st\<lparr>ps_prp := ?prp[?i := pa + of_nat (cur * PAGE_SIZE) - u], ps_last_nseg := ps_last_nseg st + 1\<rparr>"
  have il: "?i < length (ps_prp st)" using Suc.prems(1) cur by linarith
  have last: "unat (ps_last_nseg ?st) = unat (ps_last_nseg st) + 1"
    using il Suc.prems(2) by (simp add: unat_word_ariths split: if_splits)
  have len: "length (ps_prp ?st) = length (ps_prp st)" by simp
  have "\<exists>st'. prps_fill pa u (cur + 1) nseg ?st = Inr st' \<and> ps_total_nseg st' = ps_total_nseg ?st \<and> ps_sge_count st' = ps_sge_count ?st
    \<and> ps_prp2 st' = ps_prp2 ?st \<and> unat (ps_last_nseg st') = unat (ps_last_nseg ?st) + (nseg - (cur + 1))
    \<and> length (ps_prp st') = length (ps_prp ?st)"
    by (rule Suc.hyps(1)) (use Suc.hyps(2) Suc.prems cur last len in \<open>auto split: if_splits\<close>)
  then show ?case using il cur last by (subst prps_fill.simps) (auto simp: Let_def split: if_splits)
qed

text \<open>Bounds of the bookkeeping variables after \<open>pg\<close> pages.\<close>

definition prps_bound :: "nat \<Rightarrow> prps_state \<Rightarrow> bool" where
  "prps_bound pg st \<longleftrightarrow> unat (ps_total_nseg st) = pg \<and> length (ps_prp st) = NVME_MAX_PRP_LIST_ENTRIES
     \<and> unat (ps_last_nseg st) + (if ps_prp2 st \<noteq> 0 then 1 else 0) \<le> pg - 1
     \<and> (ps_sge_count st = 0 \<longleftrightarrow> pg = 0) \<and> unat (ps_sge_count st) \<le> pg"

lemma word_eq_iff_unat:
  fixes w :: "'a::len word"
  assumes "unat w = n"
  shows "w = 0 \<longleftrightarrow> n = 0" and "1 < LENGTH('a) \<Longrightarrow> w = 1 \<longleftrightarrow> n = 1"
    and "2 < LENGTH('a) \<Longrightarrow> w = 2 \<longleftrightarrow> n = 2" and "2 < LENGTH('a) \<Longrightarrow> 2 < w \<longleftrightarrow> 2 < n"
proof -
  have two: "unat (2 :: 'a word) = 2" if "2 < LENGTH('a)"
  proof -
    have "(2::nat) ^ 2 \<le> 2 ^ LENGTH('a)" using that by (intro power_increasing) auto
    then show ?thesis using that by (simp add: unat_numeral)
  qed
  show "w = 0 \<longleftrightarrow> n = 0" using assms by (metis unat_eq_0)
  show "1 < LENGTH('a) \<Longrightarrow> w = 1 \<longleftrightarrow> n = 1" using assms by (metis unat_1 word_unat_eq_iff)
  show "2 < LENGTH('a) \<Longrightarrow> w = 2 \<longleftrightarrow> n = 2" using assms two by (metis word_unat_eq_iff)
  show "2 < LENGTH('a) \<Longrightarrow> 2 < w \<longleftrightarrow> 2 < n" using assms two by (simp add: word_less_nat_alt)
qed

lemma prps_element_fits:
  assumes b: "prps_bound pg st" and le: "pg + pages_of pa len \<le> 507" and n: "0 < pages_of pa len"
  shows "\<exists>st'. prps_element bus pa len st = Inr st' \<and> prps_bound (pg + pages_of pa len) st'"
proof -
  define nseg where "nseg = seg_count pa len"
  define st1 where "st1 = (if ps_total_nseg st = 0
    then st\<lparr>ps_cmd := set_prp1 pa ((ps_cmd st)\<lparr>psdt := NVME_PSDT_PRP\<rparr>)\<rparr> else st)"
  define st2 where "st2 = st1\<lparr>ps_total_nseg := ps_total_nseg st1 + nseg, ps_sge_count := ps_sge_count st1 + 1\<rparr>"
  let ?n = "pages_of pa len" and ?b = "(if ps_prp2 st \<noteq> 0 then 1 else 0 :: nat)"
  have un: "unat nseg = ?n" by (simp add: nseg_def seg_count_pages)
  have f1: "unat (ps_total_nseg st) = pg" "length (ps_prp st) = 506" "unat (ps_last_nseg st) + ?b \<le> pg - 1"
    "ps_sge_count st = 0 \<longleftrightarrow> pg = 0" "unat (ps_sge_count st) \<le> pg"
    using b by (simp_all add: prps_bound_def NVME_MAX_PRP_LIST_ENTRIES_def)
  have keep: "ps_prp st2 = ps_prp st" "ps_prp2 st2 = ps_prp2 st" "ps_last_nseg st2 = ps_last_nseg st"
    by (simp_all add: st2_def st1_def)
  have tot: "unat (ps_total_nseg st2) = pg + ?n"
    using f1(1) un le by (auto simp: st2_def st1_def unat_word_ariths)
  have cnt: "unat (ps_sge_count st2) = unat (ps_sge_count st) + 1"
    using f1(5) le by (simp add: st2_def st1_def unat_word_ariths)
  have cnt0: "ps_sge_count st2 \<noteq> 0" "unat (ps_sge_count st2) \<le> pg + ?n" "ps_sge_count st2 = 1 \<longleftrightarrow> pg = 0"
    using cnt f1(4,5) n word_eq_iff_unat [OF cnt] word_eq_iff_unat(1) [OF refl, of "ps_sge_count st"] by simp_all
  note tcases = word_eq_iff_unat [OF tot]
  have unfold: "prps_element bus pa len st = (if ps_total_nseg st2 = 2 then
           let cmd = (if ps_sge_count st2 = 1 then set_prp2 (pa + 4096 - (pa AND 0xFFF)) (ps_cmd st2)
                      else if ps_sge_count st2 = 2 then set_prp2 pa (ps_cmd st2) else ps_cmd st2)
           in Inr (st2\<lparr>ps_cmd := cmd, ps_prp2 := snd (dptr_words (dptr cmd))\<rparr>)
         else if ps_total_nseg st2 > 2 then
           prps_fill pa (pa AND 0xFFF) (if ps_sge_count st2 = 1 then 1 else 0) (unat nseg)
             (st2\<lparr>ps_cmd := set_prp2 bus (ps_cmd st2)\<rparr>)
         else Inr st2)"
    unfolding prps_element_def Let_def nseg_def [symmetric] st1_def [symmetric] st2_def [symmetric] ..
  consider (two) "pg + ?n = 2" | (more) "2 < pg + ?n" | (one) "pg + ?n = 1" using n by linarith
  then show ?thesis
  proof cases
    case two
    then have "ps_total_nseg st2 = 2" "unat (ps_last_nseg st) = 0" using tcases f1(3) n by auto
    then show ?thesis using two tot keep f1(2) cnt0
      by (simp add: unfold Let_def prps_bound_def NVME_MAX_PRP_LIST_ENTRIES_def)
  next
    case more
    let ?st3 = "st2\<lparr>ps_cmd := set_prp2 bus (ps_cmd st2)\<rparr>"
    let ?c = "if ps_sge_count st2 = 1 then 1 else 0 :: nat"
    have room: "unat (ps_last_nseg ?st3) + (if ps_prp2 ?st3 \<noteq> 0 then 1 else 0) + (unat nseg - ?c) \<le> pg + ?n - 1"
      using f1(3) n un cnt0(3) keep by auto
    have "\<exists>st'. prps_fill pa (pa AND 0xFFF) ?c (unat nseg) ?st3 = Inr st' \<and> ps_total_nseg st' = ps_total_nseg ?st3
      \<and> ps_sge_count st' = ps_sge_count ?st3 \<and> ps_prp2 st' = ps_prp2 ?st3
      \<and> unat (ps_last_nseg st') = unat (ps_last_nseg ?st3) + (unat nseg - ?c) \<and> length (ps_prp st') = length (ps_prp ?st3)"
      by (rule prps_fill_fits) (use room le f1(2) keep in auto)
    then obtain st' where "prps_fill pa (pa AND 0xFFF) ?c (unat nseg) ?st3 = Inr st'"
      and "ps_total_nseg st' = ps_total_nseg ?st3" "ps_sge_count st' = ps_sge_count ?st3" "ps_prp2 st' = ps_prp2 ?st3"
      and "unat (ps_last_nseg st') = unat (ps_last_nseg ?st3) + (unat nseg - ?c)" "length (ps_prp st') = length (ps_prp ?st3)"
      by blast
    moreover from this have "prps_bound (pg + ?n) st'"
      using room tot keep f1(2) cnt0 n by (simp add: prps_bound_def NVME_MAX_PRP_LIST_ENTRIES_def)
    ultimately show ?thesis using tcases more by (simp add: unfold)
  next
    case one
    then have "ps_total_nseg st2 \<noteq> 2" "\<not> 2 < ps_total_nseg st2" "pg = 0" using tcases n by simp_all
    then show ?thesis using one tot keep f1(2,3) cnt0
      by (simp add: unfold prps_bound_def NVME_MAX_PRP_LIST_ENTRIES_def)
  qed
qed


lemma unat_add_page_mod: "unat (pa + ucast (len :: u32) :: u64) mod 4096 = (unat pa + unat len) mod 4096"
proof -
  have "unat (ucast len :: u64) = unat len"
    using unsigned_less [of len, where 'a = nat] by (simp add: unsigned_ucast_eq take_bit_nat_eq_self)
  then have "unat (pa + ucast len :: u64) = (unat pa + unat len) mod 2 ^ 64" by (simp add: unat_word_ariths)
  then show ?thesis by (simp add: mod_mod_cancel)
qed

lemma page_end_pages:
  assumes "(unat pa + unat len) mod 4096 = 0"
  shows "4096 * pages_of pa len = unat pa mod 4096 + unat len"
proof -
  have "(unat pa mod 4096 + unat len) mod 4096 = 0" using assms by (simp add: mod_add_left_eq)
  then obtain q where "unat pa mod 4096 + unat len = 4096 * q" by (auto elim: dvdE)
  then show ?thesis by (simp add: pages_of_def)
qed

text \<open>
  The loop with \<open>sofar\<close> bytes transferred: while bytes remain, the pages counted are exactly those of the
  bytes so far and the offset \<open>u\<close> of the first one in its page.
\<close>

lemma prps_loop_fits:
  assumes pos: "\<And>j. snd (snd (nx j)) \<noteq> 0" and "unat r \<le> fuel"
    and "prps_bound pg st" and "r \<noteq> 0 \<Longrightarrow> \<exists>u<4096. 4096 * pg = u + sofar"
    and "sofar + unat r \<le> NVME_MAX_XFER_SIZE"
  shows "\<exists>ok st'. prps_loop fuel bus nx k r st = Inr (ok, st')"
  using assms(2-)
proof (induction fuel arbitrary: k r st pg sofar)
  case 0
  then show ?case by (auto simp: prps_loop.simps unat_eq_0)
next
  case (Suc fuel)
  obtain c pa len where nx: "nx k = (c, pa, len)" by (cases "nx k")
  define d where "d = (if r < len then r else len)"
  define rej where "rej \<longleftrightarrow> c \<noteq> 0 \<or> pa AND 3 \<noteq> 0 \<or> (len \<noteq> r \<and> (pa + ucast len) AND 0xFFF \<noteq> 0)
    \<or> (ps_sge_count st \<noteq> 0 \<and> pa AND 0xFFF \<noteq> 0)"
  show ?case
  proof (cases "r = 0 \<or> rej")
    case True
    then show ?thesis by (auto simp: prps_loop.simps [of "Suc fuel"] nx Let_def rej_def)
  next
    case False
    then have r0: "r \<noteq> 0" and acc: "\<not> rej" by auto
    from Suc.prems(3) [OF r0] obtain u where u: "u < 4096" "4096 * pg = u + sofar" by auto
    have d: "unat d = min (unat r) (unat len)" "0 < unat d"
      using r0 pos [of k] nx by (auto simp: d_def word_less_nat_alt unat_gt_0)
    have rd: "unat (r - d) = unat r - unat d" using d(1) by (simp add: unat_sub word_le_nat_alt)
    have first: "pg = 0 \<or> unat pa mod 4096 = 0"
      using acc Suc.prems(2) by (auto simp: rej_def prps_bound_def unat_and_fff [symmetric] unat_eq_0)
    have le: "pg + pages_of pa d \<le> 507"
    proof -
      have "4096 * pg + unat pa mod 4096 + unat d \<le> 4095 + 506 * 4096"
        using first u Suc.prems(4) d(1) by (auto simp: NVME_MAX_XFER_SIZE_def NVME_MAX_PRP_LIST_ENTRIES_def PAGE_SIZE_def)
      then have "(4096 * pg + unat pa mod 4096 + unat d + 4095) div 4096 \<le> 507" by linarith
      moreover have "pg + pages_of pa d = (4096 * pg + unat pa mod 4096 + unat d + 4095) div 4096"
        by (simp add: pages_of_def add.assoc)
      ultimately show ?thesis by simp
    qed
    have "0 < pages_of pa d" using d(2) by (simp add: pages_of_def div_greater_zero_iff)
    from prps_element_fits [OF Suc.prems(2) le this] obtain st' where
      st': "prps_element bus pa d st = Inr st'" "prps_bound (pg + pages_of pa d) st'" by blast
    have next_u: "\<exists>u<4096. 4096 * (pg + pages_of pa d) = u + (sofar + unat d)" if "r - d \<noteq> 0"
    proof -
      have dl: "d = len" "len \<noteq> r" using that by (auto simp: d_def)
      then have "(unat pa + unat d) mod 4096 = 0"
        using acc by (simp add: rej_def word_and_fff_0 mod_eq_0_iff_dvd [symmetric] unat_add_page_mod)
      then have "4096 * pages_of pa d = unat pa mod 4096 + unat d" by (rule page_end_pages)
      then show ?thesis using first u by (auto simp: distrib_left)
    qed
    have "\<exists>ok st''. prps_loop fuel bus nx (Suc k) (r - d) st' = Inr (ok, st'')"
      by (rule Suc.IH [OF _ st'(2) next_u]) (use rd d Suc.prems in auto)
    then show ?thesis
      using r0 acc st'(1) by (auto simp: prps_loop.simps [of "Suc fuel"] nx Let_def rej_def d_def)
  qed
qed

lemma build_prps_total:
  assumes "pl_type (req_payload req) = NVME_PAYLOAD_TYPE_SGL" and "pl_sgl (req_payload req) = Some f"
    and "\<And>off j. snd (snd (f off j)) \<noteq> 0" and "unat (req_payload_size req) \<le> NVME_MAX_XFER_SIZE"
    and "NVME_MAX_XFER_SIZE \<le> fuel" and "length (tr_prp t) = NVME_MAX_PRP_LIST_ENTRIES"
  shows "\<exists>ret cmd' t'. build_prps_sgl_request fuel req t = Inr (ret, cmd', t')"
proof -
  let ?st = "\<lparr>ps_cmd = req_cmd req, ps_prp = tr_prp t, ps_prp2 = 0, ps_total_nseg = 0, ps_last_nseg = 0, ps_sge_count = 0\<rparr>"
  have "\<exists>ok st'. prps_loop fuel (tr_bus_addr t) (f (req_payload_offset req)) 0 (req_payload_size req) ?st = Inr (ok, st')"
    by (rule prps_loop_fits [where pg = 0 and sofar = 0]) (use assms in \<open>auto simp: prps_bound_def\<close>)
  then show ?thesis using assms(1,2) by (auto simp: build_prps_sgl_request_def)
qed

subsection \<open>Properties\<close>

text \<open>Concrete requests and trackers for the witnesses.\<close>

definition ex_req :: nvme_request where
  "ex_req = \<lparr>req_cmd = cmd_zero, req_payload = \<lparr>pl_contig = 0x10200, pl_sgl = None, pl_md = None, pl_type = NVME_PAYLOAD_TYPE_CONTIG\<rparr>,
     req_retries = 0, req_child_reqs = 0, req_payload_size = 0x3000, req_payload_offset = 0, req_md_offset = 0,
     req_cb = CbUser 1, req_children = [], req_parent = None, req_parent_status = cpl_zero\<rparr>"

definition ex_tr :: "nat \<Rightarrow> nvme_tracker" where
  "ex_tr n = \<lparr>tr_req = Some 0, tr_cid = 0, tr_active = False, tr_bus_addr = 0x5000, tr_prp = replicate n 0,
     tr_sgl = replicate 253 \<lparr>sgl_address = 0, sgl_length = 0, sgl_subtype = 0, sgl_type = 0\<rparr>\<rparr>"

text \<open>
  C16. PRP list of a contiguous payload: when the builder succeeds, the entries the controller reads
  are the translations of the payload's first byte and of every following page boundary, one
  for each of the pages the payload touches, and the command selects PRPs.
\<close>

theorem contig_prp_pages:
  assumes "build_contig_request vt req t = Inr (0, cmd', t')" and "req_payload_size req \<noteq> 0"
  shows "let payload = pl_contig (req_payload req) + unat (req_payload_offset req);
             u = unat (vt payload) mod 4096;
             n = (u + unat (req_payload_size req) + 4095) div 4096
         in prp_view cmd' t' n = map (\<lambda>i. vt (if i = 0 then payload else payload + i * PAGE_SIZE - u)) [0..<n]
            \<and> vt payload \<noteq> NVME_VTOPHYS_ERROR \<and> psdt cmd' = NVME_PSDT_PRP"
proof -
  define payload where "payload = pl_contig (req_payload req) + unat (req_payload_offset req)"
  have "0 < pages_of (vt payload) (req_payload_size req)"
    using assms(2) unat_gt_0 [of "req_payload_size req"] by (simp add: pages_of_def div_greater_zero_iff)
  with build_contig_ok [OF assms(1)] show ?thesis
    unfolding payload_def Let_def pages_of_def contig_page_def by (simp add: if_distrib)
qed

theorem contig_prp_pages_witness:
  "\<exists>cmd' t'. build_contig_request of_nat ex_req (ex_tr 3) = Inr (0, cmd', t')
     \<and> prp_view cmd' t' 4 = [0x10200, 0x11000, 0x12000, 0x13000]"
proof -
  have sc: "unat (seg_count 0x10200 0x3000) = 4"
    unfolding seg_count_pages by (simp add: pages_of_def)
  then have nseg: "seg_count 0x10200 0x3000 = 4" by (simp add: word_unat_eq_iff)
  have "(0x10200 AND 0xFFF :: u64) = 0x200" by simp
  then obtain cmd' t' where b: "build_contig_request of_nat ex_req (ex_tr 3) = Inr (0, cmd', t')"
    by (simp add: build_contig_request_def ex_req_def ex_tr_def Let_def nseg NVME_VTOPHYS_ERROR_def
        contig_loop.simps PAGE_SIZE_def numeral_3_eq_3)
  from contig_prp_pages [OF b] have "prp_view cmd' t' 4 = [0x10200, 0x11000, 0x12000, 0x13000]"
    by (simp add: ex_req_def Let_def upt_rec PAGE_SIZE_def)
  with b show ?thesis by blast
qed

text \<open>
  C32. Bounds: for a payload of at most \<^verbatim>\<open>NVME_MAX_XFER_SIZE\<close> bytes the builder stays inside the 506
  entries of the tracker's PRP list and returns 0 or -1.
\<close>

theorem contig_prp_bounds:
  assumes "unat (req_payload_size req) \<le> NVME_MAX_XFER_SIZE" and "length (tr_prp t) = NVME_MAX_PRP_LIST_ENTRIES"
  shows "\<exists>ret cmd' t'. build_contig_request vt req t = Inr (ret, cmd', t') \<and> (ret = 0 \<or> ret = -1)
    \<and> length (tr_prp t') = NVME_MAX_PRP_LIST_ENTRIES"
  using build_contig_total [OF assms, of vt] build_contig_frame [of vt req t] assms(2)
  by (auto simp: build_frame_def)

theorem contig_prp_bounds_witness:
  "\<exists>ret cmd' t'. build_contig_request of_nat ex_req (ex_tr 506) = Inr (ret, cmd', t') \<and> (ret = 0 \<or> ret = -1)
    \<and> length (tr_prp t') = NVME_MAX_PRP_LIST_ENTRIES"
  by (rule contig_prp_bounds) (simp_all add: ex_req_def ex_tr_def NVME_MAX_XFER_SIZE_def NVME_MAX_PRP_LIST_ENTRIES_def PAGE_SIZE_def)

text \<open>
  Overflow: a payload of more than 507 pages whose pages all have a translation makes the
  builder write behind the end of the tracker's PRP list. Nothing in \<^verbatim>\<open>nvme_ioqp_submit_cmd\<close> rejects such a length.
\<close>

theorem contig_prp_overflow:
  assumes "507 * PAGE_SIZE < unat (req_payload_size req)" and "length (tr_prp t) = NVME_MAX_PRP_LIST_ENTRIES"
    and "\<And>a. vt a \<noteq> NVME_VTOPHYS_ERROR"
  shows "build_contig_request vt req t = Inl BadAccess"
proof -
  define payload where "payload = pl_contig (req_payload req) + unat (req_payload_offset req)"
  define n where "n = unat (seg_count (vt payload) (req_payload_size req))"
  have "507 * 4096 + 4096 \<le> unat (vt payload) mod 4096 + unat (req_payload_size req) + 4095"
    using assms(1) by (simp add: PAGE_SIZE_def)
  from div_le_mono [OF this, of 4096] have n: "508 \<le> n" by (simp add: n_def seg_count_pages pages_of_def)
  have "contig_loop vt payload u cur n prp = Inl BadAccess"
    if "1 \<le> cur" "cur \<le> 507" "length prp = 506" for u cur prp
    using that
  proof (induction "508 - cur" arbitrary: cur prp)
    case (Suc d)
    show ?case
    proof (cases "cur = 507")
      case True
      then show ?thesis using Suc.prems n assms(3) by (subst contig_loop.simps) (simp add: Let_def)
    next
      case False
      with Suc.hyps(1) [of "cur + 1" "prp[cur - 1 := vt (payload + cur * PAGE_SIZE - u)]"] Suc.hyps(2) Suc.prems n assms(3)
      show ?thesis by (subst contig_loop.simps) (simp add: Let_def)
    qed
  qed simp
  moreover have "seg_count (vt payload) (req_payload_size req) \<noteq> 2" "2 < seg_count (vt payload) (req_payload_size req)"
    using n by (simp_all add: n_def word_nseg_cases)
  ultimately show ?thesis
    using assms(2,3) unfolding build_contig_request_def Let_def n_def payload_def
    by (auto simp: NVME_MAX_PRP_LIST_ENTRIES_def split: option.splits)
qed

theorem contig_prp_overflow_witness:
  "build_contig_request (\<lambda>_. 0) (ex_req\<lparr>req_payload_size := 0x1FC000\<rparr>) (ex_tr 506) = Inl BadAccess"
  by (rule contig_prp_overflow) (simp_all add: ex_tr_def NVME_MAX_PRP_LIST_ENTRIES_def NVME_VTOPHYS_ERROR_def PAGE_SIZE_def)

definition ex_sgl :: sge_source where
  "ex_sgl ofst k = (0, if k = 0 then 0x7E00 else if k = 1 then 0xA000 else 0xB000, if k = 0 then 0x200 else 0x1000)"

definition ex_sgl_req :: nvme_request where
  "ex_sgl_req = ex_req\<lparr>req_payload := \<lparr>pl_contig = 0, pl_sgl = Some ex_sgl, pl_md = None, pl_type = NVME_PAYLOAD_TYPE_SGL\<rparr>,
     req_payload_size := 0x1A00\<rparr>"

text \<open>
  C33. SGL of a scattered payload: when the builder succeeds, the descriptors it wrote are the elements
  the callback returned, in order, the last one cut so that the lengths add up to the transfer
  length, at most 253 of them; the command's own descriptor is the only element or points to the list.
\<close>

theorem hw_sgl_descriptors:
  assumes "build_hw_sgl_request req t = Inr (0, cmd', t')" and "length (tr_sgl t) = NVME_MAX_SGL_DESCRIPTORS"
  shows "\<exists>nx n. pl_sgl (req_payload req) = Some nx \<and> 0 < n \<and> n \<le> NVME_MAX_SGL_DESCRIPTORS
    \<and> psdt cmd' = NVME_PSDT_SGL_MPTR_SGL
    \<and> map (\<lambda>d. (sgl_address d, unat (sgl_length d))) (take n (tr_sgl t'))
        = sge_prefix n (nx (req_payload_offset req)) 0 (unat (req_payload_size req))
    \<and> sum_list (map (\<lambda>d. unat (sgl_length d)) (take n (tr_sgl t'))) = unat (req_payload_size req)
    \<and> dptr cmd' = DptrSgl (if n = 1
       then \<lparr>sgl_address = sgl_address (tr_sgl t' ! 0), sgl_length = sgl_length (tr_sgl t' ! 0),
             sgl_subtype = 0, sgl_type = NVME_SGL_TYPE_DATA_BLOCK\<rparr>
       else \<lparr>sgl_address = tr_bus_addr t, sgl_length = of_nat (n * 16),
             sgl_subtype = 0, sgl_type = NVME_SGL_TYPE_LAST_SEGMENT\<rparr>)"
  by (rule build_hw_sgl_ok [OF assms]) blast

lemma ex_hw_sgl: "\<exists>cmd' t'. build_hw_sgl_request ex_sgl_req (ex_tr 506) = Inr (0, cmd', t')"
  by (simp add: build_hw_sgl_request_def ex_sgl_req_def ex_req_def ex_tr_def hw_sgl_loop.simps ex_sgl_def
      NVME_MAX_SGL_DESCRIPTORS_def Let_def)

theorem hw_sgl_descriptors_witness:
  "\<exists>cmd' t' n. build_hw_sgl_request ex_sgl_req (ex_tr 506) = Inr (0, cmd', t')
    \<and> sum_list (map (\<lambda>d. unat (sgl_length d)) (take n (tr_sgl t'))) = 0x1A00"
proof -
  obtain cmd' t' where b: "build_hw_sgl_request ex_sgl_req (ex_tr 506) = Inr (0, cmd', t')" using ex_hw_sgl by blast
  have sz: "unat (req_payload_size ex_sgl_req) = 0x1A00" by (simp add: ex_sgl_req_def)
  have "length (tr_sgl (ex_tr 506)) = NVME_MAX_SGL_DESCRIPTORS" by (simp add: ex_tr_def NVME_MAX_SGL_DESCRIPTORS_def)
  from hw_sgl_descriptors [OF b this] b sz show ?thesis by metis
qed

text \<open>
  C34. PRP list of a scattered payload: when every element has a positive length, no page is at
  physical address 0 and the builder succeeds, the entries the controller reads are the pages of the elements
  in order; the lengths add up to the transfer length and every element was dword aligned and met the page
  boundary rules.
\<close>

theorem prps_sgl_pages:
  assumes b: "build_prps_sgl_request fuel req t = Inr (0, cmd', t')" and sz: "req_payload_size req \<noteq> 0"
    and nx: "pl_sgl (req_payload req) = Some sgl" "nx = sgl (req_payload_offset req)"
    and len: "\<And>j. snd (snd (nx j)) \<noteq> 0"
    and nz: "\<And>n. 0 \<notin> set (concat (map (\<lambda>(pa, l). sge_pages pa l) (sge_prefix n nx 0 (unat (req_payload_size req)))))"
  shows "\<exists>n P. P = concat (map (\<lambda>(pa, l). sge_pages pa l) (sge_prefix n nx 0 (unat (req_payload_size req))))
    \<and> prp_view cmd' t' (length P) = P \<and> psdt cmd' = NVME_PSDT_PRP
    \<and> sges_accepted n nx 0 (unat (req_payload_size req))
    \<and> sum_list (map snd (sge_prefix n nx 0 (unat (req_payload_size req)))) = unat (req_payload_size req)"
proof -
  let ?st0 = "\<lparr>ps_cmd = req_cmd req, ps_prp = tr_prp t, ps_prp2 = 0, ps_total_nseg = 0, ps_last_nseg = 0, ps_sge_count = 0\<rparr>"
  obtain st where L: "prps_loop fuel (tr_bus_addr t) nx 0 (req_payload_size req) ?st0 = Inr (True, st)"
    and r: "cmd' = ps_cmd st" "t' = t\<lparr>tr_prp := ps_prp st\<rparr>"
    using b nx by (auto simp: build_prps_sgl_request_def split: if_splits)
  have inv0: "prps_inv (tr_bus_addr t) [] 0 ?st0" by (simp add: prps_inv_def)
  have sz32: "length ([] :: u64 list) + unat (req_payload_size req) < 2 ^ 32"
    using unsigned_less [of "req_payload_size req", where 'a = nat] by simp
  obtain n where n: "sges_accepted n nx 0 (unat (req_payload_size req))"
    "sum_list (map snd (sge_prefix n nx 0 (unat (req_payload_size req)))) = unat (req_payload_size req)"
    "prps_inv (tr_bus_addr t) (concat (map (\<lambda>(pa, l). sge_pages pa l) (sge_prefix n nx 0 (unat (req_payload_size req))))) n st"
    using prps_loop_ok [OF L inv0 len _ sz32] nz by auto
  let ?P = "concat (map (\<lambda>(pa, l). sge_pages pa l) (sge_prefix n nx 0 (unat (req_payload_size req))))"
  have "n \<noteq> 0" using n(1) sz by (cases n) (auto simp: unat_eq_0)
  then have "?P \<noteq> []" using n(3) by (auto simp: prps_inv_def)
  have n3: "prps_inv (tr_bus_addr t') ?P n st" using n(3) r by simp
  show ?thesis
    using prp_view_inv [OF n3 \<open>?P \<noteq> []\<close>] n(1,2) r by (intro exI [of _ n] exI [of _ ?P]) simp
qed

lemma ex_sgl_tail: "1 < k \<Longrightarrow> concat (map (\<lambda>(pa, l). sge_pages pa l) (sge_prefix n (ex_sgl 0) k 0)) = []"
proof (induction n arbitrary: k)
  case (Suc n)
  then show ?case using Suc.IH [of "Suc k"] by (simp add: ex_sgl_def [of _ k] sge_pages_def)
qed simp

lemma ex_sgl_page:
  "sge_pages 0x7E00 0x200 = [0x7E00]" "sge_pages 0xA000 0x1000 = [0xA000]" "sge_pages 0xB000 0x800 = [0xB000]"
  by (simp_all add: sge_pages_def)

lemma ex_sgl_pages:
  "0 \<notin> set (concat (map (\<lambda>(pa, l). sge_pages pa l) (sge_prefix n (ex_sgl 0) 0 0x1A00)))"
proof -
  have nx: "ex_sgl 0 0 = (0, 0x7E00, 0x200)" "ex_sgl 0 (Suc 0) = (0, 0xA000, 0x1000)" "ex_sgl 0 (Suc (Suc 0)) = (0, 0xB000, 0x1000)"
    by (simp_all add: ex_sgl_def)
  have z: "sge_prefix m (ex_sgl 0) (Suc (Suc (Suc 0))) 0 = sge_prefix m (ex_sgl 0) 3 0" for m by (simp add: numeral_3_eq_3)
  show ?thesis
  proof (cases n)
    case (Suc n1)
    show ?thesis
    proof (cases n1)
      case (Suc n2)
      then show ?thesis
        using \<open>n = Suc n1\<close> ex_sgl_tail [of 3 "n2 - 1"] by (cases n2) (simp_all add: nx ex_sgl_page z)
    qed (use \<open>n = Suc n1\<close> in \<open>simp add: nx ex_sgl_page\<close>)
  qed simp
qed

theorem prps_sgl_pages_witness:
  "\<exists>cmd' t' P. build_prps_sgl_request 10 ex_sgl_req (ex_tr 2) = Inr (0, cmd', t')
     \<and> prp_view cmd' t' (length P) = P \<and> sum_list (map snd (sge_prefix 3 (ex_sgl 0) 0 0x1A00)) = 0x1A00"
proof -
  have sc: "seg_count 0x7E00 0x200 = 1" "seg_count 0xA000 0x1000 = 1" "seg_count 0xB000 0x800 = 1"
    by (simp_all add: word_unat_eq_iff seg_count_pages pages_of_def)
  have "\<exists>cmd' t'. build_prps_sgl_request 10 ex_sgl_req (ex_tr 2) = Inr (0, cmd', t')"
    unfolding build_prps_sgl_request_def ex_sgl_req_def ex_req_def ex_tr_def
    apply (simp add: numeral_2_eq_2)
    apply (subst prps_loop.simps, simp add: ex_sgl_def prps_element_def sc Let_def)
    apply (subst prps_loop.simps, simp add: ex_sgl_def prps_element_def sc Let_def)
    apply (subst prps_loop.simps, simp add: ex_sgl_def prps_element_def sc Let_def)
    apply (subst prps_fill.simps, simp add: Let_def)
    apply (subst prps_fill.simps, simp add: prps_loop.simps)
    apply blast
    done
  then obtain cmd' t' where b: "build_prps_sgl_request 10 ex_sgl_req (ex_tr 2) = Inr (0, cmd', t')" by blast
  have r: "req_payload_size ex_sgl_req = 0x1A00" "pl_sgl (req_payload ex_sgl_req) = Some ex_sgl" "req_payload_offset ex_sgl_req = 0"
    by (simp_all add: ex_sgl_req_def ex_req_def)
  have "\<exists>n P. P = concat (map (\<lambda>(pa, l). sge_pages pa l) (sge_prefix n (ex_sgl 0) 0 (unat (req_payload_size ex_sgl_req))))
    \<and> prp_view cmd' t' (length P) = P \<and> psdt cmd' = NVME_PSDT_PRP
    \<and> sges_accepted n (ex_sgl 0) 0 (unat (req_payload_size ex_sgl_req))
    \<and> sum_list (map snd (sge_prefix n (ex_sgl 0) 0 (unat (req_payload_size ex_sgl_req)))) = unat (req_payload_size ex_sgl_req)"
  proof (rule prps_sgl_pages [OF b _ r(2)])
    have u: "unat (0x1A00 :: u32) = 0x1A00" by simp
    show "0 \<notin> set (concat (map (\<lambda>(pa, l). sge_pages pa l) (sge_prefix n (ex_sgl 0) 0 (unat (req_payload_size ex_sgl_req)))))" for n
      unfolding r(1) u by (rule ex_sgl_pages)
  qed (simp_all add: r(1,3), simp add: ex_sgl_def)
  then show ?thesis using b by (auto simp: ex_sgl_def numeral_3_eq_3)
qed

text \<open>
  C35. Termination: when every scatter-gather element has a positive length, the PRP builder ends
  within as many rounds as the payload has bytes.
\<close>

theorem prps_sgl_terminates:
  assumes "pl_sgl (req_payload req) = Some sgl" and "\<And>j. snd (snd (sgl (req_payload_offset req) j)) \<noteq> 0"
    and "unat (req_payload_size req) \<le> fuel"
  shows "build_prps_sgl_request fuel req t \<noteq> Inl OutOfFuel"
  using prps_loop_ends [OF assms(2,3)] assms(1)
  by (auto simp: build_prps_sgl_request_def nvme_assert_def rbind_eq_Inl)

theorem prps_sgl_terminates_witness:
  "build_prps_sgl_request 0x1A00 ex_sgl_req (ex_tr 506) \<noteq> Inl OutOfFuel"
  by (rule prps_sgl_terminates [of _ ex_sgl]) (simp_all add: ex_sgl_req_def ex_sgl_def)

text \<open>
  An element of length 0 that starts on a page boundary is accepted and makes no progress: a
  callback that keeps returning it keeps the loop running for ever.
\<close>

theorem prps_sgl_zero_length_loops:
  assumes "pl_type (req_payload req) = NVME_PAYLOAD_TYPE_SGL" and "req_payload_size req \<noteq> 0"
    and "pl_sgl (req_payload req) = Some (\<lambda>_ _. (0, 0, 0))"
  shows "build_prps_sgl_request fuel req t = Inl OutOfFuel"
proof -
  have nseg: "seg_count 0 0 = 0" by (simp add: seg_count_def)
  have "prps_loop fuel bus (\<lambda>_. (0, 0, 0)) k (req_payload_size req) st = Inl OutOfFuel" if "ps_total_nseg st = 0" for fuel bus k st
    using that
  proof (induction fuel arbitrary: k st)
    case 0
    then show ?case using assms(2) by (simp add: prps_loop.simps)
  next
    case (Suc fuel)
    then show ?case
      using assms(2) by (simp add: prps_loop.simps [of "Suc fuel"] prps_element_def nseg Let_def)
  qed
  then show ?thesis using assms(1,3) by (simp add: build_prps_sgl_request_def)
qed

theorem prps_sgl_zero_length_loops_witness:
  "build_prps_sgl_request 1000 (ex_req\<lparr>req_payload := \<lparr>pl_contig = 0, pl_sgl = Some (\<lambda>_ _. (0, 0, 0)), pl_md = None,
     pl_type = NVME_PAYLOAD_TYPE_SGL\<rparr>\<rparr>) (ex_tr 506) = Inl OutOfFuel"
  by (rule prps_sgl_zero_length_loops) (simp_all add: ex_req_def)

end
