(* ===== verification/Nvme_Qpair.thy ===== *)
theory Nvme_Qpair
  imports Nvme_Request Nvme_Prp
begin

text \<open>
  Queue pairs (\<^verbatim>\<open>lib/nvme/nvme_qpair.c\<close>): submission, completion, polling, reset, enabling and failing.

  Submitting, completing and enabling call each other: a completion resubmits a queued request, a
  submission whose payload has no translation completes its tracker, a submission enables a queue pair that
  is disabled, and enabling completes what is outstanding. They are defined together with fuel, one
  unit for each call; running out of fuel is the result \<open>OutOfFuel\<close>. The callbacks of the user are
  recorded in \<open>user_calls\<close> and do not call back into the library.
\<close>

subsection \<open>Definitions: retries and rings\<close>

definition nvme_qpair_completion_retry :: "nvme_cpl \<Rightarrow> bool" where
  "nvme_qpair_completion_retry cpl \<longleftrightarrow> st_sct (cpl_status cpl) = NVME_SCT_GENERIC
     \<and> (st_sc (cpl_status cpl) = NVME_SC_NAMESPACE_NOT_READY \<or> st_sc (cpl_status cpl) = NVME_SC_FORMAT_IN_PROGRESS)
     \<and> \<not> st_dnr (cpl_status cpl)"

definition nvme_qpair_is_io_queue :: "'a nvme_qpair_scheme \<Rightarrow> bool" where
  "nvme_qpair_is_io_queue q \<longleftrightarrow> qp_id q \<noteq> 0"

text \<open>\<^verbatim>\<open>++i == entries ? 0 : i\<close> on a 16-bit index.\<close>

definition ring_next :: "nat \<Rightarrow> nat \<Rightarrow> nat" where
  "ring_next n i = (let j = (i + 1) mod 2 ^ 16 in if j = n then 0 else j)"

abbreviation tr_at :: "'a nvme_qpair_scheme \<Rightarrow> nat \<Rightarrow> nvme_tracker" where
  "tr_at q t \<equiv> qp_tr q ! t"

definition upd_tr :: "nat \<Rightarrow> (nvme_tracker \<Rightarrow> nvme_tracker) \<Rightarrow> 'a nvme_qpair_scheme \<Rightarrow> 'a nvme_qpair_scheme" where
  "upd_tr t f q = q\<lparr>qp_tr := (qp_tr q)[t := f (qp_tr q ! t)]\<rparr>"

text \<open>
  \<^verbatim>\<open>nvme_qpair_submit_tracker\<close>: the command goes to the tail of the submission queue and the doorbell
  gets the new tail.
\<close>

definition nvme_qpair_submit_tracker :: "qctx \<Rightarrow> nat \<Rightarrow> qctx res" where
  "nvme_qpair_submit_tracker s t =
     (case tr_req (tr_at s t) of
        None \<Rightarrow> Inl BadAccess
      | Some r \<Rightarrow>
          let cid = unat (tr_cid (tr_at s t))
          in if length (qp_tr s) \<le> cid \<or> length (qp_cmd s) \<le> sq_tail s then Inl BadAccess
             else
               let s = upd_tr cid (\<lambda>x. x\<lparr>tr_active := True\<rparr>) s;
                   tail = ring_next (entries s) (sq_tail s)
               in Inr (s\<lparr>qp_cmd := (qp_cmd s)[sq_tail s := req_cmd (req_at s r)], sq_tail := tail,
                        doorbells := doorbells s @ [SqTail tail]\<rparr>))"

definition manual_cpl :: "qctx \<Rightarrow> u16 \<Rightarrow> u8 \<Rightarrow> bool \<Rightarrow> nvme_cpl" where
  "manual_cpl s cid sc dnr = cpl_zero\<lparr>cpl_sqid := qp_id s, cpl_cid := cid,
     cpl_status := \<lparr>st_p = False, st_sc = sc, st_sct = NVME_SCT_GENERIC, st_m = False, st_dnr = dnr\<rparr>\<rparr>"

text \<open>\<open>LIST_NEXT\<close> of a tracker, in the list it is linked in.\<close>

fun next_in :: "nat list \<Rightarrow> nat \<Rightarrow> nat option" where
  "next_in [] t = None"
| "next_in (x # xs) t = (if x = t then (case xs of [] \<Rightarrow> None | y # _ \<Rightarrow> Some y) else next_in xs t)"

definition tr_next :: "'a nvme_qpair_scheme \<Rightarrow> nat \<Rightarrow> nat option" where
  "tr_next q t = (if t \<in> set (outstanding_tr q) then next_in (outstanding_tr q) t else next_in (free_tr q) t)"

definition list_first :: "nat list \<Rightarrow> nat option" where
  "list_first xs = (case xs of [] \<Rightarrow> None | x # _ \<Rightarrow> Some x)"

text \<open>The choice of the builder in \<^verbatim>\<open>nvme_qpair_submit_request\<close> for a payload that is not empty.\<close>

definition build_request :: "nat \<Rightarrow> qctx \<Rightarrow> nat \<Rightarrow> nat \<Rightarrow> (int \<times> nvme_cmd \<times> nvme_tracker) res" where
  "build_request fuel s r t =
     (let req = req_at s r; trk = tr_at s t
      in if req_payload_size req = 0 then Inr (0, req_cmd req, trk)
         else case pl_type (req_payload req) of
                NVME_PAYLOAD_TYPE_CONTIG \<Rightarrow> build_contig_request (ct_vtophys s) req trk
              | NVME_PAYLOAD_TYPE_SGL \<Rightarrow>
                  (if ct_sgl_supported s then build_hw_sgl_request req trk
                   else build_prps_sgl_request fuel req trk)
              | NVME_PAYLOAD_TYPE_INVALID \<Rightarrow> Inr (- EINVAL, req_cmd req, trk))"

subsection \<open>Definitions: submission and completion\<close>

text \<open>
  The calls of the functions that are mutually recursive in C. Each function is a definition of its own with
  the functions it calls as the argument \<open>call\<close>, and \<open>exec\<close> ties the knot with fuel. The number a call
  returns is the C function's result, 0 for a \<open>void\<close> one.
\<close>

datatype qcall =
    CompleteTracker nat nvme_cpl
  | CompleteDone nat
  | CallCb nvme_cb nvme_cpl
  | SubmitAer nat
  | SubmitRequest nat
  | SubmitChildren nat "nat list" bool int
  | SubmitLeaf nat
  | EnabledCheck
  | Enable
  | AbortQueued
  | AbortOutstanding "nat option" bool

type_synonym qcaller = "qcall \<Rightarrow> qctx \<Rightarrow> (int \<times> qctx) res"

definition complete_tracker :: "qcaller \<Rightarrow> qctx \<Rightarrow> nat \<Rightarrow> nvme_cpl \<Rightarrow> (int \<times> qctx) res" where
  "complete_tracker call s t cpl =
     (let cid = unat (cpl_cid cpl)
      in if length (qp_tr s) \<le> t \<or> length (qp_tr s) \<le> cid then Inl BadAccess
         else case tr_req (tr_at s t) of
                None \<Rightarrow> call (CompleteDone t) (upd_tr cid (\<lambda>x. x\<lparr>tr_active := False\<rparr>) s)
              | Some r \<Rightarrow>
                  let retry = nvme_cpl_is_error cpl \<and> nvme_qpair_completion_retry cpl
                                \<and> req_retries (req_at s r) < NVME_MAX_RETRY_COUNT;
                      s = upd_tr cid (\<lambda>x. x\<lparr>tr_active := False\<rparr>) s
                  in if retry
                     then rbind (nvme_qpair_submit_tracker (upd_req r (\<lambda>q. q\<lparr>req_retries := req_retries q + 1\<rparr>) s) t)
                            (\<lambda>s. Inr (0, s))
                     else rbind (call (CallCb (req_cb (req_at s r)) cpl) s)
                            (\<lambda>(_, s). rbind (nvme_request_free r s) (\<lambda>s. call (CompleteDone t) s)))"

text \<open>The part of \<^verbatim>\<open>nvme_qpair_complete_tracker\<close> after the label \<open>done\<close>.\<close>

definition complete_done :: "qcaller \<Rightarrow> qctx \<Rightarrow> nat \<Rightarrow> (int \<times> qctx) res" where
  "complete_done call s t =
     (let s = upd_tr t (\<lambda>x. x\<lparr>tr_req := None\<rparr>) s;
          s = s\<lparr>outstanding_tr := remove1 t (outstanding_tr s), free_tr := t # remove1 t (free_tr s)\<rparr>
      in case queued_req s of
           [] \<Rightarrow> Inr (0, s)
         | r # rs \<Rightarrow>
             if ct_resetting s then Inr (0, s)
             else rbind (call (SubmitRequest r) (s\<lparr>queued_req := rs\<rparr>)) (\<lambda>(_, s). Inr (0, s)))"

text \<open>\<^verbatim>\<open>nvme_request_cb_complete_child\<close>.\<close>

definition cb_complete_child :: "qcaller \<Rightarrow> qctx \<Rightarrow> nat \<Rightarrow> nvme_cpl \<Rightarrow> (int \<times> qctx) res" where
  "cb_complete_child call s c cpl =
     (case req_parent (req_at s c) of
        None \<Rightarrow> Inl BadAccess
      | Some p \<Rightarrow>
          rbind (nvme_request_remove_child p c s)
            (\<lambda>s. let s = (if nvme_cpl_is_error cpl then upd_req p (\<lambda>q. q\<lparr>req_parent_status := cpl\<rparr>) s else s)
                 in if req_child_reqs (req_at s p) = 0
                    then rbind (call (CallCb (req_cb (req_at s p)) (req_parent_status (req_at s p))) s)
                           (\<lambda>(_, s). rbind (nvme_request_free p s) (\<lambda>s. Inr (0, s)))
                    else Inr (0, s)))"

text \<open>\<^verbatim>\<open>nvme_ctrlr_async_event_cb\<close>.\<close>

definition async_event_cb :: "qcaller \<Rightarrow> qctx \<Rightarrow> nat \<Rightarrow> nvme_cpl \<Rightarrow> (int \<times> qctx) res" where
  "async_event_cb call s i cpl =
     (if st_sc (cpl_status cpl) = NVME_SC_ABORTED_SQ_DELETION then Inr (0, s)
      else
        let s = (if ct_aer_cb s then s\<lparr>aer_calls := aer_calls s @ [cpl]\<rparr> else s)
        in rbind (call (SubmitAer i) s) (\<lambda>(_, s). Inr (0, s)))"

definition call_cb :: "qcaller \<Rightarrow> qctx \<Rightarrow> nvme_cb \<Rightarrow> nvme_cpl \<Rightarrow> (int \<times> qctx) res" where
  "call_cb call s cb cpl =
     (case cb of
        CbNull \<Rightarrow> Inr (0, s)
      | CbUser i \<Rightarrow> Inr (0, s\<lparr>user_calls := user_calls s @ [(i, cpl)]\<rparr>)
      | CbPoll i \<Rightarrow> Inr (0, s\<lparr>ct_poll := (ct_poll s)(i := \<lparr>poll_cpl = cpl, poll_done = True\<rparr>)\<rparr>)
      | CbCompleteChild c \<Rightarrow> cb_complete_child call s c cpl
      | CbAsyncEvent i \<Rightarrow> async_event_cb call s i cpl)"

definition construct_and_submit_aer :: "qcaller \<Rightarrow> qctx \<Rightarrow> nat \<Rightarrow> (int \<times> qctx) res" where
  "construct_and_submit_aer call s i =
     (case nvme_request_allocate_null s (CbAsyncEvent i) of
        (None, s) \<Rightarrow> Inr (-1, s)
      | (Some r, s) \<Rightarrow>
          let s = s\<lparr>ct_aer := (ct_aer s)[i := (ct_aer s ! i)\<lparr>aer_req := Some r\<rparr>]\<rparr>;
              s = upd_req r (\<lambda>q. q\<lparr>req_cmd := (req_cmd q)\<lparr>opc := admin_opc NVME_OPC_ASYNC_EVENT_REQUEST\<rparr>\<rparr>) s
          in call (SubmitRequest r) s)"

definition submit_request :: "qcaller \<Rightarrow> qctx \<Rightarrow> nat \<Rightarrow> (int \<times> qctx) res" where
  "submit_request call s r =
     (if ct_failed s then rbind (nvme_request_free r s) (\<lambda>s. Inr (- ENXIO, s))
      else rbind (call EnabledCheck s)
             (\<lambda>(_, s). if req_child_reqs (req_at s r) \<noteq> 0
                       then call (SubmitChildren r (req_children (req_at s r)) False 0) s
                       else call (SubmitLeaf r) s))"

text \<open>
  The loop over the children. \<open>TAILQ_FOREACH_SAFE\<close> has read the next child before it visits one, and a
  visit unlinks only the visited child and children submitted before it, so that the children left are
  the rest of the list.
\<close>

definition submit_children :: "qcaller \<Rightarrow> qctx \<Rightarrow> nat \<Rightarrow> nat list \<Rightarrow> bool \<Rightarrow> int \<Rightarrow> (int \<times> qctx) res" where
  "submit_children call s r cs child_req_failed ret =
     (case cs of
        [] \<Rightarrow> Inr (ret, s)
      | c # cs \<Rightarrow>
          if \<not> child_req_failed
          then rbind (call (SubmitRequest c) s)
                 (\<lambda>(ret, s). call (SubmitChildren r cs (ret \<noteq> 0) ret) s)
          else rbind (nvme_request_remove_child r c s)
                 (\<lambda>s. rbind (nvme_request_free c s) (\<lambda>s. call (SubmitChildren r cs True ret) s)))"

text \<open>The rest of \<^verbatim>\<open>nvme_qpair_submit_request\<close>, for a request that is not split.\<close>

definition submit_leaf :: "nat \<Rightarrow> qcaller \<Rightarrow> qctx \<Rightarrow> nat \<Rightarrow> (int \<times> qctx) res" where
  "submit_leaf fuel call s r =
     (case free_tr s of
        [] \<Rightarrow> Inr (0, s\<lparr>queued_req := queued_req s @ [r]\<rparr>)
      | t # ts \<Rightarrow>
          if \<not> qp_enabled s then Inr (0, s\<lparr>queued_req := queued_req s @ [r]\<rparr>)
          else
            let s = s\<lparr>free_tr := ts, outstanding_tr := t # outstanding_tr s\<rparr>;
                s = upd_tr t (\<lambda>x. x\<lparr>tr_req := Some r\<rparr>) s;
                s = upd_req r (\<lambda>q. q\<lparr>req_cmd := (req_cmd q)\<lparr>cmd_cid := tr_cid (tr_at s t)\<rparr>\<rparr>) s
            in rbind (build_request fuel s r t)
                 (\<lambda>(ret, cmd, trk).
                    let s = upd_tr t (\<lambda>_. trk) (upd_req r (\<lambda>q. q\<lparr>req_cmd := cmd\<rparr>) s)
                    in if ret \<noteq> 0
                       then rbind (call (CompleteTracker t
                                     (manual_cpl s (tr_cid (tr_at s t)) NVME_SC_INVALID_FIELD True)) s)
                              (\<lambda>(_, s). Inr (ret, s))
                       else rbind (nvme_qpair_submit_tracker s t) (\<lambda>s. Inr (0, s))))"

subsection \<open>Definitions: enabling\<close>

definition qpair_enabled :: "qcaller \<Rightarrow> qctx \<Rightarrow> (int \<times> qctx) res" where
  "qpair_enabled call s =
     (if \<not> qp_enabled s \<and> \<not> ct_resetting s then call Enable s else Inr (0, s))"

definition io_qpair_enable :: "qcaller \<Rightarrow> qctx \<Rightarrow> (int \<times> qctx) res" where
  "io_qpair_enable call s =
     rbind (call AbortQueued (s\<lparr>qp_enabled := True, ct_enabled_io_qpairs := ct_enabled_io_qpairs s + 1\<rparr>))
       (\<lambda>(_, s). call (AbortOutstanding (list_first (outstanding_tr s)) False) s)"

definition admin_qpair_enable :: "qcaller \<Rightarrow> qctx \<Rightarrow> (int \<times> qctx) res" where
  "admin_qpair_enable call s =
     rbind (call (AbortOutstanding (list_first (outstanding_tr s)) True) s)
       (\<lambda>(_, s). Inr (0, s\<lparr>qp_enabled := True\<rparr>))"

definition qpair_enable :: "qcaller \<Rightarrow> qctx \<Rightarrow> (int \<times> qctx) res" where
  "qpair_enable call s =
     (if nvme_qpair_is_io_queue s then io_qpair_enable call s else admin_qpair_enable call s)"

text \<open>The loop over the queued requests, each completed by \<^verbatim>\<open>nvme_qpair_manual_complete_request\<close>.\<close>

definition abort_queued :: "qcaller \<Rightarrow> qctx \<Rightarrow> (int \<times> qctx) res" where
  "abort_queued call s =
     (case queued_req s of
        [] \<Rightarrow> Inr (0, s)
      | r # rs \<Rightarrow>
          rbind (call (CallCb (req_cb (req_at s r)) (manual_cpl s 0 NVME_SC_ABORTED_BY_REQUEST False)) (s\<lparr>queued_req := rs\<rparr>))
            (\<lambda>(_, s). rbind (nvme_request_free r s) (\<lambda>s. call AbortQueued s)))"

text \<open>The loop over the outstanding trackers: \<open>LIST_FOREACH_SAFE\<close> reads the next one before it visits one.\<close>

definition abort_outstanding :: "qcaller \<Rightarrow> qctx \<Rightarrow> nat option \<Rightarrow> bool \<Rightarrow> (int \<times> qctx) res" where
  "abort_outstanding call s ot dnr =
     (case ot of
        None \<Rightarrow> Inr (0, s)
      | Some t \<Rightarrow>
          let temp = tr_next s t
          in rbind (call (CompleteTracker t (manual_cpl s (tr_cid (tr_at s t)) NVME_SC_ABORTED_BY_REQUEST dnr)) s)
               (\<lambda>(_, s). call (AbortOutstanding temp dnr) s))"

subsection \<open>Definitions: execution\<close>

primrec exec :: "nat \<Rightarrow> qcaller" where
  "exec 0 c s = Inl OutOfFuel"
| "exec (Suc n) c s =
     (case c of
        CompleteTracker t cpl \<Rightarrow> complete_tracker (exec n) s t cpl
      | CompleteDone t \<Rightarrow> complete_done (exec n) s t
      | CallCb cb cpl \<Rightarrow> call_cb (exec n) s cb cpl
      | SubmitAer i \<Rightarrow> construct_and_submit_aer (exec n) s i
      | SubmitRequest r \<Rightarrow> submit_request (exec n) s r
      | SubmitChildren r cs failed ret \<Rightarrow> submit_children (exec n) s r cs failed ret
      | SubmitLeaf r \<Rightarrow> submit_leaf n (exec n) s r
      | EnabledCheck \<Rightarrow> qpair_enabled (exec n) s
      | Enable \<Rightarrow> qpair_enable (exec n) s
      | AbortQueued \<Rightarrow> abort_queued (exec n) s
      | AbortOutstanding ot dnr \<Rightarrow> abort_outstanding (exec n) s ot dnr)"

subsection \<open>Definitions: interface functions\<close>

definition nvme_qpair_submit_request :: "nat \<Rightarrow> qctx \<Rightarrow> nat \<Rightarrow> (int \<times> qctx) res" where
  "nvme_qpair_submit_request fuel s r = exec fuel (SubmitRequest r) s"

definition nvme_qpair_enable :: "nat \<Rightarrow> qctx \<Rightarrow> (int \<times> qctx) res" where
  "nvme_qpair_enable fuel s = exec fuel Enable s"

definition nvme_qpair_complete_tracker :: "nat \<Rightarrow> qctx \<Rightarrow> nat \<Rightarrow> nvme_cpl \<Rightarrow> (int \<times> qctx) res" where
  "nvme_qpair_complete_tracker fuel s t cpl = exec fuel (CompleteTracker t cpl) s"

definition nvme_qpair_manual_complete_tracker :: "nat \<Rightarrow> qctx \<Rightarrow> nat \<Rightarrow> u8 \<Rightarrow> bool \<Rightarrow> (int \<times> qctx) res" where
  "nvme_qpair_manual_complete_tracker fuel s t sc dnr =
     exec fuel (CompleteTracker t (manual_cpl s (tr_cid (tr_at s t)) sc dnr)) s"

text \<open>
  \<^verbatim>\<open>nvme_qpair_poll\<close>: the loop reads the entry at the head of the completion queue until its phase tag
  is not the expected one or enough completions were handled.
\<close>

fun poll_loop :: "nat \<Rightarrow> qctx \<Rightarrow> nat \<Rightarrow> nat \<Rightarrow> (nat \<times> qctx) res" where
  "poll_loop 0 s num max_completions = Inl OutOfFuel"
| "poll_loop (Suc n) s num max_completions =
     (if length (qp_cpl s) \<le> cq_head s then Inl BadAccess
      else
        let cpl = qp_cpl s ! cq_head s; t = unat (cpl_cid cpl)
        in if st_p (cpl_status cpl) \<noteq> phase s then Inr (num, s)
           else if length (qp_tr s) \<le> t then Inl BadAccess
           else if \<not> tr_active (tr_at s t) then Inl Panic
           else rbind (exec n (CompleteTracker t cpl) s)
                  (\<lambda>(_, s).
                     let head = ring_next (entries s) (cq_head s);
                         s = s\<lparr>cq_head := head, phase := (if head = 0 then \<not> phase s else phase s)\<rparr>
                     in if num + 1 = max_completions then Inr (num + 1, s)
                        else poll_loop n s (num + 1) max_completions))"

definition nvme_qpair_poll :: "nat \<Rightarrow> qctx \<Rightarrow> nat \<Rightarrow> (nat \<times> qctx) res" where
  "nvme_qpair_poll fuel s max_completions =
     rbind (exec fuel EnabledCheck s)
       (\<lambda>(_, s).
          if \<not> qp_enabled s then Inr (0, s)
          else
            let max_completions = (if max_completions = 0 \<or> max_completions > entries s - 1
                                   then entries s - 1 else max_completions)
            in rbind (poll_loop fuel s 0 max_completions)
                 (\<lambda>(num, s). if num > 0 then Inr (num, s\<lparr>doorbells := doorbells s @ [CqHead (cq_head s)]\<rparr>)
                             else Inr (num, s)))"

definition nvme_qpair_reset :: "'a nvme_qpair_scheme \<Rightarrow> 'a nvme_qpair_scheme" where
  "nvme_qpair_reset q = q\<lparr>sq_tail := 0, cq_head := 0, phase := True,
     qp_cmd := replicate (entries q) cmd_zero, qp_cpl := replicate (entries q) cpl_zero\<rparr>"

text \<open>
  \<^verbatim>\<open>nvme_qpair_abort_aers\<close>: after an abort the scan starts again from the head of the list.
\<close>

fun abort_aers_loop :: "nat \<Rightarrow> qctx \<Rightarrow> nat option \<Rightarrow> qctx res" where
  "abort_aers_loop 0 s ot = Inl OutOfFuel"
| "abort_aers_loop (Suc n) s ot =
     (case ot of
        None \<Rightarrow> Inr s
      | Some t \<Rightarrow>
          (case tr_req (tr_at s t) of
             None \<Rightarrow> Inl Panic
           | Some r \<Rightarrow>
               if opc (req_cmd (req_at s r)) = admin_opc NVME_OPC_ASYNC_EVENT_REQUEST
               then rbind (nvme_qpair_manual_complete_tracker n s t NVME_SC_ABORTED_SQ_DELETION False)
                      (\<lambda>(_, s). abort_aers_loop n s (list_first (outstanding_tr s)))
               else abort_aers_loop n s (tr_next s t)))"

definition nvme_qpair_abort_aers :: "nat \<Rightarrow> qctx \<Rightarrow> qctx res" where
  "nvme_qpair_abort_aers fuel s = abort_aers_loop fuel s (list_first (outstanding_tr s))"

definition nvme_qpair_disable :: "nat \<Rightarrow> qctx \<Rightarrow> qctx res" where
  "nvme_qpair_disable fuel s =
     (if nvme_qpair_is_io_queue s
      then Inr (s\<lparr>qp_enabled := False, ct_enabled_io_qpairs := ct_enabled_io_qpairs s - 1\<rparr>)
      else nvme_qpair_abort_aers fuel (s\<lparr>qp_enabled := False\<rparr>))"

text \<open>\<^verbatim>\<open>nvme_qpair_fail\<close>: both loops run until their list is empty.\<close>

fun fail_outstanding :: "nat \<Rightarrow> qctx \<Rightarrow> qctx res" where
  "fail_outstanding 0 s = Inl OutOfFuel"
| "fail_outstanding (Suc n) s =
     (case outstanding_tr s of
        [] \<Rightarrow> Inr s
      | t # _ \<Rightarrow>
          rbind (nvme_qpair_manual_complete_tracker n s t NVME_SC_ABORTED_BY_REQUEST True)
            (\<lambda>(_, s). fail_outstanding n s))"

definition nvme_qpair_fail :: "nat \<Rightarrow> qctx \<Rightarrow> qctx res" where
  "nvme_qpair_fail fuel s = rbind (exec fuel AbortQueued s) (\<lambda>(_, s). fail_outstanding fuel s)"

subsection \<open>Definitions: construction\<close>

text \<open>
  \<^verbatim>\<open>nvme_ctrlr_reserve_sq_in_cmb\<close>: the new offset in the controller memory buffer and the offset
  reserved, \<open>None\<close> when the queue does not fit.
\<close>

definition nvme_ctrlr_reserve_sq_in_cmb :: "u64 \<Rightarrow> u64 \<Rightarrow> u16 \<Rightarrow> u64 \<Rightarrow> (u64 \<times> u64) option" where
  "nvme_ctrlr_reserve_sq_in_cmb cmb_current_offset cmb_size n aligned =
     (let len = ucast n * 64;
          round_offset = (cmb_current_offset + (aligned - 1)) AND NOT (aligned - 1)
      in if round_offset + len > cmb_size then None else Some (round_offset, round_offset + len))"

definition nvme_qpair_construct_tracker :: "nvme_tracker \<Rightarrow> u16 \<Rightarrow> u64 \<Rightarrow> nvme_tracker" where
  "nvme_qpair_construct_tracker t cid phys_addr =
     t\<lparr>tr_bus_addr := phys_addr + 40, tr_cid := cid, tr_active := False\<rparr>"

definition tracker_zero :: nvme_tracker where
  "tracker_zero = \<lparr>tr_req = None, tr_cid = 0, tr_active = False, tr_bus_addr = 0,
     tr_prp = replicate NVME_MAX_PRP_LIST_ENTRIES 0,
     tr_sgl = replicate NVME_MAX_SGL_DESCRIPTORS \<lparr>sgl_address = 0, sgl_length = 0, sgl_subtype = 0, sgl_type = 0\<rparr>\<rparr>"

text \<open>
  What the allocations of \<^verbatim>\<open>nvme_qpair_construct\<close> answer: whether the submission queue found room in the
  controller memory buffer and at which bus address, the physical addresses of the submission and completion queue and
  of the trackers if they could be allocated, and whether the request pool could be.
\<close>

record qpair_env =
  sq_cmb_reserved :: "u64 option"
  alloc_cmd :: "u64 option"
  alloc_cpl :: "u64 option"
  calloc_reqs :: bool
  alloc_tr :: "u64 option"

text \<open>The part of \<^verbatim>\<open>nvme_qpair_destroy\<close> that releases memory.\<close>

definition qpair_release :: "'a nvme_qpair_scheme \<Rightarrow> 'a nvme_qpair_scheme" where
  "qpair_release q = nvme_request_pool_destroy
     (q\<lparr>qp_cmd := (if sq_in_cmb q then qp_cmd q else []), qp_cpl := [], qp_tr := []\<rparr>)"

definition nvme_qpair_construct ::
  "qpair_env \<Rightarrow> 'a nvme_qpair_scheme \<Rightarrow> nat \<Rightarrow> nat \<Rightarrow> nat \<Rightarrow> (int \<times> 'a nvme_qpair_scheme) res" where
  "nvme_qpair_construct env q prio n trks =
     nvme_assert (n \<noteq> 0) (nvme_assert (trks \<noteq> 0)
     (let q = q\<lparr>entries := n, trackers := trks, qprio := prio, sq_in_cmb := sq_cmb_reserved env \<noteq> None\<rparr>;
          sq = (case sq_cmb_reserved env of Some a \<Rightarrow> Some a | None \<Rightarrow> alloc_cmd env)
      in if sq = None then Inr (-1, qpair_release q)
         else if alloc_cpl env = None then Inr (-1, qpair_release (q\<lparr>cmd_bus_addr := the sq\<rparr>))
         else
           let q = q\<lparr>cmd_bus_addr := the sq, cpl_bus_addr := the (alloc_cpl env),
                     free_tr := [], outstanding_tr := [], free_req := [], queued_req := []\<rparr>
           in case nvme_request_pool_construct (calloc_reqs env) q of
                (ret, q) \<Rightarrow>
                  if ret \<noteq> 0 then Inr (-1, qpair_release q)
                  else case alloc_tr env of
                         None \<Rightarrow> Inr (-1, qpair_release q)
                       | Some phys_addr \<Rightarrow>
                           let q = q\<lparr>qp_tr := map (\<lambda>i. nvme_qpair_construct_tracker tracker_zero (of_nat i)
                                                       (phys_addr + of_nat (i * 4096))) [0..<trks],
                                     free_tr := rev [0..<trks]\<rparr>
                           in Inr (0, nvme_qpair_reset q)))"

definition nvme_qpair_destroy :: "nat \<Rightarrow> qctx \<Rightarrow> qctx res" where
  "nvme_qpair_destroy fuel s =
     rbind (if nvme_qpair_is_io_queue s then Inr s else nvme_qpair_abort_aers fuel s)
       (\<lambda>s. Inr (qpair_release s))"

end
