(* ===== verification/Nvme_Qinv.thy ===== *)
theory Nvme_Qinv
  imports Nvme_Qpair "HOL-Library.Multiset"
begin

text \<open>
  The invariant of a queue pair and the proof that submission, completion, enabling and aborting keep it,
  return within a stated number of calls, and never reach a failed assertion or an invalid access.
\<close>

subsection \<open>The invariant\<close>

definition ring_ok :: "qctx \<Rightarrow> bool" where
  "ring_ok s \<longleftrightarrow> 0 < entries s \<and> entries s < 2 ^ 16 \<and> sq_tail s < entries s \<and> cq_head s < entries s
     \<and> length (qp_cmd s) = entries s \<and> length (qp_cpl s) = entries s"

text \<open>The trackers are partitioned into free and outstanding ones; only outstanding ones are active.\<close>

definition trk_ok :: "qctx \<Rightarrow> bool" where
  "trk_ok s \<longleftrightarrow> length (qp_tr s) = trackers s \<and> trackers s < 2 ^ 16
     \<and> distinct (free_tr s @ outstanding_tr s) \<and> set (free_tr s @ outstanding_tr s) = {..<trackers s}
     \<and> (\<forall>t<trackers s. unat (tr_cid (tr_at s t)) = t \<and> length (tr_prp (tr_at s t)) = NVME_MAX_PRP_LIST_ENTRIES
          \<and> length (tr_sgl (tr_at s t)) = NVME_MAX_SGL_DESCRIPTORS
          \<and> (tr_active (tr_at s t) \<longrightarrow> t \<in> set (outstanding_tr s)))"

text \<open>
  The requests in flight: queued ones and those of the outstanding trackers, but for the trackers in
  \<open>T\<close>, whose request is being completed.
\<close>

definition tr_leaves :: "nat set \<Rightarrow> qctx \<Rightarrow> nat list" where
  "tr_leaves T s = map (\<lambda>t. the (tr_req (tr_at s t))) (filter (\<lambda>t. t \<notin> T) (outstanding_tr s))"

definition leaves :: "nat set \<Rightarrow> qctx \<Rightarrow> nat list" where
  "leaves T s = queued_req s @ tr_leaves T s"

definition parents :: "qctx \<Rightarrow> nat set" where
  "parents s = {p. p < length (reqs s) \<and> req_child_reqs (req_at s p) \<noteq> 0}"

definition plain_cb :: "nvme_cb \<Rightarrow> bool" where
  "plain_cb cb \<longleftrightarrow> (\<forall>c. cb \<noteq> CbCompleteChild c) \<and> (\<forall>i. cb \<noteq> CbAsyncEvent i)"

definition is_aer :: "nvme_cb \<Rightarrow> bool" where
  "is_aer cb \<longleftrightarrow> (\<exists>i. cb = CbAsyncEvent i)"

text \<open>A child in flight hangs in the list of its parent.\<close>

definition linked :: "qctx \<Rightarrow> nat \<Rightarrow> bool" where
  "linked s r \<longleftrightarrow> (\<forall>c. req_cb (req_at s r) = CbCompleteChild c \<longrightarrow>
     c = r \<and> (\<exists>p\<in>parents s. req_parent (req_at s r) = Some p \<and> r \<in> set (req_children (req_at s p))))"

text \<open>
  A payload the builders can describe: at most \<^verbatim>\<open>NVME_MAX_XFER_SIZE\<close> bytes and, for scattered ones,
  callbacks that deliver elements of positive length.
\<close>

definition payload_ok :: "nvme_request \<Rightarrow> bool" where
  "payload_ok q \<longleftrightarrow> req_payload_size q = 0 \<or>
     unat (req_payload_size q) \<le> NVME_MAX_XFER_SIZE
     \<and> (pl_type (req_payload q) = NVME_PAYLOAD_TYPE_SGL \<longrightarrow>
          (\<exists>f. pl_sgl (req_payload q) = Some f \<and> (\<forall>off j. snd (snd (f off j)) \<noteq> 0)))"

definition leaf_ok :: "qctx \<Rightarrow> nat \<Rightarrow> bool" where
  "leaf_ok s r \<longleftrightarrow> linked s r \<and> payload_ok (req_at s r)
     \<and> (is_aer (req_cb (req_at s r)) \<longrightarrow> req_payload_size (req_at s r) = 0 \<and> \<not> nvme_qpair_is_io_queue s)"

definition parent_ok :: "qctx \<Rightarrow> nat set \<Rightarrow> nat \<Rightarrow> bool" where
  "parent_ok s V p \<longleftrightarrow> distinct (req_children (req_at s p)) \<and> plain_cb (req_cb (req_at s p))
     \<and> unat (req_child_reqs (req_at s p)) = length (req_children (req_at s p))
     \<and> (\<forall>c\<in>set (req_children (req_at s p)). c \<in> V \<and> req_parent (req_at s c) = Some p
          \<and> req_cb (req_at s c) = CbCompleteChild c)"

text \<open>
  The user callbacks that are pending: those of the live requests and of the requests with children. Together
  with the ones that were called they stay within \<open>M\<close>, so that no callback is called twice, and contain \<open>L\<close>, so
  that no callback is lost.
\<close>

fun ucb :: "nvme_cb \<Rightarrow> nat multiset" where
  "ucb (CbUser i) = {#i#}"
| "ucb _ = {#}"

definition pend :: "qctx \<Rightarrow> nat multiset \<Rightarrow> nat multiset" where
  "pend s V = (\<Sum>r\<in>#V + mset_set (parents s). ucb (req_cb (req_at s r)))"

definition acct :: "nat multiset \<Rightarrow> nat multiset \<Rightarrow> qctx \<Rightarrow> nat list \<Rightarrow> bool" where
  "acct L M s V \<longleftrightarrow> L \<subseteq># mset (map fst (user_calls s)) + pend s (mset V)
     \<and> mset (map fst (user_calls s)) + pend s (mset V) \<subseteq># M"

text \<open>
  The requests: free ones \<open>F\<close>, live ones \<open>V\<close> and dead ones \<open>D\<close>, whose callback was called and that are
  about to be freed. A request with children is none of these.
\<close>

definition pool_ok :: "nat multiset \<Rightarrow> nat multiset \<Rightarrow> qctx \<Rightarrow> nat list \<Rightarrow> nat list \<Rightarrow> nat list \<Rightarrow> bool" where
  "pool_ok L M s F V D \<longleftrightarrow> distinct (F @ V @ D)
     \<and> (\<forall>r\<in>set (F @ V @ D). r < length (reqs s) \<and> req_child_reqs (req_at s r) = 0)
     \<and> (\<forall>r\<in>set V. leaf_ok s r) \<and> (\<forall>p\<in>parents s. parent_ok s (set V) p) \<and> acct L M s V"

text \<open>
  \<open>H\<close> are the live requests held by the running code and not yet queued or attached to a tracker. \<open>G\<close> are outstanding
  trackers that the running code does not touch.
\<close>

definition req_ok :: "nat multiset \<Rightarrow> nat multiset \<Rightarrow> (nat \<rightharpoonup> nvme_tracker) \<Rightarrow> qctx \<Rightarrow> nat list \<Rightarrow> nat list \<Rightarrow> nat set \<Rightarrow> bool" where
  "req_ok L M G s H D T \<longleftrightarrow> pool_ok L M s (free_req s) (leaves T s @ H) D
     \<and> (\<forall>t\<in>set (outstanding_tr s) - T. tr_req (tr_at s t) \<noteq> None)
     \<and> (\<forall>t\<in>T. t \<in> set (outstanding_tr s) \<and> \<not> tr_active (tr_at s t))
     \<and> (\<forall>t x. G t = Some x \<longrightarrow> t \<in> set (outstanding_tr s) \<and> t \<notin> T \<and> tr_at s t = x)"

definition qinv :: "nat multiset \<Rightarrow> nat multiset \<Rightarrow> (nat \<rightharpoonup> nvme_tracker) \<Rightarrow> qctx \<Rightarrow> nat list \<Rightarrow> nat list \<Rightarrow> nat set \<Rightarrow> bool" where
  "qinv L M G s H D T \<longleftrightarrow> ring_ok s \<and> trk_ok s \<and> req_ok L M G s H D T"

lemmas qinv_defs = qinv_def ring_ok_def trk_ok_def req_ok_def

subsection \<open>State changes that keep the invariant\<close>

lemma upd_tr_simps [simp]:
  "length (qp_tr (upd_tr t f q)) = length (qp_tr q)" "free_req (upd_tr t f q) = free_req q"
  "queued_req (upd_tr t f q) = queued_req q" "reqs (upd_tr t f q) = reqs q"
  "outstanding_tr (upd_tr t f q) = outstanding_tr q" "free_tr (upd_tr t f q) = free_tr q"
  "trackers (upd_tr t f q) = trackers q" "entries (upd_tr t f q) = entries q"
  "sq_tail (upd_tr t f q) = sq_tail q" "cq_head (upd_tr t f q) = cq_head q"
  "phase (upd_tr t f q) = phase q" "qp_enabled (upd_tr t f q) = qp_enabled q"
  "qp_cmd (upd_tr t f q) = qp_cmd q" "qp_cpl (upd_tr t f q) = qp_cpl q" "qp_id (upd_tr t f q) = qp_id q"
  by (simp_all add: upd_tr_def)

lemma upd_tr_ctx [simp]:
  "ct_failed (upd_tr t f s) = ct_failed s" "ct_resetting (upd_tr t f s) = ct_resetting s"
  "ct_sgl_supported (upd_tr t f s) = ct_sgl_supported s" "ct_aer (upd_tr t f s) = ct_aer s"
  "ct_vtophys (upd_tr t f s) = ct_vtophys s" "user_calls (upd_tr t f s) = user_calls s"
  "aer_calls (upd_tr t f s) = aer_calls s" "doorbells (upd_tr t f s) = doorbells s"
  "ct_poll (upd_tr t f s) = ct_poll s" "ct_aer_cb (upd_tr t f s) = ct_aer_cb s"
  "ct_enabled_io_qpairs (upd_tr t f s) = ct_enabled_io_qpairs s"
  for s :: qctx
  by (simp_all add: upd_tr_def)

lemma tr_at_upd_tr:
  "t < length (qp_tr q) \<Longrightarrow> tr_at (upd_tr t f q) i = (if i = t then f (tr_at q t) else tr_at q i)"
  by (simp add: upd_tr_def nth_list_update)

lemma tr_at_upd_tr_other [simp]: "i \<noteq> t \<Longrightarrow> tr_at (upd_tr t f q) i = tr_at q i"
  by (simp add: upd_tr_def)

text \<open>The fields of a request the invariant depends on.\<close>

definition core :: "nvme_request \<Rightarrow> nvme_payload \<times> u8 \<times> u32 \<times> nvme_cb \<times> nat list \<times> nat option" where
  "core q = (req_payload q, req_child_reqs q, req_payload_size q, req_cb q, req_children q, req_parent q)"

definition same_cores :: "qctx \<Rightarrow> qctx \<Rightarrow> bool" where
  "same_cores s s' \<longleftrightarrow> length (reqs s') = length (reqs s) \<and> qp_id s' = qp_id s \<and> user_calls s' = user_calls s
     \<and> (\<forall>i. core (req_at s' i) = core (req_at s i))"

lemma same_coresD:
  assumes "same_cores s s'"
  shows "length (reqs s') = length (reqs s)" "req_payload (req_at s' i) = req_payload (req_at s i)"
    "req_child_reqs (req_at s' i) = req_child_reqs (req_at s i)"
    "req_payload_size (req_at s' i) = req_payload_size (req_at s i)" "req_cb (req_at s' i) = req_cb (req_at s i)"
    "req_children (req_at s' i) = req_children (req_at s i)" "req_parent (req_at s' i) = req_parent (req_at s i)"
    "qp_id s' = qp_id s" "user_calls s' = user_calls s"
  using assms by (simp_all add: same_cores_def core_def)

lemma same_cores_upd_req: "(\<And>q. core (f q) = core q) \<Longrightarrow> same_cores s (upd_req r f s)"
  by (cases "r < length (reqs s)") (simp_all add: same_cores_def req_at_upd_req, simp add: upd_req_def list_update_beyond)

lemma same_cores_eq: "reqs s' = reqs s \<Longrightarrow> qp_id s' = qp_id s \<Longrightarrow> user_calls s' = user_calls s \<Longrightarrow> same_cores s s'"
  by (simp add: same_cores_def)

lemma same_cores_trans: "same_cores s s' \<Longrightarrow> same_cores s' s'' \<Longrightarrow> same_cores s s''"
  by (simp add: same_cores_def)

lemma pool_ok_cong:
  assumes "same_cores s s'"
  shows "pool_ok L M s' F V D = pool_ok L M s F V D"
proof -
  note c = same_coresD [OF assms]
  have "parents s' = parents s" by (simp add: parents_def c)
  moreover have "payload_ok (req_at s' r) = payload_ok (req_at s r)" for r by (simp add: payload_ok_def c)
  ultimately show ?thesis
    by (simp add: pool_ok_def leaf_ok_def linked_def parent_ok_def nvme_qpair_is_io_queue_def acct_def pend_def c)
qed

lemma pool_ok_perm:
  assumes "mset F = mset F'" "mset V = mset V'" "mset D = mset D'" "pool_ok L M s F V D"
  shows "pool_ok L M s F' V' D'"
proof -
  have "set F = set F'" "set V = set V'" "set D = set D'" using assms(1-3) by (metis set_mset_mset)+
  moreover have "distinct (F @ V @ D) = distinct (F' @ V' @ D')"
    using assms(1-3) by (metis mset_append mset_eq_imp_distinct_iff)
  ultimately show ?thesis using assms(2,4) by (simp add: pool_ok_def acct_def)
qed

text \<open>Changes of fields the invariant does not depend on, and of the submission ring.\<close>

lemma qinv_cong:
  assumes "qinv L M G s H D T" and "same_cores s s'" and "ring_ok s'"
    and "qp_tr s' = qp_tr s" "trackers s' = trackers s" "free_tr s' = free_tr s" "outstanding_tr s' = outstanding_tr s"
    and "free_req s' = free_req s" "queued_req s' = queued_req s"
  shows "qinv L M G s' H D T"
  using assms(1,3-) pool_ok_cong [OF assms(2)]
  by (simp add: qinv_def trk_ok_def req_ok_def leaves_def tr_leaves_def)

lemma qinvD:
  assumes "qinv L M G s H D T"
  shows "ring_ok s" "trk_ok s" "pool_ok L M s (free_req s) (leaves T s @ H) D"
    "\<And>t. t \<in> set (outstanding_tr s) \<Longrightarrow> t \<notin> T \<Longrightarrow> tr_req (tr_at s t) \<noteq> None"
    "\<And>t. t \<in> T \<Longrightarrow> t \<in> set (outstanding_tr s) \<and> \<not> tr_active (tr_at s t)"
    "\<And>t x. G t = Some x \<Longrightarrow> t \<in> set (outstanding_tr s) \<and> t \<notin> T \<and> tr_at s t = x"
  using assms by (auto simp: qinv_def req_ok_def)

lemma trk_okD:
  assumes "trk_ok s"
  shows "length (qp_tr s) = trackers s" "distinct (free_tr s)" "distinct (outstanding_tr s)"
    "set (free_tr s) \<inter> set (outstanding_tr s) = {}" "set (free_tr s) \<union> set (outstanding_tr s) = {..<trackers s}"
    "\<And>t. t \<in> set (outstanding_tr s) \<Longrightarrow> t < trackers s" "\<And>t. t \<in> set (free_tr s) \<Longrightarrow> t < trackers s"
    "\<And>t. t < trackers s \<Longrightarrow> unat (tr_cid (tr_at s t)) = t"
    "\<And>t. t < trackers s \<Longrightarrow> length (tr_prp (tr_at s t)) = NVME_MAX_PRP_LIST_ENTRIES"
    "\<And>t. t < trackers s \<Longrightarrow> tr_active (tr_at s t) \<Longrightarrow> t \<in> set (outstanding_tr s)"
  using assms by (auto simp: trk_ok_def)

lemma pool_okD:
  assumes "pool_ok L M s F V D"
  shows "distinct (F @ V @ D)" "\<And>r. r \<in> set F \<union> set V \<union> set D \<Longrightarrow> r < length (reqs s) \<and> req_child_reqs (req_at s r) = 0"
    "\<And>r. r \<in> set V \<Longrightarrow> leaf_ok s r" "\<And>p. p \<in> parents s \<Longrightarrow> parent_ok s (set V) p" "acct L M s V"
  using assms by (auto simp: pool_ok_def)

lemma finite_parents [simp]: "finite (parents s)"
  by (simp add: parents_def)

lemma qinv_weaken:
  assumes "qinv L M G s H D T" and "L' \<subseteq># L" and "M \<subseteq># M'"
  shows "qinv L' M' G s H D T"
  using assms by (auto simp: qinv_def req_ok_def pool_ok_def acct_def)

lemma qinv_repool:
  assumes "qinv L M G s H D T" and "pool_ok L' M' s' (free_req s') (leaves T s' @ H') D'" and "ring_ok s'"
    and "qp_tr s' = qp_tr s" "trackers s' = trackers s" "free_tr s' = free_tr s" "outstanding_tr s' = outstanding_tr s"
  shows "qinv L' M' G s' H' D' T"
  using assms by (simp add: qinv_def trk_ok_def req_ok_def)

lemma ring_ok_cong:
  assumes "ring_ok s" and "entries s' = entries s" "sq_tail s' = sq_tail s" "cq_head s' = cq_head s"
    "qp_cmd s' = qp_cmd s" "qp_cpl s' = qp_cpl s"
  shows "ring_ok s'"
  using assms by (simp add: ring_ok_def)

text \<open>Moving requests between the queue, the trackers and the running code.\<close>

lemma qinv_pop_queue:
  assumes "qinv L M G s H D T" and "queued_req s = r # rs"
  shows "qinv L M G (s\<lparr>queued_req := rs\<rparr>) (r # H) D T"
proof -
  have "pool_ok L M (s\<lparr>queued_req := rs\<rparr>) (free_req s) (leaves T (s\<lparr>queued_req := rs\<rparr>) @ r # H) D"
    using qinvD(3) [OF assms(1)] assms(2)
    by (subst pool_ok_cong [of s]) (auto intro!: same_cores_eq elim!: pool_ok_perm [rotated 3] simp: leaves_def tr_leaves_def)
  then show ?thesis using assms(1) by (simp add: qinv_defs)
qed

lemma qinv_push_queue:
  assumes "qinv L M G s (r # H) D T"
  shows "qinv L M G (s\<lparr>queued_req := queued_req s @ [r]\<rparr>) H D T"
proof -
  let ?s = "s\<lparr>queued_req := queued_req s @ [r]\<rparr>"
  have "pool_ok L M ?s (free_req s) (leaves T ?s @ H) D"
    using qinvD(3) [OF assms(1)]
    by (subst pool_ok_cong [of s]) (auto intro!: same_cores_eq elim!: pool_ok_perm [rotated 3] simp: leaves_def tr_leaves_def)
  then show ?thesis using assms(1) by (simp add: qinv_defs)
qed

lemma qinv_free_dead:
  assumes "qinv L M G s H (r # D) T"
  shows "nvme_request_free r s = Inr (s\<lparr>free_req := r # free_req s\<rparr>)" and "qinv L M G (s\<lparr>free_req := r # free_req s\<rparr>) H D T"
proof -
  show "nvme_request_free r s = Inr (s\<lparr>free_req := r # free_req s\<rparr>)"
    using pool_okD(2) [OF qinvD(3) [OF assms], of r] by (simp add: nvme_request_free_def)
  let ?s = "s\<lparr>free_req := r # free_req s\<rparr>"
  have "pool_ok L M s (r # free_req s) (leaves T ?s @ H) D"
    using qinvD(3) [OF assms] by (auto simp: pool_ok_def leaves_def tr_leaves_def)
  then have "pool_ok L M ?s (r # free_req s) (leaves T ?s @ H) D" by (subst pool_ok_cong [of s]) (auto intro: same_cores_eq)
  then show "qinv L M G ?s H D T" using assms(1) by (simp add: qinv_defs)
qed

text \<open>A live request that is no child may be dropped; its callback is then no longer pending.\<close>

lemma mset_interval_diff:
  assumes "L \<subseteq># c + u" and "c + u \<subseteq># M"
  shows "u \<subseteq># M" and "L - u \<subseteq># c" and "c \<subseteq># M - u"
proof -
  show u: "u \<subseteq># M" using assms(2) by (meson mset_subset_eq_add_right subset_mset.order_trans)
  show "L - u \<subseteq># c" using assms(1) by (simp add: subset_eq_diff_conv)
  show "c \<subseteq># M - u" using assms(2) u by (simp add: subset_mset.le_diff_conv2)
qed

lemma acct_drop:
  assumes "acct L M s (r # V)" and u: "u = ucb (req_cb (req_at s r))"
  shows "u \<subseteq># M" and "acct (L - u) (M - u) s V"
proof -
  let ?c = "mset (map fst (user_calls s)) + pend s (mset V)"
  have "pend s (mset (r # V)) = pend s (mset V) + u" by (simp add: pend_def u union_commute)
  then have c: "L \<subseteq># ?c + u" "?c + u \<subseteq># M" using assms(1) by (simp_all add: acct_def union_assoc)
  note i = mset_interval_diff [OF c]
  show "u \<subseteq># M" by (rule i(1))
  show "acct (L - u) (M - u) s V" using i(2,3) by (simp add: acct_def)
qed

lemma pool_ok_drop:
  assumes "pool_ok L M s F (r # V) D" and "\<And>c. req_cb (req_at s r) \<noteq> CbCompleteChild c" and u: "u = ucb (req_cb (req_at s r))"
  shows "pool_ok (L - u) (M - u) s F V (r # D)" and "u \<subseteq># M"
proof -
  have "parent_ok s (set V) p" if "p \<in> parents s" for p
    using pool_okD(4) [OF assms(1) that] assms(2) by (fastforce simp: parent_ok_def)
  then show "pool_ok (L - u) (M - u) s F V (r # D)" using assms(1) acct_drop(2) [OF _ u] by (auto simp: pool_ok_def)
  show "u \<subseteq># M" using assms(1) acct_drop(1) [OF _ u] by (auto simp: pool_ok_def)
qed

lemma qinv_drop_held:
  assumes "qinv L M G s (r # H) D T" and "\<And>c. req_cb (req_at s r) \<noteq> CbCompleteChild c" and u: "u = ucb (req_cb (req_at s r))"
  shows "qinv (L - u) (M - u) G s H (r # D) T" and "u \<subseteq># M"
proof -
  have p: "pool_ok L M s (free_req s) (r # leaves T s @ H) D"
    using qinvD(3) [OF assms(1)] by (rule pool_ok_perm [rotated 3]) auto
  show "qinv (L - u) (M - u) G s H (r # D) T" using pool_ok_drop(1) [OF p assms(2) u] assms(1) by (simp add: qinv_defs)
  show "u \<subseteq># M" by (rule pool_ok_drop(2) [OF p assms(2) u])
qed

text \<open>A request taken from the free list is held by the caller.\<close>

definition fresh_req :: "nvme_payload \<Rightarrow> u32 \<Rightarrow> nvme_cb \<Rightarrow> nvme_request \<Rightarrow> nvme_request" where
  "fresh_req pl sz cb = (\<lambda>req. req\<lparr>req_cmd := cmd_zero, req_payload := pl, req_retries := 0,
     req_child_reqs := 0, req_payload_size := sz, req_payload_offset := 0, req_md_offset := 0, req_cb := cb\<rparr>)"

lemma fresh_req_simps [simp]:
  "req_cmd (fresh_req pl sz cb q) = cmd_zero" "req_payload (fresh_req pl sz cb q) = pl"
  "req_child_reqs (fresh_req pl sz cb q) = 0" "req_payload_size (fresh_req pl sz cb q) = sz"
  "req_cb (fresh_req pl sz cb q) = cb" "req_payload_offset (fresh_req pl sz cb q) = 0"
  "req_md_offset (fresh_req pl sz cb q) = 0" "req_retries (fresh_req pl sz cb q) = 0"
  by (simp_all add: fresh_req_def)

lemma request_allocate_cases:
  assumes "pool_ok L M s (free_req s) V D"
  obtains "free_req s = []" and "nvme_request_allocate s pl sz cb = (None, s)"
  | r rs where "free_req s = r # rs" and "r < length (reqs s)"
      and "nvme_request_allocate s pl sz cb = (Some r, upd_req r (fresh_req pl sz cb) (s\<lparr>free_req := rs\<rparr>))"
proof (cases "free_req s")
  case Nil
  then show ?thesis using that(1) by (simp add: nvme_request_allocate_def nvme_alloc_request_def)
next
  case (Cons r rs)
  then have "r < length (reqs s)" using pool_okD(2) [OF assms, of r] by simp
  with Cons show ?thesis
    using that(2) [of r rs] by (simp add: nvme_request_allocate_def nvme_alloc_request_def fresh_req_def upd_req_def)
qed

lemma qinv_alloc:
  assumes inv: "qinv L M G s H D T" and fr: "free_req s = r # rs"
    and cb: "\<And>c. cb \<noteq> CbCompleteChild c" and pl: "payload_ok (fresh_req pl sz cb (req_at s r))"
    and aer: "is_aer cb \<Longrightarrow> sz = 0 \<and> \<not> nvme_qpair_is_io_queue s"
    and s': "s' = upd_req r (fresh_req pl sz cb) (s\<lparr>free_req := rs\<rparr>)"
  shows "qinv (L + ucb cb) (M + ucb cb) G s' (r # H) D T"
proof -
  note pool = pool_okD [OF qinvD(3) [OF inv]]
  have rl: "r < length (reqs s)" "req_child_reqs (req_at s r) = 0" using pool(2) [of r] fr by simp_all
  have q: "req_at s' r = fresh_req pl sz cb (req_at s r)" using rl by (simp add: s' req_at_upd_req)
  have old: "req_at s' j = req_at s j" if "j \<noteq> r" for j using that by (simp add: s')
  have par: "parents s' = parents s"
  proof -
    have "req_child_reqs (req_at s' j) = req_child_reqs (req_at s j)" for j
      using q rl(2) old [of j] by (cases "j = r") auto
    then show ?thesis by (simp add: parents_def s')
  qed
  have rp: "r \<notin> parents s" using rl by (simp add: parents_def)
  have len: "length (reqs s') = length (reqs s)" "qp_id s' = qp_id s" by (simp_all add: s')
  have rV: "r \<notin> set (leaves T s @ H)" using pool(1) fr by auto
  have leaf: "leaf_ok s' j" if "j \<in> set (leaves T s @ H)" for j
  proof -
    from that rV have "j \<noteq> r" by auto
    moreover have "leaf_ok s j" using pool(3) [OF that] .
    moreover have "req_at s' p = req_at s p" if "p \<in> parents s" for p
      using old [of p] rp that by (cases "p = r") auto
    ultimately show ?thesis by (simp add: leaf_ok_def linked_def par old nvme_qpair_is_io_queue_def len)
  qed
  have leafr: "leaf_ok s' r"
    using q cb pl aer by (simp add: leaf_ok_def linked_def nvme_qpair_is_io_queue_def len)
  have pok: "parent_ok s' (set (leaves T s @ r # H)) p" if "p \<in> parents s" for p
  proof -
    have "req_at s' p = req_at s p" using old [of p] rp that by (cases "p = r") auto
    moreover have "c \<noteq> r" if "c \<in> set (req_children (req_at s p))" for c
      using pool(4) [OF \<open>p \<in> parents s\<close>] rV that by (auto simp: parent_ok_def)
    ultimately show ?thesis using pool(4) [OF that] by (auto simp: parent_ok_def old)
  qed
  have lv: "leaves T s' = leaves T s" by (simp add: leaves_def tr_leaves_def s')
  have acct: "acct (L + ucb cb) (M + ucb cb) s' (leaves T s @ r # H)"
  proof -
    have "image_mset (\<lambda>j. ucb (req_cb (req_at s' j))) (mset (leaves T s @ H) + mset_set (parents s))
        = image_mset (\<lambda>j. ucb (req_cb (req_at s j))) (mset (leaves T s @ H) + mset_set (parents s))"
      using rV rp by (intro image_mset_cong) (metis Un_iff elem_mset_set finite_parents old set_mset_mset set_mset_union)
    then have "pend s' (mset (leaves T s @ r # H)) = pend s (mset (leaves T s @ H)) + ucb cb"
      by (simp add: pend_def par q union_ac)
    moreover have "user_calls s' = user_calls s" by (simp add: s')
    ultimately show ?thesis using pool(5) by (simp add: acct_def)
  qed
  have "pool_ok (L + ucb cb) (M + ucb cb) s' rs (leaves T s @ r # H) D"
    unfolding pool_ok_def
  proof (intro conjI ballI)
    show "distinct (rs @ (leaves T s @ r # H) @ D)" using pool(1) fr by auto
    show "j < length (reqs s')" and "req_child_reqs (req_at s' j) = 0" if "j \<in> set (rs @ (leaves T s @ r # H) @ D)" for j
      using that pool(2) [of j] rl len q old [of j] fr by (cases "j = r"; force)+
    show "leaf_ok s' j" if "j \<in> set (leaves T s @ r # H)" for j using that leaf leafr by auto
    show "parent_ok s' (set (leaves T s @ r # H)) p" if "p \<in> parents s'" for p using pok that par by auto
    show "acct (L + ucb cb) (M + ucb cb) s' (leaves T s @ r # H)" by (rule acct)
  qed
  then have "pool_ok (L + ucb cb) (M + ucb cb) s' (free_req s') (leaves T s' @ r # H) D" using lv by (simp add: s')
  then show ?thesis by (rule qinv_repool [OF inv]) (use qinvD(1) [OF inv] in \<open>simp_all add: s' ring_ok_def\<close>)
qed

text \<open>
  A completed child \<open>c\<close> leaves its parent \<open>p\<close>: first the facts about both, then that the other leaves keep their links and the other parents their
  children, and what is still pending.
\<close>

abbreviation child_removed :: "nat \<Rightarrow> nat \<Rightarrow> qctx \<Rightarrow> qctx" where
  "child_removed p c \<equiv> upd_req p (\<lambda>q. q\<lparr>req_child_reqs := req_child_reqs q - 1, req_children := remove1 c (req_children q)\<rparr>)"

lemma remove_child_facts:
  assumes inv: "qinv L M G s (c # H) D T" and cb: "req_cb (req_at s c) = CbCompleteChild c" and p: "req_parent (req_at s c) = Some p"
    and s': "s' = child_removed p c s"
  shows "p \<in> parents s" "c \<in> set (req_children (req_at s p))" "p < length (reqs s)" "req_child_reqs (req_at s p) \<noteq> 0"
    "parent_ok s (set (leaves T s @ c # H)) p" "p \<notin> set (free_req s @ (leaves T s @ c # H) @ D)"
    "req_at s' p = (req_at s p)\<lparr>req_child_reqs := req_child_reqs (req_at s p) - 1, req_children := remove1 c (req_children (req_at s p))\<rparr>"
    "\<And>j. j \<noteq> p \<Longrightarrow> req_at s' j = req_at s j" "length (reqs s') = length (reqs s)" "qp_id s' = qp_id s"
    "unat (req_child_reqs (req_at s' p)) = length (remove1 c (req_children (req_at s p)))"
proof -
  note pool = pool_okD [OF qinvD(3) [OF inv]]
  have c: "leaf_ok s c" "c < length (reqs s)" "req_child_reqs (req_at s c) = 0" using pool(2) [of c] pool(3) [of c] by auto
  then show pp: "p \<in> parents s" using cb p by (auto simp: leaf_ok_def linked_def)
  show cp: "c \<in> set (req_children (req_at s p))" using c(1) cb p by (auto simp: leaf_ok_def linked_def)
  show pl: "p < length (reqs s)" "req_child_reqs (req_at s p) \<noteq> 0" using pp by (auto simp: parents_def)
  show pok: "parent_ok s (set (leaves T s @ c # H)) p" using pool(4) [OF pp] .
  show q: "req_at s' p = (req_at s p)\<lparr>req_child_reqs := req_child_reqs (req_at s p) - 1,
      req_children := remove1 c (req_children (req_at s p))\<rparr>"
    using pl by (simp add: s' req_at_upd_req)
  show "req_at s' j = req_at s j" if "j \<noteq> p" for j using that by (simp add: s')
  show "length (reqs s') = length (reqs s)" "qp_id s' = qp_id s" by (simp_all add: s')
  show "unat (req_child_reqs (req_at s' p)) = length (remove1 c (req_children (req_at s p)))"
    using pok pl(2) cp by (simp add: q parent_ok_def unat_minus_one length_remove1)
  show "p \<notin> set (free_req s @ (leaves T s @ c # H) @ D)" using pool(2) [of p] pl(2) by auto
qed

lemma remove_child_leaf:
  assumes inv: "qinv L M G s (c # H) D T" and cb: "req_cb (req_at s c) = CbCompleteChild c" and p: "req_parent (req_at s c) = Some p"
    and s': "s' = child_removed p c s" and j: "j \<in> set (leaves T s @ H)"
  shows "leaf_ok s' j"
proof -
  note pool = pool_okD [OF qinvD(3) [OF inv]]
  note f = remove_child_facts [OF inv cb p s']
  have j: "leaf_ok s j" "j \<noteq> p" "j \<noteq> c" using pool(1) pool(3) [of j] j f(6) by auto
  have "\<exists>x\<in>parents s'. req_parent (req_at s' j) = Some x \<and> j \<in> set (req_children (req_at s' x))"
    if "req_cb (req_at s j) = CbCompleteChild k" for k
  proof -
    from j(1) that obtain x where x: "x \<in> parents s" "req_parent (req_at s j) = Some x" "j \<in> set (req_children (req_at s x))"
      by (auto simp: leaf_ok_def linked_def)
    show ?thesis
    proof (cases "x = p")
      case True
      then have jin: "j \<in> set (remove1 c (req_children (req_at s p)))" using x(3) j(3) by simp
      then have "unat (req_child_reqs (req_at s' p)) \<noteq> 0" using f(11) by (metis length_pos_if_in_set less_numeral_extra(3))
      then have "p \<in> parents s'" using f(3,9) by (auto simp: parents_def)
      then show ?thesis using jin x(2) True j(2) by (intro bexI [of _ p]) (simp_all add: f(7,8))
    next
      case False
      then have "x \<in> parents s'" using x(1) f(9) by (simp add: parents_def f(8))
      then show ?thesis using x False j(2) by (intro bexI [of _ x]) (simp_all add: f(8))
    qed
  qed
  then show ?thesis using j by (auto simp: leaf_ok_def linked_def f(8,10) nvme_qpair_is_io_queue_def)
qed

lemma remove_child_parent:
  assumes inv: "qinv L M G s (c # H) D T" and cb: "req_cb (req_at s c) = CbCompleteChild c" and p: "req_parent (req_at s c) = Some p"
    and s': "s' = child_removed p c s" and x: "x \<in> parents s'"
  shows "parent_ok s' (set (leaves T s @ H)) x"
proof (cases "x = p")
  note f = remove_child_facts [OF inv cb p s']
  {
    case True
    have "distinct (req_children (req_at s p))" using f(5) by (simp add: parent_ok_def)
    moreover have "k \<noteq> p" if "k \<in> set (req_children (req_at s p))" for k
      using f(5,6) that by (auto simp: parent_ok_def)
    ultimately show ?thesis using f(5,11) True by (auto simp: parent_ok_def f(7,8))
  next
    case False
    note pool = pool_okD [OF qinvD(3) [OF inv]]
    have x: "x \<in> parents s" using x False f(9) by (simp add: parents_def f(8))
    have "parent_ok s (set (leaves T s @ c # H)) x" using pool(4) [OF x] .
    moreover have "k \<noteq> c \<and> k \<noteq> p" if "k \<in> set (req_children (req_at s x))" for k
      using pool(4) [OF x] that p f(6) False by (auto simp: parent_ok_def)
    ultimately show ?thesis using False by (auto simp: parent_ok_def f(8))
  }
qed

lemma remove_child_acct:
  assumes inv: "qinv L M G s (c # H) D T" and cb: "req_cb (req_at s c) = CbCompleteChild c" and p: "req_parent (req_at s c) = Some p"
    and s': "s' = child_removed p c s" and u: "u = (if req_child_reqs (req_at s' p) = 0 then ucb (req_cb (req_at s p)) else {#})"
  shows "acct (L - u) (M - u) s' (leaves T s @ H)" "u \<subseteq># M" "acct {#} M s' (leaves T s @ H)"
proof -
  note f = remove_child_facts [OF inv cb p s']
  have ps': "parents s' = (if req_child_reqs (req_at s' p) = 0 then parents s - {p} else parents s)"
    using f(1,8,9) by (auto simp: parents_def) metis+
  have cbs: "req_cb (req_at s' j) = req_cb (req_at s j)" for j using f(7) f(8) [of j] by (cases "j = p") auto
  have "mset_set (parents s) = add_mset p (mset_set (parents s - {p}))" using f(1) by (simp add: mset_set.remove)
  then have "pend s (mset (leaves T s @ c # H)) = pend s' (mset (leaves T s @ H)) + u"
    using cb by (simp add: pend_def ps' cbs u union_ac)
  then have "L \<subseteq># (mset (map fst (user_calls s')) + pend s' (mset (leaves T s @ H))) + u"
    "(mset (map fst (user_calls s')) + pend s' (mset (leaves T s @ H))) + u \<subseteq># M"
    using pool_okD(5) [OF qinvD(3) [OF inv]] by (simp_all add: acct_def s' union_assoc)
  note itv = mset_interval_diff [OF this]
  show "acct (L - u) (M - u) s' (leaves T s @ H)" "u \<subseteq># M" using itv by (simp_all add: acct_def)
  show "acct {#} M s' (leaves T s @ H)"
    using itv(3) unfolding acct_def by (auto intro: subset_mset.order_trans [OF _ diff_subset_eq_self])
qed

lemma qinv_remove_child:
  assumes inv: "qinv L M G s (c # H) D T" and cb: "req_cb (req_at s c) = CbCompleteChild c" and p: "req_parent (req_at s c) = Some p"
    and s': "s' = upd_req p (\<lambda>q. q\<lparr>req_child_reqs := req_child_reqs q - 1, req_children := remove1 c (req_children q)\<rparr>) s"
  shows "p \<in> parents s" and "nvme_request_remove_child p c s = Inr s'" and "plain_cb (req_cb (req_at s p))"
    and "req_child_reqs (req_at s' p) \<noteq> 0 \<Longrightarrow> qinv L M G s' H (c # D) T"
    and "req_child_reqs (req_at s' p) = 0 \<Longrightarrow> qinv (L - ucb (req_cb (req_at s p))) (M - ucb (req_cb (req_at s p))) G s' H (c # p # D) T"
    and "req_child_reqs (req_at s' p) = 0 \<Longrightarrow> ucb (req_cb (req_at s p)) \<subseteq># M"
    and "qinv {#} M G s' H (c # D) T"
proof -
  note pool = pool_okD [OF qinvD(3) [OF inv]]
  note f = remove_child_facts [OF inv cb p s']
  note link = remove_child_leaf [OF inv cb p s'] and par = remove_child_parent [OF inv cb p s'] and acct = remove_child_acct [OF inv cb p s' refl]
  show "p \<in> parents s" by (rule f(1))
  show "plain_cb (req_cb (req_at s p))" using f(5) by (simp add: parent_ok_def)
  show "nvme_request_remove_child p c s = Inr s'" using p f(4) by (simp add: nvme_request_remove_child_def s')
  have lv: "leaves T s' = leaves T s" by (simp add: leaves_def tr_leaves_def s')
  have rng: "j < length (reqs s') \<and> req_child_reqs (req_at s' j) = 0"
    if "j \<in> set (free_req s @ (leaves T s @ H) @ c # D)" for j
    using that pool(2) [of j] f(6,9) by (cases "j = p") (auto simp: f(8))
  have dis: "distinct (free_req s @ (leaves T s @ H) @ c # D)" using pool(1) by auto
  have repool: "qinv L' M' G s' H D' T" if "pool_ok L' M' s' (free_req s) (leaves T s @ H) D'" for L' M' D'
    by (rule qinv_repool [OF inv]) (use that lv qinvD(1) [OF inv] in \<open>simp_all add: s' ring_ok_def\<close>)
  show "qinv L M G s' H (c # D) T" if "req_child_reqs (req_at s' p) \<noteq> 0"
    by (rule repool) (use link par rng dis acct that in \<open>auto simp: pool_ok_def\<close>)
  show "qinv {#} M G s' H (c # D) T" by (rule repool) (use link par rng dis acct(3) in \<open>auto simp: pool_ok_def\<close>)
  show "qinv (L - ucb (req_cb (req_at s p))) (M - ucb (req_cb (req_at s p))) G s' H (c # p # D) T" if "req_child_reqs (req_at s' p) = 0"
    by (rule repool) (use link par rng dis that f(3,6,9) acct in \<open>auto simp: pool_ok_def\<close>)
  show "ucb (req_cb (req_at s p)) \<subseteq># M" if "req_child_reqs (req_at s' p) = 0" using acct(2) that by simp
qed

text \<open>Trackers: taking a free one for a held request, detaching its request, and giving it back.\<close>

definition tr_static :: "nvme_tracker \<Rightarrow> nvme_tracker \<Rightarrow> bool" where
  "tr_static x y \<longleftrightarrow> tr_cid y = tr_cid x \<and> length (tr_prp y) = length (tr_prp x) \<and> length (tr_sgl y) = length (tr_sgl x)"

lemma trk_ok_upd:
  assumes "trk_ok s" and "t < trackers s" and "tr_static (tr_at s t) (f (tr_at s t))"
    and "tr_active (f (tr_at s t)) \<Longrightarrow> t \<in> set (outstanding_tr s)"
  shows "trk_ok (upd_tr t f s)"
proof -
  have "t < length (qp_tr s)" using assms(1,2) by (simp add: trk_ok_def)
  note at = tr_at_upd_tr [OF this, of f]
  show ?thesis using assms unfolding trk_ok_def by (auto simp: at tr_static_def)
qed

lemma trk_ok_cong:
  assumes "trk_ok s" and "qp_tr s' = qp_tr s" "trackers s' = trackers s" "free_tr s' = free_tr s"
    "outstanding_tr s' = outstanding_tr s"
  shows "trk_ok s'"
  using assms by (simp add: trk_ok_def)

lemma qinv_attach:
  assumes inv: "qinv L M G s (r # H) D T" and fr: "free_tr s = t # ts" and tr: "tr_static (tr_at s t) x"
    "tr_req x = Some r" "\<not> tr_active x"
    and s': "same_cores s s'" "s' = upd_tr t (\<lambda>_. x) (s\<lparr>free_tr := ts, outstanding_tr := t # outstanding_tr s, reqs := reqs s'\<rparr>)"
  shows "qinv L M G s' H D T"
proof -
  note trk = trk_okD [OF qinvD(2) [OF inv]]
  have t: "t \<in> set (free_tr s)" "t < trackers s" "t \<notin> set (outstanding_tr s)" using trk(4) trk(7) [of t] fr by auto
  then have tl: "t < length (qp_tr s)" using trk(1) by simp
  have tT: "t \<notin> T" using qinvD(5) [OF inv, of t] t(3) by auto
  define s1 where "s1 = s\<lparr>free_tr := ts, outstanding_tr := t # outstanding_tr s, reqs := reqs s'\<rparr>"
  have s1: "s' = upd_tr t (\<lambda>_. x) s1" using s'(2) by (simp only: s1_def)
  have f: "free_tr s' = ts" "outstanding_tr s' = t # outstanding_tr s" "trackers s' = trackers s" "queued_req s' = queued_req s"
    "free_req s' = free_req s"
    by (simp_all only: s1 upd_tr_simps) (simp_all add: s1_def)
  have at: "tr_at s' i = (if i = t then x else tr_at s i)" for i
    using tl unfolding s1 by (subst tr_at_upd_tr) (simp_all add: s1_def)
  have "trk_ok s1" using qinvD(2) [OF inv] fr t unfolding trk_ok_def s1_def by auto
  then have trk': "trk_ok s'"
    unfolding s1 by (rule trk_ok_upd) (use t tr in \<open>auto simp: s1_def\<close>)
  have "map (\<lambda>i. the (tr_req (tr_at s' i))) (filter (\<lambda>i. i \<notin> T) (outstanding_tr s)) = tr_leaves T s"
    unfolding tr_leaves_def using t(3) by (intro map_cong) (auto simp: at)
  then have lv: "leaves T s' = queued_req s @ r # tr_leaves T s"
    using tT tr(2) by (simp add: leaves_def tr_leaves_def f at)
  have "pool_ok L M s (free_req s) (leaves T s' @ H) D"
    using qinvD(3) [OF inv] by (rule pool_ok_perm [rotated 3]) (auto simp: lv leaves_def [of T s])
  then have "pool_ok L M s' (free_req s') (leaves T s' @ H) D" using pool_ok_cong [OF s'(1)] by (simp add: f)
  moreover have "ring_ok s'"
    using qinvD(1) [OF inv] by (rule ring_ok_cong) (simp_all only: s1 upd_tr_simps, simp_all add: s1_def)
  moreover have "i \<in> set (outstanding_tr s') \<and> i \<notin> T \<and> tr_at s' i = y" if "G i = Some y" for i y
    using qinvD(6) [OF inv that] t(3) by (auto simp: f at)
  ultimately show ?thesis
    using trk' qinvD(4,5) [OF inv] t(3) tr by (auto simp: qinv_def req_ok_def f at)
qed

lemma qinv_upd_tr:
  assumes inv: "qinv L M G s H D T" and t: "t \<in> set (outstanding_tr s)" "t \<notin> T" and tG: "G t = None"
    and f: "tr_static (tr_at s t) (f (tr_at s t))" "tr_req (f (tr_at s t)) = tr_req (tr_at s t)"
  shows "qinv L M G (upd_tr t f s) H D T"
proof -
  have tl: "t < trackers s" "t < length (qp_tr s)" using t(1) trk_okD(1,6) [OF qinvD(2) [OF inv]] by auto
  have at: "tr_req (tr_at (upd_tr t f s) i) = tr_req (tr_at s i)" for i
    using f(2) by (simp add: tr_at_upd_tr [OF tl(2)])
  have lv: "leaves T (upd_tr t f s) = leaves T s" by (simp add: leaves_def tr_leaves_def at)
  have "trk_ok (upd_tr t f s)" by (rule trk_ok_upd) (use qinvD(2) [OF inv] tl t f in auto)
  moreover have "pool_ok L M (upd_tr t f s) (free_req s) (leaves T s @ H) D"
    using qinvD(3) [OF inv] by (subst pool_ok_cong [of s]) (auto intro: same_cores_eq)
  moreover have "ring_ok (upd_tr t f s)" using qinvD(1) [OF inv] by (simp add: ring_ok_def)
  moreover have "tr_at (upd_tr t f s) i = tr_at s i" if "i \<in> T" for i using that t(2) by (metis tr_at_upd_tr_other)
  moreover have "i \<in> set (outstanding_tr s) \<and> i \<notin> T \<and> tr_at (upd_tr t f s) i = y" if "G i = Some y" for i y
    using qinvD(6) [OF inv that] tG that by (cases "i = t") auto
  ultimately show ?thesis using qinvD(4,5) [OF inv] by (auto simp: qinv_def req_ok_def lv at)
qed

lemma qinv_detach:
  assumes inv: "qinv L M G s H D T" and t: "t \<in> set (outstanding_tr s)" "t \<notin> T" and tG: "G t = None"
    and r: "tr_req (tr_at s t) = Some r" and a: "\<not> tr_active (tr_at s t)"
  shows "qinv L M G s (r # H) D (insert t T)"
proof -
  have dis: "distinct (outstanding_tr s)" using trk_okD(3) [OF qinvD(2) [OF inv]] .
  then obtain us vs where o: "outstanding_tr s = us @ t # vs" "t \<notin> set us" "t \<notin> set vs"
    using split_list [OF t(1)] by auto
  have "filter (\<lambda>i. i \<notin> insert t T) us = filter (\<lambda>i. i \<notin> T) us" "filter (\<lambda>i. i \<notin> insert t T) vs = filter (\<lambda>i. i \<notin> T) vs"
    using o(2,3) by (auto intro: filter_cong)
  then have "mset (tr_leaves T s) = add_mset r (mset (tr_leaves (insert t T) s))"
    using t(2) r by (simp add: tr_leaves_def o)
  then have "pool_ok L M s (free_req s) (leaves (insert t T) s @ r # H) D"
    using qinvD(3) [OF inv] by (auto elim!: pool_ok_perm [rotated 3] simp: leaves_def)
  then show ?thesis using inv t a tG by (auto simp: qinv_def req_ok_def)
qed

lemma qinv_release:
  assumes inv: "qinv L M G s H D T" and t: "t \<in> T"
    and s': "s' = (upd_tr t (\<lambda>x. x\<lparr>tr_req := None\<rparr>) s)\<lparr>outstanding_tr := remove1 t (outstanding_tr s), free_tr := t # remove1 t (free_tr s)\<rparr>"
  shows "qinv L M G s' H D (T - {t})" and "t \<notin> set (free_tr s)"
proof -
  note trk = trk_okD [OF qinvD(2) [OF inv]]
  have to: "t \<in> set (outstanding_tr s)" "\<not> tr_active (tr_at s t)" using qinvD(5) [OF inv t] by auto
  then have tl: "t < trackers s" "t < length (qp_tr s)" using trk(1,6) by auto
  show tf: "t \<notin> set (free_tr s)" using to(1) trk(4) by auto
  then have rf: "remove1 t (free_tr s) = free_tr s" by (simp add: remove1_idem)
  have at: "tr_at s' i = (if i = t then (tr_at s t)\<lparr>tr_req := None\<rparr> else tr_at s i)" for i
    by (simp add: s' tr_at_upd_tr [OF tl(2)])
  have f: "outstanding_tr s' = remove1 t (outstanding_tr s)" "free_tr s' = t # free_tr s" "trackers s' = trackers s"
    "length (qp_tr s') = length (qp_tr s)" "free_req s' = free_req s" "queued_req s' = queued_req s"
    by (simp_all add: s' rf)
  have so: "set (outstanding_tr s') = set (outstanding_tr s) - {t}" using trk(3) by (simp add: f)
  have "trk_ok s'"
    using qinvD(2) [OF inv] tf to tl unfolding trk_ok_def f at so by (auto simp: f distinct_remove1)
  moreover have "tr_leaves (T - {t}) s' = tr_leaves T s"
  proof -
    have "filter (\<lambda>i. i \<notin> T - {t}) (remove1 t (outstanding_tr s)) = filter (\<lambda>i. i \<notin> T) (outstanding_tr s)"
      using trk(3) t by (simp add: distinct_remove1_removeAll removeAll_filter_not_eq) (rule filter_cong, auto)
    then show ?thesis unfolding tr_leaves_def f using t by (intro map_cong) (auto simp: at)
  qed
  then have "leaves (T - {t}) s' = leaves T s" by (simp add: leaves_def f)
  then have "pool_ok L M s' (free_req s') (leaves (T - {t}) s' @ H) D"
    using qinvD(3) [OF inv] by (subst pool_ok_cong [of s]) (auto intro!: same_cores_eq simp: f s')
  moreover have "ring_ok s'" using qinvD(1) [OF inv] by (simp add: ring_ok_def s')
  moreover have "i \<in> set (outstanding_tr s') \<and> i \<notin> T - {t} \<and> tr_at s' i = y" if "G i = Some y" for i y
    using qinvD(6) [OF inv that] t by (auto simp: so at)
  moreover have "\<forall>i\<in>set (outstanding_tr s') - (T - {t}). tr_req (tr_at s' i) \<noteq> None"
    "\<forall>i\<in>T - {t}. i \<in> set (outstanding_tr s') \<and> \<not> tr_active (tr_at s' i)"
    using qinvD(4,5) [OF inv] by (auto simp: so at)
  ultimately show "qinv L M G s' H D (T - {t})" by (auto simp: qinv_def req_ok_def)
qed

subsection \<open>Specifications of the calls\<close>

text \<open>A computation returns a value and a state that satisfy \<open>Q\<close>.\<close>

definition returns :: "(int \<times> qctx) res \<Rightarrow> (int \<Rightarrow> qctx \<Rightarrow> bool) \<Rightarrow> bool" where
  "returns r Q \<longleftrightarrow> (\<exists>v s'. r = Inr (v, s') \<and> Q v s')"

lemma returns_Inr [simp]: "returns (Inr (v, s)) Q \<longleftrightarrow> Q v s"
  by (simp add: returns_def)

lemma returns_rbind:
  assumes "returns r Q" and "\<And>v s. Q v s \<Longrightarrow> returns (f (v, s)) P"
  shows "returns (rbind r f) P"
  using assms by (auto simp: returns_def)

lemma returns_mono: "returns r Q \<Longrightarrow> (\<And>v s. Q v s \<Longrightarrow> P v s) \<Longrightarrow> returns r P"
  by (auto simp: returns_def)

definition calm :: "qctx \<Rightarrow> bool" where
  "calm s \<longleftrightarrow> qp_enabled s \<or> ct_resetting s"

definition quiet :: "qctx \<Rightarrow> bool" where
  "quiet s \<longleftrightarrow> calm s \<or> ct_failed s"

definition sealed :: "qctx \<Rightarrow> bool" where
  "sealed s \<longleftrightarrow> nvme_qpair_is_io_queue s \<or> ct_failed s"

text \<open>
  What no call changes, for a running code that holds the requests \<open>H\<close>: the held requests, and the parents all of
  whose children are held.
\<close>

definition static :: "qctx \<Rightarrow> nat \<times> nat \<times> u16 \<times> nat \<times> bool \<times> bool \<times> bool \<times> (nat \<Rightarrow> u64) \<times> nat \<times> bool \<times> nvme_cpl list" where
  "static s = (entries s, trackers s, qp_id s, length (reqs s), ct_failed s, ct_resetting s, ct_sgl_supported s,
     ct_vtophys s, cq_head s, phase s, qp_cpl s)"

definition kept :: "nat list \<Rightarrow> qctx \<Rightarrow> nat set" where
  "kept H s = set H \<union> {p\<in>parents s. set (req_children (req_at s p)) \<subseteq> set H}"

definition step :: "nat list \<Rightarrow> qctx \<Rightarrow> qctx \<Rightarrow> bool" where
  "step H s s' \<longleftrightarrow> static s' = static s \<and> (qp_enabled s \<longrightarrow> qp_enabled s') \<and> (\<exists>us. user_calls s' = user_calls s @ us)
     \<and> (\<forall>h\<in>kept H s. req_at s' h = req_at s h)"

lemma step_refl [simp]: "step H s s"
  by (simp add: step_def)

lemma step_trans:
  assumes "step H s s'" and "step H s' s''"
  shows "step H s s''"
proof -
  have f: "static s' = static s" "\<forall>h\<in>kept H s. req_at s' h = req_at s h" "\<forall>h\<in>kept H s'. req_at s'' h = req_at s' h"
    using assms by (simp_all add: step_def)
  have "kept H s \<subseteq> kept H s'" using f(1,2) by (auto simp: kept_def parents_def static_def)
  then have "\<forall>h\<in>kept H s. req_at s'' h = req_at s h" using f(2,3) by (metis subsetD)
  moreover have "\<exists>us. user_calls s'' = user_calls s @ us" using assms unfolding step_def by (metis append.assoc)
  moreover have "static s'' = static s" "qp_enabled s \<longrightarrow> qp_enabled s''" using assms by (simp_all add: step_def)
  ultimately show ?thesis by (simp only: step_def)
qed

lemma step_mono:
  assumes "step H s s'" and "set H' \<subseteq> set H"
  shows "step H' s s'"
proof -
  have "kept H' s \<subseteq> kept H s" using assms(2) by (auto simp: kept_def)
  then show ?thesis using assms(1) unfolding step_def by blast
qed

lemma stepD:
  assumes "step H s s'"
  shows "entries s' = entries s" "trackers s' = trackers s" "qp_id s' = qp_id s" "ct_failed s' = ct_failed s"
    "ct_resetting s' = ct_resetting s" "ct_vtophys s' = ct_vtophys s" "cq_head s' = cq_head s" "phase s' = phase s"
    "qp_cpl s' = qp_cpl s" "qp_enabled s \<Longrightarrow> qp_enabled s'" "h \<in> set H \<Longrightarrow> req_at s' h = req_at s h"
    "\<exists>us. user_calls s' = user_calls s @ us" "nvme_qpair_is_io_queue s' = nvme_qpair_is_io_queue s"
    "length (reqs s') = length (reqs s)"
  using assms by (simp_all add: step_def static_def nvme_qpair_is_io_queue_def kept_def)

lemma step_calm: "step H s s' \<Longrightarrow> calm s \<Longrightarrow> calm s'"
  using stepD(5,10) unfolding calm_def by metis

lemma step_quiet: "step H s s' \<Longrightarrow> quiet s \<Longrightarrow> quiet s'"
  using step_calm stepD(4) unfolding quiet_def by metis

lemma step_sealed: "step H s s' \<Longrightarrow> sealed s' = sealed s"
  using stepD(4,13) unfolding sealed_def by metis

lemma step_upd_tr [simp]: "step H s (upd_tr t f s') \<longleftrightarrow> step H s s'"
  by (simp add: step_def static_def)

lemma step_upd_req:
  assumes "r \<notin> kept H s"
  shows "step H s (upd_req r f s') \<longleftrightarrow> step H s s'"
proof -
  have "(\<forall>h\<in>kept H s. req_at (upd_req r f s') h = req_at s h) \<longleftrightarrow> (\<forall>h\<in>kept H s. req_at s' h = req_at s h)"
    using assms by (metis req_at_upd_req_other)
  then show ?thesis by (simp add: step_def static_def)
qed

lemma kept_leaf: "r \<notin> set H \<Longrightarrow> req_child_reqs (req_at s r) = 0 \<Longrightarrow> r \<notin> kept H s"
  by (auto simp: kept_def parents_def)

lemma kept_parent: "r \<notin> set H \<Longrightarrow> c \<in> set (req_children (req_at s r)) \<Longrightarrow> c \<notin> set H \<Longrightarrow> r \<notin> kept H s"
  by (auto simp: kept_def)

definition B :: nat where "B = NVME_MAX_XFER_SIZE"

text \<open>
  The specification of each call with \<open>n\<close> units of fuel. A call that may grow the queue or the list of outstanding
  trackers adds \<open>ys\<close> at the end of the one and \<open>xs\<close> in front of the other.
\<close>

definition spec_cb :: "nat \<Rightarrow> bool" where
  "spec_cb n \<longleftrightarrow> (\<forall>L M G s H D T r cpl. qinv L M G s (r # H) D T \<longrightarrow> quiet s \<longrightarrow> 5 \<le> n \<longrightarrow>
     returns (exec n (CallCb (req_cb (req_at s r)) cpl) s)
       (\<lambda>v s'. qinv L M G s' H (r # D) T \<and> step H s s' \<and>
          (\<exists>xs ys. queued_req s' = queued_req s @ ys \<and> length ys \<le> 1 \<and> outstanding_tr s' = xs @ outstanding_tr s
             \<and> (\<not> is_aer (req_cb (req_at s r)) \<or> ct_failed s \<longrightarrow> xs = [] \<and> ys = []))))"

definition spec_aer :: "nat \<Rightarrow> bool" where
  "spec_aer n \<longleftrightarrow> (\<forall>L M G s H D T i. qinv L M G s H D T \<longrightarrow> quiet s \<longrightarrow> \<not> nvme_qpair_is_io_queue s \<longrightarrow> 4 \<le> n \<longrightarrow>
     returns (exec n (SubmitAer i) s)
       (\<lambda>v s'. qinv L M G s' H D T \<and> step H s s' \<and>
          (\<exists>xs ys. queued_req s' = queued_req s @ ys \<and> length ys \<le> 1 \<and> outstanding_tr s' = xs @ outstanding_tr s
             \<and> (ct_failed s \<longrightarrow> xs = [] \<and> ys = []))))"

definition spec_submit0 :: "nat \<Rightarrow> bool" where
  "spec_submit0 n \<longleftrightarrow> (\<forall>L M G s H D T r. qinv L M G s (r # H) D T \<longrightarrow> quiet s \<longrightarrow> req_payload_size (req_at s r) = 0 \<longrightarrow>
     is_aer (req_cb (req_at s r)) \<longrightarrow> 3 \<le> n \<longrightarrow>
     returns (exec n (SubmitRequest r) s)
       (\<lambda>v s'. qinv L M G s' H D T \<and> step H s s' \<and>
          (\<exists>xs ys. queued_req s' = queued_req s @ ys \<and> length ys \<le> 1 \<and> outstanding_tr s' = xs @ outstanding_tr s
             \<and> (ct_failed s \<longrightarrow> xs = [] \<and> ys = []))))"

definition spec_leaf0 :: "nat \<Rightarrow> bool" where
  "spec_leaf0 n \<longleftrightarrow> (\<forall>L M G s H D T r. qinv L M G s (r # H) D T \<longrightarrow> req_payload_size (req_at s r) = 0 \<longrightarrow> 1 \<le> n \<longrightarrow>
     returns (exec n (SubmitLeaf r) s)
       (\<lambda>v s'. qinv L M G s' H D T \<and> step H s s' \<and>
          (\<exists>xs ys. queued_req s' = queued_req s @ ys \<and> length ys \<le> 1 \<and> outstanding_tr s' = xs @ outstanding_tr s)))"

definition spec_leaf :: "nat \<Rightarrow> bool" where
  "spec_leaf n \<longleftrightarrow> (\<forall>L M G s H D T r. qinv L M G s (r # H) D T \<longrightarrow> calm s \<longrightarrow> \<not> ct_failed s \<longrightarrow>
     B + 11 + 4 * length (queued_req s) \<le> n \<longrightarrow>
     returns (exec n (SubmitLeaf r) s)
       (\<lambda>v s'. qinv L M G s' H D T \<and> step H s s' \<and> length (queued_req s') \<le> length (queued_req s) + 1
          \<and> (\<exists>xs. outstanding_tr s' = xs @ outstanding_tr s)))"

definition retries :: "qctx \<Rightarrow> nat \<Rightarrow> nvme_cpl \<Rightarrow> bool" where
  "retries s t cpl \<longleftrightarrow> nvme_cpl_is_error cpl \<and> nvme_qpair_completion_retry cpl
     \<and> req_retries (req_at s (the (tr_req (tr_at s t)))) < NVME_MAX_RETRY_COUNT"

definition tr_is_aer :: "qctx \<Rightarrow> nat \<Rightarrow> bool" where
  "tr_is_aer s t \<longleftrightarrow> is_aer (req_cb (req_at s (the (tr_req (tr_at s t)))))"

definition spec_tracker :: "nat \<Rightarrow> bool" where
  "spec_tracker n \<longleftrightarrow> (\<forall>L M G s H D T t cpl. qinv L M G s H D T \<longrightarrow> quiet s \<longrightarrow> t \<in> set (outstanding_tr s) \<longrightarrow> t \<notin> T \<longrightarrow> G t = None \<longrightarrow>
     unat (cpl_cid cpl) = t \<longrightarrow> (ct_failed s \<longrightarrow> queued_req s = []) \<longrightarrow>
     B + 10 + 4 * (length (queued_req s) + (if tr_is_aer s t then 1 else 0)) \<le> n \<longrightarrow>
     returns (exec n (CompleteTracker t cpl) s)
       (\<lambda>v s'. qinv L M G s' H D T \<and> step H s s'
          \<and> length (queued_req s') \<le> length (queued_req s) + (if tr_is_aer s t then 1 else 0)
          \<and> (\<exists>xs. outstanding_tr s' = xs @ (if retries s t cpl then outstanding_tr s else remove1 t (outstanding_tr s))
               \<and> (sealed s \<and> queued_req s = [] \<longrightarrow> xs = [] \<and> queued_req s' = []))))"

definition spec_done :: "nat \<Rightarrow> bool" where
  "spec_done n \<longleftrightarrow> (\<forall>L M G s H D T t. qinv L M G s H D T \<longrightarrow> quiet s \<longrightarrow> t \<in> T \<longrightarrow>
     (ct_failed s \<longrightarrow> queued_req s = []) \<longrightarrow> B + 9 + 4 * length (queued_req s) \<le> n \<longrightarrow>
     returns (exec n (CompleteDone t) s)
       (\<lambda>v s'. qinv L M G s' H D (T - {t}) \<and> step H s s' \<and> length (queued_req s') \<le> length (queued_req s)
          \<and> (\<exists>xs. outstanding_tr s' = xs @ remove1 t (outstanding_tr s) \<and> (queued_req s = [] \<longrightarrow> xs = []))))"

definition can_enable :: "qctx \<Rightarrow> nat set \<Rightarrow> bool" where
  "can_enable s T \<longleftrightarrow> T = {} \<and> (ct_resetting s \<or> nvme_qpair_is_io_queue s \<or> outstanding_tr s = [])
     \<and> (ct_failed s \<longrightarrow> queued_req s = [])"

definition en_fuel :: "qctx \<Rightarrow> nat" where
  "en_fuel s = B + 20 + 5 * length (queued_req s) + 5 * length (outstanding_tr s)"

definition spec_enable :: "nat \<Rightarrow> bool" where
  "spec_enable n \<longleftrightarrow> (\<forall>L M s H D. qinv L M Map.empty s H D {} \<longrightarrow> can_enable s {} \<longrightarrow> en_fuel s \<le> n \<longrightarrow>
     returns (exec n Enable s)
       (\<lambda>v s'. qinv L M Map.empty s' H D {} \<and> step H s s' \<and> qp_enabled s'
          \<and> (nvme_qpair_is_io_queue s \<longrightarrow> queued_req s' = [] \<and> outstanding_tr s' = [])
          \<and> (outstanding_tr s = [] \<longrightarrow> length (queued_req s') \<le> length (queued_req s))))"

definition spec_check :: "nat \<Rightarrow> bool" where
  "spec_check n \<longleftrightarrow> (\<forall>L M G s H D T. qinv L M G s H D T \<longrightarrow> calm s \<or> can_enable s T \<and> G = Map.empty \<longrightarrow> (if calm s then 1 else en_fuel s + 1) \<le> n \<longrightarrow>
     returns (exec n EnabledCheck s)
       (\<lambda>v s'. qinv L M G s' H D T \<and> step H s s' \<and> calm s' \<and> (calm s \<longrightarrow> s' = s) \<and> length (queued_req s') \<le> length (queued_req s)))"

definition spec_submit :: "nat \<Rightarrow> bool" where
  "spec_submit n \<longleftrightarrow> (\<forall>L M G s H D T r. qinv L M G s (r # H) D T \<longrightarrow> calm s \<or> can_enable s T \<and> G = Map.empty \<longrightarrow>
     (ct_failed s \<longrightarrow> (\<forall>c. req_cb (req_at s r) \<noteq> CbCompleteChild c)) \<longrightarrow>
     B + 12 + 4 * length (queued_req s) + (if calm s then 0 else en_fuel s) \<le> n \<longrightarrow>
     returns (exec n (SubmitRequest r) s)
       (\<lambda>v s'. qinv (if ct_failed s then {#} else L) M G s' H D T \<and> step H s s' \<and> length (queued_req s') \<le> length (queued_req s) + 1
          \<and> (calm s \<or> ct_failed s \<longrightarrow> (\<exists>xs. outstanding_tr s' = xs @ outstanding_tr s)) \<and> (calm s' \<or> ct_failed s)))"

definition spec_children :: "nat \<Rightarrow> bool" where
  "spec_children n \<longleftrightarrow> (\<forall>L M G s H D T r cs fl ret. qinv L M G s (cs @ H) D T \<longrightarrow> calm s \<longrightarrow> \<not> ct_failed s \<longrightarrow> (fl \<longrightarrow> ret \<noteq> 0) \<longrightarrow>
     (\<forall>c\<in>set cs. req_parent (req_at s c) = Some r \<and> req_cb (req_at s c) = CbCompleteChild c) \<longrightarrow>
     B + 13 + 4 * length (queued_req s) + 5 * length cs \<le> n \<longrightarrow>
     returns (exec n (SubmitChildren r cs fl ret) s)
       (\<lambda>v s'. qinv (if v = 0 then L else {#}) M G s' H D T \<and> (fl \<longrightarrow> v \<noteq> 0) \<and> step H s s'
          \<and> length (queued_req s') \<le> length (queued_req s) + length cs \<and> (\<exists>xs. outstanding_tr s' = xs @ outstanding_tr s)))"

definition spec_parent :: "nat \<Rightarrow> bool" where
  "spec_parent n \<longleftrightarrow> (\<forall>L M G s H D T r. qinv L M G s (req_children (req_at s r) @ H) D T \<longrightarrow> r \<in> parents s \<longrightarrow>
     calm s \<or> can_enable s T \<and> G = Map.empty \<longrightarrow> \<not> ct_failed s \<longrightarrow>
     B + 14 + 4 * length (queued_req s) + 5 * length (req_children (req_at s r)) + (if calm s then 0 else en_fuel s) \<le> n \<longrightarrow>
     returns (exec n (SubmitRequest r) s)
       (\<lambda>v s'. qinv (if v = 0 then L else {#}) M G s' H D T \<and> step H s s' \<and> calm s'
          \<and> length (queued_req s') \<le> length (queued_req s) + length (req_children (req_at s r))))"

definition spec_abort_queued :: "nat \<Rightarrow> bool" where
  "spec_abort_queued n \<longleftrightarrow> (\<forall>L M G s H D T. qinv L M G s H D T \<longrightarrow> quiet s \<longrightarrow> sealed s \<longrightarrow> 6 + length (queued_req s) \<le> n \<longrightarrow>
     returns (exec n AbortQueued s)
       (\<lambda>v s'. qinv L M G s' H D T \<and> step H s s' \<and> queued_req s' = [] \<and> outstanding_tr s' = outstanding_tr s))"

definition spec_abort_outstanding :: "nat \<Rightarrow> bool" where
  "spec_abort_outstanding n \<longleftrightarrow> (\<forall>L M s H D us vs dnr. qinv L M Map.empty s H D {} \<longrightarrow> quiet s \<longrightarrow> (ct_failed s \<longrightarrow> queued_req s = []) \<longrightarrow>
     outstanding_tr s = us @ vs \<longrightarrow> B + 12 + 4 * length (queued_req s) + 5 * length vs \<le> n \<longrightarrow>
     returns (exec n (AbortOutstanding (list_first vs) dnr) s)
       (\<lambda>v s'. qinv L M Map.empty s' H D {} \<and> step H s s' \<and> length (queued_req s') \<le> length (queued_req s) + length vs
          \<and> (\<exists>xs. outstanding_tr s' = xs @ us \<and> (sealed s \<and> queued_req s = [] \<longrightarrow> xs = [] \<and> queued_req s' = []))
          \<and> (vs = [] \<longrightarrow> s' = s)))"

subsection \<open>Submitting a tracker\<close>

lemma ring_next_less: "i < n \<Longrightarrow> n < 2 ^ 16 \<Longrightarrow> ring_next n i < n"
  by (simp add: ring_next_def Let_def)

lemma submit_tracker_ok:
  assumes inv: "qinv L M G s H D T" and t: "t \<in> set (outstanding_tr s)" "t \<notin> T" and tG: "G t = None"
  shows "\<exists>s'. nvme_qpair_submit_tracker s t = Inr s' \<and> qinv L M G s' H D T \<and> step H s s'
    \<and> queued_req s' = queued_req s \<and> outstanding_tr s' = outstanding_tr s"
proof -
  note trk = trk_okD [OF qinvD(2) [OF inv]]
  obtain r where r: "tr_req (tr_at s t) = Some r" using qinvD(4) [OF inv t] by auto
  have tl: "t < trackers s" using trk(6) t(1) by auto
  then have cid: "unat (tr_cid (tr_at s t)) = t" using trk(8) by auto
  note ring = qinvD(1) [OF inv, unfolded ring_ok_def]
  define s1 where "s1 = upd_tr t (\<lambda>x. x\<lparr>tr_active := True\<rparr>) s"
  define s2 where "s2 = s1\<lparr>qp_cmd := (qp_cmd s)[sq_tail s := req_cmd (req_at s r)], sq_tail := ring_next (entries s) (sq_tail s),
    doorbells := doorbells s @ [SqTail (ring_next (entries s) (sq_tail s))]\<rparr>"
  have sub: "nvme_qpair_submit_tracker s t = Inr s2"
    using r cid tl trk(1) ring by (simp add: nvme_qpair_submit_tracker_def Let_def s2_def s1_def)
  have i1: "qinv L M G s1 H D T"
    unfolding s1_def by (rule qinv_upd_tr [OF inv t tG]) (simp_all add: tr_static_def)
  have "qinv L M G s2 H D T"
    by (rule qinv_cong [OF i1]) (use ring ring_next_less in \<open>auto simp: s2_def s1_def ring_ok_def intro: same_cores_eq\<close>)
  moreover have "step H s s2" by (simp add: step_def static_def s2_def s1_def)
  ultimately show ?thesis using sub by (simp add: s2_def s1_def)
qed

subsection \<open>Submitting a request that is not split\<close>

lemma build_request_ok:
  assumes "payload_ok (req_at s r)" and "length (tr_prp (tr_at s t)) = NVME_MAX_PRP_LIST_ENTRIES"
    and "req_payload_size (req_at s r) \<noteq> 0 \<Longrightarrow> B \<le> fuel"
  shows "\<exists>ret cmd' x. build_request fuel s r t = Inr (ret, cmd', x) \<and> build_frame (req_at s r) (tr_at s t) cmd' x
    \<and> (req_payload_size (req_at s r) = 0 \<longrightarrow> ret = 0)"
proof (cases "req_payload_size (req_at s r) = 0")
  case True
  then show ?thesis by (simp add: build_request_def build_frame_def)
next
  case False
  let ?q = "req_at s r" and ?x = "tr_at s t"
  have sz: "unat (req_payload_size ?q) \<le> NVME_MAX_XFER_SIZE" and f: "B \<le> fuel"
    using assms False by (auto simp: payload_ok_def)
  show ?thesis
  proof (cases "pl_type (req_payload ?q)")
    case NVME_PAYLOAD_TYPE_INVALID
    then show ?thesis using False by (simp add: build_request_def build_frame_def)
  next
    case NVME_PAYLOAD_TYPE_CONTIG
    then have "build_request fuel s r t = build_contig_request (ct_vtophys s) ?q ?x"
      using False by (simp add: build_request_def)
    then show ?thesis
      using False build_contig_total [OF sz assms(2), of "ct_vtophys s"] build_contig_frame [of "ct_vtophys s" ?q ?x] by auto
  next
    case NVME_PAYLOAD_TYPE_SGL
    then obtain g where g: "pl_sgl (req_payload ?q) = Some g" "\<And>off j. snd (snd (g off j)) \<noteq> 0"
      using assms(1) False by (auto simp: payload_ok_def)
    have prps: "\<exists>ret cmd' x. build_prps_sgl_request fuel ?q ?x = Inr (ret, cmd', x)"
      by (rule build_prps_total) (use NVME_PAYLOAD_TYPE_SGL g sz f assms(2) in \<open>auto simp: B_def\<close>)
    have "build_request fuel s r t = (if ct_sgl_supported s then build_hw_sgl_request ?q ?x else build_prps_sgl_request fuel ?q ?x)"
      using False NVME_PAYLOAD_TYPE_SGL by (simp add: build_request_def)
    then show ?thesis
      using False prps build_hw_sgl_total [OF False NVME_PAYLOAD_TYPE_SGL g(1), of ?x]
        build_hw_sgl_frame [of ?q ?x] build_prps_frame [of fuel ?q ?x] by (cases "ct_sgl_supported s") auto
  qed
qed

text \<open>
  What a leaf does once it has a tracker: the state before the command is written or the tracker is completed.
\<close>

lemma leaf_attach:
  assumes inv: "qinv L M G s (r # H) D T" and fr: "free_tr s = t # ts" and fuel: "req_payload_size (req_at s r) \<noteq> 0 \<Longrightarrow> B \<le> fuel"
    and s1: "s1 = upd_req r (\<lambda>q. q\<lparr>req_cmd := (req_cmd q)\<lparr>cmd_cid := tr_cid (tr_at s t)\<rparr>\<rparr>)
      (upd_tr t (\<lambda>x. x\<lparr>tr_req := Some r\<rparr>) (s\<lparr>free_tr := ts, outstanding_tr := t # outstanding_tr s\<rparr>))"
  shows "\<exists>ret cmd x s2. build_request fuel s1 r t = Inr (ret, cmd, x) \<and> (req_payload_size (req_at s r) = 0 \<longrightarrow> ret = 0)
    \<and> s2 = upd_tr t (\<lambda>_. x) (upd_req r (\<lambda>q. q\<lparr>req_cmd := cmd\<rparr>) s1)
    \<and> qinv L M G s2 H D T \<and> step H s s2 \<and> queued_req s2 = queued_req s \<and> outstanding_tr s2 = t # outstanding_tr s
    \<and> tr_cid (tr_at s2 t) = tr_cid (tr_at s t) \<and> tr_req (tr_at s2 t) = Some r \<and> req_cb (req_at s2 r) = req_cb (req_at s r)"
proof -
  note trk = trk_okD [OF qinvD(2) [OF inv]]
  note pool = pool_okD [OF qinvD(3) [OF inv]]
  have t: "t < trackers s" "t < length (qp_tr s)" "t \<notin> set (outstanding_tr s)" using trk(1) trk(4) trk(7) [of t] fr by auto
  have r: "r < length (reqs s)" "leaf_ok s r" "r \<notin> set H" using pool(1) pool(2) [of r] pool(3) [of r] by auto
  have tch: "r \<notin> kept H s" using r(3) pool(2) [of r] by (intro kept_leaf) auto
  have na: "\<not> tr_active (tr_at s t)" using trk(10) [OF t(1)] t(3) by auto
  have q1: "req_at s1 r = (req_at s r)\<lparr>req_cmd := (req_cmd (req_at s r))\<lparr>cmd_cid := tr_cid (tr_at s t)\<rparr>\<rparr>"
    unfolding s1 by (subst req_at_upd_req) (use r in \<open>simp_all add: upd_tr_def\<close>)
  have x1: "tr_at s1 t = (tr_at s t)\<lparr>tr_req := Some r\<rparr>"
    using t(2) by (simp add: s1 upd_tr_def)
  have len: "length (tr_prp (tr_at s1 t)) = NVME_MAX_PRP_LIST_ENTRIES" using trk(9) [OF t(1)] by (simp add: x1)
  have "payload_ok (req_at s1 r)" using r(2) by (simp add: q1 leaf_ok_def payload_ok_def)
  from build_request_ok [OF this len, of fuel] fuel obtain ret cmd x where
    b: "build_request fuel s1 r t = Inr (ret, cmd, x)" "build_frame (req_at s1 r) (tr_at s1 t) cmd x"
    "req_payload_size (req_at s r) = 0 \<longrightarrow> ret = 0" by (auto simp: q1)
  define s2 where "s2 = upd_tr t (\<lambda>_. x) (upd_req r (\<lambda>q. q\<lparr>req_cmd := cmd\<rparr>) s1)"
  have x: "tr_static (tr_at s t) x" "tr_req x = Some r" "\<not> tr_active x" "tr_cid x = tr_cid (tr_at s t)"
    using b(2) na by (simp_all add: build_frame_def x1 tr_static_def)
  have rq: "reqs s2 = (reqs s)[r := (req_at s r)\<lparr>req_cmd := cmd\<rparr>]"
    using r(1) by (simp add: s2_def s1 upd_req_def upd_tr_def)
  have sc: "same_cores s s2"
  proof -
    have "qp_id s2 = qp_id s" "user_calls s2 = user_calls s" by (simp_all add: s2_def s1)
    then show ?thesis using r(1) by (auto simp: same_cores_def rq nth_list_update core_def)
  qed
  have s2: "s2 = upd_tr t (\<lambda>_. x) (s\<lparr>free_tr := ts, outstanding_tr := t # outstanding_tr s, reqs := reqs s2\<rparr>)"
    unfolding rq using r(1) by (simp add: s2_def s1 upd_req_def upd_tr_def)
  have "qinv L M G s2 H D T" by (rule qinv_attach [OF inv fr x(1-3) sc s2])
  moreover have "step H s s2"
    using tch by (simp add: s2_def s1 step_upd_req) (simp add: step_def static_def)
  moreover have "tr_at s2 t = x" using t(2) by (simp add: s2_def s1 upd_tr_def upd_req_def)
  moreover have "req_cb (req_at s2 r) = req_cb (req_at s r)" by (rule same_coresD(5) [OF sc])
  moreover have "queued_req s2 = queued_req s" "outstanding_tr s2 = t # outstanding_tr s" by (simp_all add: s2_def s1)
  ultimately show ?thesis using b(1,3) x(2,4) s2_def by blast
qed

lemma exec_leaf:
  assumes "free_tr s = t # ts" and "qp_enabled s"
    and s1: "s1 = upd_req r (\<lambda>q. q\<lparr>req_cmd := (req_cmd q)\<lparr>cmd_cid := tr_cid (tr_at s t)\<rparr>\<rparr>)
      (upd_tr t (\<lambda>x. x\<lparr>tr_req := Some r\<rparr>) (s\<lparr>free_tr := ts, outstanding_tr := t # outstanding_tr s\<rparr>))"
    and b: "build_request n s1 r t = Inr (ret, cmd, x)"
    and s2: "s2 = upd_tr t (\<lambda>_. x) (upd_req r (\<lambda>q. q\<lparr>req_cmd := cmd\<rparr>) s1)"
    and t: "t < length (qp_tr s)"
  shows "exec (Suc n) (SubmitLeaf r) s =
    (if ret \<noteq> 0 then rbind (exec n (CompleteTracker t (manual_cpl s2 (tr_cid (tr_at s2 t)) NVME_SC_INVALID_FIELD True)) s2) (\<lambda>(_, s). Inr (ret, s))
     else rbind (nvme_qpair_submit_tracker s2 t) (\<lambda>s. Inr (0, s)))"
proof -
  have "tr_cid (tr_at (upd_tr t (\<lambda>x. x\<lparr>tr_req := Some r\<rparr>) (s\<lparr>free_tr := ts, outstanding_tr := t # outstanding_tr s\<rparr>)) t) = tr_cid (tr_at s t)"
    using t by (simp add: upd_tr_def)
  then show ?thesis
    using assms(1,2) b unfolding s2 by (simp add: submit_leaf_def Let_def s1 [symmetric])
qed

lemma exec_leaf_queued:
  "free_tr s = [] \<or> \<not> qp_enabled s \<Longrightarrow> exec (Suc n) (SubmitLeaf r) s = Inr (0, s\<lparr>queued_req := queued_req s @ [r]\<rparr>)"
  by (auto simp: submit_leaf_def split: list.splits)

lemma spec_leaf0_step: "spec_leaf0 (Suc n)"
  unfolding spec_leaf0_def
proof (intro allI impI)
  fix L M G s H D T r
  assume inv: "qinv L M G s (r # H) D T" and sz: "req_payload_size (req_at s r) = 0" and "1 \<le> Suc n"
  show "returns (exec (Suc n) (SubmitLeaf r) s) (\<lambda>v s'. qinv L M G s' H D T \<and> step H s s' \<and>
    (\<exists>xs ys. queued_req s' = queued_req s @ ys \<and> length ys \<le> 1 \<and> outstanding_tr s' = xs @ outstanding_tr s))"
  proof (cases "free_tr s = [] \<or> \<not> qp_enabled s")
    case True
    then have "exec (Suc n) (SubmitLeaf r) s = Inr (0, s\<lparr>queued_req := queued_req s @ [r]\<rparr>)" by (rule exec_leaf_queued)
    then show ?thesis using qinv_push_queue [OF inv] by (simp add: step_def static_def)
  next
    case False
    then obtain t ts where fr: "free_tr s = t # ts" and en: "qp_enabled s" by (cases "free_tr s") auto
    have t: "t < length (qp_tr s)" using trk_okD(1,7) [OF qinvD(2) [OF inv]] fr by simp
    from leaf_attach [OF inv fr _ refl, of n] sz obtain ret cmd x s2 where
      b: "build_request n (upd_req r (\<lambda>q. q\<lparr>req_cmd := (req_cmd q)\<lparr>cmd_cid := tr_cid (tr_at s t)\<rparr>\<rparr>)
      (upd_tr t (\<lambda>x. x\<lparr>tr_req := Some r\<rparr>) (s\<lparr>free_tr := ts, outstanding_tr := t # outstanding_tr s\<rparr>))) r t = Inr (ret, cmd, x)" and "ret = 0" and
      s2: "s2 = upd_tr t (\<lambda>_. x) (upd_req r (\<lambda>q. q\<lparr>req_cmd := cmd\<rparr>) (upd_req r (\<lambda>q. q\<lparr>req_cmd := (req_cmd q)\<lparr>cmd_cid := tr_cid (tr_at s t)\<rparr>\<rparr>)
      (upd_tr t (\<lambda>x. x\<lparr>tr_req := Some r\<rparr>) (s\<lparr>free_tr := ts, outstanding_tr := t # outstanding_tr s\<rparr>))))"
      and i2: "qinv L M G s2 H D T" "step H s s2" "queued_req s2 = queued_req s" "outstanding_tr s2 = t # outstanding_tr s"
      by blast
    have "t \<notin> T" "G t = None"
      using qinvD(5) [OF inv, of t] qinvD(6) [OF inv, of t] trk_okD(4) [OF qinvD(2) [OF inv]] fr by auto
    with submit_tracker_ok [OF i2(1), of t] i2(4) obtain s3 where
      s3: "nvme_qpair_submit_tracker s2 t = Inr s3" "qinv L M G s3 H D T" "step H s2 s3" "queued_req s3 = queued_req s2"
      "outstanding_tr s3 = outstanding_tr s2" by auto
    have "exec (Suc n) (SubmitLeaf r) s = Inr (0, s3)"
      using exec_leaf [OF fr en refl b s2 t] \<open>ret = 0\<close> s3(1) by simp
    then show ?thesis using s3 i2 step_trans [OF i2(2) s3(3)] by auto
  qed
qed

lemma spec_leaf_step:
  assumes "spec_tracker n"
  shows "spec_leaf (Suc n)"
  unfolding spec_leaf_def
proof (intro allI impI)
  fix L M G s H D T r
  assume inv: "qinv L M G s (r # H) D T" and calm: "calm s" "\<not> ct_failed s" and fuel: "B + 11 + 4 * length (queued_req s) \<le> Suc n"
  show "returns (exec (Suc n) (SubmitLeaf r) s)
       (\<lambda>v s'. qinv L M G s' H D T \<and> step H s s' \<and> length (queued_req s') \<le> length (queued_req s) + 1
          \<and> (\<exists>xs. outstanding_tr s' = xs @ outstanding_tr s))"
  proof (cases "req_payload_size (req_at s r) = 0 \<or> free_tr s = [] \<or> \<not> qp_enabled s")
    case True
    then consider (null) "req_payload_size (req_at s r) = 0" | (queued) "free_tr s = [] \<or> \<not> qp_enabled s" by blast
    then show ?thesis
    proof cases
      case null
      have "1 \<le> Suc n" by simp
      from spec_leaf0_step [unfolded spec_leaf0_def, rule_format, OF inv null this] show ?thesis
        by (rule returns_mono) auto
    next
      case queued
      then have "exec (Suc n) (SubmitLeaf r) s = Inr (0, s\<lparr>queued_req := queued_req s @ [r]\<rparr>)" by (rule exec_leaf_queued)
      then show ?thesis using qinv_push_queue [OF inv] by (simp add: step_def static_def)
    qed
  next
    case False
    then obtain t ts where fr: "free_tr s = t # ts" and en: "qp_enabled s" by (cases "free_tr s") auto
    note trk = trk_okD [OF qinvD(2) [OF inv]]
    have t: "t < length (qp_tr s)" "t < trackers s" using trk(1,7) fr by simp_all
    define s1 where s1: "s1 = upd_req r (\<lambda>q. q\<lparr>req_cmd := (req_cmd q)\<lparr>cmd_cid := tr_cid (tr_at s t)\<rparr>\<rparr>)
      (upd_tr t (\<lambda>x. x\<lparr>tr_req := Some r\<rparr>) (s\<lparr>free_tr := ts, outstanding_tr := t # outstanding_tr s\<rparr>))"
    have "B \<le> n" using fuel by simp
    from leaf_attach [OF inv fr _ s1, of n] this obtain ret cmd x s2 where
      b: "build_request n s1 r t = Inr (ret, cmd, x)" and
      s2: "s2 = upd_tr t (\<lambda>_. x) (upd_req r (\<lambda>q. q\<lparr>req_cmd := cmd\<rparr>) s1)"
      and i2: "qinv L M G s2 H D T" "step H s s2" "queued_req s2 = queued_req s" "outstanding_tr s2 = t # outstanding_tr s"
        "tr_cid (tr_at s2 t) = tr_cid (tr_at s t)" "tr_req (tr_at s2 t) = Some r" "req_cb (req_at s2 r) = req_cb (req_at s r)"
      by blast
    have tT: "t \<notin> T" "t \<notin> set (outstanding_tr s)" "G t = None"
      using qinvD(5) [OF inv, of t] qinvD(6) [OF inv, of t] trk(4) fr by auto
    note ex = exec_leaf [OF fr en s1 b s2 t(1)]
    show ?thesis
    proof (cases "ret = 0")
      case True
      with submit_tracker_ok [OF i2(1), of t] i2(4) tT obtain s3 where
        s3: "nvme_qpair_submit_tracker s2 t = Inr s3" "qinv L M G s3 H D T" "step H s2 s3" "queued_req s3 = queued_req s2"
        "outstanding_tr s3 = outstanding_tr s2" by auto
      then show ?thesis using ex True i2 step_trans [OF i2(2) s3(3)] by auto
    next
      case ret: False
      have "leaf_ok s r" using pool_okD(3) [OF qinvD(3) [OF inv], of r] by simp
      then have na: "\<not> tr_is_aer s2 t" using False i2(6,7) by (auto simp: tr_is_aer_def leaf_ok_def)
      have ok: "quiet s2" "\<not> ct_failed s2" using calm step_calm [OF i2(2)] stepD(4) [OF i2(2)] by (auto simp: quiet_def)
      let ?cpl = "manual_cpl s2 (tr_cid (tr_at s2 t)) NVME_SC_INVALID_FIELD True"
      have nr: "\<not> retries s2 t ?cpl" by (simp add: retries_def nvme_qpair_completion_retry_def manual_cpl_def)
      have "returns (exec n (CompleteTracker t ?cpl) s2)
       (\<lambda>v s'. qinv L M G s' H D T \<and> step H s2 s' \<and> length (queued_req s') \<le> length (queued_req s2)
          \<and> (\<exists>xs. outstanding_tr s' = xs @ remove1 t (outstanding_tr s2)
               \<and> (sealed s2 \<and> queued_req s2 = [] \<longrightarrow> xs = [] \<and> queued_req s' = [])))"
        using assms [unfolded spec_tracker_def, rule_format, of L M G s2 H D T t ?cpl] i2 ok na nr tT trk(8) [OF t(2)] fuel
        by (simp add: manual_cpl_def)
      then have "returns (exec n (CompleteTracker t ?cpl) s2) (\<lambda>v s'. qinv L M G s' H D T \<and> step H s s'
          \<and> length (queued_req s') \<le> length (queued_req s) + 1 \<and> (\<exists>xs. outstanding_tr s' = xs @ outstanding_tr s))"
        by (rule returns_mono) (use i2 step_trans [OF i2(2)] in auto)
      then show ?thesis unfolding ex using ret by (auto elim!: returns_rbind)
    qed
  qed
qed

subsection \<open>Callbacks\<close>

lemma step_upd_fields [simp]:
  "step H s (s'\<lparr>ct_aer := a\<rparr>) = step H s s'" "step H s (s'\<lparr>free_req := f\<rparr>) = step H s s'"
  "step H s (s'\<lparr>queued_req := f\<rparr>) = step H s s'" "step H s (s'\<lparr>aer_calls := c\<rparr>) = step H s s'"
  "step H s (s'\<lparr>ct_poll := p\<rparr>) = step H s s'" "step H s (s'\<lparr>ct_enabled_io_qpairs := e\<rparr>) = step H s s'"
  "step H s (s'\<lparr>outstanding_tr := f\<rparr>) = step H s s'" "step H s (s'\<lparr>free_tr := f\<rparr>) = step H s s'"
  by (simp_all add: step_def static_def)

lemma exec_check_calm: "calm s \<Longrightarrow> exec (Suc n) EnabledCheck s = Inr (0, s)"
  by (auto simp: qpair_enabled_def calm_def)

lemma exec_submit_failed:
  assumes "qinv L M G s (r # H) D T" and "ct_failed s" and "\<And>c. req_cb (req_at s r) \<noteq> CbCompleteChild c"
  shows "exec (Suc n) (SubmitRequest r) s = Inr (- ENXIO, s\<lparr>free_req := r # free_req s\<rparr>)"
    and "qinv {#} M G (s\<lparr>free_req := r # free_req s\<rparr>) H D T" and "step H s (s\<lparr>free_req := r # free_req s\<rparr>)"
    and "ucb (req_cb (req_at s r)) = {#} \<Longrightarrow> qinv L M G (s\<lparr>free_req := r # free_req s\<rparr>) H D T"
proof -
  note d = qinv_drop_held(1) [OF assms(1,3) refl]
  have "qinv {#} M G s H (r # D) T" using d by (rule qinv_weaken) simp_all
  from qinv_free_dead [OF this] assms(2)
  show "exec (Suc n) (SubmitRequest r) s = Inr (- ENXIO, s\<lparr>free_req := r # free_req s\<rparr>)"
    and "qinv {#} M G (s\<lparr>free_req := r # free_req s\<rparr>) H D T" and "step H s (s\<lparr>free_req := r # free_req s\<rparr>)"
    by (simp_all add: submit_request_def step_def static_def)
  show "qinv L M G (s\<lparr>free_req := r # free_req s\<rparr>) H D T" if "ucb (req_cb (req_at s r)) = {#}"
    using qinv_free_dead(2) [OF d] that by simp
qed

lemma spec_submit0_step:
  assumes "spec_leaf0 n"
  shows "spec_submit0 (Suc n)"
  unfolding spec_submit0_def
proof (intro allI impI)
  fix L M G s H D T r
  assume inv: "qinv L M G s (r # H) D T" and q: "quiet s" and sz: "req_payload_size (req_at s r) = 0"
    and cb: "is_aer (req_cb (req_at s r))" and n: "3 \<le> Suc n"
  let ?Q = "\<lambda>(v::int) s'. qinv L M G s' H D T \<and> step H s s' \<and>
          (\<exists>xs ys. queued_req s' = queued_req s @ ys \<and> length ys \<le> 1 \<and> outstanding_tr s' = xs @ outstanding_tr s
             \<and> (ct_failed s \<longrightarrow> xs = [] \<and> ys = []))"
  show "returns (exec (Suc n) (SubmitRequest r) s) ?Q"
  proof (cases "ct_failed s")
    case True
    have "ucb (req_cb (req_at s r)) = {#}" "\<And>c. req_cb (req_at s r) \<noteq> CbCompleteChild c" using cb by (auto simp: is_aer_def)
    then show ?thesis using exec_submit_failed [OF inv True] by simp
  next
    case False
    with q have calm: "calm s" by (simp add: quiet_def)
    from n obtain m where m: "n = Suc m" by (cases n) auto
    have c0: "req_child_reqs (req_at s r) = 0" using pool_okD(2) [OF qinvD(3) [OF inv], of r] by simp
    then have "exec (Suc n) (SubmitRequest r) s = exec n (SubmitLeaf r) s"
      using False exec_check_calm [OF calm, of m] by (simp add: submit_request_def m)
    moreover have "1 \<le> n" using n by simp
    ultimately show ?thesis
      using assms [unfolded spec_leaf0_def, rule_format, OF inv sz \<open>1 \<le> n\<close>] False by simp
  qed
qed

lemma spec_aer_step:
  assumes "spec_submit0 n"
  shows "spec_aer (Suc n)"
  unfolding spec_aer_def
proof (intro allI impI)
  fix L M G s H D T i
  assume inv: "qinv L M G s H D T" and q: "quiet s" and io: "\<not> nvme_qpair_is_io_queue s" and n: "4 \<le> Suc n"
  let ?Q = "\<lambda>(v::int) s'. qinv L M G s' H D T \<and> step H s s' \<and>
          (\<exists>xs ys. queued_req s' = queued_req s @ ys \<and> length ys \<le> 1 \<and> outstanding_tr s' = xs @ outstanding_tr s
             \<and> (ct_failed s \<longrightarrow> xs = [] \<and> ys = []))"
  let ?pl = "\<lparr>pl_contig = 0, pl_sgl = None, pl_md = None, pl_type = NVME_PAYLOAD_TYPE_CONTIG\<rparr>"
  from qinvD(3) [OF inv] show "returns (exec (Suc n) (SubmitAer i) s) ?Q"
  proof (cases rule: request_allocate_cases [where pl = ?pl and sz = 0 and cb = "CbAsyncEvent i"])
    case 1
    then show ?thesis using inv
      by (simp add: construct_and_submit_aer_def nvme_request_allocate_null_def nvme_request_allocate_contig_def)
  next
    case (2 r rs)
    define s1 where "s1 = upd_req r (fresh_req ?pl 0 (CbAsyncEvent i)) (s\<lparr>free_req := rs\<rparr>)"
    define s2 where "s2 = s1\<lparr>ct_aer := (ct_aer s1)[i := (ct_aer s1 ! i)\<lparr>aer_req := Some r\<rparr>]\<rparr>"
    define s3 where "s3 = upd_req r (\<lambda>q. q\<lparr>req_cmd := (req_cmd q)\<lparr>opc := admin_opc NVME_OPC_ASYNC_EVENT_REQUEST\<rparr>\<rparr>) s2"
    have ex: "exec (Suc n) (SubmitAer i) s = exec n (SubmitRequest r) s3"
      using 2 by (simp add: construct_and_submit_aer_def nvme_request_allocate_null_def nvme_request_allocate_contig_def
          s1_def s2_def s3_def Let_def)
    have i1: "qinv L M G s1 (r # H) D T"
      using qinv_alloc [OF inv 2(1) _ _ _ s1_def] io by (simp add: payload_ok_def)
    have i2: "qinv L M G s2 (r # H) D T"
      by (rule qinv_cong [OF i1]) (use qinvD(1) [OF i1] in \<open>auto intro: same_cores_eq simp: s2_def ring_ok_def\<close>)
    have sc: "same_cores s2 s3" unfolding s3_def by (rule same_cores_upd_req) (simp add: core_def)
    have i3: "qinv L M G s3 (r # H) D T"
      by (rule qinv_cong [OF i2 sc]) (use qinvD(1) [OF i2] in \<open>auto simp: s3_def ring_ok_def\<close>)
    have rH: "r \<notin> kept H s" by (rule kept_leaf)
      (use pool_okD(1) [OF qinvD(3) [OF inv]] pool_okD(2) [OF qinvD(3) [OF inv], of r] 2(1) in auto)
    have st: "step H s s3" using rH by (simp add: s3_def s2_def s1_def step_upd_req)
    have f3: "queued_req s3 = queued_req s" "outstanding_tr s3 = outstanding_tr s" "ct_failed s3 = ct_failed s"
      by (simp_all add: s3_def s2_def s1_def)
    have q3: "quiet s3" by (rule step_quiet [OF st q])
    have "req_at s2 r = fresh_req ?pl 0 (CbAsyncEvent i) (req_at s r)"
      using 2(2) by (simp add: s2_def s1_def req_at_upd_req)
    then have r3: "req_payload_size (req_at s3 r) = 0" "req_cb (req_at s3 r) = CbAsyncEvent i"
      using same_coresD(4,5) [OF sc, of r] by simp_all
    have "3 \<le> n" using n by simp
    from assms [unfolded spec_submit0_def, rule_format, OF i3 q3 r3(1) _ this] r3(2) is_aer_def
    have "returns (exec n (SubmitRequest r) s3) (\<lambda>v s'. qinv L M G s' H D T \<and> step H s3 s' \<and>
          (\<exists>xs ys. queued_req s' = queued_req s3 @ ys \<and> length ys \<le> 1 \<and> outstanding_tr s' = xs @ outstanding_tr s3
             \<and> (ct_failed s3 \<longrightarrow> xs = [] \<and> ys = [])))" by simp
    then show ?thesis unfolding ex
      unfolding f3 by (rule returns_mono) (use step_trans [OF st] in blast)
  qed
qed

text \<open>Callbacks that only record what happened.\<close>

lemma qinv_eqI:
  assumes "reqs s' = reqs s" "qp_id s' = qp_id s" "qp_tr s' = qp_tr s" "trackers s' = trackers s" "free_tr s' = free_tr s"
    "outstanding_tr s' = outstanding_tr s" "free_req s' = free_req s" "queued_req s' = queued_req s"
    "entries s' = entries s" "sq_tail s' = sq_tail s" "cq_head s' = cq_head s" "qp_cmd s' = qp_cmd s" "qp_cpl s' = qp_cpl s"
    "user_calls s' = user_calls s"
  shows "qinv L M G s' H D T = qinv L M G s H D T"
proof
  assume a: "qinv L M G s' H D T"
  show "qinv L M G s H D T"
    by (rule qinv_cong [OF a]) (use assms qinvD(1) [OF a] in \<open>auto intro: same_cores_eq simp: ring_ok_def\<close>)
next
  assume a: "qinv L M G s H D T"
  show "qinv L M G s' H D T"
    by (rule qinv_cong [OF a]) (use assms qinvD(1) [OF a] in \<open>auto intro: same_cores_eq simp: ring_ok_def\<close>)
qed

lemma qinv_upd_log:
  "qinv L M G (s\<lparr>ct_poll := p\<rparr>) H D T = qinv L M G s H D T"
  "qinv L M G (s\<lparr>aer_calls := c\<rparr>) H D T = qinv L M G s H D T" "qinv L M G (s\<lparr>doorbells := d\<rparr>) H D T = qinv L M G s H D T"
  "qinv L M G (s\<lparr>qp_enabled := e\<rparr>) H D T = qinv L M G s H D T" "qinv L M G (s\<lparr>ct_enabled_io_qpairs := k\<rparr>) H D T = qinv L M G s H D T"
  by - (rule qinv_eqI; simp)+

lemma qinv_user_call:
  assumes "qinv L M G s H D T"
  shows "qinv (L + {#i#}) (M + {#i#}) G (s\<lparr>user_calls := user_calls s @ [(i, cpl)]\<rparr>) H D T"
proof -
  let ?s = "s\<lparr>user_calls := user_calls s @ [(i, cpl)]\<rparr>"
  have par: "parents ?s = parents s" by (simp add: parents_def)
  have lv: "leaves T ?s = leaves T s" by (simp add: leaves_def tr_leaves_def)
  have ok: "leaf_ok ?s r = leaf_ok s r" "parent_ok ?s V p = parent_ok s V p" for r V p
    by (simp_all add: leaf_ok_def linked_def parent_ok_def par nvme_qpair_is_io_queue_def)
  have "pend ?s V = pend s V" for V by (simp add: pend_def par)
  then have "acct (L + {#i#}) (M + {#i#}) ?s V = acct L M s V" for V by (simp add: acct_def)
  then have "pool_ok (L + {#i#}) (M + {#i#}) ?s (free_req ?s) (leaves T ?s @ H) D"
    using qinvD(3) [OF assms] by (simp add: pool_ok_def ok par lv)
  then show ?thesis by (rule qinv_repool [OF assms]) (use qinvD(1) [OF assms] in \<open>simp_all add: ring_ok_def\<close>)
qed

lemma qinv_called:
  assumes "qinv (L - u + u) (M - u + u) G s H D T" and "u \<subseteq># M"
  shows "qinv L M G s H D T"
  using assms(1) by (rule qinv_weaken) (use assms(2) in \<open>simp_all flip: subset_eq_diff_conv\<close>)

lemma plain_cb_exec:
  assumes "plain_cb cb"
  shows "\<exists>s'. exec (Suc n) (CallCb cb cpl) s = Inr (0, s') \<and> (\<forall>L M G H D T. qinv L M G s H D T \<longrightarrow> qinv (L + ucb cb) (M + ucb cb) G s' H D T)
    \<and> (\<forall>H. step H s s') \<and> queued_req s' = queued_req s \<and> outstanding_tr s' = outstanding_tr s
    \<and> free_req s' = free_req s \<and> reqs s' = reqs s"
proof (cases cb)
  case (CbUser i)
  then show ?thesis using qinv_user_call by (simp add: call_cb_def) (simp add: step_def static_def)
qed (use assms in \<open>simp_all add: call_cb_def qinv_upd_log plain_cb_def\<close>)

lemma child_cb_exec:
  assumes inv: "qinv L M G s (r # H) D T" and cb: "req_cb (req_at s r) = CbCompleteChild c" and n: "1 \<le> n"
  shows "returns (exec (Suc n) (CallCb (CbCompleteChild c) cpl) s)
    (\<lambda>v s'. qinv L M G s' H (r # D) T \<and> step H s s' \<and> queued_req s' = queued_req s \<and> outstanding_tr s' = outstanding_tr s)"
proof -
  note pool = pool_okD [OF qinvD(3) [OF inv]]
  have leaf: "leaf_ok s r" using pool(3) [of r] by simp
  then obtain p where c: "c = r" and p: "req_parent (req_at s r) = Some p" using cb by (auto simp: leaf_ok_def linked_def)
  have cb: "req_cb (req_at s r) = CbCompleteChild r" using cb c by simp
  define s1 where "s1 = upd_req p (\<lambda>q. q\<lparr>req_child_reqs := req_child_reqs q - 1, req_children := remove1 r (req_children q)\<rparr>) s"
  note rm = qinv_remove_child [OF inv cb p s1_def]
  define s2 where "s2 = (if nvme_cpl_is_error cpl then upd_req p (\<lambda>q. q\<lparr>req_parent_status := cpl\<rparr>) s1 else s1)"
  have pl: "p < length (reqs s)" using rm(1) by (auto simp: parents_def)
  have tch: "p \<notin> kept H s"
    by (rule kept_parent [of _ _ r]) (use rm(1) pool(1) pool(2) [of p] leaf cb p in \<open>auto simp: parents_def leaf_ok_def linked_def\<close>)
  have sc: "same_cores s1 s2"
    unfolding s2_def using same_cores_upd_req [of "\<lambda>q. q\<lparr>req_parent_status := cpl\<rparr>" s1 p] by (simp add: core_def same_cores_eq)
  have keep: "qinv L' M' G s2 H D' T" if "qinv L' M' G s1 H D' T" for L' M' D'
    by (rule qinv_cong [OF that sc]) (use qinvD(1) [OF that] in \<open>auto simp: s2_def ring_ok_def\<close>)
  have st: "step H s s2" using tch by (simp add: s2_def s1_def step_upd_req)
  have f2: "queued_req s2 = queued_req s" "outstanding_tr s2 = outstanding_tr s" by (simp_all add: s2_def s1_def)
  have ch: "req_child_reqs (req_at s2 p) = req_child_reqs (req_at s1 p)" by (rule same_coresD(3) [OF sc])
  have pcb: "plain_cb (req_cb (req_at s2 p))"
    using rm(3) same_coresD(5) [OF sc, of p] pl by (simp add: s1_def req_at_upd_req)
  have ex: "exec (Suc n) (CallCb (CbCompleteChild c) cpl) s = (if req_child_reqs (req_at s2 p) = 0
      then rbind (exec n (CallCb (req_cb (req_at s2 p)) (req_parent_status (req_at s2 p))) s2)
             (\<lambda>(_, s). rbind (nvme_request_free p s) (\<lambda>s. Inr (0, s)))
      else Inr (0, s2))"
    using p rm(2) by (simp add: call_cb_def cb_complete_child_def c Let_def s2_def)
  show ?thesis
  proof (cases "req_child_reqs (req_at s2 p) = 0")
    case False
    then show ?thesis using ex keep [OF rm(4)] st f2 ch by simp
  next
    case True
    let ?u = "ucb (req_cb (req_at s2 p))"
    have u: "?u = ucb (req_cb (req_at s p))"
      using same_coresD(5) [OF sc, of p] pl by (simp add: s1_def req_at_upd_req)
    have i2: "qinv (L - ?u) (M - ?u) G s2 H (r # p # D) T" "?u \<subseteq># M" using keep [OF rm(5)] rm(6) ch True u by simp_all
    obtain m where m: "n = Suc m" using n by (cases n) auto
    from plain_cb_exec [OF pcb, of m] obtain s3 where
      s3: "exec n (CallCb (req_cb (req_at s2 p)) (req_parent_status (req_at s2 p))) s2 = Inr (0, s3)"
      "qinv L M G s3 H (r # p # D) T" "step H s2 s3" "queued_req s3 = queued_req s2" "outstanding_tr s3 = outstanding_tr s2"
      using i2 m qinv_called by metis
    have "qinv L M G s3 H (p # r # D) T"
      by (rule qinv_repool [OF s3(2) _ qinvD(1) [OF s3(2)]])
        (use qinvD(3) [OF s3(2)] in \<open>auto elim!: pool_ok_perm [rotated 3]\<close>)
    note fr = qinv_free_dead [OF this]
    show ?thesis using ex True s3 fr f2 step_trans [OF st s3(3)] by simp
  qed
qed

lemma spec_cb_step:
  assumes "spec_aer n"
  shows "spec_cb (Suc n)"
  unfolding spec_cb_def
proof (intro allI impI)
  fix L M G s H D T r cpl
  assume inv: "qinv L M G s (r # H) D T" and q: "quiet s" and n: "5 \<le> Suc n"
  let ?cb = "req_cb (req_at s r)"
  let ?Q = "\<lambda>(v::int) s'. qinv L M G s' H (r # D) T \<and> step H s s' \<and>
          (\<exists>xs ys. queued_req s' = queued_req s @ ys \<and> length ys \<le> 1 \<and> outstanding_tr s' = xs @ outstanding_tr s
             \<and> (\<not> is_aer ?cb \<or> ct_failed s \<longrightarrow> xs = [] \<and> ys = []))"
  consider (plain) "plain_cb ?cb" | (child) c where "?cb = CbCompleteChild c" | (aer) i where "?cb = CbAsyncEvent i"
    by (auto simp: plain_cb_def)
  then show "returns (exec (Suc n) (CallCb ?cb cpl) s) ?Q"
  proof cases
    case plain
    let ?u = "ucb ?cb"
    have d: "qinv (L - ?u) (M - ?u) G s H (r # D) T" "?u \<subseteq># M"
      by (rule qinv_drop_held [OF inv _ refl]; use plain in \<open>auto simp: plain_cb_def\<close>)+
    from plain_cb_exec [OF plain, of n cpl s] d qinv_called obtain s' where
      "exec (Suc n) (CallCb ?cb cpl) s = Inr (0, s')" "qinv L M G s' H (r # D) T" "step H s s'"
      "queued_req s' = queued_req s" "outstanding_tr s' = outstanding_tr s" by metis
    then show ?thesis by (simp del: exec.simps)
  next
    case child
    have "1 \<le> n" using n by simp
    from child_cb_exec [OF inv child this] show ?thesis unfolding child by (rule returns_mono) (auto simp: is_aer_def)
  next
    case aer
    have io: "\<not> nvme_qpair_is_io_queue s" using pool_okD(3) [OF qinvD(3) [OF inv], of r] aer by (auto simp: leaf_ok_def is_aer_def)
    have d: "qinv L M G s H (r # D) T" using qinv_drop_held(1) [OF inv _ refl] aer by simp
    define s1 where "s1 = (if ct_aer_cb s then s\<lparr>aer_calls := aer_calls s @ [cpl]\<rparr> else s)"
    have i1: "qinv L M G s1 H (r # D) T" "step H s s1" "quiet s1" "\<not> nvme_qpair_is_io_queue s1" "queued_req s1 = queued_req s"
      "outstanding_tr s1 = outstanding_tr s" "ct_failed s1 = ct_failed s"
      using d q io by (simp_all add: s1_def qinv_upd_log quiet_def calm_def nvme_qpair_is_io_queue_def)
    show ?thesis
    proof (cases "st_sc (cpl_status cpl) = NVME_SC_ABORTED_SQ_DELETION")
      case True
      then show ?thesis using aer d by (simp add: call_cb_def async_event_cb_def)
    next
      case False
      have ex: "exec (Suc n) (CallCb ?cb cpl) s = rbind (exec n (SubmitAer i) s1) (\<lambda>(_, s). Inr (0, s))"
        using False by (simp add: aer call_cb_def async_event_cb_def s1_def Let_def)
      have "4 \<le> n" using n by simp
      from assms [unfolded spec_aer_def, rule_format, OF i1(1,3,4) this, of i, unfolded i1(5-7)]
      have "returns (exec n (SubmitAer i) s1) ?Q"
        by (rule returns_mono) (use step_trans [OF i1(2)] aer in \<open>auto simp: is_aer_def\<close>)
      then show ?thesis unfolding ex by (rule returns_rbind) simp
    qed
  qed
qed

subsection \<open>Completing a tracker\<close>

lemma spec_done_step:
  assumes "spec_submit n"
  shows "spec_done (Suc n)"
  unfolding spec_done_def
proof (intro allI impI)
  fix L M G s H D T t
  assume inv: "qinv L M G s H D T" and q: "quiet s" and t: "t \<in> T" and fl: "ct_failed s \<longrightarrow> queued_req s = []"
    and n: "B + 9 + 4 * length (queued_req s) \<le> Suc n"
  let ?Q = "\<lambda>(v::int) s'. qinv L M G s' H D (T - {t}) \<and> step H s s' \<and> length (queued_req s') \<le> length (queued_req s)
          \<and> (\<exists>xs. outstanding_tr s' = xs @ remove1 t (outstanding_tr s) \<and> (queued_req s = [] \<longrightarrow> xs = []))"
  define s1 where "s1 = (upd_tr t (\<lambda>x. x\<lparr>tr_req := None\<rparr>) s)\<lparr>outstanding_tr := remove1 t (outstanding_tr s),
    free_tr := t # remove1 t (free_tr s)\<rparr>"
  have i1: "qinv L M G s1 H D (T - {t})" by (rule qinv_release(1) [OF inv t s1_def])
  have f1: "queued_req s1 = queued_req s" "outstanding_tr s1 = remove1 t (outstanding_tr s)" "step H s s1"
    "ct_failed s1 = ct_failed s" "ct_resetting s1 = ct_resetting s"
    by (simp_all add: s1_def)
  show "returns (exec (Suc n) (CompleteDone t) s) ?Q"
  proof (cases "queued_req s = [] \<or> ct_resetting s")
    case True
    then have "exec (Suc n) (CompleteDone t) s = Inr (0, s1)"
      using f1 by (auto simp: complete_done_def Let_def s1_def split: list.splits)
    then show ?thesis using i1 f1 by simp
  next
    case False
    then obtain r rs where qr: "queued_req s = r # rs" by (cases "queued_req s") auto
    define s2 where "s2 = s1\<lparr>queued_req := rs\<rparr>"
    have ex: "exec (Suc n) (CompleteDone t) s = rbind (exec n (SubmitRequest r) s2) (\<lambda>(_, s). Inr (0, s))"
      using False qr by (simp add: complete_done_def Let_def s2_def s1_def)
    have i2: "qinv L M G s2 (r # H) D (T - {t})" unfolding s2_def by (rule qinv_pop_queue [OF i1]) (simp add: f1 qr)
    have st: "step H s s2" using f1(3) by (simp add: s2_def)
    have nf: "\<not> ct_failed s2" "calm s2" using fl qr q f1 step_calm [OF st] by (auto simp: s2_def quiet_def)
    have "returns (exec n (SubmitRequest r) s2)
       (\<lambda>v s'. qinv L M G s' H D (T - {t}) \<and> step H s2 s' \<and> length (queued_req s') \<le> length (queued_req s2) + 1
          \<and> (calm s2 \<or> ct_failed s2 \<longrightarrow> (\<exists>xs. outstanding_tr s' = xs @ outstanding_tr s2)) \<and> (calm s' \<or> ct_failed s2))"
      using assms [unfolded spec_submit_def, rule_format, OF i2] nf n qr by (simp add: s2_def)
    then have "returns (exec n (SubmitRequest r) s2) ?Q"
      by (rule returns_mono) (use step_trans [OF st] nf qr f1 in \<open>auto simp: s2_def\<close>)
    then show ?thesis unfolding ex by (rule returns_rbind) simp
  qed
qed

lemma tracker_retry:
  assumes inv: "qinv L M G s H D T" and t: "t \<in> set (outstanding_tr s)" "t \<notin> T" "G t = None" "tr_req (tr_at s t) = Some r"
    and rt: "retries s t cpl" and cid: "unat (cpl_cid cpl) = t" and s1: "s1 = upd_tr t (\<lambda>x. x\<lparr>tr_active := False\<rparr>) s"
    and i1: "qinv L M G s1 H D T" and st1: "step H s s1"
  shows "\<exists>s3. exec (Suc n) (CompleteTracker t cpl) s = Inr (0, s3) \<and> qinv L M G s3 H D T \<and> step H s s3
    \<and> queued_req s3 = queued_req s \<and> outstanding_tr s3 = outstanding_tr s"
proof -
  have tl: "t < length (qp_tr s)" using trk_okD(1,6) [OF qinvD(2) [OF inv]] t(1) by auto
  define s2 where "s2 = upd_req r (\<lambda>q. q\<lparr>req_retries := req_retries q + 1\<rparr>) s1"
  have sc: "same_cores s1 s2" unfolding s2_def by (rule same_cores_upd_req) (simp add: core_def)
  have i2: "qinv L M G s2 H D T" by (rule qinv_cong [OF i1 sc]) (use qinvD(1) [OF i1] in \<open>simp_all add: s2_def ring_ok_def\<close>)
  have "r \<in> set (tr_leaves T s)" using t by (force simp: tr_leaves_def)
  then have rH: "r \<notin> kept H s"
    using pool_okD(1) [OF qinvD(3) [OF inv]] pool_okD(2) [OF qinvD(3) [OF inv], of r]
    by (intro kept_leaf) (auto simp: leaves_def)
  have st: "step H s s2" using st1 rH by (simp add: s2_def step_upd_req)
  have "t \<in> set (outstanding_tr s2)" using t(1) by (simp add: s2_def s1)
  from submit_tracker_ok [OF i2 this t(2,3)] obtain s3 where
    s3: "nvme_qpair_submit_tracker s2 t = Inr s3" "qinv L M G s3 H D T" "step H s2 s3" "queued_req s3 = queued_req s2"
    "outstanding_tr s3 = outstanding_tr s2" by auto
  have "exec (Suc n) (CompleteTracker t cpl) s = Inr (0, s3)"
    using rt t tl cid s3(1) by (simp add: complete_tracker_def Let_def retries_def s2_def s1)
  then show ?thesis using s3 step_trans [OF st s3(3)] by (simp add: s2_def s1)
qed

text \<open>Asynchronous event requests are on the admin queue only.\<close>

lemma sealed_no_aer:
  assumes "qinv L M G s (r # H) D T" and "sealed s" and "\<not> ct_failed s"
  shows "\<not> is_aer (req_cb (req_at s r))"
  using pool_okD(3) [OF qinvD(3) [OF assms(1)], of r] assms(2,3) by (auto simp: leaf_ok_def sealed_def nvme_qpair_is_io_queue_def)

lemma spec_tracker_step:
  assumes cb: "spec_cb n" and dn: "spec_done n"
  shows "spec_tracker (Suc n)"
  unfolding spec_tracker_def
proof (intro allI impI)
  fix L M G s H D T t and cpl :: nvme_cpl
  let ?a = "if tr_is_aer s t then 1 else 0 :: nat"
  assume inv: "qinv L M G s H D T" and q: "quiet s" and t: "t \<in> set (outstanding_tr s)" "t \<notin> T" and tG: "G t = None" and cid: "unat (cpl_cid cpl) = t"
    and fl: "ct_failed s \<longrightarrow> queued_req s = []" and n: "B + 10 + 4 * (length (queued_req s) + ?a) \<le> Suc n"
  let ?Q = "\<lambda>(v::int) s'. qinv L M G s' H D T \<and> step H s s' \<and> length (queued_req s') \<le> length (queued_req s) + ?a
          \<and> (\<exists>xs. outstanding_tr s' = xs @ (if retries s t cpl then outstanding_tr s else remove1 t (outstanding_tr s))
               \<and> (sealed s \<and> queued_req s = [] \<longrightarrow> xs = [] \<and> queued_req s' = []))"
  note trk = trk_okD [OF qinvD(2) [OF inv]]
  obtain r where r: "tr_req (tr_at s t) = Some r" using qinvD(4) [OF inv t] by auto
  have tl: "t < trackers s" "t < length (qp_tr s)" using trk(1) trk(6) t(1) by auto
  define s1 where "s1 = upd_tr t (\<lambda>x. x\<lparr>tr_active := False\<rparr>) s"
  have i1: "qinv L M G s1 H D T" unfolding s1_def by (rule qinv_upd_tr [OF inv t tG]) (simp_all add: tr_static_def)
  have f1: "queued_req s1 = queued_req s" "outstanding_tr s1 = outstanding_tr s" "step H s s1" "reqs s1 = reqs s"
    "tr_req (tr_at s1 t) = Some r" "\<not> tr_active (tr_at s1 t)" "ct_failed s1 = ct_failed s" "quiet s1" "sealed s1 = sealed s"
    using r q tl by (simp_all add: s1_def tr_at_upd_tr quiet_def calm_def sealed_def nvme_qpair_is_io_queue_def)
  show "returns (exec (Suc n) (CompleteTracker t cpl) s) ?Q"
  proof (cases "retries s t cpl")
    case True
    from tracker_retry [OF inv t tG r True cid s1_def i1 f1(3), of n] obtain s3 where
      "exec (Suc n) (CompleteTracker t cpl) s = Inr (0, s3)" "qinv L M G s3 H D T" "step H s s3"
      "queued_req s3 = queued_req s" "outstanding_tr s3 = outstanding_tr s" by blast
    then show ?thesis using True by simp
  next
    case False
    have i2: "qinv L M G s1 (r # H) D (insert t T)" by (rule qinv_detach [OF i1]) (use f1 t tG in simp_all)
    have aer: "is_aer (req_cb (req_at s1 r)) = tr_is_aer s t" using r f1(4) by (simp add: tr_is_aer_def)
    have ex: "exec (Suc n) (CompleteTracker t cpl) s = rbind (exec n (CallCb (req_cb (req_at s1 r)) cpl) s1)
        (\<lambda>(_, s). rbind (nvme_request_free r s) (\<lambda>s. exec n (CompleteDone t) s))"
      using False r tl cid by (auto simp: complete_tracker_def Let_def retries_def s1_def)
    have "5 \<le> n" using n by simp
    note c = cb [unfolded spec_cb_def, rule_format, OF i2 f1(8) this, of cpl, unfolded aer]
    show ?thesis unfolding ex
    proof (rule returns_rbind [OF c], goal_cases)
      case (1 v s2)
      then obtain xs ys where i3: "qinv L M G s2 H (r # D) (insert t T)" and st: "step H s1 s2" and
        qs: "queued_req s2 = queued_req s @ ys" "length ys \<le> 1" "outstanding_tr s2 = xs @ outstanding_tr s"
        "\<not> tr_is_aer s t \<or> ct_failed s \<longrightarrow> xs = [] \<and> ys = []"
        using f1 by auto
      define s3 where "s3 = s2\<lparr>free_req := r # free_req s2\<rparr>"
      note fr = qinv_free_dead [OF i3]
      have st3: "step H s s3" using step_trans [OF f1(3) st] by (simp add: s3_def)
      have q3: "quiet s3" by (rule step_quiet [OF st3 q])
      have fl3: "ct_failed s3 \<longrightarrow> queued_req s3 = []" using fl qs stepD(4) [OF st3] by (auto simp: s3_def)
      have lq: "length (queued_req s3) \<le> length (queued_req s) + ?a" using qs by (auto simp: s3_def)
      have n3: "B + 9 + 4 * length (queued_req s3) \<le> n" using n lq by simp
      have "qinv L M G s3 H D (insert t T)" using fr(2) by (simp add: s3_def)
      note d = dn [unfolded spec_done_def, rule_format, OF this q3 _ _ n3, of t]
      have "returns (exec n (CompleteDone t) s3)
         (\<lambda>v s'. qinv L M G s' H D (insert t T - {t}) \<and> step H s3 s' \<and> length (queued_req s') \<le> length (queued_req s3)
          \<and> (\<exists>zs. outstanding_tr s' = zs @ remove1 t (outstanding_tr s3) \<and> (queued_req s3 = [] \<longrightarrow> zs = [])))"
        by (rule d) (use fl3 in auto)
      then have "returns (exec n (CompleteDone t) s3) ?Q"
      proof (rule returns_mono, goal_cases)
        case (1 v s')
        then obtain zs where i4: "qinv L M G s' H D T" "step H s3 s'" "length (queued_req s') \<le> length (queued_req s3)"
          "outstanding_tr s' = zs @ remove1 t (outstanding_tr s3)" "queued_req s3 = [] \<longrightarrow> zs = []"
          using t(2) by auto
        have "t \<notin> set xs" using trk_okD(3) [OF qinvD(2) [OF i3]] t(1) qs(3) by auto
        then have "outstanding_tr s' = (zs @ xs) @ remove1 t (outstanding_tr s)"
          using i4(4) qs(3) by (simp add: s3_def remove1_append)
        moreover have "zs @ xs = [] \<and> queued_req s' = []" if "sealed s" "queued_req s = []"
        proof -
          have "\<not> tr_is_aer s t \<or> ct_failed s" using sealed_no_aer [OF i2] that(1) aer f1(7,9) by auto
          then show ?thesis using that qs i4 by (auto simp: s3_def)
        qed
        ultimately show ?case using i4 step_trans [OF st3 i4(2)] lq False by auto
      qed
      then show ?case using fr(1) by (simp add: s3_def)
    qed
  qed
qed

subsection \<open>Aborting and enabling\<close>

lemma spec_abort_queued_step:
  assumes cb: "spec_cb n" and ab: "spec_abort_queued n"
  shows "spec_abort_queued (Suc n)"
  unfolding spec_abort_queued_def
proof (intro allI impI)
  fix L M G s H D T
  assume inv: "qinv L M G s H D T" and q: "quiet s" and se: "sealed s" and n: "6 + length (queued_req s) \<le> Suc n"
  let ?Q = "\<lambda>(v::int) s'. qinv L M G s' H D T \<and> step H s s' \<and> queued_req s' = [] \<and> outstanding_tr s' = outstanding_tr s"
  show "returns (exec (Suc n) AbortQueued s) ?Q"
  proof (cases "queued_req s")
    case Nil
    then show ?thesis using inv by (simp add: abort_queued_def)
  next
    case (Cons r rs)
    define s1 where "s1 = s\<lparr>queued_req := rs\<rparr>"
    let ?cpl = "manual_cpl s 0 NVME_SC_ABORTED_BY_REQUEST False"
    have i1: "qinv L M G s1 (r # H) D T" unfolding s1_def by (rule qinv_pop_queue [OF inv Cons])
    have f1: "quiet s1" "step H s s1" "ct_failed s1 = ct_failed s" "sealed s1"
      using q se by (simp_all add: s1_def quiet_def calm_def sealed_def nvme_qpair_is_io_queue_def)
    have ex: "exec (Suc n) AbortQueued s = rbind (exec n (CallCb (req_cb (req_at s1 r)) ?cpl) s1)
        (\<lambda>(_, s). rbind (nvme_request_free r s) (\<lambda>s. exec n AbortQueued s))"
      using Cons by (simp add: abort_queued_def s1_def)
    have "leaf_ok s1 r" using pool_okD(3) [OF qinvD(3) [OF i1], of r] by simp
    then have na: "\<not> is_aer (req_cb (req_at s1 r)) \<or> ct_failed s1" using f1(4) by (auto simp: leaf_ok_def sealed_def)
    have "5 \<le> n" using n Cons by simp
    note c = cb [unfolded spec_cb_def, rule_format, OF i1 f1(1) this, of ?cpl]
    show ?thesis unfolding ex
    proof (rule returns_rbind [OF c], goal_cases)
      case (1 v s2)
      then have i2: "qinv L M G s2 H (r # D) T" and st: "step H s1 s2" and qs: "queued_req s2 = rs" "outstanding_tr s2 = outstanding_tr s"
        using na by (auto simp: s1_def)
      define s3 where "s3 = s2\<lparr>free_req := r # free_req s2\<rparr>"
      note fr = qinv_free_dead [OF i2]
      have st3: "step H s s3" using step_trans [OF f1(2) st] by (simp add: s3_def)
      have "qinv L M G s3 H D T" using fr(2) by (simp add: s3_def)
      then have "returns (exec n AbortQueued s3) (\<lambda>v s'. qinv L M G s' H D T \<and> step H s3 s' \<and> queued_req s' = [] \<and> outstanding_tr s' = outstanding_tr s3)"
        using ab [unfolded spec_abort_queued_def, rule_format, of L M G s3 H D T] step_quiet [OF st3 q] step_sealed [OF st3] se n Cons qs
        by (simp add: s3_def)
      then have "returns (exec n AbortQueued s3) ?Q"
        by (rule returns_mono) (use step_trans [OF st3] qs in \<open>auto simp: s3_def\<close>)
      then show ?case using fr(1) by (simp add: s3_def)
    qed
  qed
qed

lemma next_in_split: "t \<notin> set us \<Longrightarrow> next_in (us @ t # vs) t = list_first vs"
  by (induction us) (auto simp: list_first_def split: list.splits)

lemma spec_abort_outstanding_step:
  assumes ct: "spec_tracker n" and ab: "spec_abort_outstanding n"
  shows "spec_abort_outstanding (Suc n)"
  unfolding spec_abort_outstanding_def
proof (intro allI impI)
  fix L M s H D us vs dnr
  assume inv: "qinv L M Map.empty s H D {}" and q: "quiet s" and fl: "ct_failed s \<longrightarrow> queued_req s = []"
    and o: "outstanding_tr s = us @ vs" and n: "B + 12 + 4 * length (queued_req s) + 5 * length vs \<le> Suc n"
  let ?Q = "\<lambda>(v::int) s'. qinv L M Map.empty s' H D {} \<and> step H s s' \<and> length (queued_req s') \<le> length (queued_req s) + length vs
          \<and> (\<exists>xs. outstanding_tr s' = xs @ us \<and> (sealed s \<and> queued_req s = [] \<longrightarrow> xs = [] \<and> queued_req s' = []))
          \<and> (vs = [] \<longrightarrow> s' = s)"
  show "returns (exec (Suc n) (AbortOutstanding (list_first vs) dnr) s) ?Q"
  proof (cases vs)
    case Nil
    then show ?thesis using inv o by (simp add: abort_outstanding_def list_first_def)
  next
    case (Cons t ws)
    note trk = trk_okD [OF qinvD(2) [OF inv]]
    have t: "t \<in> set (outstanding_tr s)" "t \<notin> set us" using trk(3) o Cons by auto
    let ?cpl = "manual_cpl s (tr_cid (tr_at s t)) NVME_SC_ABORTED_BY_REQUEST dnr"
    have nx: "tr_next s t = list_first ws" using t o Cons next_in_split by (simp add: tr_next_def)
    have ex: "exec (Suc n) (AbortOutstanding (list_first vs) dnr) s = rbind (exec n (CompleteTracker t ?cpl) s)
               (\<lambda>(_, s). exec n (AbortOutstanding (list_first ws) dnr) s)"
      using nx Cons by (simp add: abort_outstanding_def list_first_def)
    have nr: "\<not> retries s t ?cpl"
      by (simp add: retries_def nvme_qpair_completion_retry_def manual_cpl_def status_defs)
    have c: "returns (exec n (CompleteTracker t ?cpl) s)
       (\<lambda>v s'. qinv L M Map.empty s' H D {} \<and> step H s s'
          \<and> length (queued_req s') \<le> length (queued_req s) + (if tr_is_aer s t then 1 else 0)
          \<and> (\<exists>xs. outstanding_tr s' = xs @ (if retries s t ?cpl then outstanding_tr s else remove1 t (outstanding_tr s))
               \<and> (sealed s \<and> queued_req s = [] \<longrightarrow> xs = [] \<and> queued_req s' = [])))"
      by (rule ct [unfolded spec_tracker_def, rule_format])
        (use inv q t fl n Cons trk(8) [OF trk(6) [OF t(1)]] in \<open>auto simp: manual_cpl_def\<close>)
    show ?thesis unfolding ex
    proof (rule returns_rbind [OF c], goal_cases)
      case (1 v s2)
      then obtain xs where i2: "qinv L M Map.empty s2 H D {}" "step H s s2" "length (queued_req s2) \<le> length (queued_req s) + 1"
        and o2: "outstanding_tr s2 = (xs @ us) @ ws" and em: "sealed s \<and> queued_req s = [] \<longrightarrow> xs = [] \<and> queued_req s2 = []"
        using nr o Cons t(2) by (auto simp: remove1_append split: if_splits)
      have fl2: "ct_failed s2 \<longrightarrow> queued_req s2 = []" using fl em stepD(4) [OF i2(2)] by (auto simp: sealed_def)
      have n2: "B + 12 + 4 * length (queued_req s2) + 5 * length ws \<le> n" using n i2(3) Cons by simp
      from ab [unfolded spec_abort_outstanding_def, rule_format, OF i2(1) step_quiet [OF i2(2) q] _ o2 n2, of dnr] fl2
      have "returns (exec n (AbortOutstanding (list_first ws) dnr) s2)
       (\<lambda>v s'. qinv L M Map.empty s' H D {} \<and> step H s2 s' \<and> length (queued_req s') \<le> length (queued_req s2) + length ws
          \<and> (\<exists>zs. outstanding_tr s' = zs @ xs @ us \<and> (sealed s2 \<and> queued_req s2 = [] \<longrightarrow> zs = [] \<and> queued_req s' = []))
          \<and> (ws = [] \<longrightarrow> s' = s2))" by simp
      then have "returns (exec n (AbortOutstanding (list_first ws) dnr) s2) ?Q"
        by (rule returns_mono) (use step_trans [OF i2(2)] i2(3) em step_sealed [OF i2(2)] Cons in auto)
      then show ?case by simp
    qed
  qed
qed

lemma spec_enable_step:
  assumes aq: "spec_abort_queued n" and ao: "spec_abort_outstanding n"
  shows "spec_enable (Suc n)"
  unfolding spec_enable_def
proof (intro allI impI)
  fix L M s H D
  assume inv: "qinv L M Map.empty s H D {}" and ce: "can_enable s {}" and n: "en_fuel s \<le> Suc n"
  let ?Q = "\<lambda>(v::int) s'. qinv L M Map.empty s' H D {} \<and> step H s s' \<and> qp_enabled s'
          \<and> (nvme_qpair_is_io_queue s \<longrightarrow> queued_req s' = [] \<and> outstanding_tr s' = [])
          \<and> (outstanding_tr s = [] \<longrightarrow> length (queued_req s') \<le> length (queued_req s))"
  show "returns (exec (Suc n) Enable s) ?Q"
  proof (cases "nvme_qpair_is_io_queue s")
    case True
    define s1 where "s1 = s\<lparr>qp_enabled := True, ct_enabled_io_qpairs := ct_enabled_io_qpairs s + 1\<rparr>"
    have ex: "exec (Suc n) Enable s = rbind (exec n AbortQueued s1)
       (\<lambda>(_, s). exec n (AbortOutstanding (list_first (outstanding_tr s)) False) s)"
      using True by (simp add: qpair_enable_def io_qpair_enable_def s1_def)
    have i1: "qinv L M Map.empty s1 H D {}" "quiet s1" "sealed s1" "queued_req s1 = queued_req s" "outstanding_tr s1 = outstanding_tr s" "qp_enabled s1"
      using inv True by (simp_all add: s1_def qinv_upd_log quiet_def calm_def sealed_def nvme_qpair_is_io_queue_def)
    have st1: "step H s s1" by (simp add: s1_def) (simp add: step_def static_def)
    have "6 + length (queued_req s1) \<le> n" using n i1(4) by (simp add: en_fuel_def)
    note c = aq [unfolded spec_abort_queued_def, rule_format, OF i1(1-3) this]
    show ?thesis unfolding ex
    proof (rule returns_rbind [OF c], goal_cases)
      case (1 v s2)
      then have i2: "qinv L M Map.empty s2 H D {}" and st2: "step H s1 s2" and qs: "queued_req s2 = []" "outstanding_tr s2 = [] @ outstanding_tr s"
        using i1 by auto
      have st: "step H s s2" by (rule step_trans [OF st1 st2])
      have se: "sealed s2" using step_sealed [OF st2] i1(3) by simp
      have "B + 12 + 4 * length (queued_req s2) + 5 * length (outstanding_tr s) \<le> n" using n qs by (simp add: en_fuel_def)
      from ao [unfolded spec_abort_outstanding_def, rule_format, OF i2 step_quiet [OF st2 i1(2)] _ qs(2) this, of False] qs
      have "returns (exec n (AbortOutstanding (list_first (outstanding_tr s)) False) s2)
         (\<lambda>v s'. qinv L M Map.empty s' H D {} \<and> step H s2 s' \<and> queued_req s' = [] \<and> outstanding_tr s' = [])"
        using se by (auto elim!: returns_mono)
      then have "returns (exec n (AbortOutstanding (list_first (outstanding_tr s)) False) s2) ?Q"
        by (rule returns_mono) (use step_trans [OF st] stepD(10) [OF st2 i1(6)] stepD(10) in auto)
      then show ?case using qs by simp
    qed
  next
    case False
    have ex: "exec (Suc n) Enable s = rbind (exec n (AbortOutstanding (list_first (outstanding_tr s)) True) s)
       (\<lambda>(_, s). Inr (0, s\<lparr>qp_enabled := True\<rparr>))"
      using False by (simp add: qpair_enable_def admin_qpair_enable_def)
    have fl: "ct_failed s \<longrightarrow> queued_req s = []" using ce by (auto simp: can_enable_def)
    have en: "returns (Inr (0, s'\<lparr>qp_enabled := True\<rparr>)) ?Q" if "qinv L M Map.empty s' H D {}" "step H s s'"
      "outstanding_tr s = [] \<longrightarrow> s' = s" for s'
      using that False by (auto simp: qinv_upd_log step_def static_def)
    show ?thesis
    proof (cases "outstanding_tr s = []")
      case True
      obtain m where m: "n = Suc m" using n by (cases n) (auto simp: en_fuel_def)
      have "exec n (AbortOutstanding (list_first (outstanding_tr s)) True) s = Inr (0, s)"
        using True by (simp add: m abort_outstanding_def list_first_def)
      then show ?thesis unfolding ex using en [OF inv] by simp
    next
      case ne: False
      then have q: "quiet s" using ce False by (auto simp: can_enable_def quiet_def calm_def)
      have o: "outstanding_tr s = [] @ outstanding_tr s" by simp
      have "B + 12 + 4 * length (queued_req s) + 5 * length (outstanding_tr s) \<le> n" using n by (simp add: en_fuel_def)
      note c = ao [unfolded spec_abort_outstanding_def, rule_format, OF inv q _ o this, of True]
      show ?thesis unfolding ex
        by (rule returns_rbind [OF c]) (use fl en ne in \<open>auto simp del: returns_Inr\<close>)
    qed
  qed
qed

lemma spec_check_step:
  assumes "spec_enable n"
  shows "spec_check (Suc n)"
  unfolding spec_check_def
proof (intro allI impI)
  fix L M G s H D T
  assume inv: "qinv L M G s H D T" and c: "calm s \<or> can_enable s T \<and> G = Map.empty" and n: "(if calm s then 1 else en_fuel s + 1) \<le> Suc n"
  show "returns (exec (Suc n) EnabledCheck s) (\<lambda>v s'. qinv L M G s' H D T \<and> step H s s' \<and> calm s' \<and> (calm s \<longrightarrow> s' = s)
    \<and> length (queued_req s') \<le> length (queued_req s))"
  proof (cases "calm s")
    case True
    then show ?thesis using inv exec_check_calm [OF True, of n] by (simp del: exec.simps)
  next
    case False
    then have T: "T = {}" and G: "G = Map.empty" and ce: "can_enable s {}" using c by (auto simp: can_enable_def)
    have ex: "exec (Suc n) EnabledCheck s = exec n Enable s" using False by (simp add: qpair_enabled_def calm_def)
    have "en_fuel s \<le> n" using n False by simp
    note e = assms [unfolded spec_enable_def, rule_format, OF inv [unfolded T G] ce this]
    have "nvme_qpair_is_io_queue s \<or> outstanding_tr s = []" using ce False by (auto simp: can_enable_def calm_def)
    then show ?thesis unfolding ex T G
      by (intro returns_mono [OF e]) (use False in \<open>auto simp: calm_def\<close>)
  qed
qed

subsection \<open>Submitting requests\<close>

lemma spec_submit_step:
  assumes ck: "spec_check n" and lf: "spec_leaf n"
  shows "spec_submit (Suc n)"
  unfolding spec_submit_def
proof (intro allI impI)
  fix L M G s H D T r
  assume inv: "qinv L M G s (r # H) D T" and c: "calm s \<or> can_enable s T \<and> G = Map.empty"
    and fl: "ct_failed s \<longrightarrow> (\<forall>c. req_cb (req_at s r) \<noteq> CbCompleteChild c)"
    and n: "B + 12 + 4 * length (queued_req s) + (if calm s then 0 else en_fuel s) \<le> Suc n"
  let ?Q = "\<lambda>(v::int) s'. qinv (if ct_failed s then {#} else L) M G s' H D T \<and> step H s s' \<and> length (queued_req s') \<le> length (queued_req s) + 1
          \<and> (calm s \<or> ct_failed s \<longrightarrow> (\<exists>xs. outstanding_tr s' = xs @ outstanding_tr s)) \<and> (calm s' \<or> ct_failed s)"
  show "returns (exec (Suc n) (SubmitRequest r) s) ?Q"
  proof (cases "ct_failed s")
    case True
    then show ?thesis using exec_submit_failed [OF inv True] fl by simp
  next
    case False
    have "(if calm s then 1 else en_fuel s + 1) \<le> n" using n by (simp split: if_splits)
    note k = ck [unfolded spec_check_def, rule_format, OF inv c this]
    have ex: "exec (Suc n) (SubmitRequest r) s = rbind (exec n EnabledCheck s)
        (\<lambda>(_, s). if req_child_reqs (req_at s r) \<noteq> 0 then exec n (SubmitChildren r (req_children (req_at s r)) False 0) s
                  else exec n (SubmitLeaf r) s)"
      using False by (simp add: submit_request_def)
    show ?thesis unfolding ex
    proof (rule returns_rbind [OF k], goal_cases)
      case (1 v s1)
      then have i1: "qinv L M G s1 (r # H) D T" "step (r # H) s s1" "calm s1" "calm s \<longrightarrow> s1 = s"
        "length (queued_req s1) \<le> length (queued_req s)" by auto
      have st: "step H s s1" using i1(2) by (rule step_mono) auto
      have c0: "req_child_reqs (req_at s1 r) = 0" using pool_okD(2) [OF qinvD(3) [OF i1(1)], of r] by simp
      have "B + 11 + 4 * length (queued_req s1) \<le> n" using n i1(5) by (simp split: if_splits)
      moreover have "\<not> ct_failed s1" using False stepD(4) [OF st] by simp
      ultimately have "returns (exec n (SubmitLeaf r) s1)
         (\<lambda>v s'. qinv L M G s' H D T \<and> step H s1 s' \<and> length (queued_req s') \<le> length (queued_req s1) + 1
          \<and> (\<exists>xs. outstanding_tr s' = xs @ outstanding_tr s1))"
        using lf [unfolded spec_leaf_def, rule_format, OF i1(1,3)] by simp
      then have "returns (exec n (SubmitLeaf r) s1) ?Q"
        by (rule returns_mono) (use i1 step_trans [OF st] step_calm False in auto)
      then show ?case using c0 by simp
    qed
  qed
qed

lemma spec_children_step:
  assumes sb: "spec_submit n" and ch: "spec_children n"
  shows "spec_children (Suc n)"
  unfolding spec_children_def
proof (intro allI impI)
  fix L M G s H D T r cs fl and ret :: int
  assume inv: "qinv L M G s (cs @ H) D T" and calm: "calm s" and nf: "\<not> ct_failed s" and rt: "fl \<longrightarrow> ret \<noteq> 0"
    and par: "\<forall>c\<in>set cs. req_parent (req_at s c) = Some r \<and> req_cb (req_at s c) = CbCompleteChild c"
    and n: "B + 13 + 4 * length (queued_req s) + 5 * length cs \<le> Suc n"
  let ?Q = "\<lambda>(v::int) s'. qinv (if v = 0 then L else {#}) M G s' H D T \<and> (fl \<longrightarrow> v \<noteq> 0) \<and> step H s s'
          \<and> length (queued_req s') \<le> length (queued_req s) + length cs \<and> (\<exists>xs. outstanding_tr s' = xs @ outstanding_tr s)"
  show "returns (exec (Suc n) (SubmitChildren r cs fl ret) s) ?Q"
  proof (cases cs)
    case Nil
    then show ?thesis using inv rt qinv_weaken [OF inv, of "{#}" M] by (simp add: submit_children_def)
  next
    case (Cons c ds)
    have rest: "returns (exec n (SubmitChildren r ds fl' ret') s1) ?Q"
      if i1: "qinv L' M G s1 (ds @ H) D T" and L': "fl' \<or> L' = L" and fl': "fl \<longrightarrow> fl'" "fl' \<longrightarrow> ret' \<noteq> 0"
        and st: "step (ds @ H) s s1" and q1: "length (queued_req s1) \<le> length (queued_req s) + 1"
        and o1: "\<exists>xs. outstanding_tr s1 = xs @ outstanding_tr s" for s1 L' fl' ret'
    proof -
      have "\<forall>c\<in>set ds. req_parent (req_at s1 c) = Some r \<and> req_cb (req_at s1 c) = CbCompleteChild c"
        using par Cons stepD(11) [OF st] by auto
      moreover have "B + 13 + 4 * length (queued_req s1) + 5 * length ds \<le> n" using n q1 Cons by simp
      ultimately have "returns (exec n (SubmitChildren r ds fl' ret') s1)
         (\<lambda>v s'. qinv (if v = 0 then L' else {#}) M G s' H D T \<and> (fl' \<longrightarrow> v \<noteq> 0) \<and> step H s1 s'
          \<and> length (queued_req s') \<le> length (queued_req s1) + length ds \<and> (\<exists>xs. outstanding_tr s' = xs @ outstanding_tr s1))"
        using ch [unfolded spec_children_def, rule_format, OF i1 step_calm [OF st calm]] nf stepD(4) [OF st] fl'(2) by simp
      moreover have "step H s s1" using st by (rule step_mono) auto
      ultimately show ?thesis
        using q1 o1 Cons L' fl'(1) step_trans [of H s s1] by (elim returns_mono) auto
    qed
    have inv': "qinv L M G s (c # ds @ H) D T" using inv Cons by simp
    show ?thesis
    proof (cases fl)
      case False
      have ex: "exec (Suc n) (SubmitChildren r cs fl ret) s =
          rbind (exec n (SubmitRequest c) s) (\<lambda>(ret, s). exec n (SubmitChildren r ds (ret \<noteq> 0) ret) s)"
        using Cons False by (simp add: submit_children_def)
      have "returns (exec n (SubmitRequest c) s)
         (\<lambda>v s'. qinv L M G s' (ds @ H) D T \<and> step (ds @ H) s s' \<and> length (queued_req s') \<le> length (queued_req s) + 1
          \<and> (calm s \<or> ct_failed s \<longrightarrow> (\<exists>xs. outstanding_tr s' = xs @ outstanding_tr s)) \<and> (calm s' \<or> ct_failed s))"
        using sb [unfolded spec_submit_def, rule_format, OF inv'] calm nf n Cons by simp
      then show ?thesis unfolding ex by (rule returns_rbind) (use calm False rest [of L] in auto)
    next
      case True
      have inv0: "qinv {#} M G s (c # ds @ H) D T" using qinv_weaken [OF inv', of "{#}" M] by simp
      have c: "req_cb (req_at s c) = CbCompleteChild c" "req_parent (req_at s c) = Some r" using par Cons by auto
      define s1 where "s1 = upd_req r (\<lambda>q. q\<lparr>req_child_reqs := req_child_reqs q - 1, req_children := remove1 c (req_children q)\<rparr>) s"
      note rm = qinv_remove_child [OF inv0 c s1_def]
      define s2 where "s2 = s1\<lparr>free_req := c # free_req s1\<rparr>"
      note fr = qinv_free_dead [OF rm(7)]
      have ex: "exec (Suc n) (SubmitChildren r cs fl ret) s = exec n (SubmitChildren r ds True ret) s2"
        using Cons True rm(2) fr(1) by (simp add: submit_children_def s2_def)
      have "r \<notin> kept (ds @ H) s"
        by (rule kept_parent [of _ _ c])
          (use rm(1) c pool_okD(1) [OF qinvD(3) [OF inv']] pool_okD(2) [OF qinvD(3) [OF inv'], of r]
            pool_okD(3) [OF qinvD(3) [OF inv'], of c] in \<open>auto simp: parents_def leaf_ok_def linked_def\<close>)
      then have st: "step (ds @ H) s s2" by (simp add: s2_def s1_def step_upd_req)
      have f2: "queued_req s2 = queued_req s" "outstanding_tr s2 = outstanding_tr s" by (simp_all add: s2_def s1_def)
      have "qinv {#} M G s2 (ds @ H) D T" using fr(2) by (simp add: s2_def)
      then show ?thesis unfolding ex by (rule rest [OF _ _ _ _ st]) (use True rt in \<open>simp_all add: f2\<close>)
    qed
  qed
qed

lemma spec_parent_step:
  assumes ck: "spec_check n" and ch: "spec_children n"
  shows "spec_parent (Suc n)"
  unfolding spec_parent_def
proof (intro allI impI)
  fix L M G and s :: qctx and H D T r
  let ?cs = "req_children (req_at s r)"
  assume inv: "qinv L M G s (?cs @ H) D T" and p: "r \<in> parents s" and c: "calm s \<or> can_enable s T \<and> G = Map.empty" and nf: "\<not> ct_failed s"
    and n: "B + 14 + 4 * length (queued_req s) + 5 * length ?cs + (if calm s then 0 else en_fuel s) \<le> Suc n"
  let ?Q = "\<lambda>(v::int) s'. qinv (if v = 0 then L else {#}) M G s' H D T \<and> step H s s' \<and> calm s' \<and> length (queued_req s') \<le> length (queued_req s) + length ?cs"
  have pok: "parent_ok s (set (leaves T s @ ?cs @ H)) r" using pool_okD(4) [OF qinvD(3) [OF inv] p] .
  have ne: "?cs \<noteq> []" using pok p by (auto simp: parent_ok_def parents_def unat_eq_0)
  have "(if calm s then 1 else en_fuel s + 1) \<le> n" using n by (simp split: if_splits)
  note k = ck [unfolded spec_check_def, rule_format, OF inv c this]
  have ex: "exec (Suc n) (SubmitRequest r) s = rbind (exec n EnabledCheck s)
      (\<lambda>(_, s). if req_child_reqs (req_at s r) \<noteq> 0 then exec n (SubmitChildren r (req_children (req_at s r)) False 0) s
                else exec n (SubmitLeaf r) s)"
    using nf by (simp add: submit_request_def)
  show "returns (exec (Suc n) (SubmitRequest r) s) ?Q" unfolding ex
  proof (rule returns_rbind [OF k], goal_cases)
    case (1 v s1)
    then have i1: "qinv L M G s1 (?cs @ H) D T" "step (?cs @ H) s s1" "calm s1" "length (queued_req s1) \<le> length (queued_req s)" by auto
    have same: "req_at s1 r = req_at s r" using i1(2) p by (auto simp: step_def kept_def)
    have st: "step H s s1" using i1(2) by (rule step_mono) auto
    have par: "\<forall>x\<in>set ?cs. req_parent (req_at s1 x) = Some r \<and> req_cb (req_at s1 x) = CbCompleteChild x"
      using pok stepD(11) [OF i1(2)] by (auto simp: parent_ok_def)
    have "B + 13 + 4 * length (queued_req s1) + 5 * length ?cs \<le> n" using n i1(4) by (simp split: if_splits)
    then have "returns (exec n (SubmitChildren r ?cs False 0) s1)
         (\<lambda>v s'. qinv (if v = 0 then L else {#}) M G s' H D T \<and> (False \<longrightarrow> v \<noteq> 0) \<and> step H s1 s'
          \<and> length (queued_req s') \<le> length (queued_req s1) + length ?cs \<and> (\<exists>xs. outstanding_tr s' = xs @ outstanding_tr s1))"
      using ch [unfolded spec_children_def, rule_format, OF i1(1,3), of False 0] par nf stepD(4) [OF st] by simp
    then have "returns (exec n (SubmitChildren r ?cs False 0) s1) ?Q"
      by (rule returns_mono) (use step_trans [OF st] step_calm [OF _ i1(3)] i1(4) in auto)
    then show ?case using same p by (simp add: parents_def)
  qed
qed

subsection \<open>All calls meet their specification\<close>

definition good :: "nat \<Rightarrow> bool" where
  "good n \<longleftrightarrow> spec_cb n \<and> spec_aer n \<and> spec_submit0 n \<and> spec_leaf0 n \<and> spec_leaf n \<and> spec_tracker n \<and> spec_done n
     \<and> spec_enable n \<and> spec_check n \<and> spec_submit n \<and> spec_children n \<and> spec_parent n \<and> spec_abort_queued n
     \<and> spec_abort_outstanding n"

lemmas spec_defs = spec_cb_def spec_aer_def spec_submit0_def spec_leaf0_def spec_leaf_def spec_tracker_def spec_done_def
  spec_enable_def spec_check_def spec_submit_def spec_children_def spec_parent_def spec_abort_queued_def
  spec_abort_outstanding_def

lemma exec_good: "good n"
proof (induction n)
  case 0
  show ?case by (simp add: good_def spec_defs en_fuel_def)
next
  case (Suc n)
  then show ?case
    by (simp add: good_def spec_cb_step spec_aer_step spec_submit0_step spec_leaf0_step spec_leaf_step spec_tracker_step
        spec_done_step spec_enable_step spec_check_step spec_submit_step spec_children_step spec_parent_step
        spec_abort_queued_step spec_abort_outstanding_step)
qed

lemma specs: "spec_tracker n" "spec_enable n" "spec_check n" "spec_submit n" "spec_parent n" "spec_abort_queued n" "spec_cb n"
  using exec_good [of n] by (simp_all add: good_def)

end
