(* ===== verification/Nvme_Qprops.thy ===== *)
theory Nvme_Qprops
  imports Nvme_Qinv
begin

text \<open>
  Properties of queue pairs: submission, polling, failing, construction, retries and split requests, all over the
  invariant of the preceding theory.
\<close>

subsection \<open>Polling\<close>

text \<open>The \<open>i\<close>-th entry of the completion queue from the head on, and the phase tag it has when it is new.\<close>

definition nth_cpl :: "qctx \<Rightarrow> nat \<Rightarrow> nvme_cpl" where
  "nth_cpl s i = qp_cpl s ! ((cq_head s + i) mod entries s)"

definition exp_phase :: "qctx \<Rightarrow> nat \<Rightarrow> bool" where
  "exp_phase s i = (if even ((cq_head s + i) div entries s) then phase s else \<not> phase s)"

definition new_cpl :: "qctx \<Rightarrow> nat \<Rightarrow> bool" where
  "new_cpl s i \<longleftrightarrow> st_p (cpl_status (nth_cpl s i)) = exp_phase s i"

definition cpl_tr :: "qctx \<Rightarrow> nat \<Rightarrow> nat" where
  "cpl_tr s i = unat (cpl_cid (nth_cpl s i))"

text \<open>
  The device has posted \<open>k\<close> completions, for different active commands.
\<close>

definition posted :: "qctx \<Rightarrow> nat \<Rightarrow> bool" where
  "posted s k \<longleftrightarrow> (\<forall>i<k. new_cpl s i \<and> cpl_tr s i < trackers s \<and> tr_active (tr_at s (cpl_tr s i)))
     \<and> distinct (map (cpl_tr s) [0..<k])"

definition cq_advance :: "qctx \<Rightarrow> qctx" where
  "cq_advance s = (let head = ring_next (entries s) (cq_head s)
     in s\<lparr>cq_head := head, phase := (if head = 0 then \<not> phase s else phase s)\<rparr>)"

lemma cq_advance_head:
  assumes "ring_ok s"
  shows "cq_head (cq_advance s) = (cq_head s + 1) mod entries s"
proof -
  have "cq_head s + 1 < 2 ^ 16" "cq_head s < entries s" using assms by (simp_all add: ring_ok_def)
  then show ?thesis by (simp add: cq_advance_def Let_def ring_next_def mod_if)
qed

lemma cq_advance_next:
  assumes "ring_ok s"
  shows "nth_cpl (cq_advance s) i = nth_cpl s (Suc i)" and "exp_phase (cq_advance s) i = exp_phase s (Suc i)"
proof -
  have n: "cq_head s + 1 < 2 ^ 16" "cq_head s < entries s" using assms by (simp_all add: ring_ok_def)
  have f: "entries (cq_advance s) = entries s" "qp_cpl (cq_advance s) = qp_cpl s"
    by (simp_all add: cq_advance_def Let_def)
  show "nth_cpl (cq_advance s) i = nth_cpl s (Suc i)"
    unfolding nth_cpl_def cq_advance_head [OF assms] f by (simp add: mod_add_left_eq)
  show "exp_phase (cq_advance s) i = exp_phase s (Suc i)"
  proof (cases "cq_head s + 1 = entries s")
    case True
    then have h: "cq_head (cq_advance s) = 0" "phase (cq_advance s) = (\<not> phase s)"
      using n by (auto simp: cq_advance_def Let_def ring_next_def)
    have "(cq_head s + Suc i) div entries s = Suc (i div entries s)"
      using True n by (metis add_Suc_right add_Suc_shift div_add_self1 Suc_eq_plus1 gr_implies_not0)
    then show ?thesis by (simp add: exp_phase_def h f)
  next
    case False
    then have h: "cq_head (cq_advance s) = cq_head s + 1" "phase (cq_advance s) = phase s"
      using n by (auto simp: cq_advance_def Let_def ring_next_def)
    then show ?thesis by (simp add: exp_phase_def h f)
  qed
qed

lemma qinv_cq_advance:
  assumes "qinv L M G s H D T"
  shows "qinv L M G (cq_advance s) H D T"
proof -
  have "cq_head (cq_advance s) < entries s"
    using qinvD(1) [OF assms] cq_advance_head [OF qinvD(1) [OF assms]] by (simp add: ring_ok_def)
  then show ?thesis
    by (intro qinv_cong [OF assms]) (use qinvD(1) [OF assms] in \<open>auto intro: same_cores_eq simp: cq_advance_def Let_def ring_ok_def\<close>)
qed

text \<open>Trackers that stay untouched by the running code may be chosen among the outstanding ones.\<close>

lemma qinv_guard:
  assumes "qinv L M Map.empty s H D {}" and "X \<subseteq> set (outstanding_tr s)"
  shows "qinv L M (\<lambda>t. if t \<in> X then Some (tr_at s t) else None) s H D {}"
  using assms by (auto simp: qinv_def req_ok_def split: if_splits)

lemma qinv_unguard: "qinv L M G s H D T \<Longrightarrow> qinv L M Map.empty s H D T"
  by (simp add: qinv_def req_ok_def)

lemma nth_cpl_step:
  assumes "step H s s'"
  shows "nth_cpl s' = nth_cpl s" "exp_phase s' = exp_phase s" "new_cpl s' = new_cpl s" "cpl_tr s' = cpl_tr s"
  using stepD [OF assms] by (auto simp: nth_cpl_def exp_phase_def new_cpl_def cpl_tr_def fun_eq_iff)

lemma exp_phase_0: "ring_ok s \<Longrightarrow> exp_phase s 0 = phase s"
  by (simp add: exp_phase_def ring_ok_def)

lemma nth_cpl_0: "ring_ok s \<Longrightarrow> nth_cpl s 0 = qp_cpl s ! cq_head s"
  by (simp add: nth_cpl_def ring_ok_def)

lemma posted_Suc:
  assumes "posted s (Suc k)"
  shows "new_cpl s 0" "cpl_tr s 0 < trackers s" "tr_active (tr_at s (cpl_tr s 0))"
    "\<And>i. i < k \<Longrightarrow> cpl_tr s (Suc i) \<noteq> cpl_tr s 0" "distinct (map (\<lambda>i. cpl_tr s (Suc i)) [0..<k])"
proof -
  have d: "distinct (map (cpl_tr s) [0..<Suc k])" and a: "\<And>i. i < Suc k \<Longrightarrow> new_cpl s i \<and> cpl_tr s i < trackers s \<and> tr_active (tr_at s (cpl_tr s i))"
    using assms by (auto simp: posted_def simp del: upt_Suc)
  show "new_cpl s 0" "cpl_tr s 0 < trackers s" "tr_active (tr_at s (cpl_tr s 0))" using a [of 0] by auto
  have "[0..<Suc k] = 0 # map Suc [0..<k]" by (simp add: map_Suc_upt upt_conv_Cons)
  then have "distinct (cpl_tr s 0 # map (\<lambda>i. cpl_tr s (Suc i)) [0..<k])" using d by (simp add: comp_def)
  then show "distinct (map (\<lambda>i. cpl_tr s (Suc i)) [0..<k])" "\<And>i. i < k \<Longrightarrow> cpl_tr s (Suc i) \<noteq> cpl_tr s 0" by force+
qed

lemma complete_tracker_ok:
  assumes "qinv L M G s H D T" "quiet s" "t \<in> set (outstanding_tr s)" "t \<notin> T" "G t = None" "unat (cpl_cid cpl) = t"
    "ct_failed s \<longrightarrow> queued_req s = []" and n: "B + 14 + 4 * length (queued_req s) \<le> n"
  shows "\<exists>v s'. exec n (CompleteTracker t cpl) s = Inr (v, s') \<and> qinv L M G s' H D T \<and> step H s s'
    \<and> length (queued_req s') \<le> length (queued_req s) + 1 \<and> (sealed s \<and> queued_req s = [] \<longrightarrow> queued_req s' = [])"
proof -
  have "B + 10 + 4 * (length (queued_req s) + (if tr_is_aer s t then 1 else 0)) \<le> n" using n by simp
  from specs(1) [of n, unfolded spec_tracker_def, rule_format, OF assms(1-6) _ this] assms(7)
  obtain v s' where "exec n (CompleteTracker t cpl) s = Inr (v, s')" "qinv L M G s' H D T" "step H s s'"
    "length (queued_req s') \<le> length (queued_req s) + (if tr_is_aer s t then 1 else 0)"
    "sealed s \<and> queued_req s = [] \<longrightarrow> queued_req s' = []"
    unfolding returns_def by metis
  then show ?thesis by (intro exI conjI) (assumption | simp split: if_splits)+
qed

lemma posted_guard:
  assumes inv: "qinv L M Map.empty s [] [] {}" and po: "posted s (Suc k)"
  obtains G where "qinv L M G s [] [] {}" and "cpl_tr s 0 \<in> set (outstanding_tr s)" and "G (cpl_tr s 0) = None"
    and "\<And>i. i < k \<Longrightarrow> G (cpl_tr s (Suc i)) = Some (tr_at s (cpl_tr s (Suc i)))"
proof -
  note out = trk_okD(10) [OF qinvD(2) [OF inv]]
  define X where "X = (\<lambda>i. cpl_tr s (Suc i)) ` {..<k}"
  define G where "G = (\<lambda>t. if t \<in> X then Some (tr_at s t) else None)"
  have "cpl_tr s i \<in> set (outstanding_tr s)" if "i < Suc k" for i
    using po that out unfolding posted_def by blast
  then have "X \<subseteq> set (outstanding_tr s)" "cpl_tr s 0 \<in> set (outstanding_tr s)" unfolding X_def by auto
  moreover have "G (cpl_tr s 0) = None"
  proof -
    have "cpl_tr s 0 \<noteq> cpl_tr s (Suc i)" if "i < k" for i using posted_Suc(4) [OF po that] by simp
    then show ?thesis unfolding G_def X_def by auto
  qed
  moreover have "G (cpl_tr s (Suc i)) = Some (tr_at s (cpl_tr s (Suc i)))" if "i < k" for i
    using that unfolding G_def X_def by simp
  ultimately show ?thesis using that [of G] qinv_guard [OF inv, of X] unfolding G_def by blast
qed

lemma poll_one:
  assumes inv: "qinv L M Map.empty s [] [] {}" and q: "quiet s" and fl: "ct_failed s \<longrightarrow> queued_req s = []"
    and po: "posted s (Suc k)" and n: "B + 14 + 4 * length (queued_req s) \<le> n"
  shows "\<exists>v s1. exec n (CompleteTracker (cpl_tr s 0) (nth_cpl s 0)) s = Inr (v, s1) \<and> qinv L M Map.empty (cq_advance s1) [] [] {}
    \<and> step [] s s1 \<and> posted (cq_advance s1) k \<and> length (queued_req s1) \<le> length (queued_req s) + 1
    \<and> (ct_failed s \<longrightarrow> queued_req s1 = []) \<and> ring_ok s1"
proof -
  from posted_guard [OF inv po]
  obtain G where g: "qinv L M G s [] [] {}" "cpl_tr s 0 \<in> set (outstanding_tr s)" "G (cpl_tr s 0) = None"
    and gd: "\<forall>i<k. G (cpl_tr s (Suc i)) = Some (tr_at s (cpl_tr s (Suc i)))" by metis
  have "unat (cpl_cid (nth_cpl s 0)) = cpl_tr s 0" by (simp add: cpl_tr_def)
  from complete_tracker_ok [OF g(1) q g(2) _ g(3) this fl n] obtain v s1 where
    ex: "exec n (CompleteTracker (cpl_tr s 0) (nth_cpl s 0)) s = Inr (v, s1)"
    and i1: "qinv L M G s1 [] [] {}" "step [] s s1" "length (queued_req s1) \<le> length (queued_req s) + 1"
    and em: "sealed s \<and> queued_req s = [] \<longrightarrow> queued_req s1 = []" by blast
  let ?s = "cq_advance s1"
  note ring = qinvD(1) [OF i1(1)]
  have adv: "cpl_tr ?s = (\<lambda>i. cpl_tr s (Suc i))" "new_cpl ?s = (\<lambda>i. new_cpl s (Suc i))"
    using cq_advance_next [OF ring] nth_cpl_step [OF i1(2)] by (simp_all add: new_cpl_def cpl_tr_def fun_eq_iff)
  have "tr_at ?s (cpl_tr s (Suc i)) = tr_at s (cpl_tr s (Suc i))" if "i < k" for i
    using qinvD(6) [OF i1(1) gd [rule_format, OF that]] by (simp add: cq_advance_def Let_def)
  moreover have "trackers ?s = trackers s" using stepD(2) [OF i1(2)] by (simp add: cq_advance_def Let_def)
  moreover have "new_cpl s (Suc i) \<and> cpl_tr s (Suc i) < trackers s \<and> tr_active (tr_at s (cpl_tr s (Suc i)))" if "i < k" for i
    using po that unfolding posted_def by (metis Suc_less_eq)
  ultimately have po': "posted ?s k" using posted_Suc(5) [OF po] unfolding posted_def adv by simp
  have "qinv L M Map.empty ?s [] [] {}" using qinv_cq_advance [OF i1(1)] by (rule qinv_unguard)
  moreover have "ct_failed s \<longrightarrow> queued_req s1 = []" using em fl by (simp add: sealed_def)
  ultimately show ?thesis using ex i1(2,3) po' ring by blast
qed

lemma poll_loop_ok:
  assumes "qinv L M Map.empty s [] [] {}" and "quiet s" and "ct_failed s \<longrightarrow> queued_req s = []"
    and "posted s k" and "k \<le> left" and "k < left \<Longrightarrow> \<not> new_cpl s k" and "0 < left"
    and "B + 15 + 4 * length (queued_req s) + 5 * k \<le> n"
  shows "\<exists>s'. poll_loop n s num (num + left) = Inr (num + k, s') \<and> qinv L M Map.empty s' [] [] {}
    \<and> cq_head s' = (cq_head s + k) mod entries s \<and> phase s' = exp_phase s k \<and> entries s' = entries s
    \<and> (\<exists>us. user_calls s' = user_calls s @ us)"
  using assms
proof (induction k arbitrary: s n num left)
  case 0
  note ring = qinvD(1) [OF "0.prems"(1)]
  obtain m where m: "n = Suc m" using "0.prems"(8) by (cases n) auto
  have "\<not> new_cpl s 0" using "0.prems"(6,7) by simp
  then have "st_p (cpl_status (qp_cpl s ! cq_head s)) \<noteq> phase s"
    by (simp add: new_cpl_def nth_cpl_0 [OF ring] exp_phase_0 [OF ring])
  then have "poll_loop n s num (num + left) = Inr (num, s)" using ring by (simp add: m ring_ok_def Let_def)
  then show ?case using "0.prems"(1) ring exp_phase_0 [OF ring] by (auto simp: ring_ok_def)
next
  case (Suc k)
  note ring = qinvD(1) [OF Suc.prems(1)]
  note p = posted_Suc [OF Suc.prems(4)]
  obtain m where m: "n = Suc m" using Suc.prems(8) by (cases n) auto
  have "B + 14 + 4 * length (queued_req s) \<le> m" using Suc.prems(8) m by simp
  from poll_one [OF Suc.prems(1-4) this] obtain v s1 where
    ex: "exec m (CompleteTracker (cpl_tr s 0) (nth_cpl s 0)) s = Inr (v, s1)" and i1: "qinv L M Map.empty (cq_advance s1) [] [] {}"
    "step [] s s1" "posted (cq_advance s1) k" "length (queued_req s1) \<le> length (queued_req s) + 1"
    "ct_failed s \<longrightarrow> queued_req s1 = []" "ring_ok s1" by blast
  let ?s = "cq_advance s1"
  have f: "entries ?s = entries s" "queued_req ?s = queued_req s1" "ct_failed ?s = ct_failed s" "user_calls ?s = user_calls s1"
    "length (qp_tr s) = trackers s"
    using stepD(1,4) [OF i1(2)] trk_okD(1) [OF qinvD(2) [OF Suc.prems(1)]] by (simp_all add: cq_advance_def Let_def)
  have head: "cq_head ?s = (cq_head s + 1) mod entries s"
    using cq_advance_head [OF i1(6)] stepD(1,7) [OF i1(2)] by simp
  have ph: "exp_phase ?s i = exp_phase s (Suc i)" for i
    using cq_advance_next(2) [OF i1(6), of i] nth_cpl_step(2) [OF i1(2)] by simp
  have nw: "new_cpl ?s i = new_cpl s (Suc i)" for i
    using cq_advance_next [OF i1(6), of i] nth_cpl_step [OF i1(2)] by (simp add: new_cpl_def)
  obtain us where us: "user_calls s1 = user_calls s @ us" using stepD(12) [OF i1(2)] by blast
  have "st_p (cpl_status (nth_cpl s 0)) = phase s" using p(1) by (simp add: new_cpl_def exp_phase_0 [OF ring])
  then have loop: "poll_loop n s num (num + left) = (if left = 1 then Inr (num + 1, ?s) else poll_loop m ?s (num + 1) (num + left))"
    using p ex ring f(5) by (simp add: m ring_ok_def Let_def cpl_tr_def nth_cpl_0 [OF ring] cq_advance_def)
  show ?case
  proof (cases "left = 1")
    case True
    then have "k = 0" using Suc.prems(5) by simp
    then show ?thesis
      using True loop i1(1) head ph [of 0] exp_phase_0 [OF qinvD(1) [OF i1(1)]] f us by auto
  next
    case False
    then obtain l where l: "left = Suc l" "0 < l" using Suc.prems(7) by (cases left) auto
    have "\<exists>s'. poll_loop m ?s (num + 1) (num + 1 + l) = Inr (num + 1 + k, s') \<and> qinv L M Map.empty s' [] [] {}
      \<and> cq_head s' = (cq_head ?s + k) mod entries ?s \<and> phase s' = exp_phase ?s k \<and> entries s' = entries ?s
      \<and> (\<exists>us. user_calls s' = user_calls ?s @ us)"
    proof (rule Suc.IH [OF i1(1) _ _ i1(3)])
      show "quiet ?s" using step_quiet [OF i1(2) Suc.prems(2)] by (simp add: quiet_def calm_def cq_advance_def Let_def)
      show "ct_failed ?s \<longrightarrow> queued_req ?s = []" using i1(5) f by simp
      show "k \<le> l" "0 < l" using Suc.prems(5) l by simp_all
      show "\<not> new_cpl ?s k" if "k < l" using Suc.prems(6) nw that l by simp
      show "B + 15 + 4 * length (queued_req ?s) + 5 * k \<le> m" using Suc.prems(8) m i1(4) f by simp
    qed
    then show ?thesis using loop l head ph f us False by (auto simp: mod_add_left_eq)
  qed
qed

subsection \<open>The invariant between calls\<close>

text \<open>The user callbacks that were called, and those that are still to be called.\<close>

definition called :: "qctx \<Rightarrow> nat multiset" where
  "called s = mset (map fst (user_calls s))"

definition pending :: "qctx \<Rightarrow> nat list \<Rightarrow> nat multiset" where
  "pending s H = pend s (mset (leaves {} s @ H))"

text \<open>The invariant while the caller holds the requests \<open>H\<close>, not yet submitted.\<close>

definition qp_inv :: "qctx \<Rightarrow> nat list \<Rightarrow> bool" where
  "qp_inv s H \<longleftrightarrow> qinv {#} (called s + pending s H) Map.empty s H [] {}"

lemma qp_invI: "qinv L M G s H [] {} \<Longrightarrow> qp_inv s H"
  by (auto simp: qp_inv_def qinv_def req_ok_def pool_ok_def acct_def called_def pending_def)

lemma qp_inv_exact:
  assumes "qp_inv s H" and "X = called s + pending s H"
  shows "qinv X X Map.empty s H [] {}"
  using assms by (auto simp: qp_inv_def qinv_def req_ok_def pool_ok_def acct_def called_def pending_def)

lemma qinv_exact:
  assumes "qinv X X G s H D {}"
  shows "called s + pending s H = X"
  using pool_okD(5) [OF qinvD(3) [OF assms]] unfolding acct_def called_def pending_def
  by (simp add: subset_mset.antisym)

lemma qinv_upper:
  assumes "qinv L M G s H D {}"
  shows "called s + pending s H \<subseteq># M"
  using pool_okD(5) [OF qinvD(3) [OF assms]] by (simp add: acct_def called_def pending_def)

subsection \<open>Failing a queue pair\<close>

lemma fail_outstanding_ok:
  assumes "qinv L M Map.empty s [] [] {}" and "ct_failed s" and "queued_req s = []"
    and "B + 15 + length (outstanding_tr s) \<le> n"
  shows "\<exists>s'. fail_outstanding n s = Inr s' \<and> qinv L M Map.empty s' [] [] {} \<and> step [] s s'
    \<and> outstanding_tr s' = [] \<and> queued_req s' = []"
  using assms
proof (induction "length (outstanding_tr s)" arbitrary: s n)
  case 0
  then show ?case by (cases n) auto
next
  case (Suc l)
  then obtain t ts where o: "outstanding_tr s = t # ts" by (cases "outstanding_tr s") auto
  obtain m where m: "n = Suc m" using Suc.prems(4) by (cases n) auto
  note trk = trk_okD [OF qinvD(2) [OF Suc.prems(1)]]
  let ?cpl = "manual_cpl s (tr_cid (tr_at s t)) NVME_SC_ABORTED_BY_REQUEST True"
  have q: "quiet s" "sealed s" using Suc.prems(2) by (simp_all add: quiet_def sealed_def)
  have t: "t \<in> set (outstanding_tr s)" using o by simp
  have nr: "\<not> retries s t ?cpl" by (simp add: retries_def nvme_qpair_completion_retry_def manual_cpl_def)
  have "returns (exec m (CompleteTracker t ?cpl) s)
       (\<lambda>v s'. qinv L M Map.empty s' [] [] {} \<and> step [] s s'
          \<and> length (queued_req s') \<le> length (queued_req s) + (if tr_is_aer s t then 1 else 0)
          \<and> (\<exists>xs. outstanding_tr s' = xs @ (if retries s t ?cpl then outstanding_tr s else remove1 t (outstanding_tr s))
               \<and> (sealed s \<and> queued_req s = [] \<longrightarrow> xs = [] \<and> queued_req s' = [])))"
    by (rule specs(1) [unfolded spec_tracker_def, rule_format, OF Suc.prems(1) q(1) t])
      (use Suc.prems m o trk(8) [OF trk(6) [OF t]] in \<open>auto simp: manual_cpl_def\<close>)
  then have "returns (exec m (CompleteTracker t ?cpl) s) (\<lambda>v s'. qinv L M Map.empty s' [] [] {} \<and> step [] s s'
      \<and> outstanding_tr s' = ts \<and> queued_req s' = [])"
    by (rule returns_mono) (use nr q Suc.prems(3) o in auto)
  then obtain v s1 where ex: "exec m (CompleteTracker t ?cpl) s = Inr (v, s1)" and i1: "qinv L M Map.empty s1 [] [] {}" "step [] s s1"
    "outstanding_tr s1 = ts" "queued_req s1 = []" unfolding returns_def by blast
  have "\<exists>s'. fail_outstanding m s1 = Inr s' \<and> qinv L M Map.empty s' [] [] {} \<and> step [] s1 s'
    \<and> outstanding_tr s' = [] \<and> queued_req s' = []"
    by (rule Suc.hyps(1) [OF _ i1(1) _ i1(4)]) (use Suc.hyps(2) Suc.prems i1 o m stepD(4) [OF i1(2)] in auto)
  then show ?case using ex o step_trans [OF i1(2)] by (auto simp: m nvme_qpair_manual_complete_tracker_def)
qed

lemma no_leaves_no_parents:
  assumes "qinv L M G s [] D {}" and "outstanding_tr s = []" and "queued_req s = []"
  shows "parents s = {}" and "pending s [] = {#}"
proof -
  have lv: "leaves {} s = []" using assms(2,3) by (simp add: leaves_def tr_leaves_def)
  have "parent_ok s {} p" if "p \<in> parents s" for p
    using pool_okD(4) [OF qinvD(3) [OF assms(1)] that] lv by simp
  then have "unat (req_child_reqs (req_at s p)) = 0" if "p \<in> parents s" for p
    using that by (fastforce simp: parent_ok_def)
  then show "parents s = {}" by (auto simp: parents_def unat_eq_0)
  then show "pending s [] = {#}" using lv by (simp add: pending_def pend_def)
qed

subsection \<open>Properties\<close>

lemma poll_ok:
  assumes "qp_inv s []" and "qp_enabled s" and "ct_failed s \<longrightarrow> queued_req s = []" and "1 < entries s"
    and "m = (if max_completions = 0 \<or> max_completions > entries s - 1 then entries s - 1 else max_completions)"
    and "posted s k" and "k \<le> m" and "k < m \<longrightarrow> \<not> new_cpl s k"
    and "NVME_MAX_XFER_SIZE + 15 + 4 * length (queued_req s) + 5 * k \<le> fuel"
  shows "\<exists>s'. nvme_qpair_poll fuel s max_completions = Inr (k, s') \<and> qp_inv s' []
    \<and> cq_head s' = (cq_head s + k) mod entries s \<and> phase s' = exp_phase s k
    \<and> called s' + pending s' [] = called s + pending s []
    \<and> (0 < k \<longrightarrow> last (doorbells s') = CqHead (cq_head s'))"
proof -
  define X where "X = called s + pending s []"
  have inv: "qinv X X Map.empty s [] [] {}" using assms(1) X_def by (rule qp_inv_exact)
  have calm: "calm s" "quiet s" using assms(2) by (simp_all add: calm_def quiet_def)
  obtain f where f: "fuel = Suc f" using assms(9) by (cases fuel) auto
  have m: "0 < m" using assms(4,5) by (auto split: if_splits)
  have "\<exists>s'. poll_loop fuel s 0 (0 + m) = Inr (0 + k, s') \<and> qinv X X Map.empty s' [] [] {}
    \<and> cq_head s' = (cq_head s + k) mod entries s \<and> phase s' = exp_phase s k \<and> entries s' = entries s
    \<and> (\<exists>us. user_calls s' = user_calls s @ us)"
    by (rule poll_loop_ok [OF inv calm(2) assms(3,6,7)]) (use assms(8,9) m in \<open>auto simp: B_def\<close>)
  then obtain s1 where s1: "poll_loop fuel s 0 m = Inr (k, s1)" "qinv X X Map.empty s1 [] [] {}"
    "cq_head s1 = (cq_head s + k) mod entries s" "phase s1 = exp_phase s k" by auto
  define s' where "s' = (if k > 0 then s1\<lparr>doorbells := doorbells s1 @ [CqHead (cq_head s1)]\<rparr> else s1)"
  have i: "qinv X X Map.empty s' [] [] {}" using s1(2) by (simp add: s'_def qinv_upd_log)
  have "nvme_qpair_poll fuel s max_completions = Inr (k, s')"
    using assms(2,5) exec_check_calm [OF calm(1), of f] s1(1) by (simp add: nvme_qpair_poll_def f Let_def s'_def)
  moreover have "qp_inv s' []" using i by (rule qp_invI)
  moreover have "called s' + pending s' [] = X" using i by (rule qinv_exact)
  ultimately show ?thesis using s1 X_def by (auto simp: s'_def)
qed

text \<open>
  C2. Polling an enabled queue pair on which the device has posted \<open>k\<close> completions, no more than the caller wants, for
  different active commands: it handles exactly these \<open>k\<close>, without a panic and within the stated number of calls, the head of
  the completion queue and its phase tag advance by \<open>k\<close> entries, the doorbell gets the new head, the invariant holds
  again, and every user callback is either called once or still pending.
\<close>

theorem poll_completes:
  assumes "qp_inv s []" and "qp_enabled s" and "ct_failed s \<longrightarrow> queued_req s = []" and "1 < entries s"
    and "m = (if max_completions = 0 \<or> max_completions > entries s - 1 then entries s - 1 else max_completions)"
    and "posted s k" and "k \<le> m" and "k < m \<longrightarrow> \<not> new_cpl s k"
    and "NVME_MAX_XFER_SIZE + 15 + 4 * length (queued_req s) + 5 * k \<le> fuel"
  shows "\<exists>s'. nvme_qpair_poll fuel s max_completions = Inr (k, s') \<and> qp_inv s' []
    \<and> cq_head s' = (cq_head s + k) mod entries s \<and> phase s' = exp_phase s k
    \<and> called s' + pending s' [] = called s + pending s []
    \<and> (0 < k \<longrightarrow> last (doorbells s') = CqHead (cq_head s'))"
  by (rule poll_ok [OF assms])

lemma submit_ok:
  assumes "qp_inv s [r]" and "\<not> ct_failed s"
    and "qp_enabled s \<or> ct_resetting s \<or> nvme_qpair_is_io_queue s \<or> outstanding_tr s = []"
    and "2 * NVME_MAX_XFER_SIZE + 32 + 9 * length (queued_req s) + 5 * length (outstanding_tr s) \<le> fuel"
  shows "\<exists>ret s'. nvme_qpair_submit_request fuel s r = Inr (ret, s') \<and> qp_inv s' []
    \<and> called s' + pending s' [] = called s + pending s [r]
    \<and> length (queued_req s') \<le> length (queued_req s) + 1"
proof -
  define X where "X = called s + pending s [r]"
  have inv: "qinv X X Map.empty s [r] [] {}" using assms(1) X_def by (rule qp_inv_exact)
  have c: "calm s \<or> can_enable s {} \<and> Map.empty = Map.empty" using assms(2,3) by (auto simp: calm_def can_enable_def)
  have fl: "ct_failed s \<Longrightarrow> req_cb (req_at s r) \<noteq> CbCompleteChild c" for c using assms(2) by simp
  have "B + 12 + 4 * length (queued_req s) + (if calm s then 0 else en_fuel s) \<le> fuel"
    using assms(4) by (simp add: B_def en_fuel_def)
  from specs(4) [unfolded spec_submit_def, rule_format, OF inv c fl this] assms(2)
  obtain ret s' where ex: "exec fuel (SubmitRequest r) s = Inr (ret, s')" and i: "qinv X X Map.empty s' [] [] {}"
    and l: "length (queued_req s') \<le> length (queued_req s) + 1" by (auto simp: returns_def)
  then show ?thesis using qp_invI [OF i] qinv_exact [OF i] X_def by (auto simp: nvme_qpair_submit_request_def)
qed

text \<open>
  C3. Submitting a request that is not split, on a controller that has not failed and a queue pair that is enabled,
  being reset, an I/O queue pair or idle: the call returns within the stated number of calls without a panic or an
  invalid access, the invariant holds again, and every user callback, that of the request included, was called once
  or is still pending.
\<close>

theorem submit_keeps:
  assumes "qp_inv s [r]" and "\<not> ct_failed s"
    and "qp_enabled s \<or> ct_resetting s \<or> nvme_qpair_is_io_queue s \<or> outstanding_tr s = []"
    and "2 * NVME_MAX_XFER_SIZE + 32 + 9 * length (queued_req s) + 5 * length (outstanding_tr s) \<le> fuel"
  shows "\<exists>ret s'. nvme_qpair_submit_request fuel s r = Inr (ret, s') \<and> qp_inv s' []
    \<and> called s' + pending s' [] = called s + pending s [r]
    \<and> length (queued_req s') \<le> length (queued_req s) + 1"
  by (rule submit_ok [OF assms])

lemma split_submit_ok:
  assumes "qp_inv s (req_children (req_at s r))" and "r < length (reqs s)" and "req_child_reqs (req_at s r) \<noteq> 0"
    and "\<not> ct_failed s" and "qp_enabled s \<or> ct_resetting s \<or> nvme_qpair_is_io_queue s \<or> outstanding_tr s = []"
    and "2 * NVME_MAX_XFER_SIZE + 34 + 9 * length (queued_req s) + 5 * length (outstanding_tr s)
           + 5 * length (req_children (req_at s r)) \<le> fuel"
  shows "\<exists>ret s'. nvme_qpair_submit_request fuel s r = Inr (ret, s') \<and> qp_inv s' []
    \<and> called s' + pending s' [] \<subseteq># called s + pending s (req_children (req_at s r))
    \<and> (ret = 0 \<longrightarrow> called s' + pending s' [] = called s + pending s (req_children (req_at s r)))"
proof -
  let ?cs = "req_children (req_at s r)"
  define X where "X = called s + pending s ?cs"
  have inv: "qinv X X Map.empty s (?cs @ []) [] {}" using qp_inv_exact [OF assms(1) X_def] by simp
  have p: "r \<in> parents s" using assms(2,3) by (simp add: parents_def)
  have c: "calm s \<or> can_enable s {} \<and> Map.empty = Map.empty" using assms(4,5) by (auto simp: calm_def can_enable_def)
  have "B + 14 + 4 * length (queued_req s) + 5 * length ?cs + (if calm s then 0 else en_fuel s) \<le> fuel"
    using assms(6) by (simp add: B_def en_fuel_def)
  from specs(5) [unfolded spec_parent_def, rule_format, OF inv p c assms(4) this]
  obtain ret s' where ex: "exec fuel (SubmitRequest r) s = Inr (ret, s')"
    and i: "qinv (if ret = 0 then X else {#}) X Map.empty s' [] [] {}"
    by (auto simp: returns_def)
  then show ?thesis using qp_invI [OF i] qinv_upper [OF i] qinv_exact X_def by (auto simp: nvme_qpair_submit_request_def)
qed


text \<open>
  C14. Failing a queue pair of a failed controller: the call returns without a panic, afterwards no request is queued, no
  tracker is outstanding, no request has children, and every callback that was pending has been called exactly once.
\<close>

theorem fail_completes_all:
  assumes "qp_inv s []" and "ct_failed s"
    and "NVME_MAX_XFER_SIZE + 15 + length (queued_req s) + length (outstanding_tr s) \<le> fuel"
  shows "\<exists>s'. nvme_qpair_fail fuel s = Inr s' \<and> qp_inv s' [] \<and> queued_req s' = [] \<and> outstanding_tr s' = []
    \<and> parents s' = {} \<and> called s' = called s + pending s []"
proof -
  define X where "X = called s + pending s []"
  have inv: "qinv X X Map.empty s [] [] {}" using assms(1) X_def by (rule qp_inv_exact)
  have q: "quiet s" "sealed s" using assms(2) by (simp_all add: quiet_def sealed_def)
  have "6 + length (queued_req s) \<le> fuel" using assms(3) by simp
  from specs(6) [unfolded spec_abort_queued_def, rule_format, OF inv q this]
  obtain v s1 where ex: "exec fuel AbortQueued s = Inr (v, s1)" and i1: "qinv X X Map.empty s1 [] [] {}" "step [] s s1"
    "queued_req s1 = []" "outstanding_tr s1 = outstanding_tr s" by (auto simp: returns_def)
  have "B + 15 + length (outstanding_tr s1) \<le> fuel" using assms(3) i1(4) by (simp add: B_def)
  from fail_outstanding_ok [OF i1(1) _ i1(3) this] stepD(4) [OF i1(2)] assms(2)
  obtain s2 where s2: "fail_outstanding fuel s1 = Inr s2" "qinv X X Map.empty s2 [] [] {}" "outstanding_tr s2 = []" "queued_req s2 = []"
    by auto
  note e = no_leaves_no_parents [OF s2(2-4)]
  show ?thesis using ex s2 qp_invI [OF s2(2)] qinv_exact [OF s2(2)] e X_def by (simp add: nvme_qpair_fail_def)
qed

text \<open>
  C18. Enabling an I/O queue pair of a controller that has not failed aborts everything: afterwards it is enabled, nothing is
  queued or outstanding, and every pending callback has been called exactly once.
\<close>

theorem io_enable_aborts_all:
  assumes "qp_inv s []" and "nvme_qpair_is_io_queue s" and "\<not> ct_failed s"
    and "NVME_MAX_XFER_SIZE + 20 + 5 * length (queued_req s) + 5 * length (outstanding_tr s) \<le> fuel"
  shows "\<exists>ret s'. nvme_qpair_enable fuel s = Inr (ret, s') \<and> qp_inv s' [] \<and> qp_enabled s' \<and> queued_req s' = []
    \<and> outstanding_tr s' = [] \<and> called s' = called s + pending s []"
proof -
  define X where "X = called s + pending s []"
  have inv: "qinv X X Map.empty s [] [] {}" using assms(1) X_def by (rule qp_inv_exact)
  have "can_enable s {}" "en_fuel s \<le> fuel" using assms(2-4) by (simp_all add: can_enable_def en_fuel_def B_def)
  from specs(2) [unfolded spec_enable_def, rule_format, OF inv this] assms(2)
  obtain v s1 where ex: "exec fuel Enable s = Inr (v, s1)" and i: "qinv X X Map.empty s1 [] [] {}"
    "qp_enabled s1" "queued_req s1 = []" "outstanding_tr s1 = []" by (auto simp: returns_def)
  note e = no_leaves_no_parents [OF i(1,4,3)]
  show ?thesis using ex i qp_invI [OF i(1)] qinv_exact [OF i(1)] e X_def by (auto simp: nvme_qpair_enable_def)
qed

text \<open>
  C26. A queue pair that was constructed successfully satisfies the invariant: nothing queued or outstanding, all trackers and
  eight requests for each of them free, the completion queue cleared and its phase tag expected set.
\<close>

theorem construct_establishes:
  fixes q :: qctx
  assumes "nvme_qpair_construct env q prio n trks = Inr (0, q')" and "n < 2 ^ 16" and "trks < 2 ^ 16"
  shows "qp_inv q' [] \<and> queued_req q' = [] \<and> outstanding_tr q' = [] \<and> set (free_tr q') = {..<trks}
    \<and> free_req q' = [0..<8 * trks] \<and> phase q' \<and> (\<forall>i<n. \<not> st_p (cpl_status (qp_cpl q' ! i)))"
proof -
  define q1 where "q1 = q\<lparr>entries := n, trackers := trks, qprio := prio, sq_in_cmb := sq_cmb_reserved env \<noteq> None,
    cmd_bus_addr := the (case sq_cmb_reserved env of Some a \<Rightarrow> Some a | None \<Rightarrow> alloc_cmd env), cpl_bus_addr := the (alloc_cpl env),
    free_tr := [], outstanding_tr := [], free_req := [], queued_req := []\<rparr>"
  from assms(1) obtain pa where n0: "n \<noteq> 0" and tr: "alloc_tr env = Some pa"
    and q': "q' = nvme_qpair_reset (q1\<lparr>reqs := replicate (8 * trks) request_zero, free_req := [0..<8 * trks],
      qp_tr := map (\<lambda>i. nvme_qpair_construct_tracker tracker_zero (of_nat i) (pa + of_nat (i * 4096))) [0..<trks],
      free_tr := rev [0..<trks]\<rparr>)"
    by (auto simp: nvme_qpair_construct_def nvme_request_pool_construct_def Let_def q1_def NVME_IO_ENTRIES_VS_TRACKERS_RATIO_def
        NVME_IO_ENTRIES_def NVME_IO_TRACKERS_def ENOMEM_def mult.commute split: if_splits option.splits)
  have f: "entries q' = n" "trackers q' = trks" "free_tr q' = rev [0..<trks]" "outstanding_tr q' = []" "queued_req q' = []"
    "free_req q' = [0..<8 * trks]" "reqs q' = replicate (8 * trks) request_zero" "sq_tail q' = 0" "cq_head q' = 0" "phase q'"
    "qp_cmd q' = replicate n cmd_zero" "qp_cpl q' = replicate n cpl_zero"
    "qp_tr q' = map (\<lambda>i. nvme_qpair_construct_tracker tracker_zero (of_nat i) (pa + of_nat (i * 4096))) [0..<trks]"
    by (simp_all add: q' q1_def nvme_qpair_reset_def)
  have "ring_ok q'" using n0 assms(2) by (simp add: ring_ok_def f)
  moreover have "trk_ok q'"
    using assms(3) unfolding trk_ok_def f
    by (auto simp: nvme_qpair_construct_tracker_def tracker_zero_def unat_of_nat_small)
  moreover have par: "parents q' = {}" by (auto simp: parents_def f request_zero_def)
  moreover have lv: "leaves {} q' = []" by (simp add: leaves_def tr_leaves_def f)
  ultimately have "qinv {#} (called q' + pending q' []) Map.empty q' [] [] {}"
    by (auto simp: qinv_def req_ok_def pool_ok_def acct_def called_def pending_def f request_zero_def)
  then show ?thesis using f by (auto simp: qp_inv_def cpl_zero_def)
qed

subsection \<open>The path of a command\<close>

text \<open>
  C24. Submitting a request on an enabled queue pair with a free tracker: when the payload can be described, its command
  gets the identifier of that tracker and goes to the slot at the tail of the submission queue, no other slot changes,
  the tail advances by one modulo the size of the queue and the doorbell gets the new tail.
\<close>

theorem submit_writes_slot:
  assumes inv: "qp_inv s [r]" and "\<not> ct_failed s" "qp_enabled s" "free_tr s = t # ts"
    and b: "build_request fuel (upd_req r (\<lambda>q. q\<lparr>req_cmd := (req_cmd q)\<lparr>cmd_cid := tr_cid (tr_at s t)\<rparr>\<rparr>)
      (upd_tr t (\<lambda>x. x\<lparr>tr_req := Some r\<rparr>) (s\<lparr>free_tr := ts, outstanding_tr := t # outstanding_tr s\<rparr>))) r t = Inr (0, cmd, x)"
  shows "\<exists>s'. nvme_qpair_submit_request (Suc (Suc fuel)) s r = Inr (0, s')
    \<and> qp_cmd s' = (qp_cmd s)[sq_tail s := cmd] \<and> unat (cmd_cid cmd) = t \<and> opc cmd = opc (req_cmd (req_at s r))
    \<and> sq_tail s' = (sq_tail s + 1) mod entries s \<and> doorbells s' = doorbells s @ [SqTail (sq_tail s')]
    \<and> outstanding_tr s' = t # outstanding_tr s \<and> free_tr s' = ts \<and> tr_active (tr_at s' t) \<and> tr_req (tr_at s' t) = Some r"
proof -
  define s1 where s1: "s1 = upd_req r (\<lambda>q. q\<lparr>req_cmd := (req_cmd q)\<lparr>cmd_cid := tr_cid (tr_at s t)\<rparr>\<rparr>)
      (upd_tr t (\<lambda>x. x\<lparr>tr_req := Some r\<rparr>) (s\<lparr>free_tr := ts, outstanding_tr := t # outstanding_tr s\<rparr>))"
  define s2 where s2: "s2 = upd_tr t (\<lambda>_. x) (upd_req r (\<lambda>q. q\<lparr>req_cmd := cmd\<rparr>) s1)"
  note q = qp_inv_exact [OF inv refl]
  note trk = trk_okD [OF qinvD(2) [OF q]]
  note ring = qinvD(1) [OF q, unfolded ring_ok_def]
  have r: "r < length (reqs s)" "req_child_reqs (req_at s r) = 0" using pool_okD(2) [OF qinvD(3) [OF q], of r] by auto
  have t: "t < trackers s" "t < length (qp_tr s)" using trk(1) trk(7) assms(4) by auto
  have x1: "tr_at s1 t = (tr_at s t)\<lparr>tr_req := Some r\<rparr>" using t(2) by (simp add: s1 upd_tr_def)
  have q1: "req_at s1 r = (req_at s r)\<lparr>req_cmd := (req_cmd (req_at s r))\<lparr>cmd_cid := tr_cid (tr_at s t)\<rparr>\<rparr>"
    unfolding s1 by (subst req_at_upd_req) (use r in \<open>simp_all add: upd_tr_def\<close>)
  have b': "build_request fuel s1 r t = Inr (0, cmd, x)" using b s1 by simp
  have fr: "build_frame (req_at s1 r) (tr_at s1 t) cmd x"
    using b' build_contig_frame build_hw_sgl_frame build_prps_frame
    by (auto simp: build_request_def Let_def build_frame_def split: if_splits nvme_payload_type.splits)
  then have x: "tr_req x = Some r" "tr_cid x = tr_cid (tr_at s t)" "unat (cmd_cid cmd) = t" "opc cmd = opc (req_cmd (req_at s r))"
    using trk(8) [OF t(1)] by (simp_all add: build_frame_def x1 q1)
  have at2: "tr_at s2 t = x" using t(2) by (simp add: s2 s1 upd_tr_def upd_req_def)
  have rq2: "req_cmd (req_at s2 r) = cmd" using r(1) by (simp add: s2 s1 upd_tr_def upd_req_def)
  have f2: "qp_cmd s2 = qp_cmd s" "sq_tail s2 = sq_tail s" "entries s2 = entries s" "length (qp_tr s2) = length (qp_tr s)"
    "doorbells s2 = doorbells s" "outstanding_tr s2 = t # outstanding_tr s" "free_tr s2 = ts" by (simp_all add: s2 s1)
  have nxt: "ring_next (entries s) (sq_tail s) = (sq_tail s + 1) mod entries s"
    using ring by (auto simp: ring_next_def Let_def mod_if)
  have ex: "exec (Suc fuel) (SubmitLeaf r) s = rbind (nvme_qpair_submit_tracker s2 t) (\<lambda>s. Inr (0, s))"
    using exec_leaf [OF assms(4,3) s1 b' s2 t(2)] by simp
  have calm: "calm s" using assms(3) by (simp add: calm_def)
  have "nvme_qpair_submit_request (Suc (Suc fuel)) s r = exec (Suc fuel) (SubmitLeaf r) s"
    using exec_check_calm [OF calm, of fuel] assms(2) r(2)
    by (simp add: nvme_qpair_submit_request_def submit_request_def del: exec.simps(2)) (simp add: submit_request_def)
  then show ?thesis
    unfolding ex using x at2 rq2 f2 nxt ring t trk(8) [OF t(1)]
    by (simp add: nvme_qpair_submit_tracker_def Let_def tr_at_upd_tr)
qed

lemma outstanding_facts:
  assumes "qp_inv s []" and "t \<in> set (outstanding_tr s)" and "tr_req (tr_at s t) = Some r"
  shows "t < trackers s" "t < length (qp_tr s)" "r < length (reqs s)" "req_child_reqs (req_at s r) = 0" "leaf_ok s r"
    "t \<notin> set (free_tr s)" "r \<notin> parents s"
proof -
  note q = qp_inv_exact [OF assms(1) refl]
  note trk = trk_okD [OF qinvD(2) [OF q]]
  show "t < trackers s" "t < length (qp_tr s)" "t \<notin> set (free_tr s)" using trk(1,4) trk(6) [OF assms(2)] assms(2) by auto
  have "r \<in> set (leaves {} s)" using assms(2,3) by (force simp: leaves_def tr_leaves_def)
  then show "r < length (reqs s)" "req_child_reqs (req_at s r) = 0" "leaf_ok s r" "r \<notin> parents s"
    using pool_okD(2,3) [OF qinvD(3) [OF q], of r] by (auto simp: parents_def)
qed

lemma complete_done_idle:
  assumes "queued_req s = []" and "t \<notin> set (free_tr s)"
  shows "exec (Suc n) (CompleteDone t) s = Inr (0, (upd_tr t (\<lambda>x. x\<lparr>tr_req := None\<rparr>) s)
    \<lparr>outstanding_tr := remove1 t (outstanding_tr s), free_tr := t # free_tr s\<rparr>)"
  using assms by (simp add: complete_done_def Let_def remove1_idem)

text \<open>
  C23. A completion with a retryable error status, of a command that was retried fewer than three times: the command is written again to
  the tail of the submission queue, its retry count is increased and stays at most three, the tracker stays outstanding
  and active, and no callback is called.
\<close>

theorem retry_resubmits:
  assumes "qp_inv s []" and t: "t \<in> set (outstanding_tr s)" "tr_req (tr_at s t) = Some r" "unat (cpl_cid cpl) = t"
    and "nvme_cpl_is_error cpl" "nvme_qpair_completion_retry cpl" "req_retries (req_at s r) < NVME_MAX_RETRY_COUNT"
  shows "\<exists>s'. nvme_qpair_complete_tracker (Suc n) s t cpl = Inr (0, s') \<and> qp_inv s' []
    \<and> qp_cmd s' = (qp_cmd s)[sq_tail s := req_cmd (req_at s r)] \<and> sq_tail s' = (sq_tail s + 1) mod entries s
    \<and> req_retries (req_at s' r) = req_retries (req_at s r) + 1 \<and> req_retries (req_at s' r) \<le> 3
    \<and> outstanding_tr s' = outstanding_tr s \<and> tr_active (tr_at s' t) \<and> user_calls s' = user_calls s"
proof -
  note q = qp_inv_exact [OF assms(1) refl]
  note trk = trk_okD [OF qinvD(2) [OF q]]
  note ring = qinvD(1) [OF q, unfolded ring_ok_def]
  note f = outstanding_facts [OF assms(1) t(1,2)]
  define s1 where "s1 = upd_tr t (\<lambda>x. x\<lparr>tr_active := False\<rparr>) s"
  define s2 where "s2 = upd_req r (\<lambda>q. q\<lparr>req_retries := req_retries q + 1\<rparr>) s1"
  have i1: "qinv (called s + pending s []) (called s + pending s []) Map.empty s1 [] [] {}"
    unfolding s1_def by (rule qinv_upd_tr [OF q t(1)]) (simp_all add: tr_static_def)
  have i2: "qinv (called s + pending s []) (called s + pending s []) Map.empty s2 [] [] {}"
    unfolding s2_def
    by (rule qinv_cong [OF i1 same_cores_upd_req]) (use qinvD(1) [OF i1] in \<open>simp_all add: core_def ring_ok_def\<close>)
  have t2: "t \<in> set (outstanding_tr s2)" using t(1) by (simp add: s2_def s1_def)
  from submit_tracker_ok [OF i2 t2] obtain s3 where s3: "nvme_qpair_submit_tracker s2 t = Inr s3"
    "qinv (called s + pending s []) (called s + pending s []) Map.empty s3 [] [] {}" "step [] s2 s3" by auto
  have rq: "req_at s2 r = (req_at s r)\<lparr>req_retries := req_retries (req_at s r) + 1\<rparr>"
    using f(3) by (simp add: s2_def s1_def upd_req_def upd_tr_def)
  have at2: "tr_req (tr_at s2 t) = Some r" "tr_cid (tr_at s2 t) = tr_cid (tr_at s t)"
    using f(2) t(2) by (simp_all add: s2_def s1_def upd_req_def upd_tr_def)
  have f2: "qp_cmd s2 = qp_cmd s" "sq_tail s2 = sq_tail s" "entries s2 = entries s" "length (qp_tr s2) = length (qp_tr s)"
    "user_calls s2 = user_calls s" "outstanding_tr s2 = outstanding_tr s" by (simp_all add: s2_def s1_def)
  have nxt: "ring_next (entries s) (sq_tail s) = (sq_tail s + 1) mod entries s"
    using ring by (auto simp: ring_next_def Let_def mod_if)
  have s3': "s3 = (upd_tr t (\<lambda>x. x\<lparr>tr_active := True\<rparr>) s2)\<lparr>qp_cmd := (qp_cmd s)[sq_tail s := req_cmd (req_at s r)],
      sq_tail := (sq_tail s + 1) mod entries s, doorbells := doorbells s2 @ [SqTail ((sq_tail s + 1) mod entries s)]\<rparr>"
    using s3(1) at2 f2 trk(8) [OF f(1)] f(2) ring nxt rq
    by (simp add: nvme_qpair_submit_tracker_def Let_def)
  have "req_retries (req_at s r) + 1 \<le> 3" using assms(7) unfolding NVME_MAX_RETRY_COUNT_def by (rule inc_le)
  moreover have "nvme_qpair_complete_tracker (Suc n) s t cpl = Inr (0, s3)"
    using assms(5-7) t f(2) s3(1)
    by (simp add: nvme_qpair_complete_tracker_def complete_tracker_def Let_def s2_def s1_def)
  ultimately show ?thesis
    using qp_invI [OF s3(2)] s3' rq f2 f(2) by (simp add: tr_at_upd_tr)
qed

text \<open>
  C25. A completion that is not retried, of a command the user submitted, while nothing is queued: the callback of the user is
  called once with this completion, the request and the tracker are free again and the tracker is inactive.
\<close>

theorem completion_delivered:
  assumes "qp_inv s []" and t: "t \<in> set (outstanding_tr s)" "tr_req (tr_at s t) = Some r" "unat (cpl_cid cpl) = t"
    and "\<not> (nvme_cpl_is_error cpl \<and> nvme_qpair_completion_retry cpl \<and> req_retries (req_at s r) < NVME_MAX_RETRY_COUNT)"
    and "req_cb (req_at s r) = CbUser i" and "queued_req s = []"
  shows "\<exists>s'. nvme_qpair_complete_tracker (Suc (Suc n)) s t cpl = Inr (0, s')
    \<and> user_calls s' = user_calls s @ [(i, cpl)] \<and> free_req s' = r # free_req s \<and> free_tr s' = t # free_tr s
    \<and> outstanding_tr s' = remove1 t (outstanding_tr s) \<and> \<not> tr_active (tr_at s' t) \<and> tr_req (tr_at s' t) = None
    \<and> qp_cmd s' = qp_cmd s \<and> sq_tail s' = sq_tail s"
proof -
  note f = outstanding_facts [OF assms(1) t(1,2)]
  define s1 where "s1 = (upd_tr t (\<lambda>x. x\<lparr>tr_active := False\<rparr>) s)\<lparr>user_calls := user_calls s @ [(i, cpl)], free_req := r # free_req s\<rparr>"
  have ex: "nvme_qpair_complete_tracker (Suc (Suc n)) s t cpl = exec (Suc n) (CompleteDone t) s1"
    using assms(5,6) t f(2,4)
    by (auto simp: nvme_qpair_complete_tracker_def complete_tracker_def Let_def call_cb_def nvme_request_free_def s1_def)
  have "queued_req s1 = []" "t \<notin> set (free_tr s1)" using assms(7) f(6) by (simp_all add: s1_def)
  from complete_done_idle [OF this, of n] show ?thesis
    unfolding ex using f(2) by (simp add: s1_def tr_at_upd_tr upd_tr_def)
qed

lemma child_cb_eq:
  assumes "req_parent (req_at s c) = Some p" and "nvme_request_remove_child p c s = Inr s1"
    and "s2 = (if nvme_cpl_is_error cpl then upd_req p (\<lambda>q. q\<lparr>req_parent_status := cpl\<rparr>) s1 else s1)"
  shows "exec (Suc n) (CallCb (CbCompleteChild c) cpl) s = (if req_child_reqs (req_at s2 p) = 0
      then rbind (exec n (CallCb (req_cb (req_at s2 p)) (req_parent_status (req_at s2 p))) s2)
             (\<lambda>(_, s). rbind (nvme_request_free p s) (\<lambda>s. Inr (0, s)))
      else Inr (0, s2))"
  using assms by (simp add: call_cb_def cb_complete_child_def Let_def)

lemma user_cb_eq: "exec (Suc n) (CallCb (CbUser i) cpl) s = Inr (0, s\<lparr>user_calls := user_calls s @ [(i, cpl)]\<rparr>)"
  by (simp add: call_cb_def)

lemma last_child:
  assumes "parent_ok s V p" and "c \<in> set (req_children (req_at s p))" and "req_child_reqs (req_at s p) \<noteq> 0"
  shows "req_child_reqs (req_at s p) - 1 = 0 \<longleftrightarrow> req_children (req_at s p) = [c]"
proof -
  have "unat (req_child_reqs (req_at s p) - 1) = length (req_children (req_at s p)) - 1"
    using assms(1,3) by (simp add: parent_ok_def unat_minus_one)
  then have "req_child_reqs (req_at s p) - 1 = 0 \<longleftrightarrow> length (req_children (req_at s p)) - 1 = 0" by (metis unat_eq_0)
  also have "\<dots> \<longleftrightarrow> req_children (req_at s p) = [c]" using assms(2) by (cases "req_children (req_at s p)") auto
  finally show ?thesis .
qed

text \<open>What the callback of a child makes of its parent, and the state after it when the parent has the callback of the user.\<close>

definition child_gone :: "nat \<Rightarrow> nvme_cpl \<Rightarrow> nvme_request \<Rightarrow> nvme_request" where
  "child_gone c cpl x = x\<lparr>req_child_reqs := req_child_reqs x - 1, req_children := remove1 c (req_children x),
     req_parent_status := if nvme_cpl_is_error cpl then cpl else req_parent_status x\<rparr>"

definition child_done :: "nat \<Rightarrow> nat \<Rightarrow> nat \<Rightarrow> nvme_cpl \<Rightarrow> qctx \<Rightarrow> qctx" where
  "child_done p c i cpl s =
     (let s' = s\<lparr>reqs := (reqs s)[p := child_gone c cpl (req_at s p)]\<rparr>
      in if req_children (req_at s p) = [c]
         then s'\<lparr>user_calls := user_calls s @ [(i, req_parent_status (child_gone c cpl (req_at s p)))], free_req := c # p # free_req s\<rparr>
         else s'\<lparr>free_req := c # free_req s\<rparr>)"

lemma child_cb_done:
  assumes p: "req_parent (req_at s c) = Some p" "p < length (reqs s)" "p \<noteq> c" "req_child_reqs (req_at s p) \<noteq> 0"
    and c: "req_child_reqs (req_at s c) = 0" and i: "req_cb (req_at s p) = CbUser i"
    and last: "req_child_reqs (req_at s p) - 1 = 0 \<longleftrightarrow> req_children (req_at s p) = [c]"
  shows "rbind (exec (Suc (Suc n)) (CallCb (CbCompleteChild c) cpl) s) (\<lambda>(_, s). nvme_request_free c s) = Inr (child_done p c i cpl s)"
proof -
  let ?g = "child_gone c cpl (req_at s p)"
  define s2 where "s2 = s\<lparr>reqs := (reqs s)[p := ?g]\<rparr>"
  have rm: "nvme_request_remove_child p c s = Inr (upd_req p (\<lambda>q. q\<lparr>req_child_reqs := req_child_reqs q - 1,
      req_children := remove1 c (req_children q)\<rparr>) s)"
    using p(1,4) by (simp add: nvme_request_remove_child_def)
  have upd: "(if nvme_cpl_is_error cpl then upd_req p (\<lambda>q. q\<lparr>req_parent_status := cpl\<rparr>)
        (upd_req p (\<lambda>q. q\<lparr>req_child_reqs := req_child_reqs q - 1, req_children := remove1 c (req_children q)\<rparr>) s)
      else upd_req p (\<lambda>q. q\<lparr>req_child_reqs := req_child_reqs q - 1, req_children := remove1 c (req_children q)\<rparr>) s) = s2"
    using p(2) by (simp add: upd_req_def s2_def child_gone_def)
  have g: "req_at s2 p = ?g" "req_child_reqs (req_at s2 c) = 0" "req_child_reqs (req_at s2 p) = req_child_reqs (req_at s p) - 1"
    "req_cb (req_at s2 p) = CbUser i" using p c i by (simp_all add: s2_def child_gone_def)
  have "exec (Suc (Suc n)) (CallCb (CbCompleteChild c) cpl) s = (if req_children (req_at s p) = [c]
      then rbind (exec (Suc n) (CallCb (CbUser i) (req_parent_status ?g)) s2) (\<lambda>(_, s). rbind (nvme_request_free p s) (\<lambda>s. Inr (0, s)))
      else Inr (0, s2))"
    using child_cb_eq [OF p(1) rm upd [symmetric], of "Suc n"] g last by simp
  then show ?thesis
    unfolding user_cb_eq using g(2,3) last by (auto simp: nvme_request_free_def child_done_def Let_def s2_def)
qed

text \<open>
  C22. A completion, not retried, of a child of a split request while nothing is queued: the callback of the parent is called
  exactly when the last child completes, with the status of the last child that failed or success, and parent and child are
  then free; before that no callback is called and an error status is kept in the parent.
\<close>

theorem split_completion:
  assumes "qp_inv s []" and t: "t \<in> set (outstanding_tr s)" "tr_req (tr_at s t) = Some c" "unat (cpl_cid cpl) = t"
    and nr: "\<not> (nvme_cpl_is_error cpl \<and> nvme_qpair_completion_retry cpl \<and> req_retries (req_at s c) < NVME_MAX_RETRY_COUNT)"
    and cb: "req_cb (req_at s c) = CbCompleteChild c" and p: "req_parent (req_at s c) = Some p"
    and i: "req_cb (req_at s p) = CbUser i" and q: "queued_req s = []"
  shows "\<exists>s'. nvme_qpair_complete_tracker (Suc (Suc (Suc n))) s t cpl = Inr (0, s')
    \<and> (let st = (if nvme_cpl_is_error cpl then cpl else req_parent_status (req_at s p))
       in if req_children (req_at s p) = [c]
          then user_calls s' = user_calls s @ [(i, st)] \<and> free_req s' = c # p # free_req s
          else user_calls s' = user_calls s \<and> free_req s' = c # free_req s \<and> req_parent_status (req_at s' p) = st
               \<and> req_children (req_at s' p) = remove1 c (req_children (req_at s p)))"
proof -
  note f = outstanding_facts [OF assms(1) t(1,2)]
  note inv = qp_inv_exact [OF assms(1) refl]
  have pc: "p \<in> parents s" "c \<in> set (req_children (req_at s p))" using f(5) cb p by (auto simp: leaf_ok_def linked_def)
  then have pp: "parent_ok s (set (leaves {} s)) p" using pool_okD(4) [OF qinvD(3) [OF inv] pc(1)] by simp
  have pl: "p < length (reqs s)" "p \<noteq> c" "req_child_reqs (req_at s p) \<noteq> 0" using pc(1) f(7) by (auto simp: parents_def)
  define s1 where "s1 = upd_tr t (\<lambda>x. x\<lparr>tr_active := False\<rparr>) s"
  define s3 where "s3 = child_done p c i cpl s1"
  have f1: "reqs s1 = reqs s" "user_calls s1 = user_calls s" "free_req s1 = free_req s" "queued_req s1 = []" "free_tr s1 = free_tr s"
    using q by (simp_all add: s1_def)
  have cbx: "rbind (exec (Suc (Suc n)) (CallCb (CbCompleteChild c) cpl) s1) (\<lambda>(_, s). nvme_request_free c s) = Inr s3"
    unfolding s3_def by (rule child_cb_done) (use p pl i f(4) f1(1) last_child [OF pp pc(2) pl(3)] in simp_all)
  have "nvme_qpair_complete_tracker (Suc (Suc (Suc n))) s t cpl
      = rbind (rbind (exec (Suc (Suc n)) (CallCb (CbCompleteChild c) cpl) s1) (\<lambda>(_, s). nvme_request_free c s)) (\<lambda>s. exec (Suc (Suc n)) (CompleteDone t) s)"
    using nr t f(2) cb f1(1)
    by (auto simp: nvme_qpair_complete_tracker_def exec.simps(2) [of "Suc (Suc n)"] complete_tracker_def Let_def s1_def rbind_assoc
        case_prod_unfold simp del: exec.simps)
  then have "nvme_qpair_complete_tracker (Suc (Suc (Suc n))) s t cpl = exec (Suc (Suc n)) (CompleteDone t) s3"
    using cbx by (simp del: exec.simps)
  moreover have "queued_req s3 = []" "t \<notin> set (free_tr s3)" using f1 f(6) by (simp_all add: s3_def child_done_def Let_def)
  ultimately have "nvme_qpair_complete_tracker (Suc (Suc (Suc n))) s t cpl = Inr (0, (upd_tr t (\<lambda>x. x\<lparr>tr_req := None\<rparr>) s3)
      \<lparr>outstanding_tr := remove1 t (outstanding_tr s3), free_tr := t # free_tr s3\<rparr>)"
    using complete_done_idle [of s3 t "Suc n"] by simp
  then show ?thesis using pl(1) f1 by (simp add: s3_def child_done_def child_gone_def Let_def)
qed

text \<open>
  C29. On a controller that has failed, submitting a request that was split panics: the parent is freed while it still counts
  children. A request that is not split is only freed and the error returned; its callback is not called.
\<close>

theorem failed_submit:
  assumes "ct_failed s"
  shows "nvme_qpair_submit_request (Suc n) s r =
    (if req_child_reqs (req_at s r) \<noteq> 0 then Inl Panic else Inr (- ENXIO, s\<lparr>free_req := r # free_req s\<rparr>))"
  using assms by (simp add: nvme_qpair_submit_request_def submit_request_def nvme_request_free_def)

subsection \<open>Witnesses\<close>

definition ex_trk :: "nat \<Rightarrow> nat option \<Rightarrow> bool \<Rightarrow> nvme_tracker" where
  "ex_trk i r act = tracker_zero\<lparr>tr_cid := of_nat i, tr_req := r, tr_active := act\<rparr>"

definition ex_cpl :: nvme_cpl where
  "ex_cpl = cpl_zero\<lparr>cpl_status := \<lparr>st_p = True, st_sc = 0, st_sct = 0, st_m = False, st_dnr = False\<rparr>\<rparr>"

text \<open>An I/O queue pair of four entries with one active command and a completion for it.\<close>

definition ex_qp :: "nvme_request list \<Rightarrow> nat list \<Rightarrow> qctx" where
  "ex_qp rs fr = \<lparr>qp_id = 1, qp_cmd = replicate 4 cmd_zero, qp_cpl = ex_cpl # replicate 3 cpl_zero, free_tr = [1],
     outstanding_tr = [0], trackers = 2, qp_tr = [ex_trk 0 (Some 0) True, ex_trk 1 None False], reqs = rs, free_req = fr,
     queued_req = [], entries = 4, sq_tail = 3, cq_head = 0, phase = True, qp_enabled = True, sq_in_cmb = False, qprio = 0,
     cmd_bus_addr = 0x1000, cpl_bus_addr = 0x2000,
     ct_failed = False, ct_resetting = False, ct_sgl_supported = False, ct_enabled_io_qpairs = 1, ct_aer = [], ct_aer_cb = False,
     ct_poll = (\<lambda>_. \<lparr>poll_cpl = cpl_zero, poll_done = False\<rparr>), ct_vtophys = of_nat, user_calls = [], aer_calls = [], doorbells = []\<rparr>"

definition ex_reqs :: "nvme_request list" where
  "ex_reqs = [request_zero\<lparr>req_cb := CbUser 7\<rparr>, request_zero\<lparr>req_cb := CbUser 8\<rparr>, request_zero]"

lemma ex_qp_simps [simp]:
  "qp_id (ex_qp rs fr) = 1" "entries (ex_qp rs fr) = 4" "trackers (ex_qp rs fr) = 2" "sq_tail (ex_qp rs fr) = 3" "cq_head (ex_qp rs fr) = 0"
  "phase (ex_qp rs fr)" "qp_enabled (ex_qp rs fr)" "\<not> ct_failed (ex_qp rs fr)" "free_tr (ex_qp rs fr) = [1]" "outstanding_tr (ex_qp rs fr) = [0]"
  "queued_req (ex_qp rs fr) = []" "reqs (ex_qp rs fr) = rs" "free_req (ex_qp rs fr) = fr" "user_calls (ex_qp rs fr) = []"
  "qp_tr (ex_qp rs fr) = [ex_trk 0 (Some 0) True, ex_trk 1 None False]" "qp_cmd (ex_qp rs fr) = replicate 4 cmd_zero"
  "qp_cpl (ex_qp rs fr) = ex_cpl # replicate 3 cpl_zero" "doorbells (ex_qp rs fr) = []"
  by (simp_all add: ex_qp_def)

lemma ex_trk_simps [simp]:
  "tr_cid (ex_trk i r a) = of_nat i" "tr_req (ex_trk i r a) = r" "tr_active (ex_trk i r a) = a"
  "length (tr_prp (ex_trk i r a)) = NVME_MAX_PRP_LIST_ENTRIES" "length (tr_sgl (ex_trk i r a)) = NVME_MAX_SGL_DESCRIPTORS"
  by (simp_all add: ex_trk_def tracker_zero_def)

lemma less_2_cases: "(\<forall>t<2. P t) \<longleftrightarrow> P 0 \<and> P (1::nat)"
  by (metis One_nat_def less_2_cases_iff)

lemma less_3_cases: "(t::nat) < 3 \<longleftrightarrow> t = 0 \<or> t = 1 \<or> t = 2"
  by auto

lemma ex_rings: "ring_ok (ex_qp rs fr)" "trk_ok (ex_qp rs fr)"
  by (auto simp: ring_ok_def trk_ok_def less_2_cases lessThan_def)

lemma ex_leaves: "leaves {} (ex_qp rs fr) = [0]"
  by (simp add: leaves_def tr_leaves_def)

lemma ex_parents: "parents (ex_qp ex_reqs fr) = {}"
  by (auto simp: parents_def ex_reqs_def request_zero_def nth_Cons less_3_cases split: nat.splits)

lemma ex_qp_inv: "qp_inv (ex_qp ex_reqs [2]) []" "qp_inv (ex_qp ex_reqs [2]) [1]"
  using ex_rings [of ex_reqs "[2]"] ex_parents [of "[2]"]
  by (simp_all add: qp_inv_def qinv_def req_ok_def pool_ok_def ex_leaves acct_def called_def pending_def)
    (simp_all add: ex_reqs_def leaf_ok_def linked_def payload_ok_def request_zero_def is_aer_def)

lemma ex_pending: "pending (ex_qp ex_reqs [2]) [] = {#7#}" "pending (ex_qp ex_reqs [2]) [1] = {#8, 7#}"
  using ex_parents [of "[2]"] by (simp_all add: pending_def pend_def ex_leaves ex_reqs_def)

lemma ex_posted: "posted (ex_qp ex_reqs [2]) 1" "\<not> new_cpl (ex_qp ex_reqs [2]) 1"
  by (simp_all add: posted_def new_cpl_def nth_cpl_def exp_phase_def cpl_tr_def ex_cpl_def cpl_zero_def)

lemma ex_called [simp]: "called (ex_qp rs fr) = {#}"
  by (simp add: called_def)

theorem poll_completes_witness:
  "\<exists>s'. nvme_qpair_poll (NVME_MAX_XFER_SIZE + 20) (ex_qp ex_reqs [2]) 0 = Inr (1, s') \<and> cq_head s' = 1
     \<and> called s' + pending s' [] = {#7#}"
proof -
  have "(3::nat) = (if 0 = 0 \<or> 0 > entries (ex_qp ex_reqs [2]) - 1 then entries (ex_qp ex_reqs [2]) - 1 else (0::nat))" by simp
  from poll_completes [OF ex_qp_inv(1) _ _ _ this ex_posted(1), of "NVME_MAX_XFER_SIZE + 20"] ex_posted(2) ex_pending(1)
  obtain s' where "nvme_qpair_poll (NVME_MAX_XFER_SIZE + 20) (ex_qp ex_reqs [2]) 0 = Inr (1, s')" "cq_head s' = 1"
    "called s' + pending s' [] = {#7#}" by fastforce
  then show ?thesis by blast
qed

theorem submit_keeps_witness:
  "\<exists>ret s'. nvme_qpair_submit_request (2 * NVME_MAX_XFER_SIZE + 50) (ex_qp ex_reqs [2]) 1 = Inr (ret, s') \<and> qp_inv s' []
     \<and> called s' + pending s' [] = {#8, 7#}"
proof -
  from submit_keeps [OF ex_qp_inv(2), of "2 * NVME_MAX_XFER_SIZE + 50"] ex_pending(2)
  obtain ret s' where "nvme_qpair_submit_request (2 * NVME_MAX_XFER_SIZE + 50) (ex_qp ex_reqs [2]) 1 = Inr (ret, s')" "qp_inv s' []"
    "called s' + pending s' [] = {#8, 7#}" by auto
  then show ?thesis by blast
qed

text \<open>A split request with two held children, and one whose only child is outstanding.\<close>

definition ex_split :: "nvme_request list" where
  "ex_split = [request_zero\<lparr>req_cb := CbUser 7\<rparr>,
     request_zero\<lparr>req_cb := CbUser 9, req_child_reqs := 2, req_children := [2, 3]\<rparr>,
     request_zero\<lparr>req_cb := CbCompleteChild 2, req_parent := Some 1\<rparr>,
     request_zero\<lparr>req_cb := CbCompleteChild 3, req_parent := Some 1\<rparr>]"

definition ex_child :: "nvme_request list" where
  "ex_child = [request_zero\<lparr>req_cb := CbCompleteChild 0, req_parent := Some 1\<rparr>,
     request_zero\<lparr>req_cb := CbUser 9, req_child_reqs := 1, req_children := [0]\<rparr>, request_zero]"

lemma less_4_cases: "(t::nat) < 4 \<longleftrightarrow> t = 0 \<or> t = 1 \<or> t = 2 \<or> t = 3"
  by auto

lemma ex_split_fields [simp]: "length ex_split = 4" "length ex_child = 3"
  "map req_cb ex_split = [CbUser 7, CbUser 9, CbCompleteChild 2, CbCompleteChild 3]"
  "map req_cb ex_child = [CbCompleteChild 0, CbUser 9, CbNull]"
  "map req_parent ex_split = [None, None, Some 1, Some 1]" "map req_parent ex_child = [Some 1, None, None]"
  "map req_children ex_split = [[], [2, 3], [], []]" "map req_children ex_child = [[], [0], []]"
  "map req_child_reqs ex_split = [0, 2, 0, 0]" "map req_child_reqs ex_child = [0, 1, 0]"
  "map req_payload_size ex_split = [0, 0, 0, 0]" "map req_payload_size ex_child = [0, 0, 0]"
  by (simp_all add: ex_split_def ex_child_def request_zero_def)

lemma map_eq_nth: "map f xs = ys \<Longrightarrow> i < length ys \<Longrightarrow> f (xs ! i) = ys ! i"
  by auto

lemmas ex_split_at = ex_split_fields(3,5,7,9,11) [THEN map_eq_nth]
lemmas ex_child_at = ex_split_fields(4,6,8,10,12) [THEN map_eq_nth]

lemma ex_split_parents: "parents (ex_qp ex_split fr) = {1}" "parents (ex_qp ex_child fr) = {1}"
  unfolding parents_def by (auto simp: less_3_cases less_4_cases ex_split_at ex_child_at)

lemma ex_split_inv: "qp_inv (ex_qp ex_split []) [2, 3]" "qp_inv (ex_qp ex_child [2]) []"
  using ex_rings [of ex_split "[]"] ex_rings [of ex_child "[2]"]
  by (simp_all add: qp_inv_def qinv_def req_ok_def pool_ok_def ex_leaves acct_def called_def pending_def ex_split_parents
     leaf_ok_def linked_def payload_ok_def parent_ok_def is_aer_def plain_cb_def ex_split_at ex_child_at)

lemma qp_inv_failed: "qp_inv (s\<lparr>ct_failed := b\<rparr>) H = qp_inv s H" "pending (s\<lparr>ct_failed := b\<rparr>) H = pending s H"
proof -
  show p: "pending (s\<lparr>ct_failed := b\<rparr>) H = pending s H"
    by (simp add: pending_def pend_def leaves_def tr_leaves_def parents_def)
  have "qinv L M G (s\<lparr>ct_failed := b\<rparr>) H [] {} = qinv L M G s H [] {}" for L M G by (rule qinv_eqI) simp_all
  then show "qp_inv (s\<lparr>ct_failed := b\<rparr>) H = qp_inv s H" using p by (simp add: qp_inv_def called_def)
qed


theorem fail_completes_all_witness:
  "\<exists>s'. nvme_qpair_fail (NVME_MAX_XFER_SIZE + 20) ((ex_qp ex_reqs [2])\<lparr>ct_failed := True\<rparr>) = Inr s'
     \<and> outstanding_tr s' = [] \<and> called s' = {#7#}"
  using fail_completes_all [of "(ex_qp ex_reqs [2])\<lparr>ct_failed := True\<rparr>" "NVME_MAX_XFER_SIZE + 20"] ex_qp_inv(1) ex_pending(1)
  by (auto simp: qp_inv_failed called_def)

theorem io_enable_aborts_all_witness:
  "\<exists>ret s'. nvme_qpair_enable (NVME_MAX_XFER_SIZE + 40) (ex_qp ex_reqs [2]) = Inr (ret, s') \<and> outstanding_tr s' = [] \<and> called s' = {#7#}"
  using io_enable_aborts_all [of "ex_qp ex_reqs [2]" "NVME_MAX_XFER_SIZE + 40"] ex_qp_inv(1) ex_pending(1)
  by (auto simp: nvme_qpair_is_io_queue_def)

definition ex_env :: qpair_env where
  "ex_env = \<lparr>sq_cmb_reserved = None, alloc_cmd = Some 0x1000, alloc_cpl = Some 0x2000, calloc_reqs = True, alloc_tr = Some 0x10000\<rparr>"

theorem construct_establishes_witness:
  "\<exists>q'. nvme_qpair_construct ex_env (ex_qp [] []) 0 4 2 = Inr (0, q') \<and> qp_inv q' [] \<and> free_req q' = [0..<16]"
proof -
  have "\<exists>q'. nvme_qpair_construct ex_env (ex_qp [] []) 0 4 2 = Inr (0, q')"
    by (simp add: nvme_qpair_construct_def ex_env_def nvme_request_pool_construct_def Let_def)
  then obtain q' where "nvme_qpair_construct ex_env (ex_qp [] []) 0 4 2 = Inr (0, q')" by blast
  with construct_establishes [OF this] show ?thesis by auto
qed

theorem submit_writes_slot_witness:
  "\<exists>s'. nvme_qpair_submit_request 2 (ex_qp ex_reqs [2]) 1 = Inr (0, s') \<and> sq_tail s' = 0 \<and> doorbells s' = [SqTail 0]"
proof -
  let ?s = "ex_qp ex_reqs [2]"
  let ?s1 = "upd_req 1 (\<lambda>q. q\<lparr>req_cmd := (req_cmd q)\<lparr>cmd_cid := tr_cid (tr_at ?s 1)\<rparr>\<rparr>)
      (upd_tr 1 (\<lambda>x. x\<lparr>tr_req := Some 1\<rparr>) (?s\<lparr>free_tr := [], outstanding_tr := 1 # outstanding_tr ?s\<rparr>))"
  have "req_payload_size (req_at ?s1 1) = 0" by (simp add: upd_req_def upd_tr_def ex_reqs_def request_zero_def)
  then have b: "build_request 0 ?s1 1 1 = Inr (0, req_cmd (req_at ?s1 1), tr_at ?s1 1)" by (simp add: build_request_def)
  have "free_tr ?s = 1 # []" by simp
  from submit_writes_slot [OF ex_qp_inv(2) _ _ this b] show ?thesis by (auto simp: numeral_2_eq_2)
qed

definition ex_retry_cpl :: nvme_cpl where
  "ex_retry_cpl = cpl_zero\<lparr>cpl_status := \<lparr>st_p = True, st_sc = 0x82, st_sct = 0, st_m = False, st_dnr = False\<rparr>\<rparr>"

theorem retry_resubmits_witness:
  "\<exists>s'. nvme_qpair_complete_tracker 1 (ex_qp ex_reqs [2]) 0 ex_retry_cpl = Inr (0, s') \<and> user_calls s' = []
     \<and> req_retries (req_at s' 0) = 1 \<and> outstanding_tr s' = [0]"
proof -
  have a: "0 \<in> set (outstanding_tr (ex_qp ex_reqs [2]))" "tr_req (tr_at (ex_qp ex_reqs [2]) 0) = Some 0" by simp_all
  have c: "unat (cpl_cid ex_retry_cpl) = 0" "nvme_cpl_is_error ex_retry_cpl" "nvme_qpair_completion_retry ex_retry_cpl"
    by (simp_all add: ex_retry_cpl_def cpl_zero_def nvme_cpl_is_error_def nvme_qpair_completion_retry_def status_defs)
  have z: "req_retries (req_at (ex_qp ex_reqs [2]) 0) = 0" by (simp add: ex_reqs_def request_zero_def)
  then have r: "req_retries (req_at (ex_qp ex_reqs [2]) 0) < NVME_MAX_RETRY_COUNT" by (simp add: NVME_MAX_RETRY_COUNT_def)
  from retry_resubmits [OF ex_qp_inv(1) a c r, of 0] z show ?thesis by auto
qed

theorem completion_delivered_witness:
  "\<exists>s'. nvme_qpair_complete_tracker 2 (ex_qp ex_reqs [2]) 0 ex_cpl = Inr (0, s') \<and> user_calls s' = [(7, ex_cpl)] \<and> free_req s' = [0, 2]"
proof -
  have a: "0 \<in> set (outstanding_tr (ex_qp ex_reqs [2]))" "tr_req (tr_at (ex_qp ex_reqs [2]) 0) = Some 0" "unat (cpl_cid ex_cpl) = 0"
    "\<not> nvme_cpl_is_error ex_cpl" "req_cb (req_at (ex_qp ex_reqs [2]) 0) = CbUser 7"
    by (simp_all add: ex_cpl_def cpl_zero_def nvme_cpl_is_error_def ex_reqs_def)
  from completion_delivered [OF ex_qp_inv(1) a(1-3) _ a(5), of 0] a(4) show ?thesis by (auto simp: numeral_2_eq_2)
qed

theorem split_completion_witness:
  "\<exists>s'. nvme_qpair_complete_tracker 3 (ex_qp ex_child [2]) 0 ex_cpl = Inr (0, s') \<and> user_calls s' = [(9, cpl_zero)]
     \<and> free_req s' = [0, 1, 2]"
proof -
  let ?s = "ex_qp ex_child [2]"
  have a: "0 \<in> set (outstanding_tr ?s)" "tr_req (tr_at ?s 0) = Some 0" "unat (cpl_cid ex_cpl) = 0" "\<not> nvme_cpl_is_error ex_cpl"
    by (simp_all add: ex_cpl_def cpl_zero_def nvme_cpl_is_error_def)
  have r: "req_cb (req_at ?s 0) = CbCompleteChild 0" "req_parent (req_at ?s 0) = Some 1" "req_cb (req_at ?s 1) = CbUser 9"
    "req_children (req_at ?s 1) = [0]" "req_parent_status (req_at ?s 1) = cpl_zero"
    by (simp_all add: ex_child_def request_zero_def)
  from split_completion [OF ex_split_inv(2) a(1-3) _ r(1-3), of 0] a(4) r(4,5) show ?thesis
    by (auto simp: numeral_3_eq_3 Let_def)
qed

theorem failed_submit_witness:
  "nvme_qpair_submit_request 1 ((ex_qp ex_split [])\<lparr>ct_failed := True\<rparr>) 1 = Inl Panic"
  using failed_submit [of "(ex_qp ex_split [])\<lparr>ct_failed := True\<rparr>" 0 1] by (simp add: ex_split_def)


subsection \<open>A split request whose child cannot be built\<close>

text \<open>The second of the requests is split; its first child transfers a buffer the library did not allocate.\<close>

definition ex_bad_split :: "nvme_request list" where
  "ex_bad_split = ex_split[2 := request_zero\<lparr>req_cb := CbCompleteChild 2, req_parent := Some 1, req_payload_size := 512,
     req_payload := (req_payload request_zero)\<lparr>pl_type := NVME_PAYLOAD_TYPE_CONTIG\<rparr>\<rparr>]"



end
