(* ===== verification/Nvme_Ns.thy ===== *)
theory Nvme_Ns
  imports Nvme_Qprops
begin

text \<open>
  The I/O commands of a namespace (\<^verbatim>\<open>lib/nvme/nvme_ns.c\<close>): reads and writes, which are split into child requests
  when they exceed the largest transfer of the controller or cross a stripe boundary, and the commands that are never
  split. Opening, closing and identifying namespaces is part of the controller theory.

  A read or write allocates a request for the whole transfer and, when it is split, one for each child, which may be
  split again; the two functions call each other and are defined with fuel, one unit for each call.
\<close>

subsection \<open>Definitions: namespaces\<close>

definition NVME_NS_DEALLOCATE_SUPPORTED :: u16 where "NVME_NS_DEALLOCATE_SUPPORTED = 0x1"
definition NVME_NS_FLUSH_SUPPORTED :: u16 where "NVME_NS_FLUSH_SUPPORTED = 0x2"
definition NVME_NS_RESERVATION_SUPPORTED :: u16 where "NVME_NS_RESERVATION_SUPPORTED = 0x4"
definition NVME_NS_WRITE_ZEROES_SUPPORTED :: u16 where "NVME_NS_WRITE_ZEROES_SUPPORTED = 0x8"
definition NVME_NS_DPS_PI_SUPPORTED :: u16 where "NVME_NS_DPS_PI_SUPPORTED = 0x10"
definition NVME_NS_EXTENDED_LBA_SUPPORTED :: u16 where "NVME_NS_EXTENDED_LBA_SUPPORTED = 0x20"
definition NVME_IO_FLAGS_PRACT :: u32 where "NVME_IO_FLAGS_PRACT = push_bit 29 1"
definition NVME_FMT_NVM_PROTECTION_DISABLE :: u32 where "NVME_FMT_NVM_PROTECTION_DISABLE = 0"
definition NVME_FMT_NVM_PROTECTION_TYPE1 :: u32 where "NVME_FMT_NVM_PROTECTION_TYPE1 = 1"
definition NVME_FMT_NVM_PROTECTION_TYPE2 :: u32 where "NVME_FMT_NVM_PROTECTION_TYPE2 = 2"
definition NVME_DATASET_MANAGEMENT_MAX_RANGES :: u16 where "NVME_DATASET_MANAGEMENT_MAX_RANGES = 256"
definition NVME_DSM_ATTR_DEALLOCATE :: u32 where "NVME_DSM_ATTR_DEALLOCATE = 0x4"

record nvme_ns =
  stripe_size :: u32
  sector_size :: u32
  md_size :: u32
  pi_type :: u32
  sectors_per_max_io :: u32
  sectors_per_stripe :: u32
  ns_id :: u16
  ns_flags :: u16
  open_count :: int

subsection \<open>Definitions: reads and writes\<close>

text \<open>The arguments of a read or write that all its children share.\<close>

record rw_args =
  rw_payload :: nvme_payload
  rw_cb :: nvme_cb
  rw_opc :: u8
  rw_io_flags :: u32
  rw_apptag_mask :: u16
  rw_apptag :: u16

text \<open>The bytes transferred for a sector: with the metadata when it is interleaved with the data.\<close>

definition rw_sector_size :: "nvme_ns \<Rightarrow> u32 \<Rightarrow> u32" where
  "rw_sector_size ns io_flags =
     (if ns_flags ns AND NVME_NS_DPS_PI_SUPPORTED \<noteq> 0
      then if ns_flags ns AND NVME_NS_EXTENDED_LBA_SUPPORTED \<noteq> 0 \<and> io_flags AND NVME_IO_FLAGS_PRACT = 0
           then sector_size ns + md_size ns else sector_size ns
      else sector_size ns)"

text \<open>The 64-bit block address is stored over two command words.\<close>

definition set_lba :: "u64 \<Rightarrow> nvme_cmd \<Rightarrow> nvme_cmd" where
  "set_lba lba cmd = cmd\<lparr>cdw10 := ucast lba, cdw11 := ucast (drop_bit 32 lba)\<rparr>"

definition rw_command :: "nvme_ns \<Rightarrow> rw_args \<Rightarrow> u64 \<Rightarrow> u32 \<Rightarrow> nvme_cmd \<Rightarrow> nvme_cmd" where
  "rw_command ns a lba lba_count cmd =
     (let cmd = set_lba lba (cmd\<lparr>opc := rw_opc a, nsid := ucast (ns_id ns)\<rparr>);
          cmd = (if ns_flags ns AND NVME_NS_DPS_PI_SUPPORTED \<noteq> 0
                    \<and> (pi_type ns = NVME_FMT_NVM_PROTECTION_TYPE1 \<or> pi_type ns = NVME_FMT_NVM_PROTECTION_TYPE2)
                 then cmd\<lparr>cdw14 := ucast lba\<rparr> else cmd)
      in cmd\<lparr>cdw12 := (lba_count - 1) OR rw_io_flags a,
             cdw15 := push_bit 16 (ucast (rw_apptag_mask a)) OR ucast (rw_apptag a)\<rparr>)"

fun free_children :: "nat \<Rightarrow> nat list \<Rightarrow> qctx \<Rightarrow> qctx res" where
  "free_children r [] s = Inr s"
| "free_children r (c # cs) s =
     rbind (nvme_request_remove_child r c s) (\<lambda>s. rbind (nvme_request_free c s) (free_children r cs))"

fun nvme_ns_rw :: "nat \<Rightarrow> nvme_ns \<Rightarrow> rw_args \<Rightarrow> qctx \<Rightarrow> u64 \<Rightarrow> u32 \<Rightarrow> (nat option \<times> qctx) res"
  and nvme_ns_split_request ::
    "nat \<Rightarrow> nvme_ns \<Rightarrow> rw_args \<Rightarrow> qctx \<Rightarrow> nat \<Rightarrow> u64 \<Rightarrow> u32 \<Rightarrow> u32 \<Rightarrow> u32 \<Rightarrow> u32 \<Rightarrow> u32 \<Rightarrow> (nat option \<times> qctx) res" where
  "nvme_ns_rw 0 ns a s lba lba_count = Inl OutOfFuel"
| "nvme_ns_rw (Suc n) ns a s lba lba_count =
     (if rw_io_flags a AND 0xFFFF \<noteq> 0 then Inr (None, s)
      else
        case nvme_request_allocate s (rw_payload a) (lba_count * rw_sector_size ns (rw_io_flags a)) (rw_cb a) of
          (None, s) \<Rightarrow> Inr (None, s)
        | (Some r, s) \<Rightarrow>
            let stripe = sectors_per_stripe ns
            in if stripe > 0 \<and> (lba AND ucast (stripe - 1)) + ucast lba_count > ucast stripe
               then nvme_ns_split_request n ns a s r lba lba_count 0 0 stripe (stripe - 1)
               else if lba_count > sectors_per_max_io ns
               then nvme_ns_split_request n ns a s r lba lba_count 0 0 (sectors_per_max_io ns) 0
               else Inr (Some r, upd_req r (\<lambda>q. q\<lparr>req_cmd := rw_command ns a lba lba_count (req_cmd q)\<rparr>) s))"
| "nvme_ns_split_request 0 ns a s r lba remaining offset md_offset max_io sector_mask = Inl OutOfFuel"
| "nvme_ns_split_request (Suc n) ns a s r lba remaining offset md_offset max_io sector_mask =
     (if remaining = 0 then Inr (Some r, s)
      else
        let room = ucast (ucast max_io - (lba AND ucast sector_mask)) :: u32;
            lba_count = (if remaining < room then remaining else room)
        in rbind (nvme_ns_rw n ns a s lba lba_count)
             (\<lambda>(child, s). case child of
                None \<Rightarrow>
                  rbind (if req_child_reqs (req_at s r) \<noteq> 0 then free_children r (req_children (req_at s r)) s else Inr s)
                    (\<lambda>s. Inr (None, s))
              | Some c \<Rightarrow>
                  let s = upd_req c (\<lambda>q. q\<lparr>req_payload_offset := offset\<rparr>) s;
                      s = (if pl_md (rw_payload a) \<noteq> None then upd_req c (\<lambda>q. q\<lparr>req_md_offset := md_offset\<rparr>) s else s);
                      s = nvme_request_add_child r c s
                  in nvme_ns_split_request n ns a s r (lba + ucast lba_count) (remaining - lba_count)
                       (offset + lba_count * rw_sector_size ns (rw_io_flags a)) (md_offset + lba_count * md_size ns)
                       max_io sector_mask))"

text \<open>The common end of the read and write functions.\<close>

definition rw_submit :: "nat \<Rightarrow> nvme_ns \<Rightarrow> rw_args \<Rightarrow> qctx \<Rightarrow> u64 \<Rightarrow> u32 \<Rightarrow> (int \<times> qctx) res" where
  "rw_submit fuel ns a s lba lba_count =
     rbind (nvme_ns_rw fuel ns a s lba lba_count)
       (\<lambda>(req, s). case req of None \<Rightarrow> Inr (- ENOMEM, s) | Some r \<Rightarrow> nvme_qpair_submit_request fuel s r)"

definition contig_payload :: "nat \<Rightarrow> nat option \<Rightarrow> nvme_payload" where
  "contig_payload buffer md = \<lparr>pl_contig = buffer, pl_sgl = None, pl_md = md, pl_type = NVME_PAYLOAD_TYPE_CONTIG\<rparr>"

definition sgl_payload :: "sge_source \<Rightarrow> nvme_payload" where
  "sgl_payload f = \<lparr>pl_contig = 0, pl_sgl = Some f, pl_md = None, pl_type = NVME_PAYLOAD_TYPE_SGL\<rparr>"

definition nvme_ns_read :: "nat \<Rightarrow> nvme_ns \<Rightarrow> qctx \<Rightarrow> nat \<Rightarrow> u64 \<Rightarrow> u32 \<Rightarrow> nvme_cb \<Rightarrow> u32 \<Rightarrow> (int \<times> qctx) res" where
  "nvme_ns_read fuel ns s buffer lba lba_count cb io_flags =
     rw_submit fuel ns \<lparr>rw_payload = contig_payload buffer None, rw_cb = cb, rw_opc = nvm_opc NVME_OPC_READ,
       rw_io_flags = io_flags, rw_apptag_mask = 0, rw_apptag = 0\<rparr> s lba lba_count"

definition nvme_ns_read_with_md ::
  "nat \<Rightarrow> nvme_ns \<Rightarrow> qctx \<Rightarrow> nat \<Rightarrow> nat option \<Rightarrow> u64 \<Rightarrow> u32 \<Rightarrow> nvme_cb \<Rightarrow> u32 \<Rightarrow> u16 \<Rightarrow> u16 \<Rightarrow> (int \<times> qctx) res" where
  "nvme_ns_read_with_md fuel ns s buffer metadata lba lba_count cb io_flags apptag_mask apptag =
     rw_submit fuel ns \<lparr>rw_payload = contig_payload buffer metadata, rw_cb = cb, rw_opc = nvm_opc NVME_OPC_READ,
       rw_io_flags = io_flags, rw_apptag_mask = apptag_mask, rw_apptag = apptag\<rparr> s lba lba_count"

definition nvme_ns_readv ::
  "nat \<Rightarrow> nvme_ns \<Rightarrow> qctx \<Rightarrow> u64 \<Rightarrow> u32 \<Rightarrow> nvme_cb \<Rightarrow> u32 \<Rightarrow> sge_source option \<Rightarrow> (int \<times> qctx) res" where
  "nvme_ns_readv fuel ns s lba lba_count cb io_flags sgl_fns =
     (case sgl_fns of
        None \<Rightarrow> Inr (- EINVAL, s)
      | Some f \<Rightarrow> rw_submit fuel ns \<lparr>rw_payload = sgl_payload f, rw_cb = cb, rw_opc = nvm_opc NVME_OPC_READ,
           rw_io_flags = io_flags, rw_apptag_mask = 0, rw_apptag = 0\<rparr> s lba lba_count)"

definition nvme_ns_write :: "nat \<Rightarrow> nvme_ns \<Rightarrow> qctx \<Rightarrow> nat \<Rightarrow> u64 \<Rightarrow> u32 \<Rightarrow> nvme_cb \<Rightarrow> u32 \<Rightarrow> (int \<times> qctx) res" where
  "nvme_ns_write fuel ns s buffer lba lba_count cb io_flags =
     rw_submit fuel ns \<lparr>rw_payload = contig_payload buffer None, rw_cb = cb, rw_opc = nvm_opc NVME_OPC_WRITE,
       rw_io_flags = io_flags, rw_apptag_mask = 0, rw_apptag = 0\<rparr> s lba lba_count"

definition nvme_ns_write_with_md ::
  "nat \<Rightarrow> nvme_ns \<Rightarrow> qctx \<Rightarrow> nat \<Rightarrow> nat option \<Rightarrow> u64 \<Rightarrow> u32 \<Rightarrow> nvme_cb \<Rightarrow> u32 \<Rightarrow> u16 \<Rightarrow> u16 \<Rightarrow> (int \<times> qctx) res" where
  "nvme_ns_write_with_md fuel ns s buffer metadata lba lba_count cb io_flags apptag_mask apptag =
     rw_submit fuel ns \<lparr>rw_payload = contig_payload buffer metadata, rw_cb = cb, rw_opc = nvm_opc NVME_OPC_WRITE,
       rw_io_flags = io_flags, rw_apptag_mask = apptag_mask, rw_apptag = apptag\<rparr> s lba lba_count"

definition nvme_ns_writev ::
  "nat \<Rightarrow> nvme_ns \<Rightarrow> qctx \<Rightarrow> u64 \<Rightarrow> u32 \<Rightarrow> nvme_cb \<Rightarrow> u32 \<Rightarrow> sge_source option \<Rightarrow> (int \<times> qctx) res" where
  "nvme_ns_writev fuel ns s lba lba_count cb io_flags sgl_fns =
     (case sgl_fns of
        None \<Rightarrow> Inr (- EINVAL, s)
      | Some f \<Rightarrow> rw_submit fuel ns \<lparr>rw_payload = sgl_payload f, rw_cb = cb, rw_opc = nvm_opc NVME_OPC_WRITE,
           rw_io_flags = io_flags, rw_apptag_mask = 0, rw_apptag = 0\<rparr> s lba lba_count)"

subsection \<open>Definitions: the other commands\<close>

text \<open>A request whose command is set and submitted; \<open>-ENOMEM\<close> when the pool is empty.\<close>

definition submit_with :: "nat \<Rightarrow> nat option \<times> qctx \<Rightarrow> (nvme_cmd \<Rightarrow> nvme_cmd) \<Rightarrow> (int \<times> qctx) res" where
  "submit_with fuel alloc f =
     (case alloc of
        (None, s) \<Rightarrow> Inr (- ENOMEM, s)
      | (Some r, s) \<Rightarrow> nvme_qpair_submit_request fuel (upd_req r (\<lambda>q. q\<lparr>req_cmd := f (req_cmd q)\<rparr>) s) r)"

definition nvme_ns_write_zeroes :: "nat \<Rightarrow> nvme_ns \<Rightarrow> qctx \<Rightarrow> u64 \<Rightarrow> u32 \<Rightarrow> nvme_cb \<Rightarrow> u32 \<Rightarrow> (int \<times> qctx) res" where
  "nvme_ns_write_zeroes fuel ns s lba lba_count cb io_flags =
     (if lba_count = 0 then Inr (- EINVAL, s)
      else submit_with fuel (nvme_request_allocate_null s cb)
             (\<lambda>cmd. (set_lba lba (cmd\<lparr>opc := nvm_opc NVME_OPC_WRITE_ZEROES, nsid := ucast (ns_id ns)\<rparr>))
                     \<lparr>cdw12 := (lba_count - 1) OR io_flags\<rparr>))"

definition nvme_ns_deallocate :: "nat \<Rightarrow> nvme_ns \<Rightarrow> qctx \<Rightarrow> nat \<Rightarrow> u16 \<Rightarrow> nvme_cb \<Rightarrow> (int \<times> qctx) res" where
  "nvme_ns_deallocate fuel ns s payload ranges cb =
     (if ranges = 0 \<or> ranges > NVME_DATASET_MANAGEMENT_MAX_RANGES then Inr (- EINVAL, s)
      else submit_with fuel (nvme_request_allocate_contig s payload (ucast ranges * 16) cb)
             (\<lambda>cmd. cmd\<lparr>opc := nvm_opc NVME_OPC_DATASET_MANAGEMENT, nsid := ucast (ns_id ns),
                        cdw10 := ucast ranges - 1, cdw11 := NVME_DSM_ATTR_DEALLOCATE\<rparr>))"

definition nvme_ns_flush :: "nat \<Rightarrow> nvme_ns \<Rightarrow> qctx \<Rightarrow> nvme_cb \<Rightarrow> (int \<times> qctx) res" where
  "nvme_ns_flush fuel ns s cb =
     submit_with fuel (nvme_request_allocate_null s cb) (\<lambda>cmd. cmd\<lparr>opc := nvm_opc NVME_OPC_FLUSH, nsid := ucast (ns_id ns)\<rparr>)"

definition reservation_cdw10 :: "u32 \<Rightarrow> bool \<Rightarrow> u32 \<Rightarrow> nat \<Rightarrow> u32" where
  "reservation_cdw10 action ignore_key v pos = (action OR (if ignore_key then push_bit 3 1 else 0)) OR push_bit pos v"

definition nvme_ns_reservation_register ::
  "nat \<Rightarrow> nvme_ns \<Rightarrow> qctx \<Rightarrow> nat \<Rightarrow> bool \<Rightarrow> u32 \<Rightarrow> u32 \<Rightarrow> nvme_cb \<Rightarrow> (int \<times> qctx) res" where
  "nvme_ns_reservation_register fuel ns s payload ignore_key action cptpl cb =
     submit_with fuel (nvme_request_allocate_contig s payload 16 cb)
       (\<lambda>cmd. cmd\<lparr>opc := nvm_opc NVME_OPC_RESERVATION_REGISTER, nsid := ucast (ns_id ns),
                  cdw10 := reservation_cdw10 action ignore_key cptpl 30\<rparr>)"

definition nvme_ns_reservation_release ::
  "nat \<Rightarrow> nvme_ns \<Rightarrow> qctx \<Rightarrow> nat \<Rightarrow> bool \<Rightarrow> u32 \<Rightarrow> u32 \<Rightarrow> nvme_cb \<Rightarrow> (int \<times> qctx) res" where
  "nvme_ns_reservation_release fuel ns s payload ignore_key action type cb =
     submit_with fuel (nvme_request_allocate_contig s payload 8 cb)
       (\<lambda>cmd. cmd\<lparr>opc := nvm_opc NVME_OPC_RESERVATION_RELEASE, nsid := ucast (ns_id ns),
                  cdw10 := reservation_cdw10 action ignore_key type 8\<rparr>)"

definition nvme_ns_reservation_acquire ::
  "nat \<Rightarrow> nvme_ns \<Rightarrow> qctx \<Rightarrow> nat \<Rightarrow> bool \<Rightarrow> u32 \<Rightarrow> u32 \<Rightarrow> nvme_cb \<Rightarrow> (int \<times> qctx) res" where
  "nvme_ns_reservation_acquire fuel ns s payload ignore_key action type cb =
     submit_with fuel (nvme_request_allocate_contig s payload 16 cb)
       (\<lambda>cmd. cmd\<lparr>opc := nvm_opc NVME_OPC_RESERVATION_ACQUIRE, nsid := ucast (ns_id ns),
                  cdw10 := reservation_cdw10 action ignore_key type 8\<rparr>)"

text \<open>The length is a \<open>size_t\<close>; the request and the command word take its low 32 bits.\<close>

definition nvme_ns_reservation_report :: "nat \<Rightarrow> nvme_ns \<Rightarrow> qctx \<Rightarrow> nat \<Rightarrow> u64 \<Rightarrow> nvme_cb \<Rightarrow> (int \<times> qctx) res" where
  "nvme_ns_reservation_report fuel ns s payload len cb =
     (if len mod 4 \<noteq> 0 then Inr (- EINVAL, s)
      else submit_with fuel (nvme_request_allocate_contig s payload (ucast len) cb)
             (\<lambda>cmd. cmd\<lparr>opc := nvm_opc NVME_OPC_RESERVATION_REPORT, nsid := ucast (ns_id ns), cdw10 := ucast (len div 4)\<rparr>))"

subsection \<open>Linking a child keeps the invariant\<close>

definition as_child :: "nat \<Rightarrow> nat \<Rightarrow> nvme_request \<Rightarrow> nvme_request" where
  "as_child p c q = q\<lparr>req_parent := Some p, req_cb := CbCompleteChild c\<rparr>"

definition with_child :: "nat \<Rightarrow> nvme_request \<Rightarrow> nvme_request" where
  "with_child c q = (let q = (if req_child_reqs q = 0
      then q\<lparr>req_children := [], req_parent := None, req_parent_status := cpl_zero\<rparr> else q)
    in q\<lparr>req_child_reqs := req_child_reqs q + 1, req_children := req_children q @ [c]\<rparr>)"

lemma upd_req_upd_req: "upd_req r f (upd_req r g q) = upd_req r (\<lambda>x. f (g x)) q"
  by (cases "r < length (reqs q)") (simp_all add: upd_req_def list_update_beyond)

lemma upd_req_cong: "f (req_at q r) = g (req_at q r) \<Longrightarrow> upd_req r f q = upd_req r g q"
  by (simp add: upd_req_def)

lemma add_child_eq: "nvme_request_add_child p c q = upd_req c (as_child p c) (upd_req p (with_child c) q)"
proof (cases "req_child_reqs (req_at q p) = 0")
  case True
  then show ?thesis
    by (simp add: nvme_request_add_child_def Let_def upd_req_upd_req as_child_def [abs_def])
      (rule arg_cong [where f = "upd_req c _"], rule upd_req_cong, simp add: with_child_def Let_def)
next
  case False
  then show ?thesis
    by (simp add: nvme_request_add_child_def Let_def as_child_def [abs_def])
      (rule arg_cong [where f = "upd_req c _"], rule upd_req_cong, simp add: with_child_def Let_def)
qed

lemma req_at_add_child:
  assumes "p < length (reqs s)" "c < length (reqs s)" "p \<noteq> c"
  shows "req_at (nvme_request_add_child p c s) j =
    (if j = c then as_child p c (req_at s c) else if j = p then with_child c (req_at s p) else req_at s j)"
  using assms by (simp add: add_child_eq req_at_upd_req)

lemma add_child_simps [simp]:
  "length (reqs (nvme_request_add_child p c s)) = length (reqs s)" "free_req (nvme_request_add_child p c s) = free_req s"
  "queued_req (nvme_request_add_child p c s) = queued_req s" "qp_tr (nvme_request_add_child p c s) = qp_tr s"
  "outstanding_tr (nvme_request_add_child p c s) = outstanding_tr s" "free_tr (nvme_request_add_child p c s) = free_tr s"
  "trackers (nvme_request_add_child p c s) = trackers s" "entries (nvme_request_add_child p c s) = entries s"
  "sq_tail (nvme_request_add_child p c s) = sq_tail s" "cq_head (nvme_request_add_child p c s) = cq_head s"
  "qp_enabled (nvme_request_add_child p c s) = qp_enabled s" "qp_cmd (nvme_request_add_child p c s) = qp_cmd s"
  "qp_cpl (nvme_request_add_child p c s) = qp_cpl s" "qp_id (nvme_request_add_child p c s) = qp_id s"
  "ct_failed (nvme_request_add_child p c s) = ct_failed s" "ct_resetting (nvme_request_add_child p c s) = ct_resetting s"
  "user_calls (nvme_request_add_child p c s) = user_calls s" for s :: qctx
  by (simp_all add: add_child_eq)

lemma unat_plus_one: "unat (w :: 8 word) < 255 \<Longrightarrow> unat (w + 1) = unat w + 1"
  by (simp add: unat_plus_if')

text \<open>
  While the caller splits \<open>r\<close> it holds the children made so far; until there is one, \<open>r\<close> itself is outside of the
  invariant, like a request that is about to be freed, and its callback is not counted as pending.
\<close>

definition qp_invd :: "qctx \<Rightarrow> nat list \<Rightarrow> nat list \<Rightarrow> bool" where
  "qp_invd s H D \<longleftrightarrow> qinv {#} (called s + pending s H) Map.empty s H D {}"

definition dead :: "qctx \<Rightarrow> nat \<Rightarrow> nat list" where
  "dead s r = (if req_child_reqs (req_at s r) = 0 then [r] else [])"

definition open_cb :: "qctx \<Rightarrow> nat \<Rightarrow> nat multiset" where
  "open_cb s r = (if req_child_reqs (req_at s r) = 0 then ucb (req_cb (req_at s r)) else {#})"

definition splitting :: "qctx \<Rightarrow> nat \<Rightarrow> nat list \<Rightarrow> bool" where
  "splitting s r cs \<longleftrightarrow> r < length (reqs s) \<and> plain_cb (req_cb (req_at s r))
     \<and> (if req_child_reqs (req_at s r) = 0 then cs = [] else req_children (req_at s r) = cs)"

lemma qp_invd_Nil: "qp_invd s H [] = qp_inv s H"
  by (simp add: qp_invd_def qp_inv_def)

lemma qp_invdI: "qinv L M G s H D {} \<Longrightarrow> qp_invd s H D"
  by (auto simp: qp_invd_def qinv_def req_ok_def pool_ok_def acct_def called_def pending_def)

lemma qp_invd_exact:
  assumes "qp_invd s H D" and "X = called s + pending s H"
  shows "qinv X X Map.empty s H D {}"
  using assms by (auto simp: qp_invd_def qinv_def req_ok_def pool_ok_def acct_def called_def pending_def)

lemma qp_invd_pool: "qp_invd s H D \<Longrightarrow> pool_ok {#} (called s + pending s H) s (free_req s) (leaves {} s @ H) D"
  by (simp add: qp_invd_def qinv_def req_ok_def)

lemma leaves_add_child [simp]: "leaves {} (nvme_request_add_child p c s) = leaves {} s"
  by (simp add: leaves_def tr_leaves_def)

text \<open>The requests of a splitting state: what the new child changes.\<close>

lemma add_child_reqs:
  assumes inv: "qp_invd s (c # cs) (dead s r)" and sp: "splitting s r cs" and rc: "r \<noteq> c" and few: "length cs < 255"
    and s': "s' = nvme_request_add_child r c s"
  shows "req_at s' j = (if j = c then as_child r c (req_at s c) else if j = r then with_child c (req_at s r) else req_at s j)"
    and "unat (req_child_reqs (req_at s' r)) = length cs + 1" and "req_children (req_at s' r) = cs @ [c]"
    and "req_cb (req_at s' r) = req_cb (req_at s r)" and "parents s' = insert r (parents s)"
    and "r \<notin> set (leaves {} s @ c # cs)" and "r \<notin> set (free_req s)"
proof -
  note pool = pool_okD [OF qp_invd_pool [OF inv]]
  note rl = sp [unfolded splitting_def, THEN conjunct1]
  have cl: "c < length (reqs s)" "req_child_reqs (req_at s c) = 0" using pool(2) [of c] by auto
  show at: "req_at s' j = (if j = c then as_child r c (req_at s c) else if j = r then with_child c (req_at s r) else req_at s j)" for j
    unfolding s' by (rule req_at_add_child [OF rl cl(1) rc])
  have first: "cs = []" if "req_child_reqs (req_at s r) = 0" using that sp by (simp add: splitting_def)
  have later: "req_children (req_at s r) = cs" "parent_ok s (set (leaves {} s @ c # cs)) r" if "req_child_reqs (req_at s r) \<noteq> 0"
    using that sp rl pool(4) [of r] by (simp_all add: splitting_def parents_def)
  have n: "unat (req_child_reqs (req_at s r)) = length cs"
    using first later by (cases "req_child_reqs (req_at s r) = 0") (auto simp: parent_ok_def)
  show cr: "unat (req_child_reqs (req_at s' r)) = length cs + 1"
    using rc n few first unat_plus_one [of "req_child_reqs (req_at s r)"] by (simp add: at with_child_def Let_def)
  show "req_children (req_at s' r) = cs @ [c]" and "req_cb (req_at s' r) = req_cb (req_at s r)"
    using rc first later(1) by (auto simp: at with_child_def Let_def)
  have "req_child_reqs (req_at s' j) \<noteq> 0 \<longleftrightarrow> j = r \<or> req_child_reqs (req_at s j) \<noteq> 0" for j
    using cr cl(2) rc by (cases "j = r") (auto simp: at as_child_def)
  then show "parents s' = insert r (parents s)" using rl by (auto simp: parents_def s')
  have "r \<notin> set (leaves {} s @ c # cs) \<union> set (free_req s)"
  proof (cases "req_child_reqs (req_at s r) = 0")
    case True
    then show ?thesis using pool(1) by (simp add: dead_def)
  next
    case False
    then show ?thesis using pool(2) [of r] by blast
  qed
  then show "r \<notin> set (leaves {} s @ c # cs)" and "r \<notin> set (free_req s)" by blast+
qed

text \<open>No request with children has the parent or the new child in its list.\<close>

lemma children_apart:
  assumes inv: "qp_invd s (c # cs) (dead s r)" and sp: "splitting s r cs" and pc: "plain_cb (req_cb (req_at s c))"
    and p: "p \<in> parents s" and j: "j \<in> set (req_children (req_at s p))"
  shows "j \<noteq> c" and "j \<noteq> r"
  using pool_okD(4) [OF qp_invd_pool [OF inv] p] j pc sp by (auto simp: parent_ok_def plain_cb_def splitting_def)

lemma add_child_leaf:
  assumes inv: "qp_invd s (c # cs) (dead s r)" and sp: "splitting s r cs" and rc: "r \<noteq> c" and few: "length cs < 255"
    and s': "s' = nvme_request_add_child r c s" and j: "j \<in> set (leaves {} s @ c # cs)"
  shows "leaf_ok s' j"
proof -
  note pool = pool_okD [OF qp_invd_pool [OF inv]]
  note ac = add_child_reqs [OF inv sp rc few s']
  have cp: "c \<notin> parents s" using pool(2) [of c] by (simp add: parents_def)
  have old: "leaf_ok s j" by (rule pool(3) [OF j])
  show ?thesis
  proof (cases "j = c")
    case True
    have "payload_ok (req_at s' c) = payload_ok (req_at s c)" by (simp add: ac(1) as_child_def payload_ok_def)
    then show ?thesis using True old ac(3,5) by (simp add: leaf_ok_def linked_def ac(1) as_child_def is_aer_def)
  next
    case False
    have e: "req_at s' j = req_at s j" using False j ac(6) by (auto simp: ac(1))
    have sub: "set (req_children (req_at s p)) \<subseteq> set (req_children (req_at s' p))" if "p \<in> parents s" for p
    proof (cases "p = r")
      case True
      then have "req_children (req_at s r) = cs" using that sp by (simp add: splitting_def parents_def)
      then show ?thesis using True ac(3) by auto
    next
      case False
      then show ?thesis using that cp by (auto simp: ac(1))
    qed
    have "linked s' j" unfolding linked_def e
    proof (intro allI impI)
      fix d assume "req_cb (req_at s j) = CbCompleteChild d"
      then obtain p where "d = j" "p \<in> parents s" "req_parent (req_at s j) = Some p" "j \<in> set (req_children (req_at s p))"
        using old by (auto simp: leaf_ok_def linked_def)
      then show "d = j \<and> (\<exists>p\<in>parents s'. req_parent (req_at s j) = Some p \<and> j \<in> set (req_children (req_at s' p)))"
        using sub [of p] ac(5) by blast
    qed
    then show ?thesis using old by (simp add: leaf_ok_def e nvme_qpair_is_io_queue_def) (simp add: s')
  qed
qed

lemma add_child_parent:
  assumes inv: "qp_invd s (c # cs) (dead s r)" and sp: "splitting s r cs" and rc: "r \<noteq> c" and few: "length cs < 255"
    and pc: "plain_cb (req_cb (req_at s c))" and s': "s' = nvme_request_add_child r c s" and p: "p \<in> parents s'"
  shows "parent_ok s' (set (leaves {} s @ c # cs)) p"
proof -
  let ?V = "leaves {} s @ c # cs"
  note pool = pool_okD [OF qp_invd_pool [OF inv]]
  note ac = add_child_reqs [OF inv sp rc few s']
  note apart = children_apart [OF inv sp pc]
  show ?thesis
  proof (cases "p = r")
    case True
    have old: "req_parent (req_at s j) = Some r \<and> req_cb (req_at s j) = CbCompleteChild j" if "j \<in> set cs" for j
    proof -
      have "r \<in> parents s" "req_children (req_at s r) = cs" using that sp by (auto simp: splitting_def parents_def split: if_splits)
      then show ?thesis using pool(4) [of r] that by (auto simp: parent_ok_def)
    qed
    have "distinct (cs @ [c])" using pool(1) by auto
    moreover have "j \<in> set ?V \<and> req_parent (req_at s' j) = Some r \<and> req_cb (req_at s' j) = CbCompleteChild j" if "j \<in> set (cs @ [c])" for j
      using that old ac(6) by (cases "j = c") (auto simp: ac(1) as_child_def)
    ultimately show ?thesis using True ac(2,3,4) sp by (simp add: parent_ok_def splitting_def del: set_append)
  next
    case False
    then have q: "p \<in> parents s" using p ac(5) by auto
    moreover have "c \<notin> parents s" using pool(2) [of c] by (simp add: parents_def)
    ultimately have e: "req_at s' p = req_at s p" using False by (auto simp: ac(1))
    have o: "parent_ok s (set ?V) p" by (rule pool(4) [OF q])
    have "req_at s' j = req_at s j" if "j \<in> set (req_children (req_at s p))" for j
      using apart [OF q that] by (simp add: ac(1))
    then show ?thesis using o by (auto simp: parent_ok_def e)
  qed
qed

lemma add_child_pend:
  assumes inv: "qp_invd s (c # cs) (dead s r)" and sp: "splitting s r cs" and rc: "r \<noteq> c" and few: "length cs < 255"
    and s': "s' = nvme_request_add_child r c s"
  shows "pending s' (cs @ [c]) + ucb (req_cb (req_at s c)) = pending s (c # cs) + open_cb s r"
proof -
  let ?V = "leaves {} s @ c # cs"
  note pool = pool_okD [OF qp_invd_pool [OF inv]]
  note ac = add_child_reqs [OF inv sp rc few s']
  define M where "M = mset ?V + mset_set (parents s) - {#c#}"
  have "distinct ?V" using pool(1) by auto
  then have "count (mset ?V) c = 1" by (metis distinct_count_atmost_1 in_set_conv_decomp)
  moreover have "c \<notin> parents s" using pool(2) [of c] by (simp add: parents_def)
  ultimately have M: "mset ?V + mset_set (parents s) = add_mset c M" "c \<notin># M" by (auto simp: M_def not_in_iff)
  have same: "image_mset (\<lambda>j. ucb (req_cb (req_at s' j))) M = image_mset (\<lambda>j. ucb (req_cb (req_at s j))) M"
    using M(2) ac(4) by (intro image_mset_cong) (auto simp: ac(1))
  have rl: "r < length (reqs s)" using sp by (simp add: splitting_def)
  have "mset (leaves {} s @ cs @ [c]) + mset_set (parents s') = mset ?V + mset_set (parents s) + mset (dead s r)"
  proof -
    have "r \<in> parents s \<longleftrightarrow> req_child_reqs (req_at s r) \<noteq> 0" using rl by (simp add: parents_def)
    then show ?thesis by (cases "req_child_reqs (req_at s r) = 0") (simp_all add: ac(5) dead_def insert_absorb)
  qed
  then have V: "mset (leaves {} s @ cs @ [c]) + mset_set (parents s') = add_mset c M + mset (dead s r)" by (simp only: M(1))
  have "(\<Sum>j\<in>#mset (dead s r). ucb (req_cb (req_at s' j))) = open_cb s r" using ac(4) by (simp add: dead_def open_cb_def)
  then have "pend s' (mset (leaves {} s @ cs @ [c])) + ucb (req_cb (req_at s c)) = pend s (mset ?V) + open_cb s r"
    unfolding pend_def V M(1) using same by (simp add: ac(1) as_child_def)
  then show ?thesis by (simp add: pending_def s')
qed

lemma add_child_keeps:
  assumes inv: "qp_invd s (c # cs) (dead s r)" and sp: "splitting s r cs" and rc: "r \<noteq> c" and few: "length cs < 255"
    and pc: "plain_cb (req_cb (req_at s c))" and s': "s' = nvme_request_add_child r c s"
  shows "qp_inv s' (cs @ [c])" and "splitting s' r (cs @ [c])" and "req_child_reqs (req_at s' r) \<noteq> 0"
proof -
  let ?V = "leaves {} s @ c # cs"
  note pool = pool_okD [OF qp_invd_pool [OF inv]]
  note ac = add_child_reqs [OF inv sp rc few s']
  show nz: "req_child_reqs (req_at s' r) \<noteq> 0" using ac(2) by auto
  show "splitting s' r (cs @ [c])" using sp nz ac(3,4) by (simp add: splitting_def s')
  have "pool_ok {#} (called s' + pending s' (cs @ [c])) s' (free_req s') ?V []"
    unfolding pool_ok_def
  proof (intro conjI ballI)
    show "distinct (free_req s' @ ?V @ [])" using pool(1) by (auto simp: s')
    show "j < length (reqs s')" and "req_child_reqs (req_at s' j) = 0" if "j \<in> set (free_req s' @ ?V @ [])" for j
    proof -
      have j: "j \<in> set (free_req s) \<union> set ?V" using that by (auto simp: s')
      then show "j < length (reqs s')" using pool(2) [of j] by (auto simp: s')
      have "j \<noteq> r" using j ac(6,7) by auto
      then show "req_child_reqs (req_at s' j) = 0" using pool(2) [of j] pool(2) [of c] j by (auto simp: ac(1) as_child_def)
    qed
    show "leaf_ok s' j" if "j \<in> set ?V" for j by (rule add_child_leaf [OF inv sp rc few s' that])
    show "parent_ok s' (set ?V) p" if "p \<in> parents s'" for p by (rule add_child_parent [OF inv sp rc few pc s' that])
    show "acct {#} (called s' + pending s' (cs @ [c])) s' ?V" by (simp add: acct_def called_def pending_def s')
  qed
  then have "pool_ok {#} (called s' + pending s' (cs @ [c])) s' (free_req s') (leaves {} s' @ cs @ [c]) []"
    by (rule pool_ok_perm [rotated 3]) (simp_all add: s')
  then show "qp_inv s' (cs @ [c])" unfolding qp_inv_def
    by (rule qinv_repool [OF inv [unfolded qp_invd_def]])
      (use qinvD(1) [OF inv [unfolded qp_invd_def]] in \<open>simp_all add: s' ring_ok_def\<close>)
qed

subsection \<open>Allocating a request\<close>

lemma qp_inv_upd_core:
  assumes "\<And>q. core (f q) = core q"
  shows "qp_invd s H D \<Longrightarrow> qp_invd (upd_req c f s) H D" and "pending (upd_req c f s) H = pending s H"
proof -
  note sc = same_cores_upd_req [of f, OF assms, of s c]
  note d = same_coresD [OF sc]
  have "leaves {} (upd_req c f s) = leaves {} s" by (simp add: leaves_def tr_leaves_def)
  moreover have "parents (upd_req c f s) = parents s" by (simp add: parents_def d)
  ultimately show p: "pending (upd_req c f s) H = pending s H" by (simp add: pending_def pend_def d)
  show "qp_invd (upd_req c f s) H D" if "qp_invd s H D"
    using that unfolding qp_invd_def p called_def
    by (simp, elim qinv_cong [OF _ sc]) (use qinvD(1) [OF that [unfolded qp_invd_def]] in \<open>simp_all add: ring_ok_def\<close>)
qed

lemma qp_inv_alloc:
  assumes "qp_invd s H D" and "free_req s = c # rest" and "plain_cb cb" and "payload_ok (fresh_req pl sz cb (req_at s c))"
    and "s' = upd_req c (fresh_req pl sz cb) (s\<lparr>free_req := rest\<rparr>)"
  shows "qp_invd s' (c # H) D" and "pending s' (c # H) = pending s H + ucb cb"
proof -
  have "qinv (called s + pending s H + ucb cb) (called s + pending s H + ucb cb) Map.empty s' (c # H) D {}"
    by (rule qinv_alloc [OF qp_invd_exact [OF assms(1) refl] assms(2) _ assms(4) _ assms(5)])
      (use assms(3) in \<open>auto simp: plain_cb_def is_aer_def\<close>)
  note q = this
  show "qp_invd s' (c # H) D" by (rule qp_invdI [OF q])
  have "called s' = called s" by (simp add: called_def assms(5))
  then show "pending s' (c # H) = pending s H + ucb cb" using qinv_exact [OF q] by (simp add: add.assoc)
qed

lemma allocate_eq:
  assumes "free_req s = c # rest"
  shows "nvme_request_allocate s pl sz cb = (Some c, upd_req c (fresh_req pl sz cb) (s\<lparr>free_req := rest\<rparr>))"
  using assms by (simp add: nvme_request_allocate_def nvme_alloc_request_def fresh_req_def upd_req_def)
    (cases "c < length (reqs s)", simp_all add: list_update_beyond)

text \<open>What a read or write needs of the namespace and its arguments.\<close>

definition rw_ok :: "nvme_ns \<Rightarrow> rw_args \<Rightarrow> bool" where
  "rw_ok ns a \<longleftrightarrow> plain_cb (rw_cb a) \<and> rw_io_flags a AND 0xFFFF = 0 \<and> 0 < sectors_per_max_io ns
     \<and> unat (sectors_per_max_io ns) * unat (rw_sector_size ns (rw_io_flags a)) \<le> NVME_MAX_XFER_SIZE
     \<and> (pl_type (rw_payload a) = NVME_PAYLOAD_TYPE_SGL \<longrightarrow>
          (\<exists>f. pl_sgl (rw_payload a) = Some f \<and> (\<forall>off j. snd (snd (f off j)) \<noteq> 0)))"

definition crosses_stripe :: "nvme_ns \<Rightarrow> u64 \<Rightarrow> u32 \<Rightarrow> bool" where
  "crosses_stripe ns lba n \<longleftrightarrow> sectors_per_stripe ns > 0
     \<and> (lba AND ucast (sectors_per_stripe ns - 1)) + ucast n > ucast (sectors_per_stripe ns)"

lemma rw_payload_ok:
  assumes "rw_ok ns a" and "k \<le> sectors_per_max_io ns"
  shows "payload_ok (fresh_req (rw_payload a) (k * rw_sector_size ns (rw_io_flags a)) cb q)"
proof -
  have "unat (k * rw_sector_size ns (rw_io_flags a)) \<le> unat k * unat (rw_sector_size ns (rw_io_flags a))"
    by (simp add: unat_word_ariths)
  also have "\<dots> \<le> unat (sectors_per_max_io ns) * unat (rw_sector_size ns (rw_io_flags a))"
    using assms(2) by (simp add: word_le_nat_alt)
  finally show ?thesis using assms(1) by (auto simp: rw_ok_def payload_ok_def)
qed

text \<open>A request that is not split.\<close>

definition rw_request :: "nvme_ns \<Rightarrow> rw_args \<Rightarrow> u64 \<Rightarrow> u32 \<Rightarrow> nvme_request \<Rightarrow> nvme_request" where
  "rw_request ns a lba n q =
     (fresh_req (rw_payload a) (n * rw_sector_size ns (rw_io_flags a)) (rw_cb a) q)\<lparr>req_cmd := rw_command ns a lba n cmd_zero\<rparr>"

lemma ns_rw_eq:
  assumes "rw_io_flags a AND 0xFFFF = 0" and "free_req s = c # rest"
    and "s1 = upd_req c (fresh_req (rw_payload a) (k * rw_sector_size ns (rw_io_flags a)) (rw_cb a)) (s\<lparr>free_req := rest\<rparr>)"
  shows "nvme_ns_rw (Suc n) ns a s lba k =
    (if crosses_stripe ns lba k
     then nvme_ns_split_request n ns a s1 c lba k 0 0 (sectors_per_stripe ns) (sectors_per_stripe ns - 1)
     else if k > sectors_per_max_io ns then nvme_ns_split_request n ns a s1 c lba k 0 0 (sectors_per_max_io ns) 0
     else Inr (Some c, upd_req c (rw_request ns a lba k) (s\<lparr>free_req := rest\<rparr>)))"
proof -
  have "upd_req c (\<lambda>q. q\<lparr>req_cmd := rw_command ns a lba k (req_cmd q)\<rparr>) s1 = upd_req c (rw_request ns a lba k) (s\<lparr>free_req := rest\<rparr>)"
    unfolding assms(3) upd_req_upd_req by (rule upd_req_cong) (simp add: rw_request_def)
  then show ?thesis by (simp add: assms(1) allocate_eq [OF assms(2)] assms(3) [symmetric] crosses_stripe_def Let_def)
qed

lemma ns_rw_leaf:
  assumes "rw_ok ns a" and "free_req s = c # rest" and "\<not> crosses_stripe ns lba k" and "k \<le> sectors_per_max_io ns"
  shows "nvme_ns_rw (Suc n) ns a s lba k = Inr (Some c, upd_req c (rw_request ns a lba k) (s\<lparr>free_req := rest\<rparr>))"
proof -
  have "rw_io_flags a AND 0xFFFF = 0" using assms(1) by (simp add: rw_ok_def)
  from ns_rw_eq [OF this assms(2) refl] assms(3) leD [OF assms(4)] show ?thesis by (simp del: nvme_ns_rw.simps)
qed

lemma ns_rw_leaf_inv:
  assumes "qp_invd s H D" and "rw_ok ns a" and "free_req s = c # rest" and "k \<le> sectors_per_max_io ns"
    and "s' = upd_req c (rw_request ns a lba k) (s\<lparr>free_req := rest\<rparr>)"
  shows "qp_invd s' (c # H) D" and "pending s' (c # H) = pending s H + ucb (rw_cb a)"
proof -
  let ?f = "fresh_req (rw_payload a) (k * rw_sector_size ns (rw_io_flags a)) (rw_cb a)"
  let ?s = "upd_req c ?f (s\<lparr>free_req := rest\<rparr>)"
  have pc: "plain_cb (rw_cb a)" using assms(2) by (simp add: rw_ok_def)
  note i = qp_inv_alloc [OF assms(1,3) pc rw_payload_ok [OF assms(2,4)] refl]
  have e: "s' = upd_req c (\<lambda>q. q\<lparr>req_cmd := rw_command ns a lba k cmd_zero\<rparr>) ?s"
    unfolding assms(5) upd_req_upd_req by (rule upd_req_cong) (simp add: rw_request_def)
  have "core (q\<lparr>req_cmd := cmd\<rparr>) = core q" for q cmd by (simp add: core_def)
  note u = qp_inv_upd_core [of "\<lambda>q. q\<lparr>req_cmd := rw_command ns a lba k cmd_zero\<rparr>", OF this]
  show "qp_invd s' (c # H) D" and "pending s' (c # H) = pending s H + ucb (rw_cb a)"
    unfolding e using u i by simp_all
qed

subsection \<open>Reference: how a transfer is cut\<close>

text \<open>
  The specification of splitting: from block \<open>l\<close> on, \<open>n\<close> blocks in pieces as large as the room at their start
  allows, and the position of each piece in the buffer.
\<close>

function chunks :: "(nat \<Rightarrow> nat) \<Rightarrow> nat \<Rightarrow> nat \<Rightarrow> (nat \<times> nat) list" where
  "chunks room l n = (if n = 0 \<or> room l = 0 then []
     else (l, min n (room l)) # chunks room (l + min n (room l)) (n - min n (room l)))"
  by pat_completeness auto
termination by (relation "measure (\<lambda>(_, _, n). n)") auto

declare chunks.simps [simp del]

fun offsets :: "nat \<Rightarrow> nat \<Rightarrow> (nat \<times> nat) list \<Rightarrow> (nat \<times> nat \<times> nat) list" where
  "offsets ss off [] = []"
| "offsets ss off ((l, k) # cs) = (l, k, off) # offsets ss (off + k * ss) cs"

lemma chunks_cover:
  assumes pos: "\<And>x. 0 < room x"
  shows "concat (map (\<lambda>(l, k). [l..<l + k]) (chunks room l n)) = [l..<l + n]"
proof (induction n arbitrary: l rule: less_induct)
  case (less n)
  show ?case
  proof (cases "n = 0")
    case True
    then show ?thesis by (simp add: chunks.simps)
  next
    case False
    let ?k = "min n (room l)"
    have "?k > 0" "n - ?k < n" using False pos [of l] by auto
    moreover have "[l..<l + n] = [l..<l + ?k] @ [l + ?k..<l + ?k + (n - ?k)]"
      using upt_add_eq_append [of l "l + ?k" "n - ?k"] by simp
    ultimately show ?thesis using less [of "n - ?k" "l + ?k"] False pos [of l] by (subst chunks.simps) simp
  qed
qed

lemma chunks_bound:
  assumes "(x, k) \<in> set (chunks room l n)"
  shows "0 < k" and "k \<le> room x" and "l \<le> x" and "x + k \<le> l + n"
proof -
  have "0 < k \<and> k \<le> room x \<and> l \<le> x \<and> x + k \<le> l + n"
    using assms
  proof (induction room l n rule: chunks.induct)
    case (1 room l n)
    have nz: "\<not> (n = 0 \<or> room l = 0)" using 1(2) by (subst (asm) chunks.simps) (auto split: if_splits)
    from 1(2) nz have "(x, k) = (l, min n (room l)) \<or> (x, k) \<in> set (chunks room (l + min n (room l)) (n - min n (room l)))"
      by (subst (asm) chunks.simps) auto
    then show ?case using 1(1) [OF nz] nz by auto
  qed
  then show "0 < k" and "k \<le> room x" and "l \<le> x" and "x + k \<le> l + n" by auto
qed

subsection \<open>The loop over the children\<close>

definition child_desc :: "nvme_ns \<Rightarrow> rw_args \<Rightarrow> nvme_request \<Rightarrow> nat \<times> nat \<times> nat \<Rightarrow> bool" where
  "child_desc ns a q = (\<lambda>(l, k, off). req_cmd q = rw_command ns a (of_nat l) (of_nat k) cmd_zero \<and> req_payload q = rw_payload a
     \<and> req_payload_size q = of_nat k * rw_sector_size ns (rw_io_flags a) \<and> req_payload_offset q = of_nat off)"

text \<open>The block counts \<open>room\<close> leaves at each address are those the code computes, and fit in one command.\<close>

definition room_ok :: "nvme_ns \<Rightarrow> u32 \<Rightarrow> u32 \<Rightarrow> (nat \<Rightarrow> nat) \<Rightarrow> bool" where
  "room_ok ns max_io sector_mask room \<longleftrightarrow> (\<forall>x. 0 < room x \<and> room x \<le> unat (sectors_per_max_io ns)
     \<and> (x < 2 ^ 64 \<longrightarrow> (ucast (ucast max_io - (word_of_nat x AND ucast sector_mask :: u64)) :: u32) = of_nat (room x))
     \<and> (x < 2 ^ 64 \<longrightarrow> 0 < sectors_per_stripe ns \<longrightarrow>
          unat (word_of_nat x AND ucast (sectors_per_stripe ns - 1) :: u64) + room x \<le> unat (sectors_per_stripe ns)))"

definition linked_child :: "rw_args \<Rightarrow> u32 \<Rightarrow> u32 \<Rightarrow> nvme_request \<Rightarrow> nvme_request" where
  "linked_child a off md q = (let q = q\<lparr>req_payload_offset := off\<rparr>
     in if pl_md (rw_payload a) \<noteq> None then q\<lparr>req_md_offset := md\<rparr> else q)"

lemma split_step:
  assumes "rem \<noteq> 0" and "lba_count = (if rem < room then rem else room)"
    and "room = (ucast (ucast max_io - (lba AND ucast sector_mask)) :: u32)"
    and "nvme_ns_rw n ns a s lba lba_count = Inr (Some c, s1)"
  shows "nvme_ns_split_request (Suc n) ns a s r lba rem off md max_io sector_mask =
    nvme_ns_split_request n ns a (nvme_request_add_child r c (upd_req c (linked_child a off md) s1)) r (lba + ucast lba_count)
      (rem - lba_count) (off + lba_count * rw_sector_size ns (rw_io_flags a)) (md + lba_count * md_size ns) max_io sector_mask"
proof -
  have "(if pl_md (rw_payload a) \<noteq> None then upd_req c (\<lambda>q. q\<lparr>req_md_offset := md\<rparr>) (upd_req c (\<lambda>q. q\<lparr>req_payload_offset := off\<rparr>) s1)
      else upd_req c (\<lambda>q. q\<lparr>req_payload_offset := off\<rparr>) s1) = upd_req c (linked_child a off md) s1"
    by (auto simp: upd_req_upd_req linked_child_def Let_def intro: upd_req_cong)
  then show ?thesis using assms(1,4) unfolding nvme_ns_split_request.simps Let_def assms(3) [symmetric] assms(2) [symmetric] by simp
qed

lemma u32_lt: "unat (w :: u32) < 4294967296"
  using unsigned_less [of w, where 'a = nat] by simp

lemma unat_ucast_u64: "unat (ucast (w :: u32) :: u64) = unat w"
  using u32_lt [of w] by (simp add: unsigned_ucast_eq take_bit_nat_eq_self)

lemma unat_add_le: "unat (x + y :: 'a::len word) \<le> unat x + unat y"
  by (simp add: unat_word_ariths)

lemma of_nat_min_room:
  assumes "n < 2 ^ 32" "m < 2 ^ 32"
  shows "(if (of_nat n :: u32) < of_nat m then of_nat n else of_nat m) = (of_nat (min n m) :: u32)"
  using assms by (simp add: word_less_nat_alt unat_of_nat min_def)

lemma no_cross:
  assumes "room_ok ns max_io sector_mask room" and "x < 2 ^ 64" and "k \<le> room x"
  shows "\<not> crosses_stripe ns (of_nat x) (of_nat k)" and "(of_nat k :: u32) \<le> sectors_per_max_io ns"
proof -
  have r: "room x \<le> unat (sectors_per_max_io ns)" using assms(1) by (simp add: room_ok_def)
  have k: "k < 2 ^ 32" using r assms(3) u32_lt [of "sectors_per_max_io ns"] by simp
  show "(of_nat k :: u32) \<le> sectors_per_max_io ns" using r assms(3) k by (simp add: word_le_nat_alt unat_of_nat)
  show "\<not> crosses_stripe ns (of_nat x) (of_nat k)"
  proof (cases "sectors_per_stripe ns = 0")
    case True
    then show ?thesis by (simp add: crosses_stripe_def)
  next
    case False
    let ?w = "word_of_nat x AND ucast (sectors_per_stripe ns - 1) :: u64"
    have "unat ?w + k \<le> unat (sectors_per_stripe ns)"
      using assms(1) [unfolded room_ok_def, rule_format, of x] assms(2,3) False by (simp add: word_neq_0_conv)
    moreover have "unat (ucast (of_nat k :: u32) :: u64) = k" using k by (simp add: unat_ucast_u64 unat_of_nat take_bit_nat_eq_self)
    moreover have "unat (ucast (sectors_per_stripe ns) :: u64) = unat (sectors_per_stripe ns)" by (rule unat_ucast_u64)
    ultimately have "unat (?w + ucast (of_nat k :: u32)) \<le> unat (ucast (sectors_per_stripe ns) :: u64)"
      using unat_add_le [of ?w "ucast (of_nat k :: u32)"] by linarith
    then show ?thesis by (simp add: crosses_stripe_def word_less_nat_alt)
  qed
qed

lemma linked_child_simps [simp]:
  "core (linked_child a off md q) = core q" "req_cmd (linked_child a off md q) = req_cmd q"
  "req_payload (linked_child a off md q) = req_payload q" "req_payload_size (linked_child a off md q) = req_payload_size q"
  "req_payload_offset (linked_child a off md q) = off" "req_cb (linked_child a off md q) = req_cb q"
  "req_child_reqs (linked_child a off md q) = req_child_reqs q"
  by (simp_all add: linked_child_def core_def Let_def)

lemma as_child_simps [simp]:
  "req_cmd (as_child p c q) = req_cmd q" "req_payload (as_child p c q) = req_payload q"
  "req_payload_size (as_child p c q) = req_payload_size q" "req_payload_offset (as_child p c q) = req_payload_offset q"
  by (simp_all add: as_child_def)

lemma rw_request_simps [simp]:
  "req_cmd (rw_request ns a lba n q) = rw_command ns a lba n cmd_zero" "req_payload (rw_request ns a lba n q) = rw_payload a"
  "req_payload_size (rw_request ns a lba n q) = n * rw_sector_size ns (rw_io_flags a)" "req_cb (rw_request ns a lba n q) = rw_cb a"
  "req_child_reqs (rw_request ns a lba n q) = 0" "req_payload_offset (rw_request ns a lba n q) = 0"
  by (simp_all add: rw_request_def)

text \<open>One child: allocated, described and linked.\<close>

definition new_child :: "nvme_ns \<Rightarrow> rw_args \<Rightarrow> nat \<Rightarrow> u64 \<Rightarrow> u32 \<Rightarrow> u32 \<Rightarrow> u32 \<Rightarrow> qctx \<Rightarrow> qctx" where
  "new_child ns a r lba k off md s =
     (let c = hd (free_req s)
      in nvme_request_add_child r c (upd_req c (linked_child a off md)
           (upd_req c (rw_request ns a lba k) (s\<lparr>free_req := tl (free_req s)\<rparr>))))"

lemma new_child_facts:
  assumes inv: "qp_invd s cs (dead s r)" and sp: "splitting s r cs" and rw: "rw_ok ns a" and fr: "free_req s = c # rest"
    and k: "k \<le> sectors_per_max_io ns" and few: "length cs < 255" and s': "s' = new_child ns a r lba k off md s"
  shows "qp_inv s' (cs @ [c])" and "splitting s' r (cs @ [c])" and "req_child_reqs (req_at s' r) \<noteq> 0"
    and "pending s' (cs @ [c]) = pending s cs + open_cb s r" and "free_req s' = rest"
    and "req_at s' c = as_child r c (linked_child a off md (rw_request ns a lba k (req_at s c)))"
    and "\<And>j. j \<noteq> c \<Longrightarrow> j \<noteq> r \<Longrightarrow> req_at s' j = req_at s j" and "called s' = called s"
    and "req_cb (req_at s' r) = req_cb (req_at s r)" and "c \<noteq> r" and "r \<notin> set rest" and "c \<notin> set rest"
    and "\<And>f. \<lbrakk>f \<in> {ct_failed, qp_enabled, ct_resetting, nvme_qpair_is_io_queue}\<rbrakk> \<Longrightarrow> f s' = f s"
    and "outstanding_tr s' = outstanding_tr s" and "queued_req s' = queued_req s" and "length (reqs s') = length (reqs s)"
proof -
  define s1 where "s1 = upd_req c (rw_request ns a lba k) (s\<lparr>free_req := rest\<rparr>)"
  define s2 where "s2 = upd_req c (linked_child a off md) s1"
  have e: "s' = nvme_request_add_child r c s2" by (simp add: s' new_child_def fr s1_def s2_def)
  note pool = pool_okD [OF qp_invd_pool [OF inv]]
  have cl: "c < length (reqs s)" "req_child_reqs (req_at s c) = 0" using pool(2) [of c] fr by auto
  have rl: "r < length (reqs s)" using sp by (simp add: splitting_def)
  show cr: "c \<noteq> r"
  proof
    assume "c = r"
    then show False using pool(1) fr cl(2) by (simp add: dead_def)
  qed
  have rr: "r \<notin> set (free_req s)"
  proof
    assume "r \<in> set (free_req s)"
    moreover have "req_child_reqs (req_at s r) = 0" using pool(2) [of r] calculation by auto
    ultimately show False using pool(1) by (simp add: dead_def)
  qed
  then show "r \<notin> set rest" using fr by simp
  show "c \<notin> set rest" using pool(1) fr by simp
  note i1 = ns_rw_leaf_inv [OF inv rw fr k s1_def]
  have u: "core (linked_child a off md q) = core q" for q by simp
  have i2: "qp_invd s2 (c # cs) (dead s r)" "pending s2 (c # cs) = pending s cs + ucb (rw_cb a)"
    using qp_inv_upd_core [of "linked_child a off md", OF u, where s = s1 and c = c] i1 by (simp_all add: s2_def)
  have r2: "req_at s2 r = req_at s r" using cr by (simp add: s2_def s1_def)
  have c2: "req_at s2 c = linked_child a off md (rw_request ns a lba k (req_at s c))"
    using cl(1) by (simp add: s2_def s1_def req_at_upd_req)
  have h2: "dead s2 r = dead s r" "open_cb s2 r = open_cb s r" by (simp_all add: dead_def open_cb_def r2)
  have len: "length (reqs s2) = length (reqs s)" by (simp add: s2_def s1_def)
  have sp2: "splitting s2 r cs" using sp by (simp add: splitting_def r2 len)
  have pc: "plain_cb (req_cb (req_at s2 c))" using rw by (simp add: c2 rw_ok_def)
  note i3 = i2(1) [folded h2(1)]
  note a = add_child_keeps [OF i3 sp2 cr [symmetric] few pc e]
  show "qp_inv s' (cs @ [c])" "splitting s' r (cs @ [c])" "req_child_reqs (req_at s' r) \<noteq> 0" by (rule a(1), rule a(2), rule a(3))
  show "pending s' (cs @ [c]) = pending s cs + open_cb s r"
    using add_child_pend [OF i3 sp2 cr [symmetric] few e] i2(2) by (simp add: h2(2) c2)
  note at = req_at_add_child [of r s2 c, folded e, unfolded len, OF rl cl(1) cr [symmetric]]
  show "req_at s' c = as_child r c (linked_child a off md (rw_request ns a lba k (req_at s c)))" by (simp add: at c2)
  show "req_at s' j = req_at s j" if "j \<noteq> c" "j \<noteq> r" for j using that by (simp add: at) (simp add: s2_def s1_def)
  show "req_cb (req_at s' r) = req_cb (req_at s r)" using cr by (simp add: at r2 with_child_def Let_def)
  show "f s' = f s" if "f \<in> {ct_failed, qp_enabled, ct_resetting, nvme_qpair_is_io_queue}" for f
    using that by (auto simp: e s2_def s1_def nvme_qpair_is_io_queue_def)
  show "free_req s' = rest" "called s' = called s" "outstanding_tr s' = outstanding_tr s" "queued_req s' = queued_req s"
    "length (reqs s') = length (reqs s)" by (simp_all add: e s2_def s1_def called_def)
qed

lemma child_desc_new:
  "child_desc ns a (as_child r c (linked_child a (of_nat off) md (rw_request ns a (of_nat l) (of_nat k) q))) (l, k, off)"
  by (simp add: child_desc_def)

text \<open>One round of the loop: the next piece becomes a child of the request.\<close>

lemma split_one:
  assumes rw: "rw_ok ns a" and room: "room_ok ns max_io sector_mask room" and n: "0 < n" "l + n \<le> 2 ^ 64" "n < 2 ^ 32"
    and fr: "free_req s = c # rest" and k: "k = min n (room l)"
  shows "nvme_ns_split_request (Suc (Suc f)) ns a s r (of_nat l) (of_nat n) (of_nat off) md max_io sector_mask
    = nvme_ns_split_request (Suc f) ns a (new_child ns a r (of_nat l) (of_nat k) (of_nat off) md s) r (of_nat (l + k)) (of_nat (n - k))
        (of_nat (off + k * unat (rw_sector_size ns (rw_io_flags a)))) (md + of_nat k * md_size ns) max_io sector_mask"
proof -
  note ro = room [unfolded room_ok_def, rule_format, of l]
  have l: "l < 2 ^ 64" using n by simp
  have rm: "room l < 2 ^ 32" "k \<le> room l" using ro u32_lt [of "sectors_per_max_io ns"] k by auto
  have rwc: "nvme_ns_rw (Suc f) ns a s (of_nat l) (of_nat k)
      = Inr (Some c, upd_req c (rw_request ns a (of_nat l) (of_nat k)) (s\<lparr>free_req := rest\<rparr>))"
    by (rule ns_rw_leaf [OF rw fr no_cross [OF room l rm(2)]])
  have rl: "(ucast (ucast max_io - (of_nat l AND ucast sector_mask :: u64)) :: u32) = of_nat (room l)" using ro l by simp
  have cnt: "(of_nat k :: u32) = (if (of_nat n :: u32) < of_nat (room l) then of_nat n else of_nat (room l))"
    unfolding k by (rule of_nat_min_room [OF n(3) rm(1), symmetric])
  have "unat (of_nat n :: u32) = n" using n(3) by (simp add: unat_of_nat take_bit_nat_eq_self)
  then have n0: "(of_nat n :: u32) \<noteq> 0" using n(1) by (metis unsigned_0 less_not_refl)
  have k32: "k < 2 ^ 32" "k \<le> n" using rm k by simp_all
  have "unat (ucast (of_nat k :: u32) :: u64) = unat (of_nat k :: u64)"
    using k32(1) by (simp add: unat_ucast_u64 unat_of_nat take_bit_nat_eq_self)
  then have "ucast (of_nat k :: u32) = (of_nat k :: u64)" by (simp only: word_unat_eq_iff)
  then have w: "of_nat l + ucast (of_nat k :: u32) = (of_nat (l + k) :: u64)" "of_nat n - of_nat k = (of_nat (n - k) :: u32)"
    "of_nat off + of_nat k * rw_sector_size ns (rw_io_flags a) = (of_nat (off + k * unat (rw_sector_size ns (rw_io_flags a))) :: u32)"
    using k32(2) by (simp_all add: of_nat_diff)
  have st: "nvme_request_add_child r c (upd_req c (linked_child a (of_nat off) md)
      (upd_req c (rw_request ns a (of_nat l) (of_nat k)) (s\<lparr>free_req := rest\<rparr>))) = new_child ns a r (of_nat l) (of_nat k) (of_nat off) md s"
    by (simp add: new_child_def fr)
  show ?thesis unfolding split_step [OF n0 cnt rl [symmetric] rwc] st w ..
qed

text \<open>What splitting does not touch.\<close>

definition same_ctl :: "qctx \<Rightarrow> qctx \<Rightarrow> bool" where
  "same_ctl s s' \<longleftrightarrow> ct_failed s' = ct_failed s \<and> qp_enabled s' = qp_enabled s \<and> ct_resetting s' = ct_resetting s
     \<and> nvme_qpair_is_io_queue s' = nvme_qpair_is_io_queue s \<and> outstanding_tr s' = outstanding_tr s
     \<and> queued_req s' = queued_req s \<and> length (reqs s') = length (reqs s) \<and> called s' = called s"

lemma same_ctl_trans: "same_ctl s s' \<Longrightarrow> same_ctl s' s'' \<Longrightarrow> same_ctl s s''"
  by (simp add: same_ctl_def)

lemma split_loop:
  assumes rw: "rw_ok ns a" and room: "room_ok ns max_io sector_mask room"
    and "qp_invd s cs (dead s r)" and "splitting s r cs" and "l + n \<le> 2 ^ 64" and "n < 2 ^ 32"
    and "length (chunks room l n) \<le> length (free_req s)" and "length cs + length (chunks room l n) \<le> 255"
    and "length (chunks room l n) + 2 \<le> fuel"
  shows "\<exists>s' cs'. nvme_ns_split_request fuel ns a s r (of_nat l) (of_nat n) (of_nat off) md max_io sector_mask = Inr (Some r, s')
    \<and> qp_invd s' (cs @ cs') (dead s' r) \<and> splitting s' r (cs @ cs')
    \<and> pending s' (cs @ cs') + open_cb s' r = pending s cs + open_cb s r
    \<and> list_all2 (\<lambda>c. child_desc ns a (req_at s' c)) cs' (offsets (unat (rw_sector_size ns (rw_io_flags a))) off (chunks room l n))
    \<and> same_ctl s s' \<and> (\<forall>j. j \<notin> set (free_req s) \<longrightarrow> j \<noteq> r \<longrightarrow> req_at s' j = req_at s j)
    \<and> (cs' \<noteq> [] \<longrightarrow> req_child_reqs (req_at s' r) \<noteq> 0) \<and> req_cb (req_at s' r) = req_cb (req_at s r)"
  using assms(3-)
proof (induction n arbitrary: s cs l off md fuel rule: less_induct)
  case (less n)
  obtain f where f: "fuel = Suc f" using less.prems(7) by (cases fuel) auto
  show ?case
  proof (cases "n = 0")
    case True
    then show ?thesis using less.prems(1,2)
      by (intro exI [of _ s] exI [of _ "[]"]) (simp add: f chunks.simps same_ctl_def)
  next
    case False
    let ?k = "min n (room l)" and ?ss = "rw_sector_size ns (rw_io_flags a)"
    note ro = room [unfolded room_ok_def, rule_format, of l]
    have l: "l < 2 ^ 64" using less.prems(3) False by simp
    have rm: "room l < 2 ^ 32" "0 < room l" using ro u32_lt [of "sectors_per_max_io ns"] by auto
    have ch: "chunks room l n = (l, ?k) # chunks room (l + ?k) (n - ?k)" using False rm(2) by (subst chunks.simps) simp
    obtain c rest where fr: "free_req s = c # rest" using less.prems(5) ch by (cases "free_req s") auto
    have kb: "?k \<le> room l" by simp
    note nc = no_cross [OF room l kb]
    have few: "length cs < 255" using less.prems(6) ch by simp
    define s1 where "s1 = new_child ns a r (of_nat l) (of_nat ?k) (of_nat off) md s"
    note nf = new_child_facts [OF less.prems(1,2) rw fr nc(2) few s1_def]
    have ff: "f = Suc (f - 1)" "0 < n" using less.prems(7) f ch False by simp_all
    have eq: "nvme_ns_split_request fuel ns a s r (of_nat l) (of_nat n) (of_nat off) md max_io sector_mask
        = nvme_ns_split_request f ns a s1 r (of_nat (l + ?k)) (of_nat (n - ?k)) (of_nat (off + ?k * unat ?ss))
            (md + of_nat ?k * md_size ns) max_io sector_mask"
      using split_one [OF rw room ff(2) less.prems(3,4) fr refl, of "f - 1"] ff(1) unfolding f s1_def by simp
    have h1: "dead s1 r = []" "open_cb s1 r = {#}" using nf(3) by (simp_all add: dead_def open_cb_def)
    have i1: "qp_invd s1 (cs @ [c]) (dead s1 r)" using nf(1) by (simp add: h1(1) qp_invd_Nil)
    have ctl: "same_ctl s s1" using nf(8,14-16) nf(13) [of ct_failed] nf(13) [of qp_enabled] nf(13) [of ct_resetting]
        nf(13) [of nvme_qpair_is_io_queue] by (simp add: same_ctl_def)
    have "n - ?k < n" using False rm(2) by simp
    note IH = less.IH [OF this, of s1 "cs @ [c]" "l + ?k" f "off + ?k * unat ?ss" "md + of_nat ?k * md_size ns"]
    have p2: "n - ?k < 2 ^ 32" by (rule less_imp_diff_less [OF less.prems(4)])
    have p: "l + ?k + (n - ?k) \<le> 2 ^ 64" "length (chunks room (l + ?k) (n - ?k)) \<le> length (free_req s1)"
      "length (cs @ [c]) + length (chunks room (l + ?k) (n - ?k)) \<le> 255" "length (chunks room (l + ?k) (n - ?k)) + 2 \<le> f"
      using less.prems(3-7) ch fr nf(5) f by simp_all
    from IH [OF i1 nf(2) p(1) p2 p(2-4)]
    obtain s' cs' where r: "nvme_ns_split_request f ns a s1 r (of_nat (l + ?k)) (of_nat (n - ?k)) (of_nat (off + ?k * unat ?ss))
            (md + of_nat ?k * md_size ns) max_io sector_mask = Inr (Some r, s')"
      "qp_invd s' ((cs @ [c]) @ cs') (dead s' r)" "splitting s' r ((cs @ [c]) @ cs')"
      "pending s' ((cs @ [c]) @ cs') + open_cb s' r = pending s1 (cs @ [c]) + open_cb s1 r"
      "list_all2 (\<lambda>c. child_desc ns a (req_at s' c)) cs' (offsets (unat ?ss) (off + ?k * unat ?ss) (chunks room (l + ?k) (n - ?k)))"
      "same_ctl s1 s'" "\<forall>j. j \<notin> set (free_req s1) \<longrightarrow> j \<noteq> r \<longrightarrow> req_at s' j = req_at s1 j"
      "cs' \<noteq> [] \<longrightarrow> req_child_reqs (req_at s' r) \<noteq> 0" "req_cb (req_at s' r) = req_cb (req_at s1 r)"
      by blast
    have cs'c: "req_at s' c = req_at s1 c" using r(7) nf(5,10,12) by simp
    have d: "child_desc ns a (req_at s' c) (l, ?k, off)" unfolding cs'c nf(6) by (rule child_desc_new)
    have nz: "req_child_reqs (req_at s' r) \<noteq> 0"
    proof (cases "cs' = []")
      case True
      then show ?thesis using r(3) by (auto simp: splitting_def split: if_splits)
    next
      case False
      then show ?thesis using r(8) by simp
    qed
    have "\<forall>j. j \<notin> set (free_req s) \<longrightarrow> j \<noteq> r \<longrightarrow> req_at s' j = req_at s j"
      using r(7) nf(5,7) fr by simp
    moreover have "list_all2 (\<lambda>c. child_desc ns a (req_at s' c)) (c # cs') (offsets (unat ?ss) off (chunks room l n))"
      using d r(5) unfolding ch by simp
    moreover have "pending s' (cs @ c # cs') + open_cb s' r = pending s cs + open_cb s r" using r(4) nf(4) h1(2) by simp
    moreover have "req_cb (req_at s' r) = req_cb (req_at s r)" using r(9) nf(9) by simp
    moreover have "qp_invd s' (cs @ c # cs') (dead s' r)" "splitting s' r (cs @ c # cs')" using r(2,3) by simp_all
    moreover have "nvme_ns_split_request fuel ns a s r (of_nat l) (of_nat n) (of_nat off) md max_io sector_mask = Inr (Some r, s')"
      unfolding eq by (rule r(1))
    ultimately show ?thesis using nz same_ctl_trans [OF ctl r(6)] by (intro exI [of _ s'] exI [of _ "c # cs'"] conjI impI) assumption+
  qed
qed

subsection \<open>The room at an address\<close>

definition stripe_ok :: "nvme_ns \<Rightarrow> bool" where
  "stripe_ok ns \<longleftrightarrow> sectors_per_stripe ns = 0
     \<or> (\<exists>p. unat (sectors_per_stripe ns) = 2 ^ p) \<and> sectors_per_stripe ns \<le> sectors_per_max_io ns"

lemma room_max:
  assumes "sectors_per_stripe ns = 0" and "0 < sectors_per_max_io ns"
  shows "room_ok ns (sectors_per_max_io ns) 0 (\<lambda>_. unat (sectors_per_max_io ns))"
proof -
  have "unat (ucast (ucast (sectors_per_max_io ns) :: u64) :: u32) = unat (sectors_per_max_io ns)"
    using u32_lt [of "sectors_per_max_io ns"]
    by (subst unsigned_ucast_eq) (simp add: unat_ucast_u64 take_bit_nat_eq_self)
  then have "ucast (ucast (sectors_per_max_io ns) :: u64) = sectors_per_max_io ns" by (simp only: word_unat_eq_iff)
  moreover have "0 < unat (sectors_per_max_io ns)" using assms(2) by (simp add: word_less_nat_alt)
  ultimately show ?thesis using assms(1) by (simp add: room_ok_def)
qed

lemma unat_mask_u64: "p < 64 \<Longrightarrow> unat (mask p :: u64) = 2 ^ p - 1"
proof -
  assume "p < 64"
  then have "(2::nat) ^ p < 2 ^ 64" by (rule power_strict_increasing) simp
  then have "mask p < (2::nat) ^ 64" by (simp add: mask_eq_exp_minus_1)
  moreover have "(mask p :: u64) = of_nat (mask p)" by (rule of_nat_mask_eq [symmetric])
  ultimately show ?thesis by (simp only: unat_of_nat) (simp add: mask_eq_exp_minus_1)
qed

lemma stripe_mask:
  assumes "unat (w :: u32) = 2 ^ p"
  shows "unat (x AND ucast (w - 1) :: u64) = unat x mod 2 ^ p"
proof -
  have p: "p < 32"
  proof (rule ccontr)
    assume "\<not> p < 32"
    then have "(2::nat) ^ 32 \<le> 2 ^ p" by (intro power_increasing) auto
    then show False using u32_lt [of w] assms by simp
  qed
  have "unat (w - 1) = 2 ^ p - 1"
  proof -
    have "(1 :: u32) \<le> w" using assms by (simp add: word_le_nat_alt)
    then show ?thesis using assms by (simp add: unat_sub)
  qed
  then have "unat (ucast (w - 1) :: u64) = unat (mask p :: u64)"
    using p by (simp add: unat_ucast_u64 unat_mask_u64)
  then have "ucast (w - 1) = (mask p :: u64)" by (simp only: word_unat_eq_iff)
  then have e: "x AND ucast (w - 1) = take_bit p x" by (simp only: take_bit_eq_mask)
  show ?thesis unfolding e unsigned_take_bit_eq by (simp add: take_bit_eq_mod)
qed

lemma room_stripe:
  assumes "unat (sectors_per_stripe ns) = 2 ^ p" and "sectors_per_stripe ns \<le> sectors_per_max_io ns"
  shows "room_ok ns (sectors_per_stripe ns) (sectors_per_stripe ns - 1) (\<lambda>x. 2 ^ p - x mod 2 ^ p)"
  unfolding room_ok_def
proof (intro allI conjI impI)
  fix x :: nat
  let ?st = "sectors_per_stripe ns"
  have lt: "x mod 2 ^ p < 2 ^ p" by simp
  then show "0 < 2 ^ p - x mod 2 ^ p" by simp
  have "unat ?st \<le> unat (sectors_per_max_io ns)" using assms(2) by (simp add: word_le_nat_alt)
  then show "2 ^ p - x mod 2 ^ p \<le> unat (sectors_per_max_io ns)" using assms(1) by linarith
  assume x: "x < 2 ^ 64"
  then have w: "unat (word_of_nat x AND ucast (?st - 1) :: u64) = x mod 2 ^ p"
    using stripe_mask [OF assms(1), of "word_of_nat x"] by (simp add: unat_of_nat take_bit_nat_eq_self)
  have p32: "(2::nat) ^ p < 4294967296" using u32_lt [of ?st] assms(1) by simp
  have "(word_of_nat x AND ucast (?st - 1) :: u64) \<le> ucast ?st"
    unfolding word_le_nat_alt w unat_ucast_u64 assms(1) by (rule less_imp_le [OF lt])
  then have "unat (ucast ?st - (word_of_nat x AND ucast (?st - 1)) :: u64) = 2 ^ p - x mod 2 ^ p"
    by (simp add: unat_sub w unat_ucast_u64 assms(1))
  then have "unat (ucast (ucast ?st - (word_of_nat x AND ucast (?st - 1)) :: u64) :: u32) = unat (of_nat (2 ^ p - x mod 2 ^ p) :: u32)"
    by (simp add: unsigned_ucast_eq unat_of_nat take_bit_eq_mod del: of_nat_diff)
  then show "ucast (ucast ?st - (word_of_nat x AND ucast (?st - 1)) :: u64) = (of_nat (2 ^ p - x mod 2 ^ p) :: u32)"
    by (simp only: word_unat_eq_iff)
  show "unat (word_of_nat x AND ucast (?st - 1) :: u64) + (2 ^ p - x mod 2 ^ p) \<le> unat ?st"
    unfolding w assms(1) using lt by simp
qed

subsection \<open>Decoding the commands\<close>

definition cmd_lba :: "nvme_cmd \<Rightarrow> nat" where
  "cmd_lba cmd = unat (cdw11 cmd) * 2 ^ 32 + unat (cdw10 cmd)"

definition cmd_nlb :: "nvme_cmd \<Rightarrow> nat" where
  "cmd_nlb cmd = unat (cdw12 cmd AND 0xFFFF) + 1"

lemma rw_command_simps [simp]:
  "cdw10 (rw_command ns a lba k cmd) = ucast lba" "cdw11 (rw_command ns a lba k cmd) = ucast (drop_bit 32 lba)"
  "cdw12 (rw_command ns a lba k cmd) = (k - 1) OR rw_io_flags a" "opc (rw_command ns a lba k cmd) = rw_opc a"
  "nsid (rw_command ns a lba k cmd) = ucast (ns_id ns)"
  by (simp_all add: rw_command_def set_lba_def Let_def)

lemma cmd_lba_rw: "cmd_lba (rw_command ns a lba k cmd) = unat lba"
proof -
  have "unat (ucast (drop_bit 32 lba) :: u32) = unat lba div 2 ^ 32"
  proof -
    have "unat lba div 2 ^ 32 < 2 ^ 32" using unsigned_less [of lba, where 'a = nat] by (simp add: less_mult_imp_div_less)
    then show ?thesis by (simp only: unsigned_ucast_eq unsigned_drop_bit_eq) (simp add: drop_bit_eq_div take_bit_nat_eq_self)
  qed
  moreover have "unat (ucast lba :: u32) = unat lba mod 2 ^ 32"
    by (simp add: unsigned_ucast_eq take_bit_eq_mod)
  ultimately show ?thesis by (simp add: cmd_lba_def)
qed

lemma cmd_nlb_rw:
  assumes "rw_io_flags a AND 0xFFFF = 0" and "0 < k" and "k \<le> 65536"
  shows "cmd_nlb (rw_command ns a lba (of_nat k) cmd) = k"
proof -
  let ?w = "of_nat k - 1 :: u32"
  have w: "unat ?w = k - 1"
  proof -
    have "?w = of_nat (k - 1)" using assms(2) by (simp add: of_nat_diff)
    then show ?thesis using assms(3) by (simp add: unat_of_nat take_bit_nat_eq_self del: of_nat_diff)
  qed
  have "(?w OR rw_io_flags a) AND 0xFFFF = ?w AND 0xFFFF" using assms(1) by (simp add: bit.conj_disj_distrib2)
  also have "(0xFFFF :: u32) = mask 16" by (simp add: mask_eq_exp_minus_1)
  also have "?w AND mask 16 = take_bit 16 ?w" by (simp add: take_bit_eq_mask)
  finally have e: "(?w OR rw_io_flags a) AND mask 16 = take_bit 16 ?w" .
  have "unat ((?w OR rw_io_flags a) AND mask 16) = (k - 1) mod 2 ^ 16"
    unfolding e unsigned_take_bit_eq w by (simp add: take_bit_eq_mod)
  moreover have "(0xFFFF :: u32) = mask 16" by (simp add: mask_eq_exp_minus_1)
  ultimately have "unat ((?w OR rw_io_flags a) AND 0xFFFF) = (k - 1) mod 2 ^ 16" by simp
  then show ?thesis using assms(2,3) by (simp add: cmd_nlb_def)
qed

lemma offsets_pos:
  assumes "(x, k, off) \<in> set (offsets ss o0 (chunks room l n))"
  shows "off = o0 + (x - l) * ss" and "(x, k) \<in> set (chunks room l n)"
proof -
  have "off = o0 + (x - l) * ss \<and> (x, k) \<in> set (chunks room l n)" using assms
  proof (induction n arbitrary: l o0 rule: less_induct)
    case (less n)
    have nz: "\<not> (n = 0 \<or> room l = 0)" using less.prems by (subst (asm) chunks.simps) (auto split: if_splits)
    let ?k = "min n (room l)"
    have ch: "chunks room l n = (l, ?k) # chunks room (l + ?k) (n - ?k)" using nz by (subst chunks.simps) simp
    from less.prems ch consider "(x, k, off) = (l, ?k, o0)" | "(x, k, off) \<in> set (offsets ss (o0 + ?k * ss) (chunks room (l + ?k) (n - ?k)))"
      by auto
    then show ?case
    proof cases
      case 1
      then show ?thesis using ch by simp
    next
      case 2
      have "n - ?k < n" using nz by simp
      from less.IH [OF this 2] have i: "off = o0 + ?k * ss + (x - (l + ?k)) * ss" "(x, k) \<in> set (chunks room (l + ?k) (n - ?k))" by auto
      have "l + ?k \<le> x" by (rule chunks_bound(3) [OF i(2)])
      then have "x - l = ?k + (x - (l + ?k))" by simp
      then show ?thesis using i ch by (simp add: add_mult_distrib)
    qed
  qed
  then show "off = o0 + (x - l) * ss" and "(x, k) \<in> set (chunks room l n)" by auto
qed

lemma offsets_chunks: "map (\<lambda>(x, k, _). (x, k)) (offsets ss off cs) = cs"
  by (induction ss off cs rule: offsets.induct) auto

subsection \<open>Whole reads and writes\<close>

text \<open>The requests that go to the device: the request itself or its children.\<close>

definition pieces :: "qctx \<Rightarrow> nat \<Rightarrow> nat list" where
  "pieces s r = (if req_child_reqs (req_at s r) = 0 then [r] else req_children (req_at s r))"

definition rw_room :: "nvme_ns \<Rightarrow> nat \<Rightarrow> nat" where
  "rw_room ns x = (if sectors_per_stripe ns = 0 then unat (sectors_per_max_io ns)
     else unat (sectors_per_stripe ns) - x mod unat (sectors_per_stripe ns))"

lemma rw_room_ok:
  assumes "stripe_ok ns" and "0 < sectors_per_max_io ns"
  shows "if sectors_per_stripe ns = 0 then room_ok ns (sectors_per_max_io ns) 0 (rw_room ns)
    else room_ok ns (sectors_per_stripe ns) (sectors_per_stripe ns - 1) (rw_room ns)"
proof (cases "sectors_per_stripe ns = 0")
  case True
  then have "rw_room ns = (\<lambda>_. unat (sectors_per_max_io ns))" by (simp add: rw_room_def fun_eq_iff)
  with room_max [OF True assms(2)] True show ?thesis by simp
next
  case False
  then obtain p where p: "unat (sectors_per_stripe ns) = 2 ^ p" "sectors_per_stripe ns \<le> sectors_per_max_io ns"
    using assms(1) by (auto simp: stripe_ok_def)
  have "rw_room ns = (\<lambda>x. 2 ^ p - x mod 2 ^ p)" using False p(1) by (simp add: rw_room_def fun_eq_iff)
  with room_stripe [OF p] False show ?thesis by simp
qed

lemma crosses_iff:
  assumes "stripe_ok ns" and "sectors_per_stripe ns \<noteq> 0" and "l < 2 ^ 64" and "n < 2 ^ 32"
  shows "crosses_stripe ns (of_nat l) (of_nat n) \<longleftrightarrow> rw_room ns l < n"
proof -
  let ?st = "sectors_per_stripe ns" and ?w = "word_of_nat l AND ucast (sectors_per_stripe ns - 1) :: u64"
  obtain p where p: "unat ?st = 2 ^ p" using assms(1,2) by (auto simp: stripe_ok_def)
  have w: "unat ?w = l mod 2 ^ p"
    using stripe_mask [OF p, of "word_of_nat l"] assms(3) by (simp add: unat_of_nat take_bit_nat_eq_self)
  have n: "unat (ucast (of_nat n :: u32) :: u64) = n" using assms(4) by (simp add: unat_ucast_u64 unat_of_nat take_bit_nat_eq_self)
  have b: "l mod 2 ^ p < 2 ^ p" "(2::nat) ^ p < 2 ^ 32" using u32_lt [of ?st] p by simp_all
  have "unat (?w + ucast (of_nat n :: u32)) = l mod 2 ^ p + n"
  proof -
    have "l mod 2 ^ p + n < 2 ^ 32 + 2 ^ 32" using b assms(4) by linarith
    then have "l mod 2 ^ p + n < 2 ^ 64" by simp
    then show ?thesis unfolding unat_word_ariths w n by simp
  qed
  then have "crosses_stripe ns (of_nat l) (of_nat n) \<longleftrightarrow> 2 ^ p < l mod 2 ^ p + n"
    using assms(2) by (simp add: crosses_stripe_def word_less_nat_alt unat_ucast_u64 p)
  moreover have "(X < m + n) = (X - m < n)" if "m < X" for m X :: nat using that by arith
  ultimately show ?thesis using assms(2) b(1) by (simp add: rw_room_def p)
qed

lemma chunks_one:
  assumes "0 < n" and "n \<le> room l"
  shows "chunks room l n = [(l, n)]"
  using assms by (subst chunks.simps) (simp add: chunks.simps)

lemma split_whole:
  assumes "qp_invd s [] [r]" and "req_child_reqs (req_at s r) = 0" and "plain_cb (req_cb (req_at s r))" and "rw_ok ns a"
    and "room_ok ns max_io sector_mask room" and "l + n \<le> 2 ^ 64" and "n < 2 ^ 32" and "0 < n"
    and "length (chunks room l n) \<le> length (free_req s)" and "length (chunks room l n) \<le> 255"
    and "length (chunks room l n) + 2 \<le> fuel"
  shows "\<exists>s'. nvme_ns_split_request fuel ns a s r (of_nat l) (of_nat n) 0 0 max_io sector_mask = Inr (Some r, s')
    \<and> qp_inv s' (pieces s' r) \<and> pending s' (pieces s' r) = pending s [] + ucb (req_cb (req_at s r)) \<and> same_ctl s s'
    \<and> list_all2 (\<lambda>c. child_desc ns a (req_at s' c)) (pieces s' r) (offsets (unat (rw_sector_size ns (rw_io_flags a))) 0 (chunks room l n))
    \<and> r < length (reqs s')"
proof -
  have r: "r < length (reqs s)" using pool_okD(2) [OF qp_invd_pool [OF assms(1)], of r] by simp
  have h: "dead s r = [r]" "splitting s r []" "open_cb s r = ucb (req_cb (req_at s r))"
    using assms(2,3) r by (simp_all add: dead_def splitting_def open_cb_def)
  have e: "length ([] :: nat list) + length (chunks room l n) \<le> 255" using assms(10) by simp
  from split_loop [OF assms(4,5), of s "[]" r l n fuel 0 0, unfolded h(1), OF assms(1) h(2) assms(6,7,9) e assms(11)]
  obtain s' cs' where s': "nvme_ns_split_request fuel ns a s r (of_nat l) (of_nat n) 0 0 max_io sector_mask = Inr (Some r, s')"
    "qp_invd s' cs' (dead s' r)" "splitting s' r cs'" "pending s' cs' + open_cb s' r = pending s [] + open_cb s r"
    "list_all2 (\<lambda>c. child_desc ns a (req_at s' c)) cs' (offsets (unat (rw_sector_size ns (rw_io_flags a))) 0 (chunks room l n))"
    "same_ctl s s'" "cs' \<noteq> [] \<longrightarrow> req_child_reqs (req_at s' r) \<noteq> 0" by auto
  have "chunks room l n \<noteq> []" using assms(5,8) by (subst chunks.simps) (auto simp: room_ok_def)
  moreover have "length cs' = length (chunks room l n)"
    using list_all2_lengthD [OF s'(5)] arg_cong [OF offsets_chunks, of length] by (metis length_map)
  ultimately have "req_child_reqs (req_at s' r) \<noteq> 0" using s'(7) by auto
  moreover from this have "pieces s' r = cs'" "dead s' r = []" "open_cb s' r = {#}" using s'(3) by (simp_all add: pieces_def splitting_def dead_def open_cb_def)
  moreover have "r < length (reqs s')" using r s'(6) by (simp add: same_ctl_def)
  ultimately show ?thesis using s' h(3) by (auto simp: qp_invd_Nil)
qed


lemma qp_inv_pool: "qp_inv s H \<Longrightarrow> pool_ok {#} (called s + pending s H) s (free_req s) (leaves {} s @ H) []"
  by (simp add: qp_inv_def qinv_def req_ok_def)

text \<open>A request taken from the free list, with any content, while it is outside of the invariant.\<close>

lemma qp_inv_take:
  assumes inv: "qp_inv s H" and fr: "free_req s = r # rest" and z: "req_child_reqs (f (req_at s r)) = 0"
    and s': "s' = upd_req r f (s\<lparr>free_req := rest\<rparr>)"
  shows "qp_invd s' H [r]" and "pending s' H = pending s H"
proof -
  let ?V = "leaves {} s @ H"
  note pool = pool_okD [OF qp_inv_pool [OF inv]]
  have r: "r < length (reqs s)" "req_child_reqs (req_at s r) = 0" using pool(2) [of r] fr by simp_all
  have at: "req_at s' j = (if j = r then f (req_at s r) else req_at s j)" for j using r by (simp add: s' req_at_upd_req)
  have "req_child_reqs (req_at s' j) = req_child_reqs (req_at s j)" for j using r(2) z by (simp add: at)
  then have par: "parents s' = parents s" by (simp add: parents_def s')
  have rp: "r \<notin> parents s" using r by (simp add: parents_def)
  have rV: "r \<notin> set ?V" using pool(1) fr by auto
  have lv: "leaves {} s' = leaves {} s" by (simp add: leaves_def tr_leaves_def s')
  have pat: "req_at s' p = req_at s p" if "p \<in> parents s" for p using that rp by (auto simp: at)
  have vat: "req_at s' j = req_at s j" if "j \<in> set ?V" for j using that rV by (auto simp: at)
  have "image_mset (\<lambda>j. ucb (req_cb (req_at s' j))) (mset ?V + mset_set (parents s))
      = image_mset (\<lambda>j. ucb (req_cb (req_at s j))) (mset ?V + mset_set (parents s))"
    using rV rp by (intro image_mset_cong) (auto simp: at)
  then show pe: "pending s' H = pending s H" by (simp only: pending_def pend_def par lv)
  have ca: "called s' = called s" by (simp add: called_def s')
  have "pool_ok {#} (called s' + pending s' H) s' rest ?V [r]"
    unfolding pool_ok_def
  proof (intro conjI ballI)
    show "distinct (rest @ ?V @ [r])" using pool(1) fr by auto
    show "j < length (reqs s')" and "req_child_reqs (req_at s' j) = 0" if "j \<in> set (rest @ ?V @ [r])" for j
    proof -
      show "j < length (reqs s')" using that pool(2) [of j] fr r(1) by (auto simp: s')
      show "req_child_reqs (req_at s' j) = 0" using that pool(2) [of j] fr z by (auto simp: at)
    qed
    show "leaf_ok s' j" if "j \<in> set ?V" for j
      using pool(3) [OF that] by (simp add: leaf_ok_def linked_def vat [OF that] par pat nvme_qpair_is_io_queue_def) (simp add: s')
    show "parent_ok s' (set ?V) p" if "p \<in> parents s'" for p
      using pool(4) [of p] that vat by (auto simp: parent_ok_def par pat)
    show "acct {#} (called s' + pending s' H) s' ?V" by (simp add: acct_def called_def pending_def lv)
  qed
  then have "pool_ok {#} (called s' + pending s' H) s' (free_req s') (leaves {} s' @ H) [r]" unfolding lv by (simp add: s')
  then show "qp_invd s' H [r]" unfolding qp_invd_def
    by (rule qinv_repool [OF inv [unfolded qp_inv_def]])
      (use qinvD(1) [OF inv [unfolded qp_inv_def]] in \<open>simp_all add: s' ring_ok_def\<close>)
qed

lemma ns_rw_whole:
  assumes inv: "qp_inv s []" and rw: "rw_ok ns a" and st: "stripe_ok ns" and l: "l + n \<le> 2 ^ 64" and n: "0 < n" "n < 2 ^ 32"
    and len: "length (chunks (rw_room ns) l n) < length (free_req s)" "length (chunks (rw_room ns) l n) \<le> 255"
    and fuel: "length (chunks (rw_room ns) l n) + 3 \<le> fuel"
  shows "\<exists>r s'. nvme_ns_rw fuel ns a s (of_nat l) (of_nat n) = Inr (Some r, s')
    \<and> qp_inv s' (pieces s' r) \<and> pending s' (pieces s' r) = pending s [] + ucb (rw_cb a) \<and> same_ctl s s'
    \<and> list_all2 (\<lambda>c. child_desc ns a (req_at s' c)) (pieces s' r)
        (offsets (unat (rw_sector_size ns (rw_io_flags a))) 0 (chunks (rw_room ns) l n))
    \<and> r < length (reqs s')"
proof -
  let ?max = "sectors_per_max_io ns" and ?st = "sectors_per_stripe ns" and ?ss = "rw_sector_size ns (rw_io_flags a)"
  obtain f where f: "fuel = Suc f" using fuel by (cases fuel) auto
  obtain r rest where fr: "free_req s = r # rest" using len(1) by (cases "free_req s") auto
  have r: "r < length (reqs s)" using pool_okD(2) [OF qp_inv_pool [OF inv], of r] fr by simp
  have io: "rw_io_flags a AND 0xFFFF = 0" and mx: "0 < ?max" and pc: "plain_cb (rw_cb a)" using rw by (simp_all add: rw_ok_def)
  define s1 where "s1 = upd_req r (fresh_req (rw_payload a) (of_nat n * ?ss) (rw_cb a)) (s\<lparr>free_req := rest\<rparr>)"
  note eq = ns_rw_eq [OF io fr s1_def, of f "of_nat l", folded f]
  have nn: "(of_nat n > ?max) = (unat ?max < n)" using n(2) by (simp add: word_less_nat_alt unat_of_nat take_bit_nat_eq_self)
  have cr: "crosses_stripe ns (of_nat l) (of_nat n) = (?st \<noteq> 0 \<and> rw_room ns l < n)"
    using crosses_iff [OF st _ _ n(2), of l] l n(1) by (cases "?st = 0") (simp_all add: crosses_stripe_def)
  have c1: "same_ctl s s1" by (simp add: same_ctl_def s1_def nvme_qpair_is_io_queue_def called_def)
  have small: "n \<le> unat ?max" if "n \<le> rw_room ns l"
  proof (cases "?st = 0")
    case True
    then show ?thesis using that by (simp add: rw_room_def)
  next
    case False
    then have "unat ?st \<le> unat ?max" using st by (auto simp: stripe_ok_def word_le_nat_alt)
    then show ?thesis using that False by (simp add: rw_room_def)
  qed
  show ?thesis
  proof (cases "n \<le> rw_room ns l")
    case True
    define s' where "s' = upd_req r (rw_request ns a (of_nat l) (of_nat n)) (s\<lparr>free_req := rest\<rparr>)"
    have k: "(of_nat n :: u32) \<le> ?max" using nn small [OF True] by (simp add: not_less [symmetric])
    have e: "nvme_ns_rw fuel ns a s (of_nat l) (of_nat n) = Inr (Some r, s')"
      using eq cr True nn small [OF True] by (simp add: s'_def)
    note i = ns_rw_leaf_inv [OF inv [folded qp_invd_Nil] rw fr k s'_def, unfolded qp_invd_Nil]
    have at: "req_at s' r = rw_request ns a (of_nat l) (of_nat n) (req_at s r)" using r by (simp add: s'_def req_at_upd_req)
    have ps: "pieces s' r = [r]" by (simp add: pieces_def at)
    have "same_ctl s s'" by (simp add: same_ctl_def s'_def nvme_qpair_is_io_queue_def called_def)
    moreover have "child_desc ns a (req_at s' r) (l, n, 0)" by (simp add: child_desc_def at)
    moreover have "r < length (reqs s')" using r by (simp add: s'_def)
    ultimately show ?thesis using e i chunks_one [of n "rw_room ns" l, OF n(1) True] by (auto simp: ps)
  next
    case False
    then have big: "rw_room ns l < n" by simp
    have at: "req_at s1 r = fresh_req (rw_payload a) (of_nat n * ?ss) (rw_cb a) (req_at s r)" using r by (simp add: s1_def req_at_upd_req)
    have z: "req_child_reqs (fresh_req (rw_payload a) (of_nat n * ?ss) (rw_cb a) (req_at s r)) = 0" by simp
    note i1 = qp_inv_take [OF inv fr z s1_def]
    have ex: "\<exists>max_io sector_mask. nvme_ns_rw fuel ns a s (of_nat l) (of_nat n)
        = nvme_ns_split_request f ns a s1 r (of_nat l) (of_nat n) 0 0 max_io sector_mask \<and> room_ok ns max_io sector_mask (rw_room ns)"
    proof (cases "?st = 0")
      case True
      then show ?thesis using eq cr nn big rw_room_ok [OF st mx] by (auto simp: rw_room_def)
    next
      case False
      then show ?thesis using eq cr big rw_room_ok [OF st mx] by auto
    qed
    then obtain max_io sector_mask where e: "nvme_ns_rw fuel ns a s (of_nat l) (of_nat n)
        = nvme_ns_split_request f ns a s1 r (of_nat l) (of_nat n) 0 0 max_io sector_mask" "room_ok ns max_io sector_mask (rw_room ns)"
      by blast
    have p: "req_child_reqs (req_at s1 r) = 0" "plain_cb (req_cb (req_at s1 r))" "req_cb (req_at s1 r) = rw_cb a" using pc by (simp_all add: at)
    have q: "length (chunks (rw_room ns) l n) \<le> length (free_req s1)" "length (chunks (rw_room ns) l n) + 2 \<le> f"
      using len(1) fr fuel f by (simp_all add: s1_def)
    from split_whole [OF i1(1) p(1,2) rw e(2) l n(2,1) q(1) len(2) q(2)]
    obtain s' where s': "nvme_ns_split_request f ns a s1 r (of_nat l) (of_nat n) 0 0 max_io sector_mask = Inr (Some r, s')"
      "qp_inv s' (pieces s' r)" "pending s' (pieces s' r) = pending s1 [] + ucb (rw_cb a)" "same_ctl s1 s'"
      "list_all2 (\<lambda>c. child_desc ns a (req_at s' c)) (pieces s' r) (offsets (unat ?ss) 0 (chunks (rw_room ns) l n))"
      "r < length (reqs s')" unfolding p(3) by blast
    then show ?thesis using e(1) i1(2) same_ctl_trans [OF c1 s'(4)] by auto
  qed
qed

lemma list_all2_map_eq:
  assumes "list_all2 P xs ys" and "\<And>x y. P x y \<Longrightarrow> y \<in> set ys \<Longrightarrow> g x = h y"
  shows "map g xs = map h ys"
  using assms by (auto simp: list_all2_conv_all_nth intro!: nth_equalityI)

lemma max_io_small:
  assumes "rw_ok ns a" and "512 \<le> unat (rw_sector_size ns (rw_io_flags a))"
  shows "unat (sectors_per_max_io ns) \<le> 65536"
proof -
  let ?m = "unat (sectors_per_max_io ns)"
  have "?m * 512 \<le> ?m * unat (rw_sector_size ns (rw_io_flags a))" using assms(2) by simp
  also have "\<dots> \<le> NVME_MAX_XFER_SIZE" using assms(1) by (simp add: rw_ok_def)
  finally show ?thesis by (simp add: NVME_MAX_XFER_SIZE_def NVME_MAX_PRP_LIST_ENTRIES_def PAGE_SIZE_def)
qed

text \<open>A piece of a transfer of \<open>n\<close> blocks from \<open>l\<close> on, read off its request.\<close>

definition piece_ok :: "nvme_ns \<Rightarrow> rw_args \<Rightarrow> nat \<Rightarrow> nvme_request \<Rightarrow> bool" where
  "piece_ok ns a l q \<longleftrightarrow>
     (let x = cmd_lba (req_cmd q); k = cmd_nlb (req_cmd q); ss = unat (rw_sector_size ns (rw_io_flags a))
      in k \<le> unat (sectors_per_max_io ns) \<and> opc (req_cmd q) = rw_opc a \<and> req_payload q = rw_payload a
         \<and> unat (req_payload_offset q) = (x - l) * ss \<and> unat (req_payload_size q) = k * ss
         \<and> (sectors_per_stripe ns \<noteq> 0 \<longrightarrow>
              x div unat (sectors_per_stripe ns) = (x + k - 1) div unat (sectors_per_stripe ns)))"

lemma u32_of_nat: "m < 2 ^ 32 \<Longrightarrow> unat (of_nat m :: u32) = m"
  by (simp add: unat_of_nat take_bit_nat_eq_self)

lemma list_all2_member:
  assumes "list_all2 P xs ys" and "x \<in> set xs"
  obtains y where "y \<in> set ys" and "P x y"
  using assms by (metis in_set_conv_nth list_all2_conv_all_nth)

lemma same_stripe:
  assumes "0 < k" and "k \<le> st - x mod st"
  shows "x div st = (x + k - 1) div (st::nat)"
proof -
  have lt: "x mod st + (k - 1) < st" using assms by linarith
  have "x + k - 1 = st * (x div st) + (x mod st + (k - 1))" using assms(1) mult_div_mod_eq [of st x] by linarith
  then have "(x + k - 1) div st = x div st + (x mod st + (k - 1)) div st" using lt by (simp only: div_mult_self4)
  then show ?thesis using lt by simp
qed

lemma piece_of_desc:
  assumes d: "child_desc ns a q (x, k, off)" and m: "(x, k, off) \<in> set (offsets (unat (rw_sector_size ns (rw_io_flags a))) 0 (chunks (rw_room ns) l n))"
    and rw: "rw_ok ns a" and st: "stripe_ok ns" and ss: "512 \<le> unat (rw_sector_size ns (rw_io_flags a))"
    and l: "l + n \<le> 2 ^ 64" and n: "n * unat (rw_sector_size ns (rw_io_flags a)) < 2 ^ 32"
  shows "cmd_lba (req_cmd q) = x" and "cmd_nlb (req_cmd q) = k" and "piece_ok ns a l q"
proof -
  let ?ss = "rw_sector_size ns (rw_io_flags a)"
  note o = offsets_pos [OF m]
  note b = chunks_bound [OF o(2)]
  have mx: "0 < sectors_per_max_io ns" and io: "rw_io_flags a AND 0xFFFF = 0" using rw by (simp_all add: rw_ok_def)
  have "rw_room ns x \<le> unat (sectors_per_max_io ns)"
    using rw_room_ok [OF st mx] by (cases "sectors_per_stripe ns = 0") (auto simp: room_ok_def)
  then have k: "k \<le> unat (sectors_per_max_io ns)" "k \<le> 65536" using b(2) max_io_small [OF rw ss] by linarith+
  have x: "x < 2 ^ 64" using b(1,4) l by linarith
  have c: "req_cmd q = rw_command ns a (of_nat x) (of_nat k) cmd_zero" using d by (simp add: child_desc_def)
  show lba: "cmd_lba (req_cmd q) = x" using x by (simp add: c cmd_lba_rw unat_of_nat take_bit_nat_eq_self)
  show nlb: "cmd_nlb (req_cmd q) = k" unfolding c by (rule cmd_nlb_rw [OF io b(1) k(2)])
  have le: "(x - l) * unat ?ss \<le> n * unat ?ss" "k * unat ?ss \<le> n * unat ?ss" using b(3,4) by (simp_all del: mult_le_cancel2 add: mult_le_mono1)
  have "unat (req_payload_offset q) = (x - l) * unat ?ss"
    using d o(1) u32_of_nat [OF le_less_trans [OF le(1) n]] by (simp add: child_desc_def del: of_nat_mult)
  moreover have "unat (req_payload_size q) = k * unat ?ss"
  proof -
    have "req_payload_size q = of_nat (k * unat ?ss)" using d by (simp add: child_desc_def)
    then show ?thesis using u32_of_nat [OF le_less_trans [OF le(2) n]] by simp
  qed
  moreover have "x div unat (sectors_per_stripe ns) = (x + k - 1) div unat (sectors_per_stripe ns)" if "sectors_per_stripe ns \<noteq> 0"
    using same_stripe [OF b(1), of "unat (sectors_per_stripe ns)" x] b(2) that by (simp add: rw_room_def)
  moreover have "opc (req_cmd q) = rw_opc a" "req_payload q = rw_payload a" using d by (simp_all add: child_desc_def)
  ultimately show "piece_ok ns a l q" using k(1) unfolding piece_ok_def lba nlb Let_def by blast
qed

lemma rw_pieces:
  assumes "qp_inv s []" and "rw_ok ns a" and "stripe_ok ns" and "512 \<le> unat (rw_sector_size ns (rw_io_flags a))"
    and "unat lba + unat n \<le> 2 ^ 64" and "0 < n" and "unat n * unat (rw_sector_size ns (rw_io_flags a)) < 2 ^ 32"
    and "length (chunks (rw_room ns) (unat lba) (unat n)) < length (free_req s)"
    and "length (chunks (rw_room ns) (unat lba) (unat n)) \<le> 255" and "length (chunks (rw_room ns) (unat lba) (unat n)) + 3 \<le> fuel"
  shows "\<exists>r s'. nvme_ns_rw fuel ns a s lba n = Inr (Some r, s')
    \<and> concat (map (\<lambda>c. [cmd_lba (req_cmd (req_at s' c))..<cmd_lba (req_cmd (req_at s' c)) + cmd_nlb (req_cmd (req_at s' c))]) (pieces s' r))
        = [unat lba..<unat lba + unat n]
    \<and> (\<forall>c\<in>set (pieces s' r). piece_ok ns a (unat lba) (req_at s' c))"
proof -
  let ?ss = "rw_sector_size ns (rw_io_flags a)" and ?l = "unat lba" and ?n = "unat n"
  have n: "0 < ?n" "?n < 2 ^ 32" using assms(6) u32_lt [of n] by (simp_all add: word_less_nat_alt)
  from ns_rw_whole [OF assms(1-3) assms(5) n assms(8-10)]
  obtain r s' where s': "nvme_ns_rw fuel ns a s lba n = Inr (Some r, s')"
    "list_all2 (\<lambda>c. child_desc ns a (req_at s' c)) (pieces s' r) (offsets (unat ?ss) 0 (chunks (rw_room ns) ?l ?n))" by auto
  note pd = piece_of_desc [OF _ _ assms(2-5,7)]
  let ?g = "\<lambda>c. (cmd_lba (req_cmd (req_at s' c)), cmd_nlb (req_cmd (req_at s' c)))"
  have "map ?g (pieces s' r) = map (\<lambda>(x, k, _). (x, k)) (offsets (unat ?ss) 0 (chunks (rw_room ns) ?l ?n))"
    by (rule list_all2_map_eq [OF s'(2)]) (use pd in \<open>auto simp: split_beta\<close>)
  then have g: "map ?g (pieces s' r) = chunks (rw_room ns) ?l ?n" by (simp add: offsets_chunks)
  have pos: "0 < rw_room ns x" for x
    using rw_room_ok [OF assms(3)] assms(2) by (cases "sectors_per_stripe ns = 0") (auto simp: room_ok_def rw_ok_def)
  have "concat (map (\<lambda>(x, k). [x..<x + k]) (map ?g (pieces s' r))) = [?l..<?l + ?n]"
    unfolding g by (rule chunks_cover [OF pos])
  moreover have "piece_ok ns a ?l (req_at s' c)" if "c \<in> set (pieces s' r)" for c
  proof -
    from list_all2_member [OF s'(2) that]
    obtain d where "d \<in> set (offsets (unat ?ss) 0 (chunks (rw_room ns) ?l ?n))" "child_desc ns a (req_at s' c) d" by blast
    moreover obtain x k off where "d = (x, k, off)" by (rule prod_cases3)
    ultimately show ?thesis using pd(3) by blast
  qed
  ultimately show ?thesis using s'(1) by (intro exI conjI) (auto simp: comp_def)
qed

text \<open>
  C4. A read or write of \<open>n\<close> blocks from \<open>lba\<close> on, with a pool that has enough free requests and at most 255 pieces, none of
  which is split again: the commands of the request or of its children cover exactly the blocks \<open>lba\<close> to \<open>lba + n\<close>, each once and
  in order; each piece is at most the largest transfer of the controller, stays within one stripe, has the opcode asked for, and
  transfers its blocks at their place in the buffer.
\<close>

theorem rw_pieces_cover:
  assumes "qp_inv s []" and "rw_ok ns a" and "stripe_ok ns" and "512 \<le> unat (rw_sector_size ns (rw_io_flags a))"
    and "unat lba + unat n \<le> 2 ^ 64" and "0 < n" and "unat n * unat (rw_sector_size ns (rw_io_flags a)) < 2 ^ 32"
    and "length (chunks (rw_room ns) (unat lba) (unat n)) < length (free_req s)"
    and "length (chunks (rw_room ns) (unat lba) (unat n)) \<le> 255" and "length (chunks (rw_room ns) (unat lba) (unat n)) + 3 \<le> fuel"
  shows "\<exists>r s'. nvme_ns_rw fuel ns a s lba n = Inr (Some r, s')
    \<and> concat (map (\<lambda>c. [cmd_lba (req_cmd (req_at s' c))..<cmd_lba (req_cmd (req_at s' c)) + cmd_nlb (req_cmd (req_at s' c))]) (pieces s' r))
        = [unat lba..<unat lba + unat n]
    \<and> (\<forall>c\<in>set (pieces s' r). piece_ok ns a (unat lba) (req_at s' c))"
  by (rule rw_pieces [OF assms])

lemma rw_submit_keeps:
  assumes "qp_inv s []" and "rw_ok ns a" and "stripe_ok ns" and "unat lba + unat n \<le> 2 ^ 64" and "0 < n"
    and k: "k = length (chunks (rw_room ns) (unat lba) (unat n))" and "k < length (free_req s)" and "k \<le> 255"
    and "\<not> ct_failed s" and "qp_enabled s \<or> ct_resetting s \<or> nvme_qpair_is_io_queue s \<or> outstanding_tr s = []"
    and "2 * NVME_MAX_XFER_SIZE + 34 + 9 * length (queued_req s) + 5 * length (outstanding_tr s) + 5 * k \<le> fuel"
  shows "\<exists>ret s'. rw_submit fuel ns a s lba n = Inr (ret, s') \<and> qp_inv s' []
    \<and> called s' + pending s' [] \<subseteq># called s + pending s [] + ucb (rw_cb a)
    \<and> (ret = 0 \<longrightarrow> called s' + pending s' [] = called s + pending s [] + ucb (rw_cb a))"
proof -
  have n: "0 < unat n" "unat n < 2 ^ 32" using assms(5) u32_lt [of n] by (simp_all add: word_less_nat_alt)
  have f3: "length (chunks (rw_room ns) (unat lba) (unat n)) + 3 \<le> fuel" using assms(11) k by simp
  from ns_rw_whole [OF assms(1-4) n assms(7,8) [unfolded k] f3]
  obtain r s1 where s1: "nvme_ns_rw fuel ns a s lba n = Inr (Some r, s1)" "qp_inv s1 (pieces s1 r)"
    "pending s1 (pieces s1 r) = pending s [] + ucb (rw_cb a)" "same_ctl s s1" "r < length (reqs s1)"
    "list_all2 (\<lambda>c. child_desc ns a (req_at s1 c)) (pieces s1 r)
        (offsets (unat (rw_sector_size ns (rw_io_flags a))) 0 (chunks (rw_room ns) (unat lba) (unat n)))" by auto
  have pk: "length (pieces s1 r) = k"
    using list_all2_lengthD [OF s1(6)] arg_cong [OF offsets_chunks, of length] k by (metis length_map)
  note ctl = s1(4) [unfolded same_ctl_def]
  have st: "\<not> ct_failed s1" "qp_enabled s1 \<or> ct_resetting s1 \<or> nvme_qpair_is_io_queue s1 \<or> outstanding_tr s1 = []"
    using assms(9,10) ctl by auto
  have X: "called s1 + pending s1 (pieces s1 r) = called s + pending s [] + ucb (rw_cb a)" using s1(3) ctl by (simp add: add.assoc)
  have e: "rw_submit fuel ns a s lba n = nvme_qpair_submit_request fuel s1 r" by (simp add: rw_submit_def s1(1))
  show ?thesis
  proof (cases "req_child_reqs (req_at s1 r) = 0")
    case True
    then have p: "pieces s1 r = [r]" by (simp add: pieces_def)
    have "2 * NVME_MAX_XFER_SIZE + 32 + 9 * length (queued_req s1) + 5 * length (outstanding_tr s1) \<le> fuel" using assms(11) ctl by simp
    from submit_ok [OF s1(2) [unfolded p] st this] show ?thesis using X p e by auto
  next
    case False
    then have p: "pieces s1 r = req_children (req_at s1 r)" by (simp add: pieces_def)
    have "2 * NVME_MAX_XFER_SIZE + 34 + 9 * length (queued_req s1) + 5 * length (outstanding_tr s1)
        + 5 * length (req_children (req_at s1 r)) \<le> fuel" using assms(11) ctl pk p by simp
    from split_submit_ok [OF s1(2) [unfolded p] s1(5) False st this] show ?thesis using X p e by auto
  qed
qed

text \<open>
  C5. A read of \<open>n\<close> blocks through an I/O queue pair of a controller that has not failed returns within the stated number of
  calls without a panic or an invalid access, whatever the pieces it is split into and whatever of them is queued, keeps the invariant of
  the queue pair, and no callback is called more often than it was registered. When it returns 0 no callback is lost: every callback,
  that of the read included, was called once or is still pending.
\<close>

theorem ns_read_keeps:
  assumes "qp_inv s []" and "nvme_qpair_is_io_queue s" and "\<not> ct_failed s" and "io_flags AND 0xFFFF = 0"
    and "0 < sectors_per_max_io ns" and "stripe_ok ns"
    and "unat (sectors_per_max_io ns) * unat (rw_sector_size ns io_flags) \<le> NVME_MAX_XFER_SIZE"
    and "unat lba + unat n \<le> 2 ^ 64" and "0 < n" and "k = length (chunks (rw_room ns) (unat lba) (unat n))"
    and "k < length (free_req s)" and "k \<le> 255"
    and "2 * NVME_MAX_XFER_SIZE + 34 + 9 * length (queued_req s) + 5 * length (outstanding_tr s) + 5 * k \<le> fuel"
  shows "\<exists>ret s'. nvme_ns_read fuel ns s buffer lba n (CbUser i) io_flags = Inr (ret, s') \<and> qp_inv s' []
    \<and> called s' + pending s' [] \<subseteq># called s + pending s [] + {#i#}
    \<and> (ret = 0 \<longrightarrow> called s' + pending s' [] = called s + pending s [] + {#i#})"
proof -
  let ?a = "\<lparr>rw_payload = contig_payload buffer None, rw_cb = CbUser i, rw_opc = nvm_opc NVME_OPC_READ,
       rw_io_flags = io_flags, rw_apptag_mask = 0, rw_apptag = 0\<rparr>"
  have "rw_ok ns ?a" using assms(4,5,7) by (simp add: rw_ok_def plain_cb_def contig_payload_def)
  from rw_submit_keeps [OF assms(1) this assms(6,8-12,3) _ assms(13)] assms(2)
  show ?thesis by (simp add: nvme_ns_read_def)
qed

subsection \<open>Witnesses and boundary cases\<close>

definition ex_ns :: nvme_ns where
  "ex_ns = \<lparr>stripe_size = 2048, sector_size = 512, md_size = 0, pi_type = 0, sectors_per_max_io = 8, sectors_per_stripe = 4,
     ns_id = 1, ns_flags = 0, open_count = 1\<rparr>"

definition ex_rw :: rw_args where
  "ex_rw = \<lparr>rw_payload = contig_payload 0 None, rw_cb = CbUser 5, rw_opc = nvm_opc NVME_OPC_READ, rw_io_flags = 0,
     rw_apptag_mask = 0, rw_apptag = 0\<rparr>"

definition ex_pool :: "nvme_request list" where
  "ex_pool = request_zero\<lparr>req_cb := CbUser 7\<rparr> # replicate 6 request_zero"

lemma ex_pool_fields: "length ex_pool = 7" "i < 7 \<Longrightarrow> req_child_reqs (ex_pool ! i) = 0" "req_cb (ex_pool ! 0) = CbUser 7"
  "req_payload_size (ex_pool ! 0) = 0"
  by (auto simp: ex_pool_def request_zero_def nth_Cons split: nat.splits)

lemma ex_pool_inv: "qp_inv (ex_qp ex_pool [1, 2, 3, 4, 5]) []"
proof -
  have "parents (ex_qp ex_pool [1, 2, 3, 4, 5]) = {}" by (auto simp: parents_def ex_pool_fields)
  with ex_rings [of ex_pool "[1, 2, 3, 4, 5]"] show ?thesis
    by (simp add: qp_inv_def qinv_def req_ok_def pool_ok_def ex_leaves acct_def called_def pending_def leaf_ok_def linked_def
        payload_ok_def is_aer_def ex_pool_fields)
qed

lemma ex_rw_ok: "rw_ok ex_ns ex_rw" "stripe_ok ex_ns" "unat (rw_sector_size ex_ns 0) = 512"
  "chunks (rw_room ex_ns) 2 6 = [(2, 2), (4, 4)]"
proof -
  have s: "rw_sector_size ex_ns 0 = 512" by (simp add: rw_sector_size_def ex_ns_def)
  then show "unat (rw_sector_size ex_ns 0) = 512" by simp
  show "rw_ok ex_ns ex_rw"
    using s by (simp add: rw_ok_def ex_rw_def plain_cb_def contig_payload_def) (simp add: ex_ns_def NVME_MAX_XFER_SIZE_def
      NVME_MAX_PRP_LIST_ENTRIES_def PAGE_SIZE_def)
  show "stripe_ok ex_ns" unfolding stripe_ok_def by (intro disjI2 conjI exI [of _ 2]) (simp_all add: ex_ns_def)
  show "chunks (rw_room ex_ns) 2 6 = [(2, 2), (4, 4)]" by (simp add: chunks.simps rw_room_def ex_ns_def)
qed

theorem rw_pieces_cover_witness:
  "\<exists>r s'. nvme_ns_rw 10 ex_ns ex_rw (ex_qp ex_pool [1, 2, 3, 4, 5]) 2 6 = Inr (Some r, s')
    \<and> concat (map (\<lambda>c. [cmd_lba (req_cmd (req_at s' c))..<cmd_lba (req_cmd (req_at s' c)) + cmd_nlb (req_cmd (req_at s' c))]) (pieces s' r))
        = [2..<8]"
proof -
  have f: "rw_io_flags ex_rw = 0" by (simp add: ex_rw_def)
  from rw_pieces_cover [OF ex_pool_inv ex_rw_ok(1,2), of 2 6 10] ex_rw_ok(3,4) f show ?thesis by auto
qed

theorem ns_read_keeps_witness:
  "\<exists>ret s'. nvme_ns_read (2 * NVME_MAX_XFER_SIZE + 60) ex_ns (ex_qp ex_pool [1, 2, 3, 4, 5]) 0 2 6 (CbUser 5) 0 = Inr (ret, s')
    \<and> qp_inv s' [] \<and> called s' + pending s' [] \<subseteq># pending (ex_qp ex_pool [1, 2, 3, 4, 5]) [] + {#5#}"
proof -
  let ?s = "ex_qp ex_pool [1, 2, 3, 4, 5]" and ?f = "2 * NVME_MAX_XFER_SIZE + 60"
  have p1: "unat (sectors_per_max_io ex_ns) * unat (rw_sector_size ex_ns 0) \<le> NVME_MAX_XFER_SIZE" "0 < sectors_per_max_io ex_ns"
    using ex_rw_ok(1) by (simp_all add: rw_ok_def ex_rw_def)
  have p2: "nvme_qpair_is_io_queue ?s" "\<not> ct_failed ?s" "2 < length (free_req ?s)" by (simp_all add: nvme_qpair_is_io_queue_def)
  have p3: "unat (2 :: u64) + unat (6 :: u32) \<le> 2 ^ 64" "(0 :: u32) < 6" "(0 :: u32) AND 0xFFFF = 0" "(2::nat) \<le> 255" by simp_all
  have p4: "2 = length (chunks (rw_room ex_ns) (unat (2 :: u64)) (unat (6 :: u32)))" using ex_rw_ok(4) by simp
  have p5: "2 * NVME_MAX_XFER_SIZE + 34 + 9 * length (queued_req ?s) + 5 * length (outstanding_tr ?s) + 5 * 2 \<le> ?f" by simp
  from ns_read_keeps [OF ex_pool_inv p2(1,2) p3(3) p1(2) ex_rw_ok(2) p1(1) p3(1,2) p4 p2(3) p3(4) p5, of 0 5] show ?thesis by auto
qed


text \<open>The counter of children has eight bits: the 256th child makes it zero, and the request is taken for one that is not split.\<close>

lemma add_child_wraps:
  assumes "req_child_reqs (req_at s p) = 255" and "p < length (reqs s)" and "c < length (reqs s)" and "p \<noteq> c"
  shows "req_child_reqs (req_at (nvme_request_add_child p c s) p) = 0"
  using assms by (simp add: req_at_add_child with_child_def Let_def)

text \<open>A transfer of no blocks is sent as one of 65536, with all flags set.\<close>

lemma rw_no_blocks: "cdw12 (rw_command ns a lba 0 cmd) = 0xFFFFFFFF"
  by simp

text \<open>
  With metadata interleaved the limit in blocks, computed from the size of the data alone, allows transfers above the limit in bytes.
\<close>

lemma extended_lba_too_long:
  "\<exists>r s'. nvme_ns_rw 1 (ex_ns\<lparr>ns_flags := 0x30, md_size := 8, sectors_per_max_io := 4048, sectors_per_stripe := 0\<rparr>) ex_rw
      (ex_qp ex_pool [1]) 0 4048 = Inr (Some r, s') \<and> unat (req_payload_size (req_at s' r)) > NVME_MAX_XFER_SIZE"
proof -
  have "case nvme_ns_rw 1 (ex_ns\<lparr>ns_flags := 0x30, md_size := 8, sectors_per_max_io := 4048, sectors_per_stripe := 0\<rparr>) ex_rw
      (ex_qp ex_pool [1]) 0 4048 of Inr (Some r, s') \<Rightarrow> req_payload_size (req_at s' r) = 2104960 | _ \<Rightarrow> False"
    by code_simp
  then show ?thesis by (auto simp: NVME_MAX_XFER_SIZE_def NVME_MAX_PRP_LIST_ENTRIES_def PAGE_SIZE_def simp del: nvme_ns_rw.simps One_nat_def
      split: sum.splits option.splits)
qed


end
