(* ===== verification/Nvme_Admin.thy ===== *)
theory Nvme_Admin
  imports Nvme_Ns
begin

text \<open>
  Admin commands (\<^verbatim>\<open>lib/nvme/nvme_admin.c\<close>). A command is submitted to the admin queue pair with the callback that
  records its completion, and the queue pair is polled until that callback was called.

  The device is a parameter \<open>dev\<close>: \<open>dev k s\<close> is the content of the completion queue that the \<open>k\<close>-th poll of a command
  finds. The poll status of the command that is executed is entry 0 of \<open>ct_poll\<close>; the buffer of a command is its
  address or \<open>None\<close> for a null pointer, and what the device writes to it is not part of the model.
\<close>

type_synonym device = "nat \<Rightarrow> qctx \<Rightarrow> nvme_cpl list"

subsection \<open>Definitions: executing a command\<close>

definition nvme_admin_submit_cmd :: "nat \<Rightarrow> qctx \<Rightarrow> nvme_cmd \<Rightarrow> nat option \<Rightarrow> u32 \<Rightarrow> nvme_cb \<Rightarrow> (int \<times> qctx) res" where
  "nvme_admin_submit_cmd fuel s cmd buf len cb =
     (case (case buf of Some b \<Rightarrow> nvme_request_allocate_contig s b len cb | None \<Rightarrow> nvme_request_allocate_null s cb) of
        (None, s) \<Rightarrow> Inr (- ENOMEM, s)
      | (Some r, s) \<Rightarrow> nvme_qpair_submit_request fuel (upd_req r (\<lambda>q. q\<lparr>req_cmd := cmd\<rparr>) s) r)"

fun nvme_admin_wait_cmd :: "nat \<Rightarrow> device \<Rightarrow> nat \<Rightarrow> qctx \<Rightarrow> (int \<times> qctx) res" where
  "nvme_admin_wait_cmd 0 dev k s = Inl OutOfFuel"
| "nvme_admin_wait_cmd (Suc n) dev k s =
     (if poll_done (ct_poll s 0)
      then Inr (if nvme_cpl_is_error (poll_cpl (ct_poll s 0)) then - ENXIO else 0, s)
      else rbind (nvme_qpair_poll n (s\<lparr>qp_cpl := dev k s\<rparr>) 0) (\<lambda>(_, s). nvme_admin_wait_cmd n dev (Suc k) s))"

definition clear_status :: "qctx \<Rightarrow> qctx" where
  "clear_status s = s\<lparr>ct_poll := (ct_poll s)(0 := (ct_poll s 0)\<lparr>poll_done := False\<rparr>)\<rparr>"

definition nvme_admin_exec_cmd :: "nat \<Rightarrow> device \<Rightarrow> qctx \<Rightarrow> nvme_cmd \<Rightarrow> nat option \<Rightarrow> u32 \<Rightarrow> (int \<times> qctx) res" where
  "nvme_admin_exec_cmd fuel dev s cmd buf len =
     rbind (nvme_admin_submit_cmd fuel (clear_status s) cmd buf len (CbPoll 0))
       (\<lambda>(ret, s). if ret \<noteq> 0 then Inr (ret, s) else nvme_admin_wait_cmd fuel dev 0 s)"

subsection \<open>Definitions: the commands\<close>

datatype nvme_feat =
    NVME_FEAT_ARBITRATION | NVME_FEAT_POWER_MANAGEMENT | NVME_FEAT_LBA_RANGE_TYPE | NVME_FEAT_TEMPERATURE_THRESHOLD
  | NVME_FEAT_ERROR_RECOVERY | NVME_FEAT_VOLATILE_WRITE_CACHE | NVME_FEAT_NUMBER_OF_QUEUES | NVME_FEAT_INTERRUPT_COALESCING
  | NVME_FEAT_INTERRUPT_VECTOR_CONFIGURATION | NVME_FEAT_WRITE_ATOMICITY | NVME_FEAT_ASYNC_EVENT_CONFIGURATION
  | NVME_FEAT_AUTONOMOUS_POWER_STATE_TRANSITION | NVME_FEAT_HOST_MEM_BUFFER | NVME_FEAT_KEEP_ALIVE_TIMER
  | NVME_FEAT_SOFTWARE_PROGRESS_MARKER | NVME_FEAT_HOST_IDENTIFIER | NVME_FEAT_HOST_RESERVE_MASK | NVME_FEAT_HOST_RESERVE_PERSIST

primrec feat_id :: "nvme_feat \<Rightarrow> u32" where
  "feat_id NVME_FEAT_ARBITRATION = 0x01"
| "feat_id NVME_FEAT_POWER_MANAGEMENT = 0x02"
| "feat_id NVME_FEAT_LBA_RANGE_TYPE = 0x03"
| "feat_id NVME_FEAT_TEMPERATURE_THRESHOLD = 0x04"
| "feat_id NVME_FEAT_ERROR_RECOVERY = 0x05"
| "feat_id NVME_FEAT_VOLATILE_WRITE_CACHE = 0x06"
| "feat_id NVME_FEAT_NUMBER_OF_QUEUES = 0x07"
| "feat_id NVME_FEAT_INTERRUPT_COALESCING = 0x08"
| "feat_id NVME_FEAT_INTERRUPT_VECTOR_CONFIGURATION = 0x09"
| "feat_id NVME_FEAT_WRITE_ATOMICITY = 0x0A"
| "feat_id NVME_FEAT_ASYNC_EVENT_CONFIGURATION = 0x0B"
| "feat_id NVME_FEAT_AUTONOMOUS_POWER_STATE_TRANSITION = 0x0C"
| "feat_id NVME_FEAT_HOST_MEM_BUFFER = 0x0D"
| "feat_id NVME_FEAT_KEEP_ALIVE_TIMER = 0x0F"
| "feat_id NVME_FEAT_SOFTWARE_PROGRESS_MARKER = 0x80"
| "feat_id NVME_FEAT_HOST_IDENTIFIER = 0x81"
| "feat_id NVME_FEAT_HOST_RESERVE_MASK = 0x82"
| "feat_id NVME_FEAT_HOST_RESERVE_PERSIST = 0x83"

datatype nvme_feat_sel = NVME_FEAT_CURRENT | NVME_FEAT_DEFAULT | NVME_FEAT_SAVED | NVME_FEAT_SUPPORTED

primrec feat_sel :: "nvme_feat_sel \<Rightarrow> u32" where
  "feat_sel NVME_FEAT_CURRENT = 0x0"
| "feat_sel NVME_FEAT_DEFAULT = 0x1"
| "feat_sel NVME_FEAT_SAVED = 0x2"
| "feat_sel NVME_FEAT_SUPPORTED = 0x3"

definition NVME_IDENTIFY_NS :: u32 where "NVME_IDENTIFY_NS = 0x00"
definition NVME_IDENTIFY_CTRLR :: u32 where "NVME_IDENTIFY_CTRLR = 0x01"
definition NVME_NS_CTRLR_ATTACH :: u32 where "NVME_NS_CTRLR_ATTACH = 0x0"
definition NVME_NS_CTRLR_DETACH :: u32 where "NVME_NS_CTRLR_DETACH = 0x1"
definition NVME_NS_MANAGEMENT_CREATE :: u32 where "NVME_NS_MANAGEMENT_CREATE = 0x0"
definition NVME_NS_MANAGEMENT_DELETE :: u32 where "NVME_NS_MANAGEMENT_DELETE = 0x1"

abbreviation admin_cmd :: "nvme_admin_opcode \<Rightarrow> nvme_cmd" where
  "admin_cmd op \<equiv> cmd_zero\<lparr>opc := admin_opc op\<rparr>"

definition nvme_admin_identify_ctrlr :: "nat \<Rightarrow> device \<Rightarrow> qctx \<Rightarrow> nat \<Rightarrow> (int \<times> qctx) res" where
  "nvme_admin_identify_ctrlr fuel dev s cdata =
     nvme_admin_exec_cmd fuel dev s ((admin_cmd NVME_OPC_IDENTIFY)\<lparr>cdw10 := NVME_IDENTIFY_CTRLR\<rparr>) (Some cdata) 4096"

text \<open>
  \<open>feature_cmd\<close> is the common end of the two feature commands; the word the device returned is stored when the command
  succeeded and the caller wants it.
\<close>

definition feature_cmd :: "nat \<Rightarrow> device \<Rightarrow> qctx \<Rightarrow> nvme_cmd \<Rightarrow> bool \<Rightarrow> ((int \<times> u32 option) \<times> qctx) res" where
  "feature_cmd fuel dev s cmd attributes =
     rbind (nvme_admin_submit_cmd fuel (clear_status s) cmd None 0 (CbPoll 0))
       (\<lambda>(ret, s). if ret \<noteq> 0 then Inr ((ret, None), s)
          else rbind (nvme_admin_wait_cmd fuel dev 0 s)
                 (\<lambda>(ret, s). Inr ((ret, if ret = 0 \<and> attributes then Some (cpl_cdw0 (poll_cpl (ct_poll s 0))) else None), s)))"

definition nvme_admin_get_feature ::
  "nat \<Rightarrow> device \<Rightarrow> qctx \<Rightarrow> nvme_feat_sel \<Rightarrow> nvme_feat \<Rightarrow> u32 \<Rightarrow> bool \<Rightarrow> ((int \<times> u32 option) \<times> qctx) res" where
  "nvme_admin_get_feature fuel dev s sel feature dw11 attributes =
     feature_cmd fuel dev s ((admin_cmd NVME_OPC_GET_FEATURES)
       \<lparr>cdw10 := push_bit 8 (feat_sel sel) OR feat_id feature, cdw11 := dw11\<rparr>) attributes"

definition nvme_admin_set_feature ::
  "nat \<Rightarrow> device \<Rightarrow> qctx \<Rightarrow> bool \<Rightarrow> nvme_feat \<Rightarrow> u32 \<Rightarrow> u32 \<Rightarrow> bool \<Rightarrow> ((int \<times> u32 option) \<times> qctx) res" where
  "nvme_admin_set_feature fuel dev s save feature dw11 dw12 attributes =
     feature_cmd fuel dev s ((admin_cmd NVME_OPC_SET_FEATURES)
       \<lparr>cdw10 := (if save then feat_id feature OR push_bit 31 1 else feat_id feature), cdw11 := dw11, cdw12 := dw12\<rparr>) attributes"

datatype nvme_io_queue_type = NVME_IO_QTYPE_INVALID | NVME_IO_SUBMISSION_QUEUE | NVME_IO_COMPLETION_QUEUE

definition create_ioq_cmd :: "'a nvme_qpair_scheme \<Rightarrow> nvme_io_queue_type \<Rightarrow> nvme_cmd option" where
  "create_ioq_cmd q io_qtype =
     (let cmd = (case io_qtype of
             NVME_IO_SUBMISSION_QUEUE \<Rightarrow>
               Some ((admin_cmd NVME_OPC_CREATE_IO_SQ)
                 \<lparr>cdw11 := push_bit 16 (ucast (qp_id q)) OR push_bit 1 (of_nat (qprio q)) OR 0x1, dptr := DptrPrp (cmd_bus_addr q) 0\<rparr>)
           | NVME_IO_COMPLETION_QUEUE \<Rightarrow>
               Some ((admin_cmd NVME_OPC_CREATE_IO_CQ)\<lparr>cdw11 := 0x1, dptr := DptrPrp (cpl_bus_addr q) 0\<rparr>)
           | NVME_IO_QTYPE_INVALID \<Rightarrow> None)
      in map_option (\<lambda>cmd. cmd\<lparr>cdw10 := push_bit 16 (of_nat (entries q) - 1) OR ucast (qp_id q)\<rparr>) cmd)"

definition nvme_admin_create_ioq ::
  "nat \<Rightarrow> device \<Rightarrow> qctx \<Rightarrow> 'a nvme_qpair_scheme \<Rightarrow> nvme_io_queue_type \<Rightarrow> (int \<times> qctx) res" where
  "nvme_admin_create_ioq fuel dev s q io_qtype =
     (case create_ioq_cmd q io_qtype of
        None \<Rightarrow> Inr (- EINVAL, s)
      | Some cmd \<Rightarrow> nvme_admin_exec_cmd fuel dev s cmd None 0)"

definition nvme_admin_delete_ioq ::
  "nat \<Rightarrow> device \<Rightarrow> qctx \<Rightarrow> 'a nvme_qpair_scheme \<Rightarrow> nvme_io_queue_type \<Rightarrow> (int \<times> qctx) res" where
  "nvme_admin_delete_ioq fuel dev s q io_qtype =
     (case io_qtype of
        NVME_IO_SUBMISSION_QUEUE \<Rightarrow>
          nvme_admin_exec_cmd fuel dev s ((admin_cmd NVME_OPC_DELETE_IO_SQ)\<lparr>cdw10 := ucast (qp_id q)\<rparr>) None 0
      | NVME_IO_COMPLETION_QUEUE \<Rightarrow>
          nvme_admin_exec_cmd fuel dev s ((admin_cmd NVME_OPC_DELETE_IO_CQ)\<lparr>cdw10 := ucast (qp_id q)\<rparr>) None 0
      | NVME_IO_QTYPE_INVALID \<Rightarrow> Inr (- EINVAL, s))"

definition nvme_admin_identify_ns :: "nat \<Rightarrow> device \<Rightarrow> qctx \<Rightarrow> u16 \<Rightarrow> nat \<Rightarrow> (int \<times> qctx) res" where
  "nvme_admin_identify_ns fuel dev s nid nsdata =
     nvme_admin_exec_cmd fuel dev s ((admin_cmd NVME_OPC_IDENTIFY)\<lparr>cdw10 := NVME_IDENTIFY_NS, nsid := ucast nid\<rparr>) (Some nsdata) 4096"

definition nvme_admin_attach_ns :: "nat \<Rightarrow> device \<Rightarrow> qctx \<Rightarrow> u32 \<Rightarrow> nat \<Rightarrow> (int \<times> qctx) res" where
  "nvme_admin_attach_ns fuel dev s nid clist =
     nvme_admin_exec_cmd fuel dev s ((admin_cmd NVME_OPC_NS_ATTACHMENT)\<lparr>nsid := nid, cdw10 := NVME_NS_CTRLR_ATTACH\<rparr>) (Some clist) 4096"

definition nvme_admin_detach_ns :: "nat \<Rightarrow> device \<Rightarrow> qctx \<Rightarrow> u32 \<Rightarrow> nat \<Rightarrow> (int \<times> qctx) res" where
  "nvme_admin_detach_ns fuel dev s nid clist =
     nvme_admin_exec_cmd fuel dev s ((admin_cmd NVME_OPC_NS_ATTACHMENT)\<lparr>nsid := nid, cdw10 := NVME_NS_CTRLR_DETACH\<rparr>) (Some clist) 4096"

definition nvme_admin_create_ns :: "nat \<Rightarrow> device \<Rightarrow> qctx \<Rightarrow> nat \<Rightarrow> ((int \<times> u32 option) \<times> qctx) res" where
  "nvme_admin_create_ns fuel dev s nsdata =
     rbind (nvme_admin_submit_cmd fuel (clear_status s)
         ((admin_cmd NVME_OPC_NS_MANAGEMENT)\<lparr>cdw10 := NVME_NS_MANAGEMENT_CREATE\<rparr>) (Some nsdata) 4096 (CbPoll 0))
       (\<lambda>(ret, s). rbind (if ret = 0 then nvme_admin_wait_cmd fuel dev 0 s else Inr (ret, s))
          (\<lambda>(ret, s). if ret \<noteq> 0 then Inr ((ret, None), s) else Inr ((0, Some (cpl_cdw0 (poll_cpl (ct_poll s 0)))), s)))"

definition nvme_admin_delete_ns :: "nat \<Rightarrow> device \<Rightarrow> qctx \<Rightarrow> u32 \<Rightarrow> (int \<times> qctx) res" where
  "nvme_admin_delete_ns fuel dev s nid =
     nvme_admin_exec_cmd fuel dev s ((admin_cmd NVME_OPC_NS_MANAGEMENT)\<lparr>cdw10 := NVME_NS_MANAGEMENT_DELETE, nsid := nid\<rparr>) None 0"

text \<open>The format and commit structures are copied as one 32-bit word.\<close>

definition nvme_admin_format_nvm :: "nat \<Rightarrow> device \<Rightarrow> qctx \<Rightarrow> u32 \<Rightarrow> u32 \<Rightarrow> (int \<times> qctx) res" where
  "nvme_admin_format_nvm fuel dev s nid format =
     nvme_admin_exec_cmd fuel dev s ((admin_cmd NVME_OPC_FORMAT_NVM)\<lparr>nsid := nid, cdw10 := format\<rparr>) None 0"

definition nvme_admin_get_log_page :: "nat \<Rightarrow> device \<Rightarrow> qctx \<Rightarrow> u8 \<Rightarrow> u32 \<Rightarrow> nat option \<Rightarrow> u32 \<Rightarrow> (int \<times> qctx) res" where
  "nvme_admin_get_log_page fuel dev s log_page nid payload payload_size =
     nvme_admin_exec_cmd fuel dev s ((admin_cmd NVME_OPC_GET_LOG_PAGE)
       \<lparr>nsid := nid, cdw10 := push_bit 16 (payload_size div 4 - 1) OR ucast log_page\<rparr>) payload payload_size"

definition nvme_admin_abort_cmd :: "nat \<Rightarrow> device \<Rightarrow> qctx \<Rightarrow> u16 \<Rightarrow> u16 \<Rightarrow> (int \<times> qctx) res" where
  "nvme_admin_abort_cmd fuel dev s cid sqid =
     nvme_admin_exec_cmd fuel dev s ((admin_cmd NVME_OPC_ABORT)\<lparr>cdw10 := push_bit 16 (ucast cid) OR ucast sqid\<rparr>) None 0"

definition nvme_admin_fw_commit :: "nat \<Rightarrow> device \<Rightarrow> qctx \<Rightarrow> u32 \<Rightarrow> (int \<times> qctx) res" where
  "nvme_admin_fw_commit fuel dev s fw_commit =
     nvme_admin_exec_cmd fuel dev s ((admin_cmd NVME_OPC_FIRMWARE_COMMIT)\<lparr>cdw10 := fw_commit\<rparr>) None 0"

definition nvme_admin_fw_image_dl :: "nat \<Rightarrow> device \<Rightarrow> qctx \<Rightarrow> nat \<Rightarrow> u32 \<Rightarrow> u32 \<Rightarrow> (int \<times> qctx) res" where
  "nvme_admin_fw_image_dl fuel dev s fw len offset =
     nvme_admin_exec_cmd fuel dev s ((admin_cmd NVME_OPC_FIRMWARE_IMAGE_DOWNLOAD)
       \<lparr>cdw10 := drop_bit 2 len - 1, cdw11 := drop_bit 2 offset\<rparr>) (Some fw) len"

subsection \<open>Submitting a command without a payload\<close>

definition submitted :: "qctx \<Rightarrow> nat \<Rightarrow> nat \<Rightarrow> nat list \<Rightarrow> qctx" where
  "submitted s r t ts =
     (let s1 = upd_req r (\<lambda>q. q\<lparr>req_cmd := (req_cmd q)\<lparr>cmd_cid := of_nat t\<rparr>\<rparr>)
                 (upd_tr t (\<lambda>x. x\<lparr>tr_req := Some r, tr_active := True\<rparr>) s)
      in s1\<lparr>free_tr := ts, outstanding_tr := t # outstanding_tr s,
            qp_cmd := (qp_cmd s)[sq_tail s := (req_cmd (req_at s r))\<lparr>cmd_cid := of_nat t\<rparr>],
            sq_tail := (sq_tail s + 1) mod entries s, doorbells := doorbells s @ [SqTail ((sq_tail s + 1) mod entries s)]\<rparr>)"

lemma submit_null:
  assumes inv: "qp_inv s [r]" and "\<not> ct_failed s" "qp_enabled s" "free_tr s = t # ts" and z: "req_payload_size (req_at s r) = 0"
  shows "nvme_qpair_submit_request (Suc (Suc n)) s r = Inr (0, submitted s r t ts)"
proof -
  define s1 where s1: "s1 = upd_req r (\<lambda>q. q\<lparr>req_cmd := (req_cmd q)\<lparr>cmd_cid := tr_cid (tr_at s t)\<rparr>\<rparr>)
      (upd_tr t (\<lambda>x. x\<lparr>tr_req := Some r\<rparr>) (s\<lparr>free_tr := ts, outstanding_tr := t # outstanding_tr s\<rparr>))"
  note q = qp_inv_exact [OF inv refl]
  note trk = trk_okD [OF qinvD(2) [OF q]]
  note ring = qinvD(1) [OF q, unfolded ring_ok_def]
  have r: "r < length (reqs s)" "req_child_reqs (req_at s r) = 0" using pool_okD(2) [OF qinvD(3) [OF q], of r] by auto
  have t: "t < trackers s" "t < length (qp_tr s)" using trk(1) trk(7) assms(4) by auto
  have "of_nat (unat (tr_cid (tr_at s t))) = tr_cid (tr_at s t)" by simp
  then have cid: "unat (tr_cid (tr_at s t)) = t" "tr_cid (tr_at s t) = of_nat t" unfolding trk(8) [OF t(1)] by simp_all
  have "req_payload_size (req_at s1 r) = 0" using r z by (simp add: s1 req_at_upd_req)
  then have b: "build_request n s1 r t = Inr (0, req_cmd (req_at s1 r), tr_at s1 t)" by (simp add: build_request_def)
  define s2 where s2: "s2 = upd_tr t (\<lambda>_. tr_at s1 t) (upd_req r (\<lambda>q. q\<lparr>req_cmd := req_cmd (req_at s1 r)\<rparr>) s1)"
  have s21: "s2 = s1" by (simp add: s2 upd_tr_def upd_req_def)
  have ex: "exec (Suc n) (SubmitLeaf r) s = rbind (nvme_qpair_submit_tracker s1 t) (\<lambda>s. Inr (0, s))"
    using exec_leaf [OF assms(4,3) s1 b s2 t(2)] by (simp add: s21)
  have calm: "calm s" using assms(3) by (simp add: calm_def)
  have e: "nvme_qpair_submit_request (Suc (Suc n)) s r = exec (Suc n) (SubmitLeaf r) s"
    using exec_check_calm [OF calm, of n] assms(2) r(2)
    by (simp add: nvme_qpair_submit_request_def submit_request_def del: exec.simps(2)) (simp add: submit_request_def)
  have nxt: "ring_next (entries s) (sq_tail s) = (sq_tail s + 1) mod entries s"
    using ring by (auto simp: ring_next_def Let_def mod_if)
  have at: "tr_req (tr_at s1 t) = Some r" "tr_cid (tr_at s1 t) = of_nat t" using t(2) cid(2) by (simp_all add: s1 upd_tr_def upd_req_def)
  have rq: "req_cmd (req_at s1 r) = (req_cmd (req_at s r))\<lparr>cmd_cid := of_nat t\<rparr>" using r(1) cid(2) by (simp add: s1 upd_tr_def upd_req_def)
  have "nvme_qpair_submit_tracker s1 t = Inr (submitted s r t ts)"
    using at rq cid t ring nxt
    by (simp add: nvme_qpair_submit_tracker_def submitted_def Let_def) (simp add: s1 upd_tr_def upd_req_def cid)
  then show ?thesis unfolding e ex by simp
qed

subsection \<open>Waiting for the completion\<close>

lemma poll_idle:
  assumes "qp_inv s []" and "qp_enabled s" and "st_p (cpl_status (qp_cpl s ! cq_head s)) \<noteq> phase s"
  shows "nvme_qpair_poll (Suc n) s m = Inr (0, s)"
proof -
  have "calm s" using assms(2) by (simp add: calm_def)
  moreover have "cq_head s < length (qp_cpl s)"
    using qinvD(1) [OF qp_inv_exact [OF assms(1) refl]] by (simp add: ring_ok_def)
  ultimately show ?thesis using assms(2,3) by (simp add: nvme_qpair_poll_def exec_check_calm Let_def del: exec.simps)
qed

lemma wait_silent:
  assumes "qp_inv s []" and "qp_enabled s" and "st_p (cpl_status (qp_cpl s ! cq_head s)) \<noteq> phase s" and "\<not> poll_done (ct_poll s 0)"
    and "\<And>i. j \<le> i \<Longrightarrow> i < j + d \<Longrightarrow> dev i s = qp_cpl s"
  shows "nvme_admin_wait_cmd (Suc (n + d)) dev j s = nvme_admin_wait_cmd (Suc n) dev (j + d) s"
  using assms(5)
proof (induction d arbitrary: j)
  case 0
  then show ?case by simp
next
  case (Suc d)
  have "dev j s = qp_cpl s" using Suc.prems by simp
  then have "nvme_admin_wait_cmd (Suc (n + Suc d)) dev j s = nvme_admin_wait_cmd (Suc (n + d)) dev (Suc j) s"
    using assms(4) poll_idle [OF assms(1-3), of "n + d"] by simp
  also have "\<dots> = nvme_admin_wait_cmd (Suc n) dev (Suc j + d) s" by (rule Suc.IH) (use Suc.prems in auto)
  finally show ?case by simp
qed

text \<open>The state after the completion of a command with the callback \<open>CbPoll 0\<close> was handled.\<close>

definition polled :: "qctx \<Rightarrow> nat \<Rightarrow> nat \<Rightarrow> nvme_cpl \<Rightarrow> qctx" where
  "polled s t r cpl =
     (let s1 = upd_tr t (\<lambda>x. x\<lparr>tr_active := False, tr_req := None\<rparr>) s
      in s1\<lparr>ct_poll := (ct_poll s)(0 := \<lparr>poll_cpl = cpl, poll_done = True\<rparr>), free_req := r # free_req s,
            outstanding_tr := remove1 t (outstanding_tr s), free_tr := t # free_tr s\<rparr>)"

lemma complete_poll:
  assumes inv: "qp_inv s []" and t: "t \<in> set (outstanding_tr s)" "tr_req (tr_at s t) = Some r" "unat (cpl_cid cpl) = t"
    and nr: "\<not> (nvme_cpl_is_error cpl \<and> nvme_qpair_completion_retry cpl \<and> req_retries (req_at s r) < NVME_MAX_RETRY_COUNT)"
    and cb: "req_cb (req_at s r) = CbPoll 0" and q: "queued_req s = []"
  shows "exec (Suc (Suc n)) (CompleteTracker t cpl) s = Inr (0, polled s t r cpl)"
proof -
  note f = outstanding_facts [OF inv t(1,2)]
  define s1 where "s1 = (upd_tr t (\<lambda>x. x\<lparr>tr_active := False\<rparr>) s)
      \<lparr>ct_poll := (ct_poll s)(0 := \<lparr>poll_cpl = cpl, poll_done = True\<rparr>), free_req := r # free_req s\<rparr>"
  have ex: "exec (Suc (Suc n)) (CompleteTracker t cpl) s = exec (Suc n) (CompleteDone t) s1"
    using nr cb t f(2,4) by (auto simp: complete_tracker_def Let_def call_cb_def nvme_request_free_def s1_def)
  have "queued_req s1 = []" "t \<notin> set (free_tr s1)" using q f(6) by (simp_all add: s1_def)
  from complete_done_idle [OF this, of n] show ?thesis
    unfolding ex using f(2) by (simp add: s1_def polled_def Let_def upd_tr_def)
qed

lemma poll_loop_one:
  assumes "cq_head s < length (qp_cpl s)" and "qp_cpl s ! cq_head s = cpl" and "st_p (cpl_status cpl) = phase s"
    and "unat (cpl_cid cpl) = t" and "t < length (qp_tr s)" and "tr_active (tr_at s t)"
    and "exec n (CompleteTracker t cpl) s = Inr (v, p)"
  shows "poll_loop (Suc n) s num m = (if num + 1 = m then Inr (num + 1, cq_advance p) else poll_loop n (cq_advance p) (num + 1) m)"
  using assms by (simp add: Let_def cq_advance_def del: exec.simps poll_loop.simps) (simp add: Let_def del: exec.simps)

lemma poll_one_cmd:
  assumes inv: "qp_inv s []" and en: "qp_enabled s" and t: "t \<in> set (outstanding_tr s)" "tr_req (tr_at s t) = Some r" "tr_active (tr_at s t)"
    and cpl: "qp_cpl s ! cq_head s = cpl" "unat (cpl_cid cpl) = t" "st_p (cpl_status cpl) = phase s"
    and nr: "\<not> (nvme_cpl_is_error cpl \<and> nvme_qpair_completion_retry cpl \<and> req_retries (req_at s r) < NVME_MAX_RETRY_COUNT)"
    and cb: "req_cb (req_at s r) = CbPoll 0" and q: "queued_req s = []" and n: "2 < entries s" and old: "\<not> new_cpl s 1"
  shows "nvme_qpair_poll (Suc (Suc (Suc n))) s 0 =
    (let s' = cq_advance (polled s t r cpl) in Inr (1, s'\<lparr>doorbells := doorbells s @ [CqHead (cq_head s')]\<rparr>))"
proof -
  note ring = qinvD(1) [OF qp_inv_exact [OF inv refl]]
  note f = outstanding_facts [OF inv t(1,2)]
  let ?p = "polled s t r cpl"
  have p: "entries ?p = entries s" "cq_head ?p = cq_head s" "phase ?p = phase s" "qp_cpl ?p = qp_cpl s" "doorbells ?p = doorbells s"
    by (simp_all add: polled_def Let_def)
  have adv: "cq_head (cq_advance ?p) = (cq_head s + 1) mod entries s" "phase (cq_advance ?p) = exp_phase s 1"
    "qp_cpl (cq_advance ?p) = qp_cpl s" "doorbells (cq_advance ?p) = doorbells s"
  proof -
    have rp: "ring_ok ?p" using ring by (simp add: ring_ok_def polled_def Let_def)
    show "cq_head (cq_advance ?p) = (cq_head s + 1) mod entries s" using cq_advance_head [OF rp] p by simp
    have "cq_head (cq_advance ?p) < entries s" using cq_advance_head [OF rp] p n by simp
    then have "phase (cq_advance ?p) = exp_phase (cq_advance ?p) 0" by (simp add: exp_phase_def) (simp add: cq_advance_def Let_def p)
    also have "\<dots> = exp_phase ?p 1" using cq_advance_next(2) [OF rp, of 0] by simp
    also have "\<dots> = exp_phase s 1" by (simp add: exp_phase_def p)
    finally show "phase (cq_advance ?p) = exp_phase s 1" .
    show "qp_cpl (cq_advance ?p) = qp_cpl s" "doorbells (cq_advance ?p) = doorbells s" using p by (simp_all add: cq_advance_def Let_def)
  qed
  have len: "length (qp_cpl s) = entries s" "cq_head s < entries s" using ring by (simp_all add: ring_ok_def)
  then have l: "cq_head s < length (qp_cpl s)" "(cq_head s + 1) mod entries s < length (qp_cpl s)" by simp_all
  have c: "exec (Suc (Suc n)) (CompleteTracker t cpl) s = Inr (0, ?p)" by (rule complete_poll [OF inv t(1,2) cpl(2) nr cb q])
  have stop: "poll_loop (Suc (Suc n)) (cq_advance ?p) 1 m = Inr (1, cq_advance ?p)" for m
    using l(2) old by (simp add: adv new_cpl_def nth_cpl_def)
  have calm: "calm s" using en by (simp add: calm_def)
  have "poll_loop (Suc (Suc (Suc n))) s 0 (entries s - 1) = Inr (1, cq_advance ?p)"
    using poll_loop_one [OF l(1) cpl(1,3,2) f(2) t(3) c, of 0 "entries s - 1"] stop [of "entries s - 1"] n
    by (simp del: exec.simps poll_loop.simps)
  then show ?thesis using n en exec_check_calm [OF calm, of "Suc (Suc n)"] adv(4)
    by (simp add: nvme_qpair_poll_def Let_def del: exec.simps)
qed

subsection \<open>A command from submission to result\<close>

lemma qp_inv_poll: "qp_inv (s\<lparr>ct_poll := f\<rparr>) H = qp_inv s H" "pending (s\<lparr>ct_poll := f\<rparr>) H = pending s H"
proof -
  show p: "pending (s\<lparr>ct_poll := f\<rparr>) H = pending s H" by (simp add: pending_def pend_def leaves_def tr_leaves_def parents_def)
  have "qinv L M G (s\<lparr>ct_poll := f\<rparr>) H [] {} = qinv L M G s H [] {}" for L M G by (rule qinv_eqI) simp_all
  then show "qp_inv (s\<lparr>ct_poll := f\<rparr>) H = qp_inv s H" using p by (simp add: qp_inv_def called_def)
qed

text \<open>The request of a command without a buffer.\<close>

definition null_payload :: nvme_payload where
  "null_payload = \<lparr>pl_contig = 0, pl_sgl = None, pl_md = None, pl_type = NVME_PAYLOAD_TYPE_CONTIG\<rparr>"

definition cmd_request :: "qctx \<Rightarrow> nvme_cmd \<Rightarrow> nat \<Rightarrow> nat list \<Rightarrow> qctx" where
  "cmd_request s cmd r rs = upd_req r (\<lambda>q. (fresh_req null_payload 0 (CbPoll 0) q)\<lparr>req_cmd := cmd\<rparr>) ((clear_status s)\<lparr>free_req := rs\<rparr>)"

lemma admin_submit_null:
  assumes "free_req s = r # rs"
  shows "nvme_admin_submit_cmd fuel (clear_status s) cmd None 0 (CbPoll 0) = nvme_qpair_submit_request fuel (cmd_request s cmd r rs) r"
proof -
  have "free_req (clear_status s) = r # rs" using assms by (simp add: clear_status_def)
  from allocate_eq [OF this] show ?thesis
    by (simp add: nvme_admin_submit_cmd_def nvme_request_allocate_null_def nvme_request_allocate_contig_def cmd_request_def
        null_payload_def upd_req_upd_req)
qed

lemma cmd_request_facts:
  assumes inv: "qp_inv s []" and fr: "free_req s = r # rs" and s1: "s1 = cmd_request s cmd r rs"
  shows "qp_inv s1 [r]" and "pending s1 [r] = pending s []" and "req_at s1 r = (fresh_req null_payload 0 (CbPoll 0) (req_at s r))\<lparr>req_cmd := cmd\<rparr>"
    and "r < length (reqs s1)" and "\<not> poll_done (ct_poll s1 0)"
proof -
  let ?s0 = "clear_status s"
  have f0: "free_req ?s0 = r # rs" "reqs ?s0 = reqs s" using fr by (simp_all add: clear_status_def)
  have i0: "qp_inv ?s0 []" "pending ?s0 [] = pending s []" using inv by (simp_all add: clear_status_def qp_inv_poll)
  have r: "r < length (reqs s)" using pool_okD(2) [OF qp_inv_pool [OF inv], of r] fr by simp
  let ?a = "upd_req r (fresh_req null_payload 0 (CbPoll 0)) (?s0\<lparr>free_req := rs\<rparr>)"
  have pl: "payload_ok (fresh_req null_payload 0 (CbPoll 0) (req_at ?s0 r))" by (simp add: payload_ok_def)
  have pc: "plain_cb (CbPoll 0)" by (simp add: plain_cb_def)
  note a = qp_inv_alloc [OF i0(1) [folded qp_invd_Nil] f0(1) pc pl refl]
  have e: "s1 = upd_req r (\<lambda>q. q\<lparr>req_cmd := cmd\<rparr>) ?a" by (simp add: s1 cmd_request_def upd_req_upd_req)
  have "core (q\<lparr>req_cmd := cmd\<rparr>) = core q" for q by (simp add: core_def)
  note u = qp_inv_upd_core [of "\<lambda>q. q\<lparr>req_cmd := cmd\<rparr>", OF this]
  show "qp_inv s1 [r]" using u(1) [OF a(1)] by (simp add: e qp_invd_Nil)
  show "pending s1 [r] = pending s []" using u(2) a(2) i0(2) by (simp add: e)
  show "req_at s1 r = (fresh_req null_payload 0 (CbPoll 0) (req_at s r))\<lparr>req_cmd := cmd\<rparr>" "r < length (reqs s1)"
    using r by (simp_all add: s1 cmd_request_def req_at_upd_req f0(2))
  show "\<not> poll_done (ct_poll s1 0)" by (simp add: s1 cmd_request_def clear_status_def)
qed

lemma cmd_request_simps [simp]:
  "qp_cmd (cmd_request s cmd r rs) = qp_cmd s" "sq_tail (cmd_request s cmd r rs) = sq_tail s" "entries (cmd_request s cmd r rs) = entries s"
  "free_tr (cmd_request s cmd r rs) = free_tr s" "outstanding_tr (cmd_request s cmd r rs) = outstanding_tr s"
  "queued_req (cmd_request s cmd r rs) = queued_req s" "qp_enabled (cmd_request s cmd r rs) = qp_enabled s"
  "ct_failed (cmd_request s cmd r rs) = ct_failed s" "qp_cpl (cmd_request s cmd r rs) = qp_cpl s" "cq_head (cmd_request s cmd r rs) = cq_head s"
  "phase (cmd_request s cmd r rs) = phase s" "free_req (cmd_request s cmd r rs) = rs" "user_calls (cmd_request s cmd r rs) = user_calls s"
  "qp_tr (cmd_request s cmd r rs) = qp_tr s" "length (reqs (cmd_request s cmd r rs)) = length (reqs s)"
  by (simp_all add: cmd_request_def clear_status_def)

lemma submitted_simps [simp]:
  "entries (submitted s r t ts) = entries s" "free_tr (submitted s r t ts) = ts" "outstanding_tr (submitted s r t ts) = t # outstanding_tr s"
  "queued_req (submitted s r t ts) = queued_req s" "qp_enabled (submitted s r t ts) = qp_enabled s"
  "ct_failed (submitted s r t ts) = ct_failed s" "qp_cpl (submitted s r t ts) = qp_cpl s" "cq_head (submitted s r t ts) = cq_head s"
  "phase (submitted s r t ts) = phase s" "free_req (submitted s r t ts) = free_req s" "user_calls (submitted s r t ts) = user_calls s"
  "ct_poll (submitted s r t ts) = ct_poll s" "sq_tail (submitted s r t ts) = (sq_tail s + 1) mod entries s"
  "qp_cmd (submitted s r t ts) = (qp_cmd s)[sq_tail s := (req_cmd (req_at s r))\<lparr>cmd_cid := of_nat t\<rparr>]"
  by (simp_all add: submitted_def Let_def)

lemma submitted_at:
  assumes "t < length (qp_tr s)" and "r < length (reqs s)"
  shows "tr_req (tr_at (submitted s r t ts) t) = Some r" "tr_active (tr_at (submitted s r t ts) t)"
    "req_cb (req_at (submitted s r t ts) r) = req_cb (req_at s r)" "req_retries (req_at (submitted s r t ts) r) = req_retries (req_at s r)"
    "length (qp_tr (submitted s r t ts)) = length (qp_tr s)"
  using assms by (simp_all add: submitted_def Let_def upd_req_def upd_tr_def)

lemma polled_simps [simp]:
  "qp_cmd (polled s t r cpl) = qp_cmd s" "sq_tail (polled s t r cpl) = sq_tail s" "entries (polled s t r cpl) = entries s"
  "cq_head (polled s t r cpl) = cq_head s" "free_req (polled s t r cpl) = r # free_req s" "free_tr (polled s t r cpl) = t # free_tr s"
  "outstanding_tr (polled s t r cpl) = remove1 t (outstanding_tr s)" "user_calls (polled s t r cpl) = user_calls s"
  "ct_poll (polled s t r cpl) 0 = \<lparr>poll_cpl = cpl, poll_done = True\<rparr>" "doorbells (polled s t r cpl) = doorbells s"
  by (simp_all add: polled_def Let_def)

lemma cq_advance_simps [simp]:
  "qp_cmd (cq_advance s) = qp_cmd s" "sq_tail (cq_advance s) = sq_tail s" "free_req (cq_advance s) = free_req s"
  "free_tr (cq_advance s) = free_tr s" "outstanding_tr (cq_advance s) = outstanding_tr s" "user_calls (cq_advance s) = user_calls s"
  "ct_poll (cq_advance s) = ct_poll s" "doorbells (cq_advance s) = doorbells s"
  by (simp_all add: cq_advance_def Let_def)

lemma qp_inv_cpl:
  assumes "qp_inv s H" and "length xs = length (qp_cpl s)"
  shows "qp_inv (s\<lparr>qp_cpl := xs\<rparr>) H" and "pending (s\<lparr>qp_cpl := xs\<rparr>) H = pending s H"
proof -
  let ?s = "s\<lparr>qp_cpl := xs\<rparr>"
  note q = qp_inv_exact [OF assms(1) refl]
  show "pending ?s H = pending s H" by (simp add: pending_def pend_def leaves_def tr_leaves_def parents_def)
  have "qinv (called s + pending s H) (called s + pending s H) Map.empty ?s H [] {}"
    by (rule qinv_cong [OF q]) (use assms(2) qinvD(1) [OF q] in \<open>auto intro: same_cores_eq simp: ring_ok_def\<close>)
  then show "qp_inv ?s H" by (rule qp_invI)
qed

text \<open>Polling once after the device has answered the command of tracker \<open>t\<close> and nothing else.\<close>

definition answer :: "nvme_cpl \<Rightarrow> qctx \<Rightarrow> qctx" where
  "answer cpl s = s\<lparr>qp_cpl := (qp_cpl s)[cq_head s := cpl]\<rparr>"

definition answered :: "nat \<Rightarrow> nat \<Rightarrow> nvme_cpl \<Rightarrow> qctx \<Rightarrow> qctx" where
  "answered t r cpl s =
     (let s' = cq_advance (polled (answer cpl s) t r cpl) in s'\<lparr>doorbells := doorbells s @ [CqHead (cq_head s')]\<rparr>)"

lemma answered_simps [simp]:
  "poll_cpl (ct_poll (answered t r cpl s) 0) = cpl" "poll_done (ct_poll (answered t r cpl s) 0)"
  "qp_cmd (answered t r cpl s) = qp_cmd s" "sq_tail (answered t r cpl s) = sq_tail s" "free_tr (answered t r cpl s) = t # free_tr s"
  "free_req (answered t r cpl s) = r # free_req s" "outstanding_tr (answered t r cpl s) = remove1 t (outstanding_tr s)"
  "user_calls (answered t r cpl s) = user_calls s"
  by (simp_all add: answered_def answer_def Let_def)

lemma poll_answer:
  assumes inv: "qp_inv s []" and en: "qp_enabled s" "\<not> ct_failed s" "queued_req s = []"
    and t: "t \<in> set (outstanding_tr s)" "tr_req (tr_at s t) = Some r" "tr_active (tr_at s t)" "req_cb (req_at s r) = CbPoll 0"
    and cpl: "unat (cpl_cid cpl) = t" "st_p (cpl_status cpl) = phase s" "\<not> (nvme_cpl_is_error cpl \<and> nvme_qpair_completion_retry cpl)"
    and n: "2 < entries s" "\<not> new_cpl s 1" and fuel: "NVME_MAX_XFER_SIZE + 20 \<le> fl"
  shows "nvme_qpair_poll fl (answer cpl s) 0 = Inr (1, answered t r cpl s)" "qp_inv (answered t r cpl s) []"
    "cq_head (answered t r cpl s) = (cq_head s + 1) mod entries s"
proof -
  let ?s = "answer cpl s"
  note ring = qinvD(1) [OF qp_inv_exact [OF inv refl], unfolded ring_ok_def]
  have i: "qp_inv ?s []" unfolding answer_def by (rule qp_inv_cpl(1) [OF inv]) simp
  have f: "qp_cpl ?s ! cq_head ?s = cpl" "cq_head ?s = cq_head s" "phase ?s = phase s" "entries ?s = entries s" "qp_enabled ?s" "\<not> ct_failed ?s"
    "queued_req ?s = []" "t \<in> set (outstanding_tr ?s)" "tr_req (tr_at ?s t) = Some r" "tr_active (tr_at ?s t)" "req_cb (req_at ?s r) = CbPoll 0"
    "doorbells ?s = doorbells s" using ring en t by (simp_all add: answer_def)
  have old: "\<not> new_cpl ?s 1"
  proof -
    have "(cq_head s + 1) mod entries s \<noteq> cq_head s" using n(1) ring by (auto simp: mod_if split: if_splits)
    then show ?thesis using n(2) by (simp add: new_cpl_def nth_cpl_def exp_phase_def answer_def)
  qed
  have nr: "\<not> (nvme_cpl_is_error cpl \<and> nvme_qpair_completion_retry cpl \<and> req_retries (req_at ?s r) < NVME_MAX_RETRY_COUNT)" using cpl(3) by blast
  define l where "l = fl - 3"
  have l: "fl = Suc (Suc (Suc l))" using fuel unfolding l_def by linarith
  have ph: "st_p (cpl_status cpl) = phase ?s" and n3: "2 < entries ?s" using cpl(2) n(1) f(3,4) by simp_all
  show p: "nvme_qpair_poll fl ?s 0 = Inr (1, answered t r cpl s)"
    unfolding l answered_def using poll_one_cmd [OF i f(5,8,9,10,1) cpl(1) ph nr f(11,7) n3 old, of l] f(12) by (simp only: Let_def)
  have "posted ?s 1" using f cpl n(1) ring outstanding_facts(1) [OF i f(8,9)]
    by (simp add: posted_def new_cpl_def nth_cpl_def exp_phase_def cpl_tr_def)
  moreover have "ct_failed ?s \<longrightarrow> queued_req ?s = []" "1 < entries ?s" "entries ?s - 1 = (if 0 = 0 \<or> 0 > entries ?s - 1 then entries ?s - 1 else 0)"
    "1 \<le> entries ?s - 1" "1 < entries ?s - 1 \<longrightarrow> \<not> new_cpl ?s 1" using f(6) n3 old by simp_all
  moreover have "NVME_MAX_XFER_SIZE + 15 + 4 * length (queued_req ?s) + 5 * 1 \<le> fl" using fuel f(7) by simp
  ultimately show "qp_inv (answered t r cpl s) []" using poll_ok [OF i f(5), of "entries ?s - 1" 0 1 fl] p by auto
  show "cq_head (answered t r cpl s) = (cq_head s + 1) mod entries s"
    using cq_advance_head [of "polled ?s t r cpl"] qinvD(1) [OF qp_inv_exact [OF i refl]] f(2,4)
    by (simp add: answered_def ring_ok_def polled_def Let_def)
qed

text \<open>
  C10. Executing an admin command without a buffer on an enabled queue pair of a controller that has not failed, with a free tracker and a
  free request: if the device stays silent for \<open>k\<close> polls and then completes the command with any status that is not retried, the call
  returns 0 for a success status and \<open>-ENXIO\<close> for an error status. The command was written to the slot at the tail of the submission queue with
  the identifier of its tracker, tracker and request are free again, no callback of the user was called, and the invariant holds.
\<close>

theorem admin_exec_returns:
  assumes inv: "qp_inv s []" and en: "qp_enabled s" "\<not> ct_failed s" "queued_req s = []" and fr: "free_tr s = t # ts" "free_req s = r # rs"
    and n: "2 < entries s" "\<not> new_cpl s 0" "\<not> new_cpl s 1"
    and dev: "\<And>i q. i < k \<Longrightarrow> dev i q = qp_cpl q" "\<And>q. dev k q = (qp_cpl q)[cq_head q := cpl]"
    and cpl: "unat (cpl_cid cpl) = t" "st_p (cpl_status cpl) = phase s" "\<not> (nvme_cpl_is_error cpl \<and> nvme_qpair_completion_retry cpl)"
    and fuel: "2 * NVME_MAX_XFER_SIZE + 50 + 5 * length (outstanding_tr s) + k \<le> fuel"
  shows "\<exists>s'. nvme_admin_exec_cmd fuel dev s cmd None 0 = Inr (if nvme_cpl_is_error cpl then - ENXIO else 0, s')
    \<and> qp_cmd s' = (qp_cmd s)[sq_tail s := cmd\<lparr>cmd_cid := of_nat t\<rparr>] \<and> sq_tail s' = (sq_tail s + 1) mod entries s
    \<and> cq_head s' = (cq_head s + 1) mod entries s \<and> free_tr s' = t # ts \<and> free_req s' = r # rs
    \<and> outstanding_tr s' = outstanding_tr s \<and> user_calls s' = user_calls s \<and> qp_inv s' []"
proof -
  define s1 where "s1 = cmd_request s cmd r rs"
  note c1 = cmd_request_facts [OF inv fr(2) s1_def]
  note ring = qinvD(1) [OF qp_inv_exact [OF inv refl], unfolded ring_ok_def]
  define s2 where "s2 = submitted s1 r t ts"
  have f1: "free_tr s1 = t # ts" "qp_enabled s1" "\<not> ct_failed s1" "req_payload_size (req_at s1 r) = 0" using fr en c1(3) by (simp_all add: s1_def)
  define m where "m = fuel - 2"
  have m: "fuel = Suc (Suc m)" using fuel unfolding m_def by linarith
  have sub: "nvme_qpair_submit_request fuel s1 r = Inr (0, s2)" unfolding m s2_def by (rule submit_null [OF c1(1) f1(3,2,1,4)])
  have i2: "qp_inv s2 []"
    using submit_ok [OF c1(1) f1(3), of fuel] sub f1(2) fuel en(3) by (auto simp: s1_def)
  have tt: "t < length (qp_tr s1)" using trk_okD(1,7) [OF qinvD(2) [OF qp_inv_exact [OF c1(1) refl]]] f1(1) by simp
  note at2 = submitted_at [OF tt c1(4), of ts, folded s2_def]
  have f2: "qp_cpl s2 = qp_cpl s" "cq_head s2 = cq_head s" "phase s2 = phase s" "entries s2 = entries s" "qp_enabled s2" "\<not> ct_failed s2"
    "queued_req s2 = []" "\<not> poll_done (ct_poll s2 0)" "outstanding_tr s2 = t # outstanding_tr s" "free_tr s2 = ts" "free_req s2 = rs"
    "user_calls s2 = user_calls s" "sq_tail s2 = (sq_tail s + 1) mod entries s" "qp_cmd s2 = (qp_cmd s)[sq_tail s := cmd\<lparr>cmd_cid := of_nat t\<rparr>]"
    using en c1(3,5) by (simp_all add: s2_def s1_def)
  have sil: "st_p (cpl_status (qp_cpl s2 ! cq_head s2)) \<noteq> phase s2" using n(2) ring by (simp add: f2 new_cpl_def nth_cpl_def exp_phase_def)
  define fl where "fl = fuel - k - 1"
  have fl: "fuel = Suc (fl + k)" using fuel by (simp add: fl_def)
  have w1: "nvme_admin_wait_cmd fuel dev 0 s2 = nvme_admin_wait_cmd (Suc fl) dev k s2"
    unfolding fl using wait_silent [OF i2 f2(5) sil f2(8), of 0 k dev fl] dev(1) by simp
  have old: "\<not> new_cpl s2 1" using n(3) by (simp add: new_cpl_def nth_cpl_def exp_phase_def f2)
  have ph: "st_p (cpl_status cpl) = phase s2" "2 < entries s2" "t \<in> set (outstanding_tr s2)" "req_cb (req_at s2 r) = CbPoll 0"
    using cpl(2) n(1) f2 at2(3) c1(3) by simp_all
  have "NVME_MAX_XFER_SIZE + 20 \<le> fl" using fuel by (simp add: fl_def)
  note p = poll_answer [OF i2 f2(5-7) ph(3) at2(1,2) ph(4) cpl(1) ph(1) cpl(3) ph(2) old this]
  have w2: "nvme_admin_wait_cmd (Suc fl) dev k s2 = nvme_admin_wait_cmd fl dev (Suc k) (answered t r cpl s2)"
    using f2(8) dev(2) p(1) by (simp add: answer_def)
  define l where "l = fl - 1"
  have l: "fl = Suc l" using fuel unfolding l_def fl_def by linarith
  have w3: "nvme_admin_wait_cmd fl dev (Suc k) (answered t r cpl s2) = Inr (if nvme_cpl_is_error cpl then - ENXIO else 0, answered t r cpl s2)"
    unfolding l by (simp only: nvme_admin_wait_cmd.simps answered_simps if_True)
  have "nvme_admin_exec_cmd fuel dev s cmd None 0 = Inr (if nvme_cpl_is_error cpl then - ENXIO else 0, answered t r cpl s2)"
    using sub w1 w2 w3 by (simp add: nvme_admin_exec_cmd_def admin_submit_null [OF fr(2)] s1_def)
  then show ?thesis using p(2,3) by (simp add: f2)
qed

subsection \<open>Witness\<close>

definition ex_silent :: qctx where
  "ex_silent = (ex_qp ex_reqs [2])\<lparr>qp_cpl := replicate 4 cpl_zero\<rparr>"

definition ex_reply :: nvme_cpl where
  "ex_reply = cpl_zero\<lparr>cpl_cid := 1, cpl_status := \<lparr>st_p = True, st_sc = 0x02, st_sct = 0, st_m = False, st_dnr = False\<rparr>\<rparr>"

definition ex_dev :: device where
  "ex_dev i q = (if i < 3 then qp_cpl q else (qp_cpl q)[cq_head q := ex_reply])"

theorem admin_exec_returns_witness:
  "\<exists>s'. nvme_admin_exec_cmd (2 * NVME_MAX_XFER_SIZE + 60) ex_dev ex_silent (admin_cmd NVME_OPC_ABORT) None 0 = Inr (- ENXIO, s')
    \<and> qp_cmd s' = (replicate 4 cmd_zero)[3 := (admin_cmd NVME_OPC_ABORT)\<lparr>cmd_cid := 1\<rparr>] \<and> qp_inv s' []"
proof -
  have i: "qp_inv ex_silent []" unfolding ex_silent_def by (rule qp_inv_cpl(1) [OF ex_qp_inv(1)]) simp
  have f: "qp_enabled ex_silent" "\<not> ct_failed ex_silent" "queued_req ex_silent = []" "free_tr ex_silent = 1 # []" "free_req ex_silent = 2 # []"
    "2 < entries ex_silent" by (simp_all add: ex_silent_def)
  have o: "\<not> new_cpl ex_silent 0" "\<not> new_cpl ex_silent 1"
    by (simp_all add: ex_silent_def new_cpl_def nth_cpl_def exp_phase_def cpl_zero_def)
  have d: "i < 3 \<Longrightarrow> ex_dev i q = qp_cpl q" "ex_dev 3 q = (qp_cpl q)[cq_head q := ex_reply]" for i q by (simp_all add: ex_dev_def)
  have c: "unat (cpl_cid ex_reply) = 1" "st_p (cpl_status ex_reply) = phase ex_silent"
    "\<not> (nvme_cpl_is_error ex_reply \<and> nvme_qpair_completion_retry ex_reply)" "nvme_cpl_is_error ex_reply"
    by (simp_all add: ex_reply_def ex_silent_def nvme_cpl_is_error_def nvme_qpair_completion_retry_def status_defs)
  have n: "2 * NVME_MAX_XFER_SIZE + 50 + 5 * length (outstanding_tr ex_silent) + 3 \<le> 2 * NVME_MAX_XFER_SIZE + 60" by (simp add: ex_silent_def)
  from admin_exec_returns [where s = ex_silent and dev = ex_dev and k = 3 and cpl = ex_reply and cmd = "admin_cmd NVME_OPC_ABORT", OF i f o d c(1-3) n] c(4) show ?thesis by (auto simp: ex_silent_def)
qed


end
