(* ===== verification/Nvme_Regs.thy ===== *)
theory Nvme_Regs
  imports Nvme_Admin
begin

text \<open>
  The controller registers and the data structures of a controller (\<^verbatim>\<open>include/libnvme/nvme_spec.h\<close>,
  \<^verbatim>\<open>lib/nvme/nvme_internal.h\<close>): the bit-fields of the registers with the laws of reading and writing them,
  the identification data, and the record of a controller with its environment.

  The fields of a register are named by a datatype, and a layout gives the lowest bit and the width of each.
\<close>

subsection \<open>Bit-fields\<close>

type_synonym field_pos = "nat \<times> nat"

definition bf_get :: "field_pos \<Rightarrow> 'a::len word \<Rightarrow> 'a word" where
  "bf_get p raw = take_bit (snd p) (drop_bit (fst p) raw)"

definition bf_set :: "field_pos \<Rightarrow> 'a::len word \<Rightarrow> 'a word \<Rightarrow> 'a word" where
  "bf_set p v raw = (raw AND NOT (push_bit (fst p) (Bit_Operations.mask (snd p)))) OR push_bit (fst p) (take_bit (snd p) v)"

definition disjoint_pos :: "field_pos \<Rightarrow> field_pos \<Rightarrow> bool" where
  "disjoint_pos p q \<longleftrightarrow> fst p + snd p \<le> fst q \<or> fst q + snd q \<le> fst p"

lemma bit_bf_get: "bit (bf_get p w) i \<longleftrightarrow> i < snd p \<and> bit w (fst p + i)"
  by (simp add: bf_get_def bit_take_bit_iff bit_drop_bit_eq)

lemma bit_bf_set:
  fixes w :: "'a::len word"
  assumes "fst p + snd p \<le> LENGTH('a)"
  shows "bit (bf_set p v w) i \<longleftrightarrow> (if fst p \<le> i \<and> i < fst p + snd p then bit v (i - fst p) else bit w i)"
  using assms
  by (cases "i < LENGTH('a)")
     (auto simp: bf_set_def bit_or_iff bit_and_iff bit_not_iff bit_push_bit_iff bit_mask_iff bit_take_bit_iff dest: bit_imp_le_length)

lemma bf_get_set:
  fixes w :: "'a::len word"
  assumes "fst p + snd p \<le> LENGTH('a)"
  shows "bf_get p (bf_set p v w) = take_bit (snd p) v"
  by (rule bit_eqI) (auto simp: bit_bf_get bit_bf_set [OF assms] bit_take_bit_iff)

lemma bf_get_set_other:
  fixes w :: "'a::len word"
  assumes "fst p + snd p \<le> LENGTH('a)" and "disjoint_pos p q"
  shows "bf_get q (bf_set p v w) = bf_get q w"
  using assms(2) by (intro bit_eqI) (auto simp: bit_bf_get bit_bf_set [OF assms(1)] disjoint_pos_def)

lemma bf_get_less:
  fixes w :: "'a::len word"
  assumes "snd p < LENGTH('a)"
  shows "unat (bf_get p w) < 2 ^ snd p"
  by (simp add: bf_get_def unsigned_take_bit_eq)

text \<open>A layout whose fields lie in the register and apart from each other.\<close>

locale register_layout =
  fixes pos :: "'f \<Rightarrow> field_pos" and width :: nat
  assumes pos_fits: "fst (pos f) + snd (pos f) \<le> width"
    and pos_disjoint: "f \<noteq> g \<Longrightarrow> disjoint_pos (pos f) (pos g)"
begin

lemma get_set:
  fixes w :: "'a::len word"
  assumes "LENGTH('a) = width"
  shows "bf_get (pos f) (bf_set (pos g) v w) = (if f = g then take_bit (snd (pos g)) v else bf_get (pos f) w)"
  using pos_fits [of g] pos_disjoint [of g f] assms by (simp add: bf_get_set bf_get_set_other)

lemma set_outside:
  fixes w :: "'a::len word"
  assumes "LENGTH('a) = width" and "i < fst (pos f) \<or> fst (pos f) + snd (pos f) \<le> i"
  shows "bit (bf_set (pos f) v w) i = bit w i"
  using pos_fits [of f] assms by (auto simp: bit_bf_set)

end

subsection \<open>Register layouts\<close>

datatype cap_field =
    CAP_MQES | CAP_CQR | CAP_AMS | CAP_TO | CAP_DSTRD | CAP_NSSRS | CAP_CSS_NVM | CAP_MPSMIN | CAP_MPSMAX

primrec nvme_cap_register :: "cap_field \<Rightarrow> field_pos" where
  "nvme_cap_register CAP_MQES = (0, 16)"
| "nvme_cap_register CAP_CQR = (16, 1)"
| "nvme_cap_register CAP_AMS = (17, 2)"
| "nvme_cap_register CAP_TO = (24, 8)"
| "nvme_cap_register CAP_DSTRD = (32, 4)"
| "nvme_cap_register CAP_NSSRS = (36, 1)"
| "nvme_cap_register CAP_CSS_NVM = (37, 1)"
| "nvme_cap_register CAP_MPSMIN = (48, 4)"
| "nvme_cap_register CAP_MPSMAX = (52, 4)"

datatype cc_field = CC_EN | CC_CSS | CC_MPS | CC_AMS | CC_SHN | CC_IOSQES | CC_IOCQES

primrec nvme_cc_register :: "cc_field \<Rightarrow> field_pos" where
  "nvme_cc_register CC_EN = (0, 1)"
| "nvme_cc_register CC_CSS = (4, 3)"
| "nvme_cc_register CC_MPS = (7, 4)"
| "nvme_cc_register CC_AMS = (11, 3)"
| "nvme_cc_register CC_SHN = (14, 2)"
| "nvme_cc_register CC_IOSQES = (16, 4)"
| "nvme_cc_register CC_IOCQES = (20, 4)"

datatype csts_field = CSTS_RDY | CSTS_CFS | CSTS_SHST

primrec nvme_csts_register :: "csts_field \<Rightarrow> field_pos" where
  "nvme_csts_register CSTS_RDY = (0, 1)"
| "nvme_csts_register CSTS_CFS = (1, 1)"
| "nvme_csts_register CSTS_SHST = (2, 2)"

datatype aqa_field = AQA_ASQS | AQA_ACQS

primrec nvme_aqa_register :: "aqa_field \<Rightarrow> field_pos" where
  "nvme_aqa_register AQA_ASQS = (0, 12)"
| "nvme_aqa_register AQA_ACQS = (16, 12)"

datatype cmbloc_field = CMBLOC_BIR | CMBLOC_OFST

primrec nvme_cmbloc_register :: "cmbloc_field \<Rightarrow> field_pos" where
  "nvme_cmbloc_register CMBLOC_BIR = (0, 3)"
| "nvme_cmbloc_register CMBLOC_OFST = (12, 20)"

datatype cmbsz_field = CMBSZ_SQS | CMBSZ_CQS | CMBSZ_LISTS | CMBSZ_RDS | CMBSZ_WDS | CMBSZ_SZU | CMBSZ_SZ

primrec nvme_cmbsz_register :: "cmbsz_field \<Rightarrow> field_pos" where
  "nvme_cmbsz_register CMBSZ_SQS = (0, 1)"
| "nvme_cmbsz_register CMBSZ_CQS = (1, 1)"
| "nvme_cmbsz_register CMBSZ_LISTS = (2, 1)"
| "nvme_cmbsz_register CMBSZ_RDS = (3, 1)"
| "nvme_cmbsz_register CMBSZ_WDS = (4, 1)"
| "nvme_cmbsz_register CMBSZ_SZU = (8, 4)"
| "nvme_cmbsz_register CMBSZ_SZ = (12, 20)"

interpretation cap: register_layout nvme_cap_register 64
proof
  show "fst (nvme_cap_register f) + snd (nvme_cap_register f) \<le> 64" for f by (cases f) simp_all
  show "f \<noteq> g \<Longrightarrow> disjoint_pos (nvme_cap_register f) (nvme_cap_register g)" for f g
    by (cases f; cases g) (simp_all add: disjoint_pos_def)
qed

interpretation cc: register_layout nvme_cc_register 32
proof
  show "fst (nvme_cc_register f) + snd (nvme_cc_register f) \<le> 32" for f by (cases f) simp_all
  show "f \<noteq> g \<Longrightarrow> disjoint_pos (nvme_cc_register f) (nvme_cc_register g)" for f g
    by (cases f; cases g) (simp_all add: disjoint_pos_def)
qed

interpretation csts: register_layout nvme_csts_register 32
proof
  show "fst (nvme_csts_register f) + snd (nvme_csts_register f) \<le> 32" for f by (cases f) simp_all
  show "f \<noteq> g \<Longrightarrow> disjoint_pos (nvme_csts_register f) (nvme_csts_register g)" for f g
    by (cases f; cases g) (simp_all add: disjoint_pos_def)
qed

interpretation aqa: register_layout nvme_aqa_register 32
proof
  show "fst (nvme_aqa_register f) + snd (nvme_aqa_register f) \<le> 32" for f by (cases f) simp_all
  show "f \<noteq> g \<Longrightarrow> disjoint_pos (nvme_aqa_register f) (nvme_aqa_register g)" for f g
    by (cases f; cases g) (simp_all add: disjoint_pos_def)
qed

interpretation cmbloc: register_layout nvme_cmbloc_register 32
proof
  show "fst (nvme_cmbloc_register f) + snd (nvme_cmbloc_register f) \<le> 32" for f by (cases f) simp_all
  show "f \<noteq> g \<Longrightarrow> disjoint_pos (nvme_cmbloc_register f) (nvme_cmbloc_register g)" for f g
    by (cases f; cases g) (simp_all add: disjoint_pos_def)
qed

interpretation cmbsz: register_layout nvme_cmbsz_register 32
proof
  show "fst (nvme_cmbsz_register f) + snd (nvme_cmbsz_register f) \<le> 32" for f by (cases f) simp_all
  show "f \<noteq> g \<Longrightarrow> disjoint_pos (nvme_cmbsz_register f) (nvme_cmbsz_register g)" for f g
    by (cases f; cases g) (simp_all add: disjoint_pos_def)
qed

abbreviation cap_bits :: "u64 \<Rightarrow> cap_field \<Rightarrow> u64" where "cap_bits raw f \<equiv> bf_get (nvme_cap_register f) raw"
abbreviation cc_bits :: "u32 \<Rightarrow> cc_field \<Rightarrow> u32" where "cc_bits raw f \<equiv> bf_get (nvme_cc_register f) raw"
abbreviation cc_put :: "cc_field \<Rightarrow> u32 \<Rightarrow> u32 \<Rightarrow> u32" where "cc_put f v raw \<equiv> bf_set (nvme_cc_register f) v raw"
abbreviation csts_bits :: "u32 \<Rightarrow> csts_field \<Rightarrow> u32" where "csts_bits raw f \<equiv> bf_get (nvme_csts_register f) raw"
abbreviation aqa_bits :: "u32 \<Rightarrow> aqa_field \<Rightarrow> u32" where "aqa_bits raw f \<equiv> bf_get (nvme_aqa_register f) raw"
abbreviation aqa_put :: "aqa_field \<Rightarrow> u32 \<Rightarrow> u32 \<Rightarrow> u32" where "aqa_put f v raw \<equiv> bf_set (nvme_aqa_register f) v raw"
abbreviation cmbloc_bits :: "u32 \<Rightarrow> cmbloc_field \<Rightarrow> u32" where "cmbloc_bits raw f \<equiv> bf_get (nvme_cmbloc_register f) raw"
abbreviation cmbsz_bits :: "u32 \<Rightarrow> cmbsz_field \<Rightarrow> u32" where "cmbsz_bits raw f \<equiv> bf_get (nvme_cmbsz_register f) raw"

subsection \<open>Identification data\<close>

text \<open>
  The fields of the identification structures that the library reads; the others are copied to the user only.
\<close>

record nvme_ctrlr_data =
  cd_vid :: u16
  cd_sn :: "u8 list"
  cd_mn :: "u8 list"
  cd_mdts :: u8
  cd_aerl :: u8
  cd_lpa_celp :: bool
  cd_apsta_supported :: bool
  cd_hmpre :: u32
  cd_nn :: u32
  cd_oncs_dsm :: bool
  cd_oncs_write_zeroes :: bool
  cd_vwc_present :: bool
  cd_sgls_supported :: bool
  cd_vs :: "nat \<Rightarrow> u8"

record nvme_lbaf =
  lbaf_ms :: u16
  lbaf_lbads :: u8

record nvme_ns_data =
  nd_nsze :: u64
  nd_flbas_format :: "4 word"
  nd_flbas_extended :: bool
  nd_dps_pit :: "3 word"
  nd_nsrescap :: u8
  nd_lbaf :: "4 word \<Rightarrow> nvme_lbaf"

record nvme_intel_log_page_dir =
  ld_read_latency_log_len :: u8
  ld_write_latency_log_len :: u8
  ld_temperature_statistics_log_len :: u8
  ld_smart_log_len :: u8
  ld_marketing_description_log_len :: u8

datatype nvme_cc_ams = NVME_CC_AMS_RR | NVME_CC_AMS_WRR | NVME_CC_AMS_VS | NVME_CC_AMS_OTHER u32

primrec ams_code :: "nvme_cc_ams \<Rightarrow> u32" where
  "ams_code NVME_CC_AMS_RR = 0x0"
| "ams_code NVME_CC_AMS_WRR = 0x1"
| "ams_code NVME_CC_AMS_VS = 0x7"
| "ams_code (NVME_CC_AMS_OTHER v) = v"

definition NVME_CAP_AMS_WRR :: u64 where "NVME_CAP_AMS_WRR = 0x1"
definition NVME_CAP_AMS_VS :: u64 where "NVME_CAP_AMS_VS = 0x2"
definition NVME_SHN_NORMAL :: u32 where "NVME_SHN_NORMAL = 0x1"
definition NVME_SHST_COMPLETE :: u32 where "NVME_SHST_COMPLETE = 0x2"

record nvme_ctrlr_opts =
  opt_io_queues :: u32
  opt_use_cmb_sqs :: bool
  opt_arb_mechanism :: nvme_cc_ams

subsection \<open>Controllers\<close>

datatype nvme_ctrlr_state =
    NVME_CTRLR_STATE_INIT
  | NVME_CTRLR_STATE_DISABLE_WAIT_FOR_READY_1
  | NVME_CTRLR_STATE_DISABLE_WAIT_FOR_READY_0
  | NVME_CTRLR_STATE_ENABLE_WAIT_FOR_READY_1
  | NVME_CTRLR_STATE_READY

text \<open>The registers the host writes or that do not change; CSTS, which the device writes, is read through the environment.\<close>

record nvme_registers =
  r_cap :: u64
  r_cc :: u32
  r_aqa :: u32
  r_asq :: u64
  r_acq :: u64
  r_cmbloc :: u32
  r_cmbsz :: u32

text \<open>
  A controller. Its registers are those behind \<^verbatim>\<open>regs\<close>, and \<open>c_regs\<close> tells whether they are mapped; queue pairs are elements of \<open>ioq\<close> (\<open>None\<close> while the array is not allocated), and the two lists of queue pairs
  hold indices; \<open>nsdata\<close> is the address and the content of its array. The last fields are no fields of the C structure: the state of the commands that are polled for, the address
  translation, the logs of the callbacks and doorbells, the command word of the PCI configuration space, and the number of
  answers of the environment used so far.
\<close>

record nvme_ctrlr = nvme_registers +
  c_regs :: bool
  ioq :: "nvme_qpair list option"
  io_queues :: nat
  max_io_queues :: nat
  enabled_io_qpairs :: int
  io_qpairs_max_entries :: nat
  nr_ns :: nat
  c_ns :: "nvme_ns list option"
  resetting :: bool
  failed :: bool
  sgl_supported :: bool
  c_state :: nvme_ctrlr_state
  state_timeout_ms :: u64
  log_page_supported :: "bool list"
  feature_supported :: "bool list"
  max_xfer_size :: u32
  min_page_size :: u32
  doorbell_stride_u32 :: u32
  num_aers :: nat
  c_aer :: "nvme_async_event_request list"
  aer_cb :: bool
  adminq :: nvme_qpair
  cdata :: nvme_ctrlr_data
  nsdata :: "(nat \<times> nvme_ns_data list) option"
  free_io_qpairs :: "nat list"
  active_io_qpairs :: "nat list"
  c_opts :: nvme_ctrlr_opts
  cmb_bar_virt_addr :: "nat option"
  cmb_bar_phys_addr :: u64
  cmb_size :: u64
  cmb_current_offset :: u64
  quirks :: u32
  c_poll :: "nat \<Rightarrow> nvme_completion_poll_status"
  c_vtophys :: "nat \<Rightarrow> u64"
  c_user_calls :: "(nat \<times> nvme_cpl) list"
  c_aer_calls :: "nvme_cpl list"
  c_doorbells :: "u16 \<Rightarrow> doorbell list"
  pci_command :: u32
  c_tick :: nat

text \<open>
  The environment: what the device, the operating system and the PCI library answer. Answers that may change from one call
  to the next are functions of the number of answers used before; the value of CSTS depends on CC too.
\<close>

record ctrlr_env =
  hw_csts :: "nat \<Rightarrow> u32 \<Rightarrow> u32"
  hw_dev :: device
  hw_identify :: "nat \<Rightarrow> nvme_ctrlr_data"
  hw_ns_data :: "nat \<Rightarrow> nvme_ns_data"
  hw_log_dir :: "nat \<Rightarrow> nvme_intel_log_page_dir"
  os_time :: "nat \<Rightarrow> u64"
  os_calloc :: "nat \<Rightarrow> bool"
  os_alloc :: "nat \<Rightarrow> nat option"
  os_qpair :: "nat \<Rightarrow> qpair_env"
  cdata_addr :: nat
  pci_devid :: u32
  pci_bar :: "u32 \<Rightarrow> u64 \<times> u64"
  pci_map_bar :: "nat \<Rightarrow> int \<times> nat option"
  pci_unmap_bar :: "nat \<Rightarrow> int"

definition next_tick :: "nvme_ctrlr \<Rightarrow> nvme_ctrlr" where
  "next_tick c = c\<lparr>c_tick := Suc (c_tick c)\<rparr>"

subsection \<open>Queue pair calls of a controller\<close>

text \<open>
  The operations of a queue pair run on its record extended with what they use of the controller; \<open>store_qp\<close> writes the
  changes of the controller back.
\<close>

definition load_qp :: "nvme_ctrlr \<Rightarrow> nvme_qpair \<Rightarrow> qctx" where
  "load_qp c q = nvme_qpair.extend q (qctx.fields (failed c) (resetting c) (sgl_supported c) (enabled_io_qpairs c) (c_aer c)
     (aer_cb c) (c_poll c) (c_vtophys c) (c_user_calls c) (c_aer_calls c) (c_doorbells c (qp_id q)))"

definition store_qp :: "nvme_ctrlr \<Rightarrow> qctx \<Rightarrow> nvme_ctrlr" where
  "store_qp c s = c\<lparr>failed := ct_failed s, resetting := ct_resetting s, enabled_io_qpairs := ct_enabled_io_qpairs s,
     c_aer := ct_aer s, c_poll := ct_poll s, c_user_calls := user_calls s, c_aer_calls := aer_calls s,
     c_doorbells := (c_doorbells c)(qp_id s := doorbells s)\<rparr>"

definition on_adminq :: "nvme_ctrlr \<Rightarrow> (qctx \<Rightarrow> ('a \<times> qctx) res) \<Rightarrow> ('a \<times> nvme_ctrlr) res" where
  "on_adminq c f = rbind (f (load_qp c (adminq c))) (\<lambda>(v, s). Inr (v, (store_qp c s)\<lparr>adminq := nvme_qpair.truncate s\<rparr>))"

definition on_ioq :: "nvme_ctrlr \<Rightarrow> nat \<Rightarrow> (qctx \<Rightarrow> ('a \<times> qctx) res) \<Rightarrow> ('a \<times> nvme_ctrlr) res" where
  "on_ioq c i f =
     (case ioq c of
        None \<Rightarrow> Inl BadAccess
      | Some qs \<Rightarrow>
          if length qs \<le> i then Inl BadAccess
          else rbind (f (load_qp c (qs ! i)))
                 (\<lambda>(v, s). Inr (v, (store_qp c s)\<lparr>ioq := Some (qs[i := nvme_qpair.truncate s])\<rparr>)))"

definition ioq_at :: "nvme_ctrlr \<Rightarrow> nat \<Rightarrow> nvme_qpair res" where
  "ioq_at c i = (case ioq c of None \<Rightarrow> Inl BadAccess | Some qs \<Rightarrow> if length qs \<le> i then Inl BadAccess else Inr (qs ! i))"

definition set_ioq :: "nat \<Rightarrow> nvme_qpair \<Rightarrow> nvme_ctrlr \<Rightarrow> nvme_ctrlr" where
  "set_ioq i q c = c\<lparr>ioq := map_option (\<lambda>qs. qs[i := q]) (ioq c)\<rparr>"

lemma load_store_simps [simp]:
  "nvme_qpair.truncate (load_qp c q) = q" "ct_failed (load_qp c q) = failed c" "ct_resetting (load_qp c q) = resetting c"
  by (simp_all add: load_qp_def nvme_qpair.defs qctx.defs)

end
