(* ===== verification/Nvme_Quirks.thy ===== *)
theory Nvme_Quirks
  imports Nvme_Prelude
begin

text \<open>
  Devices that need special treatment (\<^verbatim>\<open>lib/nvme/nvme_quirks.c\<close>): the table of PCI identifiers with the quirks of each,
  searched in order until the entry with vendor 0.
\<close>

subsection \<open>Definitions\<close>

definition NVME_PCI_ANY_ID :: u16 where "NVME_PCI_ANY_ID = 0xffff"
definition NVME_PCI_VID_INTEL :: u16 where "NVME_PCI_VID_INTEL = 0x8086"
definition NVME_PCI_VID_MEMBLAZE :: u16 where "NVME_PCI_VID_MEMBLAZE = 0x1c5f"

definition NVME_INTEL_QUIRK_READ_LATENCY :: u32 where "NVME_INTEL_QUIRK_READ_LATENCY = 0x1"
definition NVME_INTEL_QUIRK_WRITE_LATENCY :: u32 where "NVME_INTEL_QUIRK_WRITE_LATENCY = 0x2"
definition NVME_QUIRK_DELAY_BEFORE_CHK_RDY :: u32 where "NVME_QUIRK_DELAY_BEFORE_CHK_RDY = 0x4"
definition NVME_QUIRK_DELAY_AFTER_RDY :: u32 where "NVME_QUIRK_DELAY_AFTER_RDY = 0x8"

lemmas quirk_defs = NVME_PCI_ANY_ID_def NVME_PCI_VID_INTEL_def NVME_PCI_VID_MEMBLAZE_def NVME_INTEL_QUIRK_READ_LATENCY_def
  NVME_INTEL_QUIRK_WRITE_LATENCY_def NVME_QUIRK_DELAY_BEFORE_CHK_RDY_def NVME_QUIRK_DELAY_AFTER_RDY_def

record pci_id =
  vendor_id :: u16
  device_id :: u16
  subvendor_id :: u16
  subdevice_id :: u16

abbreviation pci_id_of :: "u16 \<Rightarrow> u16 \<Rightarrow> u16 \<Rightarrow> u16 \<Rightarrow> pci_id" where
  "pci_id_of v d sv sd \<equiv> \<lparr>vendor_id = v, device_id = d, subvendor_id = sv, subdevice_id = sd\<rparr>"

text \<open>The device of the PCI library: its identifiers, class and place on the bus.\<close>

record pci_device = pci_id +
  device_class :: u32
  revision :: u8
  pci_domain :: u32
  pci_bus :: u32
  pci_dev :: u32
  pci_func :: u32

record nvme_quirk =
  quirk_id :: pci_id
  quirk_flags :: u32

definition latency_quirk :: "u16 \<Rightarrow> nvme_quirk" where
  "latency_quirk sd = \<lparr>quirk_id = pci_id_of NVME_PCI_VID_INTEL 0x0953 NVME_PCI_VID_INTEL sd,
     quirk_flags = NVME_INTEL_QUIRK_READ_LATENCY OR NVME_INTEL_QUIRK_WRITE_LATENCY\<rparr>"

definition nvme_quirks :: "nvme_quirk list" where
  "nvme_quirks =
     [latency_quirk 0x3702, latency_quirk 0x3703, latency_quirk 0x3704, latency_quirk 0x3705, latency_quirk 0x3709,
      latency_quirk 0x370a,
      \<lparr>quirk_id = pci_id_of NVME_PCI_VID_MEMBLAZE 0x0540 NVME_PCI_ANY_ID NVME_PCI_ANY_ID,
       quirk_flags = NVME_QUIRK_DELAY_BEFORE_CHK_RDY\<rparr>,
      \<lparr>quirk_id = pci_id_of NVME_PCI_VID_INTEL 0x0953 NVME_PCI_VID_INTEL 0x370d, quirk_flags = NVME_QUIRK_DELAY_AFTER_RDY\<rparr>,
      \<lparr>quirk_id = pci_id_of 0 0 0 0, quirk_flags = 0\<rparr>]"

definition nvme_quirks_pci_id_match :: "pci_id \<Rightarrow> 'a pci_id_scheme \<Rightarrow> bool" where
  "nvme_quirks_pci_id_match i pdev \<longleftrightarrow>
     (vendor_id i = NVME_PCI_ANY_ID \<or> vendor_id i = vendor_id pdev) \<and>
     (device_id i = NVME_PCI_ANY_ID \<or> device_id i = device_id pdev) \<and>
     (subvendor_id i = NVME_PCI_ANY_ID \<or> subvendor_id i = subvendor_id pdev) \<and>
     (subdevice_id i = NVME_PCI_ANY_ID \<or> subdevice_id i = subdevice_id pdev)"

text \<open>The loop ends at the entry with vendor 0; running past the end of the table is an invalid access.\<close>

fun search_quirks :: "nvme_quirk list \<Rightarrow> 'a pci_id_scheme \<Rightarrow> u32 res" where
  "search_quirks [] pdev = Inl BadAccess"
| "search_quirks (q # qs) pdev =
     (if vendor_id (quirk_id q) = 0 then Inr 0
      else if nvme_quirks_pci_id_match (quirk_id q) pdev then Inr (quirk_flags q)
      else search_quirks qs pdev)"

definition nvme_ctrlr_get_quirks :: "'a pci_id_scheme \<Rightarrow> u32 res" where
  "nvme_ctrlr_get_quirks pdev = search_quirks nvme_quirks pdev"

subsection \<open>The quirks of a device\<close>

lemma search_quirks_total:
  "\<exists>q\<in>set qs. vendor_id (quirk_id q) = 0 \<Longrightarrow> \<exists>w. search_quirks qs pdev = Inr w"
  by (induction qs) auto

lemma get_quirks_total: "\<exists>w. nvme_ctrlr_get_quirks pdev = Inr w"
  unfolding nvme_ctrlr_get_quirks_def by (rule search_quirks_total) (simp add: nvme_quirks_def)

text \<open>The entries of the table do not overlap, so that the order of the search does not matter.\<close>

lemma get_quirks_eq:
  "nvme_ctrlr_get_quirks pdev =
     Inr (if vendor_id pdev = NVME_PCI_VID_INTEL \<and> device_id pdev = 0x0953 \<and> subvendor_id pdev = NVME_PCI_VID_INTEL then
            if subdevice_id pdev \<in> {0x3702, 0x3703, 0x3704, 0x3705, 0x3709, 0x370a}
            then NVME_INTEL_QUIRK_READ_LATENCY OR NVME_INTEL_QUIRK_WRITE_LATENCY
            else if subdevice_id pdev = 0x370d then NVME_QUIRK_DELAY_AFTER_RDY else 0
          else if vendor_id pdev = NVME_PCI_VID_MEMBLAZE \<and> device_id pdev = 0x0540 then NVME_QUIRK_DELAY_BEFORE_CHK_RDY else 0)"
proof (cases "vendor_id pdev = NVME_PCI_VID_INTEL \<and> device_id pdev = 0x0953 \<and> subvendor_id pdev = NVME_PCI_VID_INTEL")
  case True
  then show ?thesis
    by (simp add: nvme_ctrlr_get_quirks_def nvme_quirks_def nvme_quirks_pci_id_match_def latency_quirk_def quirk_defs)
next
  case False
  then have l: "search_quirks (latency_quirk sd # qs) pdev = search_quirks qs pdev" for sd qs
    by (auto simp: nvme_quirks_pci_id_match_def latency_quirk_def quirk_defs)
  show ?thesis unfolding nvme_ctrlr_get_quirks_def nvme_quirks_def l using False
    by (simp add: nvme_quirks_pci_id_match_def quirk_defs)
qed

end
