(* ===== verification/Nvme_Ctrlr.thy ===== *)
theory Nvme_Ctrlr
  imports Nvme_Regs Nvme_Quirks
begin

text \<open>
  Controllers (\<^verbatim>\<open>lib/nvme/nvme_ctrlr.c\<close>) and the identification of their namespaces (the first part of
  \<^verbatim>\<open>lib/nvme/nvme_ns.c\<close>): registers, the initialisation state machine, reset, attach and detach, namespace and
  firmware management, and the I/O queue pairs handed out to the user.

  Every call takes the lock of the controller for its whole duration, so that a call is one step on the state. Functions with
  a loop that waits for the device take fuel. A shift by at least the width of its operand is undefined in C and is \<open>BadAccess\<close> here.
\<close>

subsection \<open>Definitions: registers\<close>

definition NVME_TIMEOUT_INFINITE :: u64 where "NVME_TIMEOUT_INFINITE = - 1"
definition NVME_READY_TIMEOUT_UNIT :: u32 where "NVME_READY_TIMEOUT_UNIT = 500"
definition NVME_CTRLR_SHUTDOWN_TIMEOUT :: nat where "NVME_CTRLR_SHUTDOWN_TIMEOUT = 5000"
definition DEFAULT_MAX_IO_QUEUES :: u32 where "DEFAULT_MAX_IO_QUEUES = 1024"
definition NVME_MAX_IO_QUEUES :: u32 where "NVME_MAX_IO_QUEUES = 65535"
definition NVME_GLOBAL_NS_TAG :: u32 where "NVME_GLOBAL_NS_TAG = 0xFFFFFFFF"
definition INTEL_DC_P3X00_DEVID :: u32 where "INTEL_DC_P3X00_DEVID = 0x09538086"

definition nvme_ctrlr_get_ready_to_in_ms :: "nvme_ctrlr \<Rightarrow> u32" where
  "nvme_ctrlr_get_ready_to_in_ms c = NVME_READY_TIMEOUT_UNIT * ucast (cap_bits (r_cap c) CAP_TO)"

definition read_csts :: "ctrlr_env \<Rightarrow> nvme_ctrlr \<Rightarrow> u32 \<times> nvme_ctrlr" where
  "read_csts env c = (hw_csts env (c_tick c) (r_cc c), next_tick c)"

definition nvme_time_msec :: "ctrlr_env \<Rightarrow> nvme_ctrlr \<Rightarrow> u64 \<times> nvme_ctrlr" where
  "nvme_time_msec env c = (os_time env (c_tick c), next_tick c)"

definition nvme_ctrlr_enabled :: "nvme_ctrlr \<Rightarrow> bool" where
  "nvme_ctrlr_enabled c \<longleftrightarrow> cc_bits (r_cc c) CC_EN \<noteq> 0"

definition nvme_ctrlr_ready :: "ctrlr_env \<Rightarrow> nvme_ctrlr \<Rightarrow> bool \<times> nvme_ctrlr" where
  "nvme_ctrlr_ready env c = (case read_csts env c of (csts, c) \<Rightarrow> (csts_bits csts CSTS_RDY \<noteq> 0, c))"

definition nvme_ctrlr_disable :: "nvme_ctrlr \<Rightarrow> nvme_ctrlr" where
  "nvme_ctrlr_disable c = c\<lparr>r_cc := cc_put CC_EN 0 (r_cc c)\<rparr>"

text \<open>The switch on the arbitration mechanism, and the value that is written to CC.\<close>

definition ams_supported :: "nvme_ctrlr \<Rightarrow> bool" where
  "ams_supported c \<longleftrightarrow>
     (case opt_arb_mechanism (c_opts c) of
        NVME_CC_AMS_RR \<Rightarrow> True
      | NVME_CC_AMS_WRR \<Rightarrow> NVME_CAP_AMS_WRR AND cap_bits (r_cap c) CAP_AMS \<noteq> 0
      | NVME_CC_AMS_VS \<Rightarrow> NVME_CAP_AMS_VS AND cap_bits (r_cap c) CAP_AMS \<noteq> 0
      | NVME_CC_AMS_OTHER _ \<Rightarrow> False)"

definition enable_cc :: "nvme_cc_ams \<Rightarrow> u32 \<Rightarrow> u32" where
  "enable_cc ams cc =
     cc_put CC_AMS (ams_code ams) (cc_put CC_MPS (of_nat (PAGE_SHIFT - 12)) (cc_put CC_IOCQES 4 (cc_put CC_IOSQES 6
       (cc_put CC_SHN 0 (cc_put CC_CSS 0 (cc_put CC_EN 1 cc))))))"

definition nvme_ctrlr_enable :: "nvme_ctrlr \<Rightarrow> int \<times> nvme_ctrlr" where
  "nvme_ctrlr_enable c =
     (if cc_bits (r_cc c) CC_EN \<noteq> 0 then (- EINVAL, c)
      else
        let n = of_nat (entries (adminq c)) - 1;
            c = c\<lparr>r_asq := cmd_bus_addr (adminq c), r_acq := cpl_bus_addr (adminq c),
                  r_aqa := aqa_put AQA_ASQS n (aqa_put AQA_ACQS n 0)\<rparr>
        in if \<not> ams_supported c then (- EINVAL, c)
           else (0, c\<lparr>r_cc := enable_cc (opt_arb_mechanism (c_opts c)) (r_cc c)\<rparr>))"

definition nvme_ctrlr_set_state :: "ctrlr_env \<Rightarrow> nvme_ctrlr_state \<Rightarrow> u64 \<Rightarrow> nvme_ctrlr \<Rightarrow> nvme_ctrlr" where
  "nvme_ctrlr_set_state env st timeout_in_ms c =
     (let c = c\<lparr>c_state := st\<rparr>
      in if timeout_in_ms = NVME_TIMEOUT_INFINITE then c\<lparr>state_timeout_ms := NVME_TIMEOUT_INFINITE\<rparr>
         else case nvme_time_msec env c of (now, c) \<Rightarrow> c\<lparr>state_timeout_ms := now + timeout_in_ms\<rparr>)"

text \<open>The wait for the end of the shutdown reads CSTS at most 5001 times after the first read.\<close>

function shutdown_wait :: "ctrlr_env \<Rightarrow> nat \<Rightarrow> u32 \<Rightarrow> nvme_ctrlr \<Rightarrow> u32 \<times> nvme_ctrlr" where
  "shutdown_wait env ms_waited csts c =
     (if csts_bits csts CSTS_SHST = NVME_SHST_COMPLETE then (csts, c)
      else
        case read_csts env c of (csts, c) \<Rightarrow>
          if ms_waited \<ge> NVME_CTRLR_SHUTDOWN_TIMEOUT then (csts, c) else shutdown_wait env (Suc ms_waited) csts c)"
  by pat_completeness auto

termination shutdown_wait
  by (relation "measure (\<lambda>(env, ms, csts, c). NVME_CTRLR_SHUTDOWN_TIMEOUT - ms)") auto

declare shutdown_wait.simps [simp del]

definition nvme_ctrlr_shutdown :: "ctrlr_env \<Rightarrow> nvme_ctrlr \<Rightarrow> nvme_ctrlr" where
  "nvme_ctrlr_shutdown env c =
     (let c = c\<lparr>r_cc := cc_put CC_SHN NVME_SHN_NORMAL (r_cc c)\<rparr>
      in case read_csts env c of (csts, c) \<Rightarrow> snd (shutdown_wait env 0 csts c))"

subsection \<open>Definitions: queue pairs on the device\<close>

definition nvme_ctrlr_create_qpair :: "nat \<Rightarrow> ctrlr_env \<Rightarrow> nvme_ctrlr \<Rightarrow> nat \<Rightarrow> (int \<times> nvme_ctrlr) res" where
  "nvme_ctrlr_create_qpair fuel env c i =
     rbind (ioq_at c i) (\<lambda>q.
     rbind (on_adminq c (\<lambda>s. nvme_admin_create_ioq fuel (hw_dev env) s q NVME_IO_COMPLETION_QUEUE))
       (\<lambda>(ret, c). if ret \<noteq> 0 then Inr (ret, c)
          else rbind (on_adminq c (\<lambda>s. nvme_admin_create_ioq fuel (hw_dev env) s q NVME_IO_SUBMISSION_QUEUE))
                 (\<lambda>(ret, c). if ret \<noteq> 0
                    then rbind (on_adminq c (\<lambda>s. nvme_admin_delete_ioq fuel (hw_dev env) s q NVME_IO_COMPLETION_QUEUE))
                           (\<lambda>(_, c). Inr (ret, c))
                    else Inr (0, set_ioq i (nvme_qpair_reset q) c))))"

definition nvme_ctrlr_delete_qpair :: "nat \<Rightarrow> ctrlr_env \<Rightarrow> nvme_ctrlr \<Rightarrow> nat \<Rightarrow> (int \<times> nvme_ctrlr) res" where
  "nvme_ctrlr_delete_qpair fuel env c i =
     rbind (ioq_at c i) (\<lambda>q.
     rbind (on_adminq c (\<lambda>s. nvme_admin_delete_ioq fuel (hw_dev env) s q NVME_IO_SUBMISSION_QUEUE))
       (\<lambda>(ret, c). if ret \<noteq> 0 then Inr (ret, c)
          else on_adminq c (\<lambda>s. nvme_admin_delete_ioq fuel (hw_dev env) s q NVME_IO_COMPLETION_QUEUE)))"

subsection \<open>Definitions: log pages and features\<close>

definition set_flags :: "nat list \<Rightarrow> bool list \<Rightarrow> bool list" where
  "set_flags js xs = fold (\<lambda>j xs. xs[j := True]) js xs"

definition nvme_ctrlr_construct_intel_support_log_page_list :: "nvme_intel_log_page_dir option \<Rightarrow> nvme_ctrlr \<Rightarrow> nvme_ctrlr" where
  "nvme_ctrlr_construct_intel_support_log_page_list log_page_dir c =
     (case log_page_dir of
        None \<Rightarrow> c
      | Some d \<Rightarrow>
          if cd_vid (cdata c) \<noteq> NVME_PCI_VID_INTEL then c
          else c\<lparr>log_page_supported := set_flags
             ([0xC0]
              @ (if ld_read_latency_log_len d \<noteq> 0 \<or> quirks c AND NVME_INTEL_QUIRK_READ_LATENCY \<noteq> 0 then [0xC1] else [])
              @ (if ld_write_latency_log_len d \<noteq> 0 \<or> quirks c AND NVME_INTEL_QUIRK_WRITE_LATENCY \<noteq> 0 then [0xC2] else [])
              @ (if ld_temperature_statistics_log_len d \<noteq> 0 then [0xC5] else [])
              @ (if ld_smart_log_len d \<noteq> 0 then [0xCA] else [])
              @ (if ld_marketing_description_log_len d \<noteq> 0 then [0xDD] else [])) (log_page_supported c)\<rparr>)"

definition nvme_ctrlr_set_intel_support_log_pages :: "nat \<Rightarrow> ctrlr_env \<Rightarrow> nvme_ctrlr \<Rightarrow> (int \<times> nvme_ctrlr) res" where
  "nvme_ctrlr_set_intel_support_log_pages fuel env c =
     (case os_alloc env (c_tick c) of
        None \<Rightarrow> Inr (- ENOMEM, next_tick c)
      | Some buf \<Rightarrow>
          rbind (on_adminq (next_tick c) (\<lambda>s. nvme_admin_get_log_page fuel (hw_dev env) s 0xC0 NVME_GLOBAL_NS_TAG (Some buf) 512))
            (\<lambda>(ret, c). if ret \<noteq> 0 then Inr (ret, c)
               else Inr (ret, next_tick (nvme_ctrlr_construct_intel_support_log_page_list (Some (hw_log_dir env (c_tick c))) c))))"

definition nvme_ctrlr_set_supported_log_pages :: "nat \<Rightarrow> ctrlr_env \<Rightarrow> nvme_ctrlr \<Rightarrow> nvme_ctrlr res" where
  "nvme_ctrlr_set_supported_log_pages fuel env c =
     (let c = c\<lparr>log_page_supported := set_flags ([0x01, 0x02, 0x03] @ (if cd_lpa_celp (cdata c) then [0x05] else []))
                 (replicate 256 False)\<rparr>
      in if cd_vid (cdata c) = NVME_PCI_VID_INTEL
         then rbind (nvme_ctrlr_set_intel_support_log_pages fuel env c) (\<lambda>(_, c). Inr c)
         else Inr c)"

definition nvme_ctrlr_set_intel_supported_features :: "bool list \<Rightarrow> bool list" where
  "nvme_ctrlr_set_intel_supported_features = set_flags [0xC1, 0xC1, 0xC2, 0xC6, 0xC8, 0xC9, 0xD5, 0xE2]"

definition feat_index :: "nvme_feat \<Rightarrow> nat" where
  "feat_index f = unat (feat_id f)"

definition nvme_ctrlr_set_supported_features :: "nvme_ctrlr \<Rightarrow> nvme_ctrlr" where
  "nvme_ctrlr_set_supported_features c =
     (let fs = set_flags (map feat_index ([NVME_FEAT_ARBITRATION, NVME_FEAT_POWER_MANAGEMENT, NVME_FEAT_TEMPERATURE_THRESHOLD,
                 NVME_FEAT_ERROR_RECOVERY, NVME_FEAT_NUMBER_OF_QUEUES, NVME_FEAT_INTERRUPT_COALESCING,
                 NVME_FEAT_INTERRUPT_VECTOR_CONFIGURATION, NVME_FEAT_WRITE_ATOMICITY, NVME_FEAT_ASYNC_EVENT_CONFIGURATION]
               @ (if cd_vwc_present (cdata c) then [NVME_FEAT_VOLATILE_WRITE_CACHE] else [])
               @ (if cd_apsta_supported (cdata c) then [NVME_FEAT_AUTONOMOUS_POWER_STATE_TRANSITION] else [])
               @ (if cd_hmpre (cdata c) \<noteq> 0 then [NVME_FEAT_HOST_MEM_BUFFER] else [])))
               (replicate 256 False)
      in c\<lparr>feature_supported := (if cd_vid (cdata c) = NVME_PCI_VID_INTEL then nvme_ctrlr_set_intel_supported_features fs else fs)\<rparr>)"

subsection \<open>Definitions: identification\<close>

definition shl_u32 :: "nat \<Rightarrow> u32 res" where
  "shl_u32 n = (if n < 32 then Inr (push_bit n 1) else Inl BadAccess)"

definition nvme_ctrlr_identify :: "nat \<Rightarrow> ctrlr_env \<Rightarrow> nvme_ctrlr \<Rightarrow> (int \<times> nvme_ctrlr) res" where
  "nvme_ctrlr_identify fuel env c =
     rbind (on_adminq c (\<lambda>s. nvme_admin_identify_ctrlr fuel (hw_dev env) s (cdata_addr env)))
       (\<lambda>(ret, c).
          let c = next_tick (c\<lparr>cdata := hw_identify env (c_tick c)\<rparr>)
          in if ret \<noteq> 0 then Inr (ret, c)
             else if cd_mdts (cdata c) > 0
             then rbind (shl_u32 (unat (cd_mdts (cdata c))))
                    (\<lambda>w. Inr (0, c\<lparr>max_xfer_size := min (max_xfer_size c) (min_page_size c * w)\<rparr>))
             else Inr (0, c))"

definition queues_allocated :: "u32 \<Rightarrow> nat" where
  "queues_allocated dw0 = min (unat (dw0 AND 0xFFFF) + 1) (unat (drop_bit 16 dw0) + 1)"

definition nvme_ctrlr_get_max_io_qpairs :: "nat \<Rightarrow> ctrlr_env \<Rightarrow> nvme_ctrlr \<Rightarrow> (int \<times> nvme_ctrlr) res" where
  "nvme_ctrlr_get_max_io_qpairs fuel env c =
     rbind (on_adminq c (\<lambda>s. nvme_admin_get_feature fuel (hw_dev env) s NVME_FEAT_CURRENT NVME_FEAT_NUMBER_OF_QUEUES 0 True))
       (\<lambda>((ret, dw0), c). if ret \<noteq> 0 then Inr (ret, c) else Inr (0, c\<lparr>max_io_queues := queues_allocated (the dw0)\<rparr>))"

definition nvme_ctrlr_set_num_qpairs :: "nat \<Rightarrow> ctrlr_env \<Rightarrow> nvme_ctrlr \<Rightarrow> (int \<times> nvme_ctrlr) res" where
  "nvme_ctrlr_set_num_qpairs fuel env c =
     rbind (nvme_ctrlr_get_max_io_qpairs fuel env c) (\<lambda>(ret, c). if ret \<noteq> 0 then Inr (ret, c)
       else
         let n = opt_io_queues (c_opts c) - 1
         in rbind (on_adminq c (\<lambda>s. nvme_admin_set_feature fuel (hw_dev env) s False NVME_FEAT_NUMBER_OF_QUEUES
                     (push_bit 16 n OR n) 0 True))
              (\<lambda>((ret, dw0), c). if ret \<noteq> 0 then Inr (ret, c)
                 else Inr (0, c\<lparr>io_queues := min (queues_allocated (the dw0)) (unat (opt_io_queues (c_opts c)))\<rparr>)))"

definition qpair_zero :: nvme_qpair where
  "qpair_zero = \<lparr>qp_id = 0, qp_cmd = [], qp_cpl = [], free_tr = [], outstanding_tr = [], trackers = 0, qp_tr = [], reqs = [],
     free_req = [], queued_req = [], entries = 0, sq_tail = 0, cq_head = 0, phase = False, qp_enabled = False, sq_in_cmb = False,
     qprio = 0, cmd_bus_addr = 0, cpl_bus_addr = 0\<rparr>"

definition nvme_ctrlr_init_io_qpairs :: "ctrlr_env \<Rightarrow> nvme_ctrlr \<Rightarrow> int \<times> nvme_ctrlr" where
  "nvme_ctrlr_init_io_qpairs env c =
     (if ioq c \<noteq> None then (0, c)
      else
        let c = c\<lparr>io_qpairs_max_entries := min NVME_IO_ENTRIES (unat (cap_bits (r_cap c) CAP_MQES) + 1)\<rparr>
        in if \<not> os_calloc env (c_tick c) then (- ENOMEM, next_tick c)
           else (0, next_tick (c\<lparr>ioq := Some (map (\<lambda>i. qpair_zero\<lparr>qp_id := of_nat (i + 1)\<rparr>) [0..<io_queues c]),
                                 free_io_qpairs := free_io_qpairs c @ [0..<io_queues c]\<rparr>)))"

subsection \<open>Definitions: namespaces\<close>

definition ns_zero :: nvme_ns where
  "ns_zero = \<lparr>stripe_size = 0, sector_size = 0, md_size = 0, pi_type = 0, sectors_per_max_io = 0, sectors_per_stripe = 0,
     ns_id = 0, ns_flags = 0, open_count = 0\<rparr>"

definition nsdata_zero :: nvme_ns_data where
  "nsdata_zero = \<lparr>nd_nsze = 0, nd_flbas_format = 0, nd_flbas_extended = False, nd_dps_pit = 0, nd_nsrescap = 0,
     nd_lbaf = (\<lambda>_. \<lparr>lbaf_ms = 0, lbaf_lbads = 0\<rparr>)\<rparr>"

text \<open>\<open>ns_geometry\<close> is the part of \<^verbatim>\<open>nvme_ns_identify_update\<close> that follows the command.\<close>

definition ns_geometry :: "nvme_ctrlr_data \<Rightarrow> u32 \<Rightarrow> nvme_ns_data \<Rightarrow> nvme_ns \<Rightarrow> nvme_ns res" where
  "ns_geometry cd max_xfer nd ns =
     (let f = nd_lbaf nd (nd_flbas_format nd)
      in rbind (shl_u32 (unat (lbaf_lbads f)))
           (\<lambda>ss.
              let flags = (if cd_oncs_dsm cd then NVME_NS_DEALLOCATE_SUPPORTED else 0)
                    OR (if cd_vwc_present cd then NVME_NS_FLUSH_SUPPORTED else 0)
                    OR (if cd_oncs_write_zeroes cd then NVME_NS_WRITE_ZEROES_SUPPORTED else 0)
                    OR (if nd_nsrescap nd \<noteq> 0 then NVME_NS_RESERVATION_SUPPORTED else 0);
                  ns = ns\<lparr>sector_size := ss, sectors_per_max_io := max_xfer div ss, sectors_per_stripe := stripe_size ns div ss,
                          ns_flags := flags, md_size := ucast (lbaf_ms f), pi_type := NVME_FMT_NVM_PROTECTION_DISABLE\<rparr>
              in if lbaf_ms f \<noteq> 0 \<and> nd_dps_pit nd \<noteq> 0
                 then Inr (ns\<lparr>ns_flags := flags OR NVME_NS_DPS_PI_SUPPORTED
                                 OR (if nd_flbas_extended nd then NVME_NS_EXTENDED_LBA_SUPPORTED else 0),
                             pi_type := ucast (nd_dps_pit nd)\<rparr>)
                 else Inr ns))"

text \<open>The buffer of the identification data of namespace \<open>k\<close> is element \<open>k - 1\<close> of the array \<^verbatim>\<open>nsdata\<close>.\<close>

definition nvme_ns_identify_update :: "nat \<Rightarrow> ctrlr_env \<Rightarrow> nvme_ctrlr \<Rightarrow> nvme_ns \<Rightarrow> ((int \<times> nvme_ns) \<times> nvme_ctrlr) res" where
  "nvme_ns_identify_update fuel env c ns =
     (case nsdata c of
        None \<Rightarrow> Inl BadAccess
      | Some (base, ds) \<Rightarrow>
          if ns_id ns = 0 \<or> length ds < unat (ns_id ns) then Inl BadAccess
          else
            rbind (on_adminq c (\<lambda>s. nvme_admin_identify_ns fuel (hw_dev env) s (ns_id ns) (base + 4096 * (unat (ns_id ns) - 1))))
              (\<lambda>(ret, c).
                 let nd = hw_ns_data env (c_tick c);
                     c = next_tick (c\<lparr>nsdata := Some (base, ds[unat (ns_id ns) - 1 := nd])\<rparr>)
                 in if ret \<noteq> 0 then Inr ((ret, ns), c)
                    else rbind (ns_geometry (cdata c) (max_xfer_size c) nd ns) (\<lambda>ns. Inr ((0, ns), c))))"

definition nvme_ns_construct :: "nat \<Rightarrow> ctrlr_env \<Rightarrow> nvme_ctrlr \<Rightarrow> nvme_ns \<Rightarrow> nat \<Rightarrow> ((int \<times> nvme_ns) \<times> nvme_ctrlr) res" where
  "nvme_ns_construct fuel env c ns k =
     (let ns = ns\<lparr>ns_id := of_nat k, stripe_size := 0\<rparr>
      in rbind (if pci_devid env = INTEL_DC_P3X00_DEVID \<and> cd_vs (cdata c) 3 \<noteq> 0
                then rbind (shl_u32 (unat (cd_vs (cdata c) 3))) (\<lambda>w. Inr (ns\<lparr>stripe_size := w * min_page_size c\<rparr>))
                else Inr ns)
           (\<lambda>ns. nvme_ns_identify_update fuel env c ns))"

definition nvme_ctrlr_destruct_namespaces :: "nvme_ctrlr \<Rightarrow> nvme_ctrlr" where
  "nvme_ctrlr_destruct_namespaces c =
     (let c = (if c_ns c \<noteq> None then c\<lparr>c_ns := None, nr_ns := 0\<rparr> else c) in c\<lparr>nsdata := None\<rparr>)"

fun construct_ns_loop :: "nat \<Rightarrow> ctrlr_env \<Rightarrow> nat list \<Rightarrow> nvme_ctrlr \<Rightarrow> (int \<times> nvme_ctrlr) res" where
  "construct_ns_loop fuel env [] c = Inr (0, c)"
| "construct_ns_loop fuel env (i # is) c =
     (case c_ns c of
        None \<Rightarrow> Inl BadAccess
      | Some nss \<Rightarrow>
          if length nss \<le> i then Inl BadAccess
          else rbind (nvme_ns_construct fuel env c (nss ! i) (i + 1))
                 (\<lambda>((ret, ns), c).
                    let c = c\<lparr>c_ns := Some (nss[i := ns])\<rparr>
                    in if ret \<noteq> 0 then Inr (-1, nvme_ctrlr_destruct_namespaces c) else construct_ns_loop fuel env is c))"

text \<open>The two arrays are allocated anew when the number of namespaces has changed.\<close>

definition nvme_ctrlr_construct_namespaces :: "nat \<Rightarrow> ctrlr_env \<Rightarrow> nvme_ctrlr \<Rightarrow> (int \<times> nvme_ctrlr) res" where
  "nvme_ctrlr_construct_namespaces fuel env c =
     (let n = unat (cd_nn (cdata c)); t = c_tick c
      in if n \<noteq> nr_ns c
         then
           let c = (nvme_ctrlr_destruct_namespaces c)\<lparr>c_tick := t + 2\<rparr>
           in if \<not> os_calloc env t then Inr (-1, nvme_ctrlr_destruct_namespaces c)
              else
                let c = c\<lparr>c_ns := Some (replicate n ns_zero)\<rparr>
                in case os_alloc env (Suc t) of
                     None \<Rightarrow> Inr (-1, nvme_ctrlr_destruct_namespaces c)
                   | Some a \<Rightarrow> construct_ns_loop fuel env [0..<n] (c\<lparr>nsdata := Some (a, replicate n nsdata_zero), nr_ns := n\<rparr>)
         else construct_ns_loop fuel env [0..<n] c)"

subsection \<open>Definitions: starting and failing a controller\<close>

fun submit_aers :: "nat \<Rightarrow> nat list \<Rightarrow> nvme_ctrlr \<Rightarrow> (int \<times> nvme_ctrlr) res" where
  "submit_aers fuel [] c = Inr (0, c)"
| "submit_aers fuel (i # is) c =
     rbind (on_adminq c (exec fuel (SubmitAer i))) (\<lambda>(ret, c). if ret \<noteq> 0 then Inr (-1, c) else submit_aers fuel is c)"

text \<open>All warnings are enabled: \<open>0xFF\<close> with the three reserved bits cleared.\<close>

definition nvme_ctrlr_configure_aer :: "nat \<Rightarrow> ctrlr_env \<Rightarrow> nvme_ctrlr \<Rightarrow> (int \<times> nvme_ctrlr) res" where
  "nvme_ctrlr_configure_aer fuel env c =
     rbind (on_adminq c (\<lambda>s. nvme_admin_set_feature fuel (hw_dev env) s False NVME_FEAT_ASYNC_EVENT_CONFIGURATION
              (bf_set (5, 3) 0 0xFF) 0 False))
       (\<lambda>((ret, _), c). if ret \<noteq> 0 then Inr (ret, c)
          else
            let c = c\<lparr>num_aers := min NVME_MAX_ASYNC_EVENTS (unat (cd_aerl (cdata c)) + 1)\<rparr>
            in submit_aers fuel [0..<num_aers c] c)"

definition nvme_ctrlr_start :: "nat \<Rightarrow> ctrlr_env \<Rightarrow> nvme_ctrlr \<Rightarrow> (int \<times> nvme_ctrlr) res" where
  "nvme_ctrlr_start fuel env c =
     rbind (on_adminq c (\<lambda>s. nvme_qpair_enable fuel (nvme_qpair_reset s))) (\<lambda>(_, c).
     rbind (nvme_ctrlr_identify fuel env c) (\<lambda>(ret, c). if ret \<noteq> 0 then Inr (-1, c) else
     rbind (nvme_ctrlr_set_num_qpairs fuel env c) (\<lambda>(ret, c). if ret \<noteq> 0 then Inr (-1, c) else
     case nvme_ctrlr_init_io_qpairs env c of (ret, c) \<Rightarrow> if ret \<noteq> 0 then Inr (-1, c) else
     rbind (nvme_ctrlr_construct_namespaces fuel env c) (\<lambda>(ret, c). if ret \<noteq> 0 then Inr (-1, c) else
     rbind (nvme_ctrlr_configure_aer fuel env c) (\<lambda>(_, c).
     rbind (nvme_ctrlr_set_supported_log_pages fuel env c) (\<lambda>c.
     let c = nvme_ctrlr_set_supported_features c
     in Inr (0, if cd_sgls_supported (cdata c) then c\<lparr>sgl_supported := True\<rparr> else c)))))))"

definition fail_qpair :: "nat \<Rightarrow> qctx \<Rightarrow> (unit \<times> qctx) res" where
  "fail_qpair fuel s = rbind (nvme_qpair_fail fuel s) (\<lambda>s. Inr ((), s))"

fun on_ioqs :: "(qctx \<Rightarrow> (unit \<times> qctx) res) \<Rightarrow> nat list \<Rightarrow> nvme_ctrlr \<Rightarrow> nvme_ctrlr res" where
  "on_ioqs f [] c = Inr c"
| "on_ioqs f (i # is) c = rbind (on_ioq c i f) (\<lambda>(_, c). on_ioqs f is c)"

definition nvme_ctrlr_fail :: "nat \<Rightarrow> nvme_ctrlr \<Rightarrow> nvme_ctrlr res" where
  "nvme_ctrlr_fail fuel c =
     rbind (on_adminq (c\<lparr>failed := True\<rparr>) (fail_qpair fuel))
       (\<lambda>(_, c). if ioq c \<noteq> None then on_ioqs (fail_qpair fuel) [0..<io_queues c] c else Inr c)"

subsection \<open>Definitions: the initialisation state machine\<close>

text \<open>The end of \<^verbatim>\<open>nvme_ctrlr_init\<close>: the device has not reacted yet.\<close>

definition init_timeout :: "nat \<Rightarrow> ctrlr_env \<Rightarrow> nvme_ctrlr \<Rightarrow> (int \<times> nvme_ctrlr) res" where
  "init_timeout fuel env c =
     (if state_timeout_ms c = NVME_TIMEOUT_INFINITE then Inr (0, c)
      else case nvme_time_msec env c of (now, c) \<Rightarrow>
        if now > state_timeout_ms c then rbind (nvme_ctrlr_fail fuel c) (\<lambda>c. Inr (-1, c)) else Inr (0, c))"

definition init_enable :: "ctrlr_env \<Rightarrow> u64 \<Rightarrow> nvme_ctrlr \<Rightarrow> int \<times> nvme_ctrlr" where
  "init_enable env ready_timeout_in_ms c =
     (case nvme_ctrlr_enable c of (ret, c) \<Rightarrow>
        if ret \<noteq> 0 then (ret, c)
        else (ret, nvme_ctrlr_set_state env NVME_CTRLR_STATE_ENABLE_WAIT_FOR_READY_1 ready_timeout_in_ms c))"

definition init_disable :: "ctrlr_env \<Rightarrow> u64 \<Rightarrow> nvme_ctrlr \<Rightarrow> nvme_ctrlr" where
  "init_disable env ready_timeout_in_ms c =
     nvme_ctrlr_set_state env NVME_CTRLR_STATE_DISABLE_WAIT_FOR_READY_0 ready_timeout_in_ms (nvme_ctrlr_disable c)"

definition nvme_ctrlr_init :: "nat \<Rightarrow> ctrlr_env \<Rightarrow> nvme_ctrlr \<Rightarrow> (int \<times> nvme_ctrlr) res" where
  "nvme_ctrlr_init fuel env c =
     (let to = ucast (nvme_ctrlr_get_ready_to_in_ms c)
      in case c_state c of
           NVME_CTRLR_STATE_INIT \<Rightarrow>
             (case nvme_ctrlr_ready env c of (rdy, c) \<Rightarrow>
                if nvme_ctrlr_enabled c
                then if \<not> rdy then Inr (0, nvme_ctrlr_set_state env NVME_CTRLR_STATE_DISABLE_WAIT_FOR_READY_1 to c)
                     else Inr (0, init_disable env to c)
                else if rdy then Inr (0, nvme_ctrlr_set_state env NVME_CTRLR_STATE_DISABLE_WAIT_FOR_READY_0 to c)
                else Inr (init_enable env to c))
         | NVME_CTRLR_STATE_DISABLE_WAIT_FOR_READY_1 \<Rightarrow>
             (case nvme_ctrlr_ready env c of (rdy, c) \<Rightarrow>
                if rdy then Inr (0, init_disable env to c) else init_timeout fuel env c)
         | NVME_CTRLR_STATE_DISABLE_WAIT_FOR_READY_0 \<Rightarrow>
             (case nvme_ctrlr_ready env c of (rdy, c) \<Rightarrow>
                if \<not> rdy then Inr (init_enable env to c) else init_timeout fuel env c)
         | NVME_CTRLR_STATE_ENABLE_WAIT_FOR_READY_1 \<Rightarrow>
             (case nvme_ctrlr_ready env c of (rdy, c) \<Rightarrow>
                if rdy
                then rbind (nvme_ctrlr_start fuel env c)
                       (\<lambda>(ret, c). if ret \<noteq> 0 then Inr (ret, c)
                          else Inr (ret, nvme_ctrlr_set_state env NVME_CTRLR_STATE_READY NVME_TIMEOUT_INFINITE c))
                else init_timeout fuel env c)
         | NVME_CTRLR_STATE_READY \<Rightarrow> Inl Panic)"

text \<open>The loop of attach and reset that calls \<^verbatim>\<open>nvme_ctrlr_init\<close> until the controller is ready; \<open>n\<close> bounds the calls.\<close>

fun init_loop :: "nat \<Rightarrow> nat \<Rightarrow> ctrlr_env \<Rightarrow> nvme_ctrlr \<Rightarrow> (int \<times> nvme_ctrlr) res" where
  "init_loop 0 fuel env c = (if c_state c = NVME_CTRLR_STATE_READY then Inr (0, c) else Inl OutOfFuel)"
| "init_loop (Suc n) fuel env c =
     (if c_state c = NVME_CTRLR_STATE_READY then Inr (0, c)
      else rbind (nvme_ctrlr_init fuel env c)
             (\<lambda>(ret, c). if ret \<noteq> 0 then Inr (ret, c) else init_loop n fuel env c))"

subsection \<open>Definitions: reset\<close>

definition disable_qpair :: "nat \<Rightarrow> qctx \<Rightarrow> (unit \<times> qctx) res" where
  "disable_qpair fuel s = rbind (nvme_qpair_disable fuel s) (\<lambda>s. Inr ((), s))"

fun recreate_qpairs :: "nat \<Rightarrow> ctrlr_env \<Rightarrow> nat list \<Rightarrow> nvme_ctrlr \<Rightarrow> nvme_ctrlr res" where
  "recreate_qpairs fuel env [] c = Inr c"
| "recreate_qpairs fuel env (i # is) c =
     rbind (nvme_ctrlr_create_qpair fuel env c i)
       (\<lambda>(ret, c). rbind (if ret \<noteq> 0 then nvme_ctrlr_fail fuel c else Inr c) (\<lambda>c. recreate_qpairs fuel env is c))"

definition nvme_ctrlr_reset :: "nat \<Rightarrow> nat \<Rightarrow> ctrlr_env \<Rightarrow> nvme_ctrlr \<Rightarrow> (int \<times> nvme_ctrlr) res" where
  "nvme_ctrlr_reset n fuel env c =
     (if resetting c \<or> failed c then Inr (0, c)
      else
        rbind (on_adminq (c\<lparr>resetting := True\<rparr>) (disable_qpair fuel)) (\<lambda>(_, c).
        rbind (on_ioqs (disable_qpair fuel) [0..<io_queues c] c) (\<lambda>c.
        rbind (init_loop n fuel env (nvme_ctrlr_set_state env NVME_CTRLR_STATE_INIT NVME_TIMEOUT_INFINITE c)) (\<lambda>(ret, c).
        rbind (if ret \<noteq> 0 then nvme_ctrlr_fail fuel c else recreate_qpairs fuel env (active_io_qpairs c) c) (\<lambda>c.
        Inr (if failed c then -1 else 0, c\<lparr>resetting := False\<rparr>))))))"

subsection \<open>Definitions: controller memory buffer and registers mapping\<close>

definition nvme_ctrlr_map_cmb :: "ctrlr_env \<Rightarrow> nvme_ctrlr \<Rightarrow> nvme_ctrlr res" where
  "nvme_ctrlr_map_cmb env c =
     (let no_cmb = c\<lparr>cmb_bar_virt_addr := None, c_opts := (c_opts c)\<lparr>opt_use_cmb_sqs := False\<rparr>\<rparr>;
          sz = cmbsz_bits (r_cmbsz c) CMBSZ_SZ; bir = cmbloc_bits (r_cmbloc c) CMBLOC_BIR;
          shift = 12 + 4 * unat (cmbsz_bits (r_cmbsz c) CMBSZ_SZU)
      in if sz = 0 \<or> bir > 5 \<or> bir = 1 then Inr no_cmb
         else if 64 \<le> shift then Inl BadAccess
         else
           let unit_size = push_bit shift (1 :: u64); size = unit_size * ucast sz;
               offset = unit_size * ucast (cmbloc_bits (r_cmbloc c) CMBLOC_OFST);
               (bar_phys_addr, bar_size) = pci_bar env bir
           in if offset > bar_size \<or> size > bar_size - offset then Inr no_cmb
              else case pci_map_bar env (c_tick c) of (ret, addr) \<Rightarrow>
                if ret \<noteq> 0 \<or> addr = None then Inr (next_tick no_cmb)
                else Inr (next_tick (c\<lparr>cmb_bar_virt_addr := addr, cmb_bar_phys_addr := bar_phys_addr, cmb_size := size,
                            cmb_current_offset := offset,
                            c_opts := (c_opts c)\<lparr>opt_use_cmb_sqs :=
                              opt_use_cmb_sqs (c_opts c) \<and> cmbsz_bits (r_cmbsz c) CMBSZ_SQS \<noteq> 0\<rparr>\<rparr>)))"

definition nvme_ctrlr_unmap_cmb :: "ctrlr_env \<Rightarrow> nvme_ctrlr \<Rightarrow> int \<times> nvme_ctrlr" where
  "nvme_ctrlr_unmap_cmb env c =
     (if cmb_bar_virt_addr c \<noteq> None then (pci_unmap_bar env (c_tick c), next_tick c) else (0, c))"

definition nvme_ctrlr_map_bars :: "ctrlr_env \<Rightarrow> nvme_ctrlr \<Rightarrow> (int \<times> nvme_ctrlr) res" where
  "nvme_ctrlr_map_bars env c =
     (case pci_map_bar env (c_tick c) of (ret, addr) \<Rightarrow>
        let c = next_tick c
        in if ret \<noteq> 0 \<or> addr = None then Inr (ret, c)
           else rbind (nvme_ctrlr_map_cmb env (c\<lparr>c_regs := True\<rparr>)) (\<lambda>c. Inr (0, c)))"

definition nvme_ctrlr_unmap_bars :: "ctrlr_env \<Rightarrow> nvme_ctrlr \<Rightarrow> int \<times> nvme_ctrlr" where
  "nvme_ctrlr_unmap_bars env c =
     (case nvme_ctrlr_unmap_cmb env c of (ret, c) \<Rightarrow>
        if ret \<noteq> 0 then (ret, c)
        else if c_regs c then (pci_unmap_bar env (c_tick c), next_tick c)
        else (0, c))"

text \<open>\<open>construct_qpair\<close> is \<^verbatim>\<open>nvme_qpair_construct\<close> with the reservation in the controller memory buffer.\<close>

definition construct_qpair ::
  "ctrlr_env \<Rightarrow> nvme_ctrlr \<Rightarrow> nvme_qpair \<Rightarrow> nat \<Rightarrow> nat \<Rightarrow> nat \<Rightarrow> ((int \<times> nvme_qpair) \<times> nvme_ctrlr) res" where
  "construct_qpair env c q prio n trks =
     (let reserved = (if opt_use_cmb_sqs (c_opts c)
                      then nvme_ctrlr_reserve_sq_in_cmb (cmb_current_offset c) (cmb_size c) (of_nat n) (of_nat PAGE_SIZE)
                      else None);
          c' = (case reserved of Some (_, cur) \<Rightarrow> c\<lparr>cmb_current_offset := cur\<rparr> | None \<Rightarrow> c);
          e = (os_qpair env (c_tick c))\<lparr>sq_cmb_reserved := map_option (\<lambda>(ofst, _). cmb_bar_phys_addr c + ofst) reserved\<rparr>
      in rbind (nvme_qpair_construct e q prio n trks) (\<lambda>(ret, q). Inr ((ret, q), next_tick c')))"

subsection \<open>Definitions: I/O queue pairs\<close>

definition destroy_qpair :: "nat \<Rightarrow> qctx \<Rightarrow> (unit \<times> qctx) res" where
  "destroy_qpair fuel s = rbind (nvme_qpair_destroy fuel s) (\<lambda>s. Inr ((), s))"

definition nvme_ioqp_get :: "nat \<Rightarrow> ctrlr_env \<Rightarrow> nvme_ctrlr \<Rightarrow> nat \<Rightarrow> nat \<Rightarrow> (nat option \<times> nvme_ctrlr) res" where
  "nvme_ioqp_get fuel env c prio qd =
     (if 3 < prio then Inr (None, c)
      else if cc_bits (r_cc c) CC_AMS = ams_code NVME_CC_AMS_RR \<and> prio \<noteq> 0 then Inr (None, c)
      else if qd = 1 then Inr (None, c)
      else
        let qd = (if qd = 0 \<or> qd > io_qpairs_max_entries c then io_qpairs_max_entries c else qd);
            trks = min NVME_IO_TRACKERS (qd - 1)
        in case free_io_qpairs c of
             [] \<Rightarrow> Inr (None, c)
           | i # is \<Rightarrow>
               rbind (ioq_at c i) (\<lambda>q.
               rbind (construct_qpair env c q prio qd trks) (\<lambda>((ret, q), c).
                 let c = set_ioq i q c
                 in if ret \<noteq> 0 then rbind (on_ioq c i (destroy_qpair fuel)) (\<lambda>(_, c). Inr (None, c))
                    else rbind (nvme_ctrlr_create_qpair fuel env c i) (\<lambda>(ret, c).
                           if ret \<noteq> 0 then rbind (on_ioq c i (destroy_qpair fuel)) (\<lambda>(_, c). Inr (None, c))
                           else Inr (Some i, c\<lparr>free_io_qpairs := remove1 i (free_io_qpairs c),
                                               active_io_qpairs := active_io_qpairs c @ [i]\<rparr>)))))"

definition nvme_ioqp_release :: "nat \<Rightarrow> ctrlr_env \<Rightarrow> nvme_ctrlr \<Rightarrow> nat option \<Rightarrow> (int \<times> nvme_ctrlr) res" where
  "nvme_ioqp_release fuel env c qpair =
     (case qpair of
        None \<Rightarrow> Inr (0, c)
      | Some i \<Rightarrow>
          rbind (nvme_ctrlr_delete_qpair fuel env c i) (\<lambda>(ret, c).
            if ret \<noteq> 0 then Inr (ret, c)
            else Inr (ret, c\<lparr>active_io_qpairs := remove1 i (active_io_qpairs c), free_io_qpairs := i # free_io_qpairs c\<rparr>)))"

definition nvme_ioqp_submit_cmd ::
  "nat \<Rightarrow> nvme_ctrlr \<Rightarrow> nat \<Rightarrow> nvme_cmd \<Rightarrow> nat \<Rightarrow> u64 \<Rightarrow> nvme_cb \<Rightarrow> (int \<times> nvme_ctrlr) res" where
  "nvme_ioqp_submit_cmd fuel c i cmd buf len cb =
     on_ioq c i (\<lambda>s. case nvme_request_allocate_contig s buf (ucast len) cb of
        (None, s) \<Rightarrow> Inr (- ENOMEM, s)
      | (Some r, s) \<Rightarrow> nvme_qpair_submit_request fuel (upd_req r (\<lambda>q. q\<lparr>req_cmd := cmd\<rparr>) s) r)"

definition nvme_ioqp_poll :: "nat \<Rightarrow> nvme_ctrlr \<Rightarrow> nat \<Rightarrow> nat \<Rightarrow> (nat \<times> nvme_ctrlr) res" where
  "nvme_ioqp_poll fuel c i max_completions = on_ioq c i (\<lambda>s. nvme_qpair_poll fuel s max_completions)"

subsection \<open>Definitions: attach and detach\<close>

definition nvme_ctrlr_set_opts :: "nvme_ctrlr_opts option \<Rightarrow> nvme_ctrlr \<Rightarrow> nvme_ctrlr" where
  "nvme_ctrlr_set_opts opts c =
     (let o1 = (case opts of Some x \<Rightarrow> x | None \<Rightarrow> \<lparr>opt_io_queues = 0, opt_use_cmb_sqs = False, opt_arb_mechanism = NVME_CC_AMS_RR\<rparr>);
          o2 = (if opt_io_queues o1 = 0 then o1\<lparr>opt_io_queues := DEFAULT_MAX_IO_QUEUES\<rparr> else o1);
          o3 = (if opt_io_queues o2 > NVME_MAX_IO_QUEUES then o2\<lparr>opt_io_queues := NVME_MAX_IO_QUEUES\<rparr> else o2)
      in c\<lparr>c_opts := o3\<rparr>)"

text \<open>Detaching releases the active queue pairs one after the other; \<open>n\<close> bounds the calls.\<close>

fun release_loop :: "nat \<Rightarrow> nat \<Rightarrow> ctrlr_env \<Rightarrow> nvme_ctrlr \<Rightarrow> nvme_ctrlr res" where
  "release_loop 0 fuel env c = (if active_io_qpairs c = [] then Inr c else Inl OutOfFuel)"
| "release_loop (Suc n) fuel env c =
     (case active_io_qpairs c of
        [] \<Rightarrow> Inr c
      | i # _ \<Rightarrow> rbind (nvme_ioqp_release fuel env c (Some i)) (\<lambda>(_, c). release_loop n fuel env c))"

definition nvme_ctrlr_detach :: "nat \<Rightarrow> nat \<Rightarrow> ctrlr_env \<Rightarrow> nvme_ctrlr \<Rightarrow> nvme_ctrlr res" where
  "nvme_ctrlr_detach n fuel env c =
     rbind (release_loop n fuel env c) (\<lambda>c.
     let c = nvme_ctrlr_destruct_namespaces (nvme_ctrlr_shutdown env c)
     in rbind (if ioq c \<noteq> None then rbind (on_ioqs (destroy_qpair fuel) [0..<io_queues c] c) (\<lambda>c. Inr (c\<lparr>ioq := None\<rparr>)) else Inr c) (\<lambda>c.
     rbind (on_adminq c (destroy_qpair fuel)) (\<lambda>(_, c). Inr (snd (nvme_ctrlr_unmap_bars env c)))))"

definition cdata_zero :: nvme_ctrlr_data where
  "cdata_zero = \<lparr>cd_vid = 0, cd_sn = replicate 20 0, cd_mn = replicate 40 0, cd_mdts = 0, cd_aerl = 0, cd_lpa_celp = False,
     cd_apsta_supported = False, cd_hmpre = 0, cd_nn = 0, cd_oncs_dsm = False, cd_oncs_write_zeroes = False,
     cd_vwc_present = False, cd_sgls_supported = False, cd_vs = (\<lambda>_. 0)\<rparr>"

text \<open>The handle cleared by \<open>memset\<close>, with the registers of the device and the address translation.\<close>

definition ctrlr_zero :: "nvme_registers \<Rightarrow> (nat \<Rightarrow> u64) \<Rightarrow> u32 \<Rightarrow> nvme_ctrlr" where
  "ctrlr_zero regs vtophys cmd =
     nvme_registers.extend regs (nvme_ctrlr.fields False None 0 0 0 0 0 None False False False NVME_CTRLR_STATE_INIT 0
       (replicate 256 False) (replicate 256 False) 0 0 0 0
       (replicate NVME_MAX_ASYNC_EVENTS \<lparr>aer_req = None, aer_cpl = cpl_zero\<rparr>) False qpair_zero cdata_zero None [] []
       \<lparr>opt_io_queues = 0, opt_use_cmb_sqs = False, opt_arb_mechanism = NVME_CC_AMS_RR\<rparr> None 0 0 0 0
       (\<lambda>_. \<lparr>poll_cpl = cpl_zero, poll_done = False\<rparr>) vtophys [] [] (\<lambda>_. []) cmd 0)"

definition nvme_ctrlr_attach ::
  "nat \<Rightarrow> nat \<Rightarrow> ctrlr_env \<Rightarrow> nvme_registers \<Rightarrow> (nat \<Rightarrow> u64) \<Rightarrow> u32 \<Rightarrow> pci_device \<Rightarrow> nvme_ctrlr_opts option \<Rightarrow> nvme_ctrlr option res" where
  "nvme_ctrlr_attach n fuel env regs vtophys cmd pdev opts =
     (let c = ctrlr_zero regs vtophys cmd
      in if \<not> os_calloc env (c_tick c) then Inr None
         else
           rbind (nvme_ctrlr_get_quirks pdev) (\<lambda>qk.
           let c = nvme_ctrlr_set_state env NVME_CTRLR_STATE_INIT NVME_TIMEOUT_INFINITE ((next_tick c)\<lparr>quirks := qk\<rparr>)
           in rbind (nvme_ctrlr_map_bars env c) (\<lambda>(ret, c).
              if ret \<noteq> 0 then Inr None
              else if \<not> c_regs c then Inl BadAccess
              else
                let c = c\<lparr>pci_command := pci_command c OR 0x0404,
                          doorbell_stride_u32 := push_bit (unat (cap_bits (r_cap c) CAP_DSTRD)) 1,
                          min_page_size := push_bit (12 + unat (cap_bits (r_cap c) CAP_MPSMIN)) 1,
                          max_xfer_size := of_nat NVME_MAX_XFER_SIZE\<rparr>
                in rbind (construct_qpair env c (adminq c) 0 NVME_ADMIN_ENTRIES NVME_ADMIN_TRACKERS) (\<lambda>((ret, q), c).
                   let c = c\<lparr>adminq := q\<rparr>
                   in if ret \<noteq> 0 then rbind (nvme_ctrlr_detach n fuel env c) (\<lambda>_. Inr None)
                      else rbind (init_loop n fuel env (nvme_ctrlr_set_opts opts c)) (\<lambda>(ret, c).
                             if ret \<noteq> 0 then rbind (nvme_ctrlr_detach n fuel env c) (\<lambda>_. Inr None) else Inr (Some c))))))"

subsection \<open>Definitions: features, namespace and firmware management\<close>

definition nvme_ctrlr_get_feature ::
  "nat \<Rightarrow> ctrlr_env \<Rightarrow> nvme_ctrlr \<Rightarrow> nvme_feat_sel \<Rightarrow> nvme_feat \<Rightarrow> u32 \<Rightarrow> bool \<Rightarrow> ((int \<times> u32 option) \<times> nvme_ctrlr) res" where
  "nvme_ctrlr_get_feature fuel env c sel feature dw11 attributes =
     on_adminq c (\<lambda>s. nvme_admin_get_feature fuel (hw_dev env) s sel feature dw11 attributes)"

definition nvme_ctrlr_set_feature ::
  "nat \<Rightarrow> ctrlr_env \<Rightarrow> nvme_ctrlr \<Rightarrow> bool \<Rightarrow> nvme_feat \<Rightarrow> u32 \<Rightarrow> u32 \<Rightarrow> bool \<Rightarrow> ((int \<times> u32 option) \<times> nvme_ctrlr) res" where
  "nvme_ctrlr_set_feature fuel env c save feature dw11 dw12 attributes =
     on_adminq c (\<lambda>s. nvme_admin_set_feature fuel (hw_dev env) s save feature dw11 dw12 attributes)"

text \<open>The management commands reset the controller when the command succeeded.\<close>

definition then_reset :: "nat \<Rightarrow> nat \<Rightarrow> ctrlr_env \<Rightarrow> (int \<times> nvme_ctrlr) res \<Rightarrow> (int \<times> nvme_ctrlr) res" where
  "then_reset n fuel env r = rbind r (\<lambda>(ret, c). if ret \<noteq> 0 then Inr (ret, c) else nvme_ctrlr_reset n fuel env c)"

definition nvme_ctrlr_attach_ns :: "nat \<Rightarrow> nat \<Rightarrow> ctrlr_env \<Rightarrow> nvme_ctrlr \<Rightarrow> u32 \<Rightarrow> nat \<Rightarrow> (int \<times> nvme_ctrlr) res" where
  "nvme_ctrlr_attach_ns n fuel env c k clist =
     then_reset n fuel env (on_adminq c (\<lambda>s. nvme_admin_attach_ns fuel (hw_dev env) s k clist))"

definition nvme_ctrlr_detach_ns :: "nat \<Rightarrow> nat \<Rightarrow> ctrlr_env \<Rightarrow> nvme_ctrlr \<Rightarrow> u32 \<Rightarrow> nat \<Rightarrow> (int \<times> nvme_ctrlr) res" where
  "nvme_ctrlr_detach_ns n fuel env c k clist =
     then_reset n fuel env (on_adminq c (\<lambda>s. nvme_admin_detach_ns fuel (hw_dev env) s k clist))"

definition nvme_ctrlr_create_ns :: "nat \<Rightarrow> ctrlr_env \<Rightarrow> nvme_ctrlr \<Rightarrow> nat \<Rightarrow> (u32 \<times> nvme_ctrlr) res" where
  "nvme_ctrlr_create_ns fuel env c buf =
     rbind (on_adminq c (\<lambda>s. nvme_admin_create_ns fuel (hw_dev env) s buf))
       (\<lambda>((ret, k), c). Inr (if ret \<noteq> 0 then 0 else the k, c))"

definition nvme_ctrlr_delete_ns :: "nat \<Rightarrow> nat \<Rightarrow> ctrlr_env \<Rightarrow> nvme_ctrlr \<Rightarrow> u32 \<Rightarrow> (int \<times> nvme_ctrlr) res" where
  "nvme_ctrlr_delete_ns n fuel env c k = then_reset n fuel env (on_adminq c (\<lambda>s. nvme_admin_delete_ns fuel (hw_dev env) s k))"

definition nvme_ctrlr_format_ns :: "nat \<Rightarrow> nat \<Rightarrow> ctrlr_env \<Rightarrow> nvme_ctrlr \<Rightarrow> u32 \<Rightarrow> u32 \<Rightarrow> (int \<times> nvme_ctrlr) res" where
  "nvme_ctrlr_format_ns n fuel env c k format =
     then_reset n fuel env (on_adminq c (\<lambda>s. nvme_admin_format_nvm fuel (hw_dev env) s k format))"

text \<open>\<open>fw_download\<close> is the loop of \<^verbatim>\<open>nvme_ctrlr_update_firmware\<close>; \<open>m\<close> bounds its rounds.\<close>

fun fw_download :: "nat \<Rightarrow> nat \<Rightarrow> ctrlr_env \<Rightarrow> nvme_ctrlr \<Rightarrow> nat \<Rightarrow> u32 \<Rightarrow> u32 \<Rightarrow> (int \<times> nvme_ctrlr) res" where
  "fw_download 0 fuel env c f size_remaining ofst = (if size_remaining > 0 then Inl OutOfFuel else Inr (0, c))"
| "fw_download (Suc m) fuel env c f size_remaining ofst =
     (if size_remaining > 0
      then
        let transfer = min size_remaining (min_page_size c)
        in rbind (on_adminq c (\<lambda>s. nvme_admin_fw_image_dl fuel (hw_dev env) s f transfer ofst))
             (\<lambda>(ret, c). if ret \<noteq> 0 then Inr (ret, c)
                else fw_download m fuel env c (f + unat transfer) (size_remaining - transfer) (ofst + transfer))
      else Inr (0, c))"

text \<open>The commit structure holds the slot in its first three bits; the action is to replace the image (0).\<close>

definition nvme_ctrlr_update_firmware ::
  "nat \<Rightarrow> nat \<Rightarrow> nat \<Rightarrow> ctrlr_env \<Rightarrow> nvme_ctrlr \<Rightarrow> nat \<Rightarrow> u64 \<Rightarrow> u32 \<Rightarrow> (int \<times> nvme_ctrlr) res" where
  "nvme_ctrlr_update_firmware m n fuel env c fw fw_size slot =
     (if fw_size AND 0x3 \<noteq> 0 then Inr (- EINVAL, c)
      else rbind (fw_download m fuel env c fw (ucast fw_size) 0) (\<lambda>(ret, c).
        if ret \<noteq> 0 then Inr (ret, c)
        else then_reset n fuel env (on_adminq c (\<lambda>s. nvme_admin_fw_commit fuel (hw_dev env) s (take_bit 3 slot)))))"

subsection \<open>Definitions: namespace handles\<close>

text \<open>
  A handle is the index of an element of the array \<^verbatim>\<open>ctrlr->ns\<close>, \<open>None\<close> for a null pointer. An index that is not in the
  array is a pointer that is not valid any more.
\<close>

definition nvme_ns_open :: "nvme_ctrlr \<Rightarrow> nat \<Rightarrow> (nat option \<times> nvme_ctrlr) res" where
  "nvme_ns_open c k =
     (if 1 \<le> k \<and> k \<le> nr_ns c
      then case c_ns c of
             None \<Rightarrow> Inl BadAccess
           | Some nss \<Rightarrow>
               if length nss < k then Inl BadAccess
               else Inr (Some (k - 1), c\<lparr>c_ns := Some (nss[k - 1 := (nss ! (k - 1))\<lparr>open_count := open_count (nss ! (k - 1)) + 1\<rparr>])\<rparr>)
      else Inr (None, c))"

definition nvme_ns_ctrlr_lock :: "nvme_ctrlr \<Rightarrow> nat option \<Rightarrow> nvme_ns option res" where
  "nvme_ns_ctrlr_lock c h =
     (case h of
        None \<Rightarrow> Inr None
      | Some i \<Rightarrow>
          (case c_ns c of
             None \<Rightarrow> Inl BadAccess
           | Some nss \<Rightarrow>
               if length nss \<le> i then Inl BadAccess
               else
                 let ns = nss ! i; k = unat (ns_id ns)
                 in if k < 1 \<or> k > nr_ns c \<or> i \<noteq> k - 1 \<or> open_count ns = 0 then Inr None else Inr (Some ns)))"

definition nvme_ns_close :: "nvme_ctrlr \<Rightarrow> nat option \<Rightarrow> (int \<times> nvme_ctrlr) res" where
  "nvme_ns_close c h =
     rbind (nvme_ns_ctrlr_lock c h) (\<lambda>l. case l of
        None \<Rightarrow> Inr (- EINVAL, c)
      | Some ns \<Rightarrow> Inr (0, c\<lparr>c_ns := map_option (\<lambda>nss. nss[the h := ns\<lparr>open_count := open_count ns - 1\<rparr>]) (c_ns c)\<rparr>))"

definition nvme_ns_get_data :: "nvme_ctrlr \<Rightarrow> nvme_ns \<Rightarrow> nvme_ns_data res" where
  "nvme_ns_get_data c ns =
     (case nsdata c of
        None \<Rightarrow> Inl BadAccess
      | Some (_, ds) \<Rightarrow> if ns_id ns = 0 \<or> length ds < unat (ns_id ns) then Inl BadAccess else Inr (ds ! (unat (ns_id ns) - 1)))"

record nvme_ns_stat =
  st_id :: u16
  st_sector_size :: u32
  st_sectors :: u64
  st_flags :: u16
  st_pi_type :: u32
  st_md_size :: u32

definition nvme_ns_stat_get :: "nvme_ctrlr \<Rightarrow> nat option \<Rightarrow> (int \<times> nvme_ns_stat option) res" where
  "nvme_ns_stat_get c h =
     rbind (nvme_ns_ctrlr_lock c h) (\<lambda>l. case l of
        None \<Rightarrow> Inr (- EINVAL, None)
      | Some ns \<Rightarrow> rbind (nvme_ns_get_data c ns) (\<lambda>nd. Inr (0, Some \<lparr>st_id = ns_id ns, st_sector_size = sector_size ns,
            st_sectors = nd_nsze nd, st_flags = ns_flags ns, st_pi_type = pi_type ns, st_md_size = md_size ns\<rparr>)))"

definition nvme_ns_data_get :: "nvme_ctrlr \<Rightarrow> nat option \<Rightarrow> (int \<times> nvme_ns_data option) res" where
  "nvme_ns_data_get c h =
     rbind (nvme_ns_ctrlr_lock c h) (\<lambda>l. case l of
        None \<Rightarrow> Inr (- EINVAL, None)
      | Some ns \<Rightarrow> rbind (nvme_ns_get_data c ns) (\<lambda>nd. Inr (0, Some nd)))"

end
