(* ===== verification/Nvme_Init.thy ===== *)
theory Nvme_Init
  imports Nvme_Ctrlr
begin

text \<open>
  The initialisation of a controller. An inductive relation gives the handshake between CC.EN and CSTS.RDY that the NVMe
  specification prescribes; the calls of \<^verbatim>\<open>nvme_ctrlr_init\<close> are steps of it. The loop of attach and reset reaches the start
  of the controller when the device reacts in time, and fails it when the time is over.
\<close>

subsection \<open>What the operations of a controller leave alone\<close>

definition ret_in :: "('a \<Rightarrow> bool) \<Rightarrow> 'a res \<Rightarrow> bool" where
  "ret_in Q r \<longleftrightarrow> (\<forall>y. r = Inr y \<longrightarrow> Q y)"

lemma ret_inD: "ret_in Q r \<Longrightarrow> r = Inr y \<Longrightarrow> Q y"
  by (simp add: ret_in_def)

lemma ret_Inl [simp]: "ret_in Q (Inl e)"
  by (simp add: ret_in_def)

lemma ret_Inr [simp]: "ret_in Q (Inr y) \<longleftrightarrow> Q y"
  by (simp add: ret_in_def)

lemma ret_bind: "ret_in Q r \<Longrightarrow> (\<And>y. Q y \<Longrightarrow> ret_in Q' (g y)) \<Longrightarrow> ret_in Q' (rbind r g)"
  by (auto simp: ret_in_def)

lemma ret_any: "ret_in (\<lambda>_. True) r"
  by (simp add: ret_in_def)

abbreviation to :: "(nvme_ctrlr \<Rightarrow> bool) \<Rightarrow> 'a \<times> nvme_ctrlr \<Rightarrow> bool" where
  "to P \<equiv> \<lambda>(_, c). P c"

text \<open>
  A relation between controllers that every change of the operations below \<^verbatim>\<open>nvme_ctrlr_init\<close> respects; then these
  operations respect it too.
\<close>

locale ctrlr_frame =
  fixes R :: "nvme_ctrlr \<Rightarrow> nvme_ctrlr \<Rightarrow> bool"
  assumes R_refl: "R c c"
    and R_trans: "R c1 c2 \<Longrightarrow> R c2 c3 \<Longrightarrow> R c1 c3"
    and R_adminq: "R c ((store_qp c s)\<lparr>adminq := q\<rparr>)"
    and R_ioq: "ioq c = Some qs \<Longrightarrow> length qs' = length qs \<Longrightarrow> R c ((store_qp c s)\<lparr>ioq := Some qs'\<rparr>)"
    and R_set_ioq: "R c (set_ioq i q c)"
    and R_tick: "R c (c\<lparr>c_tick := t\<rparr>)"
    and R_failed: "R c (c\<lparr>failed := True\<rparr>)"
    and R_cdata: "R c (c\<lparr>cdata := d\<rparr>)"
    and R_max_xfer: "R c (c\<lparr>max_xfer_size := min (max_xfer_size c) w\<rparr>)"
    and R_max_queues: "R c (c\<lparr>max_io_queues := k\<rparr>)"
    and R_queues: "R c (c\<lparr>io_queues := k\<rparr>)"
    and R_max_entries: "R c (c\<lparr>io_qpairs_max_entries := k\<rparr>)"
    and R_init_ioq: "ioq c = None \<Longrightarrow>
      R c (c\<lparr>ioq := Some (map f [0..<k]), free_io_qpairs := free_io_qpairs c @ [0..<k]\<rparr>)"
    and R_ns: "R c (c\<lparr>c_ns := x\<rparr>)"
    and R_nsdata: "R c (c\<lparr>nsdata := y\<rparr>)"
    and R_nr_ns: "R c (c\<lparr>nr_ns := k\<rparr>)"
    and R_aers: "R c (c\<lparr>num_aers := k\<rparr>)"
    and R_logs: "R c (c\<lparr>log_page_supported := ls\<rparr>)"
    and R_features: "R c (c\<lparr>feature_supported := ls\<rparr>)"
    and R_sgl: "R c (c\<lparr>sgl_supported := True\<rparr>)"
begin

lemmas R_step = R_trans [OF _ R_failed] R_trans [OF _ R_cdata] R_trans [OF _ R_max_queues] R_trans [OF _ R_queues]
  R_trans [OF _ R_max_entries] R_trans [OF _ R_ns] R_trans [OF _ R_nsdata] R_trans [OF _ R_nr_ns] R_trans [OF _ R_aers]
  R_trans [OF _ R_logs] R_trans [OF _ R_features] R_trans [OF _ R_sgl] R_trans [OF _ R_tick] R_trans [OF _ R_set_ioq]

lemma R_next: "R c0 c \<Longrightarrow> R c0 (next_tick c)"
  unfolding next_tick_def by (rule R_trans [OF _ R_tick])

lemma adminq_frame: "R c0 c \<Longrightarrow> ret_in (to (R c0)) (on_adminq c f)"
  by (auto simp: on_adminq_def ret_in_def intro: R_trans [OF _ R_adminq])

lemma ioq_frame: "R c0 c \<Longrightarrow> ret_in (to (R c0)) (on_ioq c i f)"
  by (auto simp: on_ioq_def ret_in_def intro!: R_trans [OF _ R_ioq] split: option.splits if_splits)

lemma ioqs_frame: "R c0 c \<Longrightarrow> ret_in (R c0) (on_ioqs f is c)"
  by (induction "is" arbitrary: c) (auto intro!: ret_bind [OF ioq_frame])

lemma fail_frame: "R c0 c \<Longrightarrow> ret_in (R c0) (nvme_ctrlr_fail fuel c)"
  unfolding nvme_ctrlr_fail_def by (intro ret_bind [OF adminq_frame] R_step) (auto intro: ioqs_frame)

lemma identify_frame: "R c0 c \<Longrightarrow> ret_in (to (R c0)) (nvme_ctrlr_identify fuel env c)"
  unfolding nvme_ctrlr_identify_def
  by (intro ret_bind [OF adminq_frame])
     (auto simp: Let_def intro!: ret_bind [OF ret_any] R_next R_step R_trans [OF _ R_max_xfer])

lemma get_max_frame: "R c0 c \<Longrightarrow> ret_in (to (R c0)) (nvme_ctrlr_get_max_io_qpairs fuel env c)"
  unfolding nvme_ctrlr_get_max_io_qpairs_def by (intro ret_bind [OF adminq_frame]) (auto intro!: R_step)

lemma set_num_qpairs_frame: "R c0 c \<Longrightarrow> ret_in (to (R c0)) (nvme_ctrlr_set_num_qpairs fuel env c)"
  unfolding nvme_ctrlr_set_num_qpairs_def
  by (intro ret_bind [OF get_max_frame]) (auto simp: Let_def intro!: ret_bind [OF adminq_frame] R_step)

lemma init_io_qpairs_frame:
  assumes "R c0 c"
  shows "to (R c0) (nvme_ctrlr_init_io_qpairs env c)"
proof (cases "ioq c")
  case None
  define c1 where "c1 = c\<lparr>io_qpairs_max_entries := min NVME_IO_ENTRIES (unat (cap_bits (r_cap c) CAP_MQES) + 1)\<rparr>"
  have "R c0 c1" unfolding c1_def by (rule R_trans [OF assms R_max_entries])
  moreover have "ioq c1 = None" using None by (simp add: c1_def)
  ultimately show ?thesis
    using None unfolding nvme_ctrlr_init_io_qpairs_def Let_def c1_def [symmetric]
    by (auto intro!: R_next R_trans [OF _ R_init_ioq])
qed (use assms in \<open>simp add: nvme_ctrlr_init_io_qpairs_def\<close>)

lemma identify_ns_frame: "R c0 c \<Longrightarrow> ret_in (to (R c0)) (nvme_ns_identify_update fuel env c ns)"
proof (cases "nsdata c")
  case (Some p)
  moreover assume "R c0 c"
  ultimately show ?thesis
    unfolding nvme_ns_identify_update_def Let_def
    by (auto split: prod.splits intro!: ret_bind [OF adminq_frame]) (auto intro!: ret_bind [OF ret_any] R_next R_step)
qed (simp add: nvme_ns_identify_update_def)

lemma ns_construct_frame: "R c0 c \<Longrightarrow> ret_in (to (R c0)) (nvme_ns_construct fuel env c ns k)"
  unfolding nvme_ns_construct_def Let_def by (intro ret_bind [OF ret_any] identify_ns_frame)

lemma destruct_frame: "R c0 c \<Longrightarrow> R c0 (nvme_ctrlr_destruct_namespaces c)"
  by (auto simp: nvme_ctrlr_destruct_namespaces_def Let_def intro!: R_step)

lemma ns_loop_frame: "R c0 c \<Longrightarrow> ret_in (to (R c0)) (construct_ns_loop fuel env is c)"
proof (induction "is" arbitrary: c)
  case (Cons i "is")
  then show ?case
    by (auto simp: Let_def intro!: ret_bind [OF ns_construct_frame] destruct_frame Cons.IH R_step split: option.splits)
qed simp

lemma namespaces_frame: "R c0 c \<Longrightarrow> ret_in (to (R c0)) (nvme_ctrlr_construct_namespaces fuel env c)"
  by (auto simp: nvme_ctrlr_construct_namespaces_def Let_def intro!: ns_loop_frame destruct_frame R_step split: option.splits)

lemma submit_aers_frame: "R c0 c \<Longrightarrow> ret_in (to (R c0)) (submit_aers fuel is c)"
  by (induction "is" arbitrary: c) (auto intro!: ret_bind [OF adminq_frame])

lemma configure_aer_frame: "R c0 c \<Longrightarrow> ret_in (to (R c0)) (nvme_ctrlr_configure_aer fuel env c)"
  unfolding nvme_ctrlr_configure_aer_def Let_def
  by (intro ret_bind [OF adminq_frame]) (auto intro!: submit_aers_frame R_step)

lemma log_pages_frame: "R c0 c \<Longrightarrow> ret_in (R c0) (nvme_ctrlr_set_supported_log_pages fuel env c)"
  unfolding nvme_ctrlr_set_supported_log_pages_def nvme_ctrlr_set_intel_support_log_pages_def Let_def
  by (auto intro!: ret_bind [where Q = "to (R c0)"] ret_bind [OF adminq_frame] R_next R_step
    simp: nvme_ctrlr_construct_intel_support_log_page_list_def split: option.splits)

lemma start_frame:
  assumes "R c0 c"
  shows "ret_in (to (R c0)) (nvme_ctrlr_start fuel env c)"
proof -
  have fin: "ret_in (to (R c0)) (rbind (nvme_ctrlr_configure_aer fuel env c1) (\<lambda>(_, c).
     rbind (nvme_ctrlr_set_supported_log_pages fuel env c) (\<lambda>c.
     let c = nvme_ctrlr_set_supported_features c
     in Inr (0 :: int, if cd_sgls_supported (cdata c) then c\<lparr>sgl_supported := True\<rparr> else c))))" if "R c0 c1" for c1
    by (rule ret_bind [OF configure_aer_frame [OF that]])
       (auto simp: nvme_ctrlr_set_supported_features_def Let_def intro!: ret_bind [OF log_pages_frame] R_step)
  have ns: "ret_in (to (R c0)) (case nvme_ctrlr_init_io_qpairs env c1 of (ret, c) \<Rightarrow> if ret \<noteq> 0 then Inr (-1 :: int, c) else
     rbind (nvme_ctrlr_construct_namespaces fuel env c) (\<lambda>(ret, c). if ret \<noteq> 0 then Inr (-1, c) else
     rbind (nvme_ctrlr_configure_aer fuel env c) (\<lambda>(_, c).
     rbind (nvme_ctrlr_set_supported_log_pages fuel env c) (\<lambda>c.
     let c = nvme_ctrlr_set_supported_features c
     in Inr (0, if cd_sgls_supported (cdata c) then c\<lparr>sgl_supported := True\<rparr> else c)))))" if "R c0 c1" for c1
    using init_io_qpairs_frame [OF that, of env]
    by (auto split: prod.splits intro!: ret_bind [OF namespaces_frame] fin)
  show ?thesis
    unfolding nvme_ctrlr_start_def
    by (rule ret_bind [OF adminq_frame [OF assms]])
       (auto intro!: ret_bind [OF identify_frame] ret_bind [OF set_num_qpairs_frame] ns)
qed

lemma init_timeout_frame: "R c0 c \<Longrightarrow> ret_in (to (R c0)) (init_timeout fuel env c)"
  by (auto simp: init_timeout_def nvme_time_msec_def intro!: ret_bind [OF fail_frame] R_next)

end

text \<open>The registers, the state of the initialisation, the options and the active queue pairs stay; transfers do not grow.\<close>

definition keeps :: "nvme_ctrlr \<Rightarrow> nvme_ctrlr \<Rightarrow> bool" where
  "keeps c c' \<longleftrightarrow> nvme_registers.truncate c' = nvme_registers.truncate c \<and> c_state c' = c_state c
     \<and> state_timeout_ms c' = state_timeout_ms c \<and> c_opts c' = c_opts c \<and> min_page_size c' = min_page_size c
     \<and> active_io_qpairs c' = active_io_qpairs c \<and> max_xfer_size c' \<le> max_xfer_size c"

lemma keepsD:
  assumes "keeps c c'"
  shows "r_cap c' = r_cap c" "r_cc c' = r_cc c" "r_aqa c' = r_aqa c" "r_asq c' = r_asq c" "r_acq c' = r_acq c"
    "c_state c' = c_state c" "state_timeout_ms c' = state_timeout_ms c" "c_opts c' = c_opts c" "min_page_size c' = min_page_size c"
    "active_io_qpairs c' = active_io_qpairs c" "max_xfer_size c' \<le> max_xfer_size c"
  using assms by (simp_all add: keeps_def nvme_registers.defs)

interpretation kept: ctrlr_frame keeps
proof
  show "keeps c1 c3" if "keeps c1 c2" "keeps c2 c3" for c1 c2 c3
    using that unfolding keeps_def by (elim conjE, intro conjI) (auto intro: order_trans)
qed (simp_all add: keeps_def nvme_registers.defs store_qp_def set_ioq_def)

subsection \<open>Enabling\<close>

lemmas cc_get_put = cc.get_set [where 'a = 32, simplified]
lemmas aqa_get_put = aqa.get_set [where 'a = 32, simplified]

lemma enable_cc_bits:
  "cc_bits (enable_cc ams cc) CC_EN = 1" "cc_bits (enable_cc ams cc) CC_CSS = 0" "cc_bits (enable_cc ams cc) CC_SHN = 0"
  "cc_bits (enable_cc ams cc) CC_MPS = 0" "cc_bits (enable_cc ams cc) CC_IOSQES = 6" "cc_bits (enable_cc ams cc) CC_IOCQES = 4"
  "cc_bits (enable_cc ams cc) CC_AMS = take_bit 3 (ams_code ams)"
  by (simp_all add: enable_cc_def cc_get_put PAGE_SHIFT_def del: nvme_cc_register.simps) (simp_all add: take_bit_eq_mod)

lemma ams_supported_upd [simp]: "ams_supported (c\<lparr>r_asq := a, r_acq := b, r_aqa := d\<rparr>) = ams_supported c"
  by (simp add: ams_supported_def split: nvme_cc_ams.splits)

lemma enable_ok:
  assumes "\<not> nvme_ctrlr_enabled c" and "ams_supported c"
  shows "nvme_ctrlr_enable c = (0, c\<lparr>r_asq := cmd_bus_addr (adminq c), r_acq := cpl_bus_addr (adminq c),
    r_aqa := aqa_put AQA_ASQS (of_nat (entries (adminq c)) - 1) (aqa_put AQA_ACQS (of_nat (entries (adminq c)) - 1) 0),
    r_cc := enable_cc (opt_arb_mechanism (c_opts c)) (r_cc c)\<rparr>)"
  using assms by (simp add: nvme_ctrlr_enable_def Let_def nvme_ctrlr_enabled_def)

lemma enable_fails:
  assumes "nvme_ctrlr_enabled c \<or> \<not> ams_supported c"
  shows "\<exists>c'. nvme_ctrlr_enable c = (- EINVAL, c') \<and> r_cc c' = r_cc c \<and> c_state c' = c_state c"
  using assms by (auto simp: nvme_ctrlr_enable_def Let_def nvme_ctrlr_enabled_def)

subsection \<open>The handshake\<close>

text \<open>
  The states of the initialisation with the value of CC.EN, and the steps for an observed value of CSTS.RDY: CC.EN may be set
  only when RDY was read as 0, and cleared only when it was read as 1.
\<close>

inductive handshake :: "bool \<Rightarrow> nvme_ctrlr_state \<times> bool \<Rightarrow> nvme_ctrlr_state \<times> bool \<Rightarrow> bool" where
  await_enabled: "handshake False (NVME_CTRLR_STATE_INIT, True) (NVME_CTRLR_STATE_DISABLE_WAIT_FOR_READY_1, True)"
| disable_now: "handshake True (NVME_CTRLR_STATE_INIT, True) (NVME_CTRLR_STATE_DISABLE_WAIT_FOR_READY_0, False)"
| await_disabled: "handshake True (NVME_CTRLR_STATE_INIT, False) (NVME_CTRLR_STATE_DISABLE_WAIT_FOR_READY_0, False)"
| enable_now: "handshake False (NVME_CTRLR_STATE_INIT, False) (NVME_CTRLR_STATE_ENABLE_WAIT_FOR_READY_1, True)"
| disable: "handshake True (NVME_CTRLR_STATE_DISABLE_WAIT_FOR_READY_1, True) (NVME_CTRLR_STATE_DISABLE_WAIT_FOR_READY_0, False)"
| enable: "handshake False (NVME_CTRLR_STATE_DISABLE_WAIT_FOR_READY_0, False) (NVME_CTRLR_STATE_ENABLE_WAIT_FOR_READY_1, True)"
| finish: "handshake True (NVME_CTRLR_STATE_ENABLE_WAIT_FOR_READY_1, True) (NVME_CTRLR_STATE_READY, True)"
| wait_1: "handshake False (NVME_CTRLR_STATE_DISABLE_WAIT_FOR_READY_1, True) (NVME_CTRLR_STATE_DISABLE_WAIT_FOR_READY_1, True)"
| wait_0: "handshake True (NVME_CTRLR_STATE_DISABLE_WAIT_FOR_READY_0, False) (NVME_CTRLR_STATE_DISABLE_WAIT_FOR_READY_0, False)"
| wait_ready: "handshake False (NVME_CTRLR_STATE_ENABLE_WAIT_FOR_READY_1, True) (NVME_CTRLR_STATE_ENABLE_WAIT_FOR_READY_1, True)"

inductive_cases handshake_finishE: "handshake r a (NVME_CTRLR_STATE_READY, e)"

definition hs_abs :: "nvme_ctrlr \<Rightarrow> nvme_ctrlr_state \<times> bool" where
  "hs_abs c = (c_state c, nvme_ctrlr_enabled c)"

fun hs_ok :: "nvme_ctrlr_state \<times> bool \<Rightarrow> bool" where
  "hs_ok (NVME_CTRLR_STATE_INIT, en) = True"
| "hs_ok (NVME_CTRLR_STATE_DISABLE_WAIT_FOR_READY_0, en) = (\<not> en)"
| "hs_ok (_, en) = en"

lemma handshake_ok: "handshake r a b \<Longrightarrow> hs_ok b"
  by (induction rule: handshake.induct) simp_all

definition rdy_at :: "ctrlr_env \<Rightarrow> nat \<Rightarrow> u32 \<Rightarrow> bool" where
  "rdy_at env t cc \<longleftrightarrow> csts_bits (hw_csts env t cc) CSTS_RDY \<noteq> 0"

lemma ready_eq: "nvme_ctrlr_ready env c = (rdy_at env (c_tick c) (r_cc c), next_tick c)"
  by (simp add: nvme_ctrlr_ready_def read_csts_def rdy_at_def)

lemma set_state_simps [simp]:
  "c_state (nvme_ctrlr_set_state env st t c) = st" "r_cc (nvme_ctrlr_set_state env st t c) = r_cc c"
  "r_cap (nvme_ctrlr_set_state env st t c) = r_cap c" "c_opts (nvme_ctrlr_set_state env st t c) = c_opts c"
  "r_asq (nvme_ctrlr_set_state env st t c) = r_asq c" "r_acq (nvme_ctrlr_set_state env st t c) = r_acq c"
  "r_aqa (nvme_ctrlr_set_state env st t c) = r_aqa c" "adminq (nvme_ctrlr_set_state env st t c) = adminq c"
  by (simp_all add: nvme_ctrlr_set_state_def nvme_time_msec_def next_tick_def Let_def)

lemma next_tick_simps [simp]:
  "c_state (next_tick c) = c_state c" "r_cc (next_tick c) = r_cc c" "r_cap (next_tick c) = r_cap c" "c_opts (next_tick c) = c_opts c"
  "r_asq (next_tick c) = r_asq c" "r_acq (next_tick c) = r_acq c" "r_aqa (next_tick c) = r_aqa c" "adminq (next_tick c) = adminq c"
  "state_timeout_ms (next_tick c) = state_timeout_ms c" "c_tick (next_tick c) = Suc (c_tick c)" "nvme_ctrlr_enabled (next_tick c) = nvme_ctrlr_enabled c"
  by (simp_all add: next_tick_def nvme_ctrlr_enabled_def)

lemma enabled_set_state [simp]: "nvme_ctrlr_enabled (nvme_ctrlr_set_state env st t c) = nvme_ctrlr_enabled c"
  by (simp add: nvme_ctrlr_enabled_def)

lemma disable_simps [simp]:
  "\<not> nvme_ctrlr_enabled (nvme_ctrlr_disable c)" "c_state (nvme_ctrlr_disable c) = c_state c" "c_opts (nvme_ctrlr_disable c) = c_opts c"
  "r_cap (nvme_ctrlr_disable c) = r_cap c" "c_tick (nvme_ctrlr_disable c) = c_tick c"
  using cc_get_put [of CC_EN CC_EN 0 "r_cc c"] by (simp_all add: nvme_ctrlr_disable_def nvme_ctrlr_enabled_def)

text \<open>What holds of the registers when the controller was enabled: CC as written by \<^verbatim>\<open>nvme_ctrlr_enable\<close>.\<close>

definition programmed :: "nvme_ctrlr \<Rightarrow> bool" where
  "programmed c \<longleftrightarrow> ams_supported c \<and> (\<exists>cc. r_cc c = enable_cc (opt_arb_mechanism (c_opts c)) cc)"

lemma init_enable_ok:
  assumes "init_enable env t c = (0, c')"
  shows "\<not> nvme_ctrlr_enabled c" "hs_abs c' = (NVME_CTRLR_STATE_ENABLE_WAIT_FOR_READY_1, True)" "programmed c'"
    "r_asq c' = cmd_bus_addr (adminq c')" "r_acq c' = cpl_bus_addr (adminq c')"
    "r_aqa c' = aqa_put AQA_ASQS (of_nat (entries (adminq c')) - 1) (aqa_put AQA_ACQS (of_nat (entries (adminq c')) - 1) 0)"
proof -
  have "\<not> (nvme_ctrlr_enabled c \<or> \<not> ams_supported c)"
  proof
    assume "nvme_ctrlr_enabled c \<or> \<not> ams_supported c"
    from enable_fails [OF this] assms show False by (auto simp: init_enable_def EINVAL_def)
  qed
  then have e: "\<not> nvme_ctrlr_enabled c" "ams_supported c" by simp_all
  then show "\<not> nvme_ctrlr_enabled c" by simp
  from e have "c' = nvme_ctrlr_set_state env NVME_CTRLR_STATE_ENABLE_WAIT_FOR_READY_1 t (snd (nvme_ctrlr_enable c))"
    using assms by (simp add: init_enable_def enable_ok)
  with e show "hs_abs c' = (NVME_CTRLR_STATE_ENABLE_WAIT_FOR_READY_1, True)" "programmed c'"
    "r_asq c' = cmd_bus_addr (adminq c')" "r_acq c' = cpl_bus_addr (adminq c')"
    "r_aqa c' = aqa_put AQA_ASQS (of_nat (entries (adminq c')) - 1) (aqa_put AQA_ACQS (of_nat (entries (adminq c')) - 1) 0)"
    by (auto simp: enable_ok hs_abs_def programmed_def nvme_ctrlr_enabled_def enable_cc_bits ams_supported_def
      split: nvme_cc_ams.splits simp del: nvme_cc_register.simps nvme_cap_register.simps)
qed

lemma init_timeout_cases:
  assumes "init_timeout fuel env c = Inr (ret, c')"
  shows "ret = 0 \<and> (c' = c \<or> c' = next_tick c) \<or> ret = -1 \<and> keeps c c'"
  using assms kept.fail_frame [OF kept.R_next [OF kept.R_refl, of c], of fuel]
  by (auto simp: init_timeout_def nvme_time_msec_def ret_in_def split: if_splits)

lemma programmed_kept: "keeps c c' \<Longrightarrow> programmed c' = programmed c"
  by (auto simp: programmed_def ams_supported_def keepsD split: nvme_cc_ams.splits)

lemma enabled_kept: "keeps c c' \<Longrightarrow> nvme_ctrlr_enabled c' = nvme_ctrlr_enabled c"
  by (simp add: nvme_ctrlr_enabled_def keepsD)

lemma start_keeps: "nvme_ctrlr_start fuel env c = Inr (ret, c') \<Longrightarrow> keeps c c'"
  using ret_inD [OF kept.start_frame [OF kept.R_refl]] by fastforce

text \<open>A call that returns 0 is a step of the handshake for the value of CSTS.RDY it has read.\<close>

lemma init_handshake:
  assumes "hs_ok (hs_abs c)" and "nvme_ctrlr_init fuel env c = Inr (0, c')"
  shows "handshake (rdy_at env (c_tick c) (r_cc c)) (hs_abs c) (hs_abs c')"
proof (cases "c_state c")
  case NVME_CTRLR_STATE_INIT
  then show ?thesis
    using assms(2) init_enable_ok [of env _ "next_tick c" c']
    by (auto simp: nvme_ctrlr_init_def Let_def ready_eq init_disable_def hs_abs_def intro: handshake.intros split: if_splits)
next
  case NVME_CTRLR_STATE_DISABLE_WAIT_FOR_READY_1
  then show ?thesis
    using assms init_timeout_cases [of fuel env "next_tick c" 0 c']
    by (auto simp: nvme_ctrlr_init_def Let_def ready_eq init_disable_def hs_abs_def intro: handshake.intros split: if_splits)
next
  case NVME_CTRLR_STATE_DISABLE_WAIT_FOR_READY_0
  then show ?thesis
    using assms init_timeout_cases [of fuel env "next_tick c" 0 c'] init_enable_ok [of env _ "next_tick c" c']
    by (auto simp: nvme_ctrlr_init_def Let_def ready_eq hs_abs_def intro: handshake.intros split: if_splits)
next
  case NVME_CTRLR_STATE_ENABLE_WAIT_FOR_READY_1
  then have en: "nvme_ctrlr_enabled c" using assms(1) by (simp add: hs_abs_def)
  show ?thesis
  proof (cases "rdy_at env (c_tick c) (r_cc c)")
    case True
    then obtain c1 where c1: "nvme_ctrlr_start fuel env (next_tick c) = Inr (0, c1)"
      "c' = nvme_ctrlr_set_state env NVME_CTRLR_STATE_READY NVME_TIMEOUT_INFINITE c1"
      using assms(2) NVME_CTRLR_STATE_ENABLE_WAIT_FOR_READY_1 by (auto simp: nvme_ctrlr_init_def Let_def ready_eq split: if_splits)
    then have "hs_abs c' = (NVME_CTRLR_STATE_READY, True)" using enabled_kept [OF start_keeps [OF c1(1)]] en by (simp add: hs_abs_def)
    then show ?thesis using True en NVME_CTRLR_STATE_ENABLE_WAIT_FOR_READY_1 by (simp add: hs_abs_def handshake.finish)
  next
    case False
    then show ?thesis
      using assms(2) en NVME_CTRLR_STATE_ENABLE_WAIT_FOR_READY_1 init_timeout_cases [of fuel env "next_tick c" 0 c']
      by (auto simp: nvme_ctrlr_init_def Let_def ready_eq hs_abs_def intro: handshake.intros)
  qed
next
  case NVME_CTRLR_STATE_READY
  then show ?thesis using assms(2) by (simp add: nvme_ctrlr_init_def)
qed

lemma init_programs:
  assumes "nvme_ctrlr_init fuel env c = Inr (0, c')"
    and "c_state c = NVME_CTRLR_STATE_ENABLE_WAIT_FOR_READY_1 \<Longrightarrow> programmed c"
    and "c_state c' \<in> {NVME_CTRLR_STATE_ENABLE_WAIT_FOR_READY_1, NVME_CTRLR_STATE_READY}"
  shows "programmed c'"
proof (cases "c_state c")
  case NVME_CTRLR_STATE_INIT
  then show ?thesis
    using assms(1,3) init_enable_ok(3) [of env _ "next_tick c" c']
    by (auto simp: nvme_ctrlr_init_def Let_def ready_eq init_disable_def split: if_splits)
next
  case NVME_CTRLR_STATE_DISABLE_WAIT_FOR_READY_1
  then show ?thesis
    using assms init_timeout_cases [of fuel env "next_tick c" 0 c']
    by (auto simp: nvme_ctrlr_init_def Let_def ready_eq init_disable_def split: if_splits)
next
  case NVME_CTRLR_STATE_DISABLE_WAIT_FOR_READY_0
  then show ?thesis
    using assms init_timeout_cases [of fuel env "next_tick c" 0 c'] init_enable_ok(3) [of env _ "next_tick c" c']
    by (auto simp: nvme_ctrlr_init_def Let_def ready_eq split: if_splits)
next
  case NVME_CTRLR_STATE_ENABLE_WAIT_FOR_READY_1
  have n: "programmed (next_tick x) = programmed x" "programmed (nvme_ctrlr_set_state env st t x) = programmed x" for x st t
    by (auto simp: programmed_def ams_supported_def split: nvme_cc_ams.splits)
  show ?thesis
    using assms NVME_CTRLR_STATE_ENABLE_WAIT_FOR_READY_1 init_timeout_cases [of fuel env "next_tick c" 0 c']
    by (auto simp: nvme_ctrlr_init_def Let_def ready_eq n split: if_splits dest!: start_keeps programmed_kept)
next
  case NVME_CTRLR_STATE_READY
  then show ?thesis using assms(1) by (simp add: nvme_ctrlr_init_def)
qed

subsection \<open>The loop\<close>

text \<open>In a state that waits for the device, \<open>waits st\<close> tells for which values of CSTS.RDY the wait goes on.\<close>

fun waits :: "nvme_ctrlr_state \<Rightarrow> bool \<Rightarrow> bool" where
  "waits NVME_CTRLR_STATE_DISABLE_WAIT_FOR_READY_1 rdy = (\<not> rdy)"
| "waits NVME_CTRLR_STATE_DISABLE_WAIT_FOR_READY_0 rdy = rdy"
| "waits NVME_CTRLR_STATE_ENABLE_WAIT_FOR_READY_1 rdy = (\<not> rdy)"
| "waits _ rdy = False"

lemma init_wait:
  assumes "waits (c_state c) (rdy_at env (c_tick c) (r_cc c))"
  shows "nvme_ctrlr_init fuel env c = init_timeout fuel env (next_tick c)"
  using assms by (cases "c_state c") (simp_all add: nvme_ctrlr_init_def ready_eq)

lemma not_ready_waits: "waits (c_state c) rdy \<Longrightarrow> c_state c \<noteq> NVME_CTRLR_STATE_READY"
  by auto

lemma wait_rounds:
  assumes "state_timeout_ms c \<noteq> NVME_TIMEOUT_INFINITE"
    and "\<And>j. j < d \<Longrightarrow> waits (c_state c) (rdy_at env (c_tick c + 2 * j) (r_cc c))"
    and "\<And>j. j < d \<Longrightarrow> os_time env (c_tick c + 2 * j + 1) \<le> state_timeout_ms c"
  shows "init_loop (d + n) fuel env c = init_loop n fuel env (c\<lparr>c_tick := c_tick c + 2 * d\<rparr>)"
  using assms
proof (induction d arbitrary: c)
  case (Suc d)
  define c1 where "c1 = c\<lparr>c_tick := c_tick c + 2\<rparr>"
  have w: "waits (c_state c) (rdy_at env (c_tick c) (r_cc c))" and t: "os_time env (Suc (c_tick c)) \<le> state_timeout_ms c"
    using Suc.prems(2) [of 0] Suc.prems(3) [of 0] by simp_all
  have "nvme_ctrlr_init fuel env c = Inr (0, c1)"
    using init_wait [OF w] t Suc.prems(1) by (simp add: init_timeout_def nvme_time_msec_def c1_def next_tick_def linorder_not_less)
  then have "init_loop (Suc d + n) fuel env c = init_loop (d + n) fuel env c1" using not_ready_waits [OF w] by simp
  also have "\<dots> = init_loop n fuel env (c1\<lparr>c_tick := c_tick c1 + 2 * d\<rparr>)"
  proof (rule Suc.IH)
    show "waits (c_state c1) (rdy_at env (c_tick c1 + 2 * j) (r_cc c1))" if "j < d" for j
      using Suc.prems(2) [of "Suc j"] that by (simp add: c1_def)
    show "os_time env (c_tick c1 + 2 * j + 1) \<le> state_timeout_ms c1" if "j < d" for j
      using Suc.prems(3) [of "Suc j"] that by (simp add: c1_def)
  qed (use Suc.prems(1) in \<open>simp add: c1_def\<close>)
  finally show ?case by (simp add: c1_def)
qed simp

text \<open>The loop comes from \<open>c\<close> to \<open>c'\<close> in \<open>m\<close> calls.\<close>

definition comes :: "nat \<Rightarrow> ctrlr_env \<Rightarrow> nvme_ctrlr \<Rightarrow> nat \<Rightarrow> nvme_ctrlr \<Rightarrow> bool" where
  "comes fuel env c m c' \<longleftrightarrow> (\<forall>n. init_loop (m + n) fuel env c = init_loop n fuel env c')"

lemma comes_trans: "comes fuel env c m c1 \<Longrightarrow> comes fuel env c1 k c2 \<Longrightarrow> comes fuel env c (m + k) c2"
  by (simp add: comes_def add.assoc)

lemma comes_step:
  "nvme_ctrlr_init fuel env c = Inr (0, c') \<Longrightarrow> c_state c \<noteq> NVME_CTRLR_STATE_READY \<Longrightarrow> comes fuel env c 1 c'"
  by (simp add: comes_def)

text \<open>
  A device that reacts: within \<open>D\<close> reads CSTS.RDY shows the value of CC.EN, and the time of these reads stays within \<open>T\<close>
  milliseconds (every second answer of the environment is a time while the library waits).
\<close>

definition reacts :: "ctrlr_env \<Rightarrow> nat \<Rightarrow> u64 \<Rightarrow> bool" where
  "reacts env D T \<longleftrightarrow> (\<forall>t cc. \<exists>d\<le>D. rdy_at env (t + 2 * d) cc \<longleftrightarrow> cc_bits cc CC_EN \<noteq> 0)
     \<and> (\<forall>t j. j \<le> 2 * D \<longrightarrow> os_time env (t + j) \<le> os_time env t + T) \<and> (\<forall>t. os_time env t + T \<noteq> NVME_TIMEOUT_INFINITE)"

definition fresh_wait :: "ctrlr_env \<Rightarrow> u64 \<Rightarrow> nvme_ctrlr \<Rightarrow> bool" where
  "fresh_wait env T c \<longleftrightarrow> c_tick c \<noteq> 0 \<and> state_timeout_ms c = os_time env (c_tick c - 1) + T"

lemma set_state_fresh:
  assumes "T \<noteq> NVME_TIMEOUT_INFINITE"
  shows "fresh_wait env T (nvme_ctrlr_set_state env st T c)"
  using assms by (simp add: fresh_wait_def nvme_ctrlr_set_state_def nvme_time_msec_def next_tick_def)

lemma device_reacts:
  assumes r: "reacts env D T" and f: "fresh_wait env T c"
    and w: "\<And>rdy. waits (c_state c) rdy \<longleftrightarrow> (rdy \<longleftrightarrow> \<not> nvme_ctrlr_enabled c)"
  shows "\<exists>d\<le>D. comes fuel env c d (c\<lparr>c_tick := c_tick c + 2 * d\<rparr>)
    \<and> (rdy_at env (c_tick c + 2 * d) (r_cc c) \<longleftrightarrow> nvme_ctrlr_enabled c)"
proof -
  let ?P = "\<lambda>d. rdy_at env (c_tick c + 2 * d) (r_cc c) \<longleftrightarrow> nvme_ctrlr_enabled c"
  define d where "d = (LEAST d. ?P d)"
  obtain e where e: "e \<le> D" "?P e" using r unfolding reacts_def nvme_ctrlr_enabled_def by blast
  have d: "?P d" "d \<le> D" "\<And>j. j < d \<Longrightarrow> \<not> ?P j"
    using e LeastI [of ?P e] Least_le [of ?P e] not_less_Least [of _ ?P] unfolding d_def by (blast, simp, blast)
  have t: "state_timeout_ms c \<noteq> NVME_TIMEOUT_INFINITE" using r f by (simp add: reacts_def fresh_wait_def)
  have "os_time env (c_tick c + 2 * j + 1) \<le> state_timeout_ms c" if "j < d" for j
  proof -
    have "2 * j + 2 \<le> 2 * D" "c_tick c + 2 * j + 1 = (c_tick c - 1) + (2 * j + 2)" using that d(2) f by (simp_all add: fresh_wait_def)
    then show ?thesis using r f unfolding reacts_def fresh_wait_def by metis
  qed
  moreover have "waits (c_state c) (rdy_at env (c_tick c + 2 * j) (r_cc c))" if "j < d" for j using d(3) [OF that] w by blast
  ultimately have "comes fuel env c d (c\<lparr>c_tick := c_tick c + 2 * d\<rparr>)"
    unfolding comes_def using wait_rounds [OF t] by blast
  then show ?thesis using d by blast
qed

abbreviation ready_to :: "nvme_ctrlr \<Rightarrow> u64" where
  "ready_to c \<equiv> ucast (nvme_ctrlr_get_ready_to_in_ms c)"

lemma ready_to_finite: "ready_to c \<noteq> NVME_TIMEOUT_INFINITE"
proof
  assume "ready_to c = NVME_TIMEOUT_INFINITE"
  then have "unat (ready_to c) = 2 ^ 64 - 1" by (simp add: NVME_TIMEOUT_INFINITE_def unsigned_minus_1_eq_mask mask_eq_exp_minus_1)
  then show False using u32_lt [of "nvme_ctrlr_get_ready_to_in_ms c"] unfolding unat_ucast_u64 by simp
qed

lemma ready_to_cong: "r_cap c' = r_cap c \<Longrightarrow> ready_to c' = ready_to c"
  by (simp add: nvme_ctrlr_get_ready_to_in_ms_def)

lemma ams_supported_cong: "r_cap c' = r_cap c \<Longrightarrow> c_opts c' = c_opts c \<Longrightarrow> ams_supported c' = ams_supported c"
  by (simp add: ams_supported_def split: nvme_cc_ams.splits)

text \<open>The controller waits in the state \<open>st\<close> with CC.EN as the handshake wants it.\<close>

definition waiting :: "ctrlr_env \<Rightarrow> nvme_ctrlr_state \<Rightarrow> bool \<Rightarrow> nvme_ctrlr \<Rightarrow> nvme_ctrlr \<Rightarrow> bool" where
  "waiting env st en c0 c \<longleftrightarrow> c_state c = st \<and> nvme_ctrlr_enabled c = en \<and> fresh_wait env (ready_to c0) c
     \<and> r_cap c = r_cap c0 \<and> c_opts c = c_opts c0 \<and> ams_supported c0"

lemma waiting_reacts:
  assumes "reacts env D (ready_to c0)" and "waiting env st en c0 c" and "\<And>rdy. waits st rdy \<longleftrightarrow> (rdy \<longleftrightarrow> \<not> en)"
  obtains d where "d \<le> D" "comes fuel env c d (c\<lparr>c_tick := c_tick c + 2 * d\<rparr>)" "rdy_at env (c_tick c + 2 * d) (r_cc c) = en"
  using device_reacts [OF assms(1), of c fuel] assms(2,3) by (auto simp: waiting_def)

lemma enable_step:
  assumes "\<not> nvme_ctrlr_enabled c" and "ams_supported c" and "r_cap c = r_cap c0" and "c_opts c = c_opts c0"
  shows "\<exists>c'. init_enable env (ready_to c0) c = (0, c') \<and> waiting env NVME_CTRLR_STATE_ENABLE_WAIT_FOR_READY_1 True c0 c' \<and> programmed c'"
proof -
  obtain c' where c': "init_enable env (ready_to c0) c = (0, c')" using enable_ok [OF assms(1,2)] by (simp add: init_enable_def)
  have "c' = nvme_ctrlr_set_state env NVME_CTRLR_STATE_ENABLE_WAIT_FOR_READY_1 (ready_to c0) (snd (nvme_ctrlr_enable c))"
    using c' enable_ok [OF assms(1,2)] by (simp add: init_enable_def)
  then have "fresh_wait env (ready_to c0) c'" "r_cap c' = r_cap c" "c_opts c' = c_opts c"
    using set_state_fresh [OF ready_to_finite [of c0]] enable_ok [OF assms(1,2)] by simp_all
  then have "waiting env NVME_CTRLR_STATE_ENABLE_WAIT_FOR_READY_1 True c0 c'"
    using init_enable_ok(2) [OF c'] ams_supported_cong [of c c0] assms by (simp add: waiting_def hs_abs_def)
  with c' init_enable_ok(3) [OF c'] show ?thesis by blast
qed

lemma disable_step:
  assumes "r_cap c = r_cap c0" and "c_opts c = c_opts c0" and "ams_supported c0"
  shows "waiting env NVME_CTRLR_STATE_DISABLE_WAIT_FOR_READY_0 False c0 (init_disable env (ready_to c0) c)"
  using assms set_state_fresh [OF ready_to_finite] by (simp add: waiting_def init_disable_def)

lemma reach_enable:
  assumes "reacts env D (ready_to c0)" and w: "waiting env NVME_CTRLR_STATE_DISABLE_WAIT_FOR_READY_0 False c0 c"
  shows "\<exists>m\<le>D + 1. \<exists>c'. comes fuel env c m c' \<and> waiting env NVME_CTRLR_STATE_ENABLE_WAIT_FOR_READY_1 True c0 c' \<and> programmed c'"
proof -
  obtain d where d: "d \<le> D" "comes fuel env c d (c\<lparr>c_tick := c_tick c + 2 * d\<rparr>)" "\<not> rdy_at env (c_tick c + 2 * d) (r_cc c)"
    using waiting_reacts [OF assms, of fuel] by auto
  let ?c = "c\<lparr>c_tick := c_tick c + 2 * d\<rparr>"
  have e: "\<not> nvme_ctrlr_enabled (next_tick ?c)" "r_cap (next_tick ?c) = r_cap c0" "c_opts (next_tick ?c) = c_opts c0"
    "ams_supported (next_tick ?c)" "c_state ?c = NVME_CTRLR_STATE_DISABLE_WAIT_FOR_READY_0"
    using w ams_supported_cong [of "next_tick ?c" c0] by (simp_all add: waiting_def nvme_ctrlr_enabled_def)
  from enable_step [OF e(1,4,2,3), of env] obtain c' where
    c': "init_enable env (ready_to c0) (next_tick ?c) = (0, c')" "waiting env NVME_CTRLR_STATE_ENABLE_WAIT_FOR_READY_1 True c0 c'" "programmed c'"
    by blast
  have "nvme_ctrlr_init fuel env ?c = Inr (0, c')"
    using c'(1) d(3) e ready_to_cong [of ?c c0] by (simp add: nvme_ctrlr_init_def ready_eq)
  then have "comes fuel env ?c 1 c'" by (rule comes_step) (simp add: e)
  from comes_trans [OF d(2) this] d(1) c'(2,3) show ?thesis by (intro exI [of _ "d + 1"] exI [of _ c'] conjI) simp_all
qed

lemma reach_disable:
  assumes "reacts env D (ready_to c0)" and w: "waiting env NVME_CTRLR_STATE_DISABLE_WAIT_FOR_READY_1 True c0 c"
  shows "\<exists>m\<le>D + 1. \<exists>c'. comes fuel env c m c' \<and> waiting env NVME_CTRLR_STATE_DISABLE_WAIT_FOR_READY_0 False c0 c'"
proof -
  obtain d where d: "d \<le> D" "comes fuel env c d (c\<lparr>c_tick := c_tick c + 2 * d\<rparr>)" "rdy_at env (c_tick c + 2 * d) (r_cc c)"
    using waiting_reacts [OF assms, of fuel] by auto
  let ?c = "c\<lparr>c_tick := c_tick c + 2 * d\<rparr>"
  have e: "r_cap (next_tick ?c) = r_cap c0" "c_opts (next_tick ?c) = c_opts c0" "ams_supported c0"
    "c_state ?c = NVME_CTRLR_STATE_DISABLE_WAIT_FOR_READY_1" using w by (simp_all add: waiting_def)
  have "nvme_ctrlr_init fuel env ?c = Inr (0, init_disable env (ready_to c0) (next_tick ?c))"
    using d(3) e ready_to_cong [of ?c c0] by (simp add: nvme_ctrlr_init_def ready_eq)
  then have "comes fuel env ?c 1 (init_disable env (ready_to c0) (next_tick ?c))" by (rule comes_step) (simp add: e)
  from comes_trans [OF d(2) this] d(1) disable_step [OF e(1-3), of env] show ?thesis
    by (intro exI [of _ "d + 1"] exI [of _ "init_disable env (ready_to c0) (next_tick ?c)"] conjI) simp_all
qed

lemma reach_start:
  assumes "reacts env D (ready_to c0)" and w: "waiting env NVME_CTRLR_STATE_ENABLE_WAIT_FOR_READY_1 True c0 c" and p: "programmed c"
  shows "\<exists>m\<le>D. \<exists>c'. comes fuel env c m c' \<and> c_state c' = NVME_CTRLR_STATE_ENABLE_WAIT_FOR_READY_1
    \<and> rdy_at env (c_tick c') (r_cc c') \<and> programmed c'"
proof -
  obtain d where d: "d \<le> D" "comes fuel env c d (c\<lparr>c_tick := c_tick c + 2 * d\<rparr>)" "rdy_at env (c_tick c + 2 * d) (r_cc c)"
    using waiting_reacts [OF assms(1,2), of fuel] by auto
  let ?c = "c\<lparr>c_tick := c_tick c + 2 * d\<rparr>"
  have "programmed ?c" using p by (auto simp: programmed_def ams_supported_cong [of ?c c])
  then show ?thesis using d w by (intro exI [of _ d] exI [of _ ?c] conjI) (simp_all add: waiting_def)
qed

lemma reach_wait:
  assumes "reacts env D (ready_to c)" and "c_state c = NVME_CTRLR_STATE_INIT" and "ams_supported c"
  shows "\<exists>m\<le>2 * D + 3. \<exists>c'. comes fuel env c m c' \<and> waiting env NVME_CTRLR_STATE_ENABLE_WAIT_FOR_READY_1 True c c' \<and> programmed c'"
proof -
  have n: "r_cap (next_tick c) = r_cap c" "c_opts (next_tick c) = c_opts c" "ams_supported (next_tick c)"
    using assms(3) ams_supported_cong [of "next_tick c" c] by simp_all
  have step: "comes fuel env c 1 c1" if "nvme_ctrlr_init fuel env c = Inr (0, c1)" for c1 by (rule comes_step [OF that]) (simp add: assms(2))
  have off: ?thesis if "comes fuel env c k c1" "k \<le> D + 2" "waiting env NVME_CTRLR_STATE_DISABLE_WAIT_FOR_READY_0 False c c1" for k c1
    using reach_enable [OF assms(1) that(3), of fuel] comes_trans [OF that(1)] that(2) by (force intro: exI [of _ "k + _"])
  show ?thesis
  proof (cases "nvme_ctrlr_enabled c")
    case True
    show ?thesis
    proof (cases "rdy_at env (c_tick c) (r_cc c)")
      case rdy: True
      have "nvme_ctrlr_init fuel env c = Inr (0, init_disable env (ready_to c) (next_tick c))"
        using assms(2) True rdy by (simp add: nvme_ctrlr_init_def ready_eq)
      from off [OF step [OF this]] disable_step [OF n(1,2) assms(3), of env] show ?thesis by simp
    next
      case rdy: False
      define c1 where "c1 = nvme_ctrlr_set_state env NVME_CTRLR_STATE_DISABLE_WAIT_FOR_READY_1 (ready_to c) (next_tick c)"
      have "nvme_ctrlr_init fuel env c = Inr (0, c1)" using assms(2) True rdy by (simp add: nvme_ctrlr_init_def ready_eq c1_def)
      moreover have "waiting env NVME_CTRLR_STATE_DISABLE_WAIT_FOR_READY_1 True c c1"
        using set_state_fresh [OF ready_to_finite] True assms(3) by (simp add: waiting_def c1_def)
      ultimately obtain m c2 where "m \<le> D + 1" "comes fuel env c (1 + m) c2" "waiting env NVME_CTRLR_STATE_DISABLE_WAIT_FOR_READY_0 False c c2"
        using reach_disable [OF assms(1), of c1 fuel] comes_trans [OF step] by blast
      from off [OF this(2) _ this(3)] this(1) show ?thesis by simp
    qed
  next
    case False
    show ?thesis
    proof (cases "rdy_at env (c_tick c) (r_cc c)")
      case rdy: True
      define c1 where "c1 = nvme_ctrlr_set_state env NVME_CTRLR_STATE_DISABLE_WAIT_FOR_READY_0 (ready_to c) (next_tick c)"
      have "nvme_ctrlr_init fuel env c = Inr (0, c1)" using assms(2) False rdy by (simp add: nvme_ctrlr_init_def ready_eq c1_def)
      moreover have "waiting env NVME_CTRLR_STATE_DISABLE_WAIT_FOR_READY_0 False c c1"
        using set_state_fresh [OF ready_to_finite] False assms(3) by (simp add: waiting_def c1_def)
      ultimately show ?thesis using off [OF step] by simp
    next
      case rdy: False
      from enable_step [OF _ n(3,1,2), of env] False obtain c' where
        c': "init_enable env (ready_to c) (next_tick c) = (0, c')" "waiting env NVME_CTRLR_STATE_ENABLE_WAIT_FOR_READY_1 True c c'" "programmed c'"
        by auto
      then have "nvme_ctrlr_init fuel env c = Inr (0, c')" using assms(2) False rdy by (simp add: nvme_ctrlr_init_def ready_eq)
      from step [OF this] c'(2,3) show ?thesis by (intro exI [of _ 1] exI [of _ c'] conjI) simp_all
    qed
  qed
qed

lemma start_call:
  assumes "c_state c = NVME_CTRLR_STATE_ENABLE_WAIT_FOR_READY_1" and "rdy_at env (c_tick c) (r_cc c)"
  shows "init_loop (Suc n) fuel env c = rbind (nvme_ctrlr_start fuel env (next_tick c)) (\<lambda>(ret, c'). if ret \<noteq> 0 then Inr (ret, c')
      else Inr (0, nvme_ctrlr_set_state env NVME_CTRLR_STATE_READY NVME_TIMEOUT_INFINITE c'))"
proof -
  have "init_loop n fuel env (nvme_ctrlr_set_state env NVME_CTRLR_STATE_READY NVME_TIMEOUT_INFINITE c') =
    Inr (0, nvme_ctrlr_set_state env NVME_CTRLR_STATE_READY NVME_TIMEOUT_INFINITE c')" for c' by (cases n) simp_all
  then show ?thesis using assms
    by (cases "nvme_ctrlr_start fuel env (next_tick c)") (auto simp: nvme_ctrlr_init_def ready_eq)
qed

subsection \<open>Properties\<close>

lemma aqa_bits_sizes:
  "aqa_bits (aqa_put AQA_ASQS n (aqa_put AQA_ACQS n 0)) AQA_ASQS = take_bit 12 n"
  "aqa_bits (aqa_put AQA_ASQS n (aqa_put AQA_ACQS n 0)) AQA_ACQS = take_bit 12 n"
  by (simp_all add: aqa_get_put del: nvme_aqa_register.simps) simp_all

lemma queue_size_field:
  assumes "0 < n" and "n \<le> 4096"
  shows "unat (take_bit 12 (of_nat n - 1 :: u32)) = n - 1"
proof -
  have "(of_nat n - 1 :: u32) = of_nat (n - 1)" using assms(1) by (simp add: of_nat_diff)
  moreover have "unat (of_nat (n - 1) :: u32) = n - 1" using assms by (intro u32_of_nat) simp
  ultimately show ?thesis using assms by (simp add: unsigned_take_bit_eq take_bit_nat_eq_self)
qed

lemma enable_cc_reserved:
  assumes "i \<in> {1, 2, 3} \<union> {24..31}"
  shows "bit (enable_cc ams cc) i = bit cc i"
  using assms by (auto simp: enable_cc_def bit_bf_set)

text \<open>
  C11. Enabling a controller with an admin queue of 1 to 4096 entries succeeds exactly when CC.EN is 0 and the arbitration mechanism
  of the options is one the controller supports. Then the admin queue registers hold the bus addresses of the two queues and their size minus one, CC has the
  enable bit, 64-byte submission and 16-byte completion entries, 4 KiB pages, no shutdown and the mechanism asked for, and the
  reserved bits of CC are as before. Otherwise it returns -EINVAL and CC is not written.
\<close>

theorem ctrlr_enable_programs:
  assumes "nvme_ctrlr_enable c = (ret, c')" and "0 < entries (adminq c)" and "entries (adminq c) \<le> 4096"
  shows "ret = (if \<not> nvme_ctrlr_enabled c \<and> ams_supported c then 0 else - EINVAL)
    \<and> (ret \<noteq> 0 \<longrightarrow> r_cc c' = r_cc c)
    \<and> (ret = 0 \<longrightarrow> r_asq c' = cmd_bus_addr (adminq c) \<and> r_acq c' = cpl_bus_addr (adminq c)
        \<and> unat (aqa_bits (r_aqa c') AQA_ASQS) = entries (adminq c) - 1 \<and> unat (aqa_bits (r_aqa c') AQA_ACQS) = entries (adminq c) - 1
        \<and> cc_bits (r_cc c') CC_EN = 1 \<and> cc_bits (r_cc c') CC_CSS = 0 \<and> cc_bits (r_cc c') CC_SHN = 0 \<and> cc_bits (r_cc c') CC_MPS = 0
        \<and> cc_bits (r_cc c') CC_IOSQES = 6 \<and> cc_bits (r_cc c') CC_IOCQES = 4
        \<and> cc_bits (r_cc c') CC_AMS = take_bit 3 (ams_code (opt_arb_mechanism (c_opts c)))
        \<and> (\<forall>i\<in>{1, 2, 3} \<union> {24..31}. bit (r_cc c') i = bit (r_cc c) i))"
proof (cases "\<not> nvme_ctrlr_enabled c \<and> ams_supported c")
  case True
  then have "ret = 0" and c': "c' = snd (nvme_ctrlr_enable c)" using assms(1) by (simp_all add: enable_ok)
  show ?thesis
    unfolding c' using True \<open>ret = 0\<close> queue_size_field [OF assms(2,3)] enable_cc_reserved
    by (simp add: enable_ok enable_cc_bits aqa_bits_sizes del: nvme_cc_register.simps nvme_aqa_register.simps)
next
  case False
  then obtain d where "nvme_ctrlr_enable c = (- EINVAL, d)" "r_cc d = r_cc c" using enable_fails [of c] by auto
  with False assms(1) show ?thesis by (auto simp: EINVAL_def)
qed

text \<open>
  C6. Every call of the initialisation function that returns 0 is a step of the handshake that the NVMe specification prescribes, for
  the value of CSTS.RDY that the call reads: in particular CC.EN is set only when RDY is 0 and cleared only when RDY is 1.
\<close>

theorem init_refines_handshake:
  assumes "hs_ok (hs_abs c)" and "nvme_ctrlr_init fuel env c = Inr (0, c')"
  shows "handshake (rdy_at env (c_tick c) (r_cc c)) (hs_abs c) (hs_abs c') \<and> hs_ok (hs_abs c')"
  using init_handshake [OF assms] handshake_ok by blast

inductive init_reach :: "nat \<Rightarrow> ctrlr_env \<Rightarrow> nvme_ctrlr \<Rightarrow> nvme_ctrlr \<Rightarrow> bool" for fuel env c0 where
  reach_init: "init_reach fuel env c0 c0"
| reach_call: "init_reach fuel env c0 c \<Longrightarrow> nvme_ctrlr_init fuel env c = Inr (0, c') \<Longrightarrow> init_reach fuel env c0 c'"

lemma reach_hs: "init_reach fuel env c0 c \<Longrightarrow> c_state c0 = NVME_CTRLR_STATE_INIT \<Longrightarrow> hs_ok (hs_abs c)"
proof (induction rule: init_reach.induct)
  case (reach_call c c')
  then show ?case using init_handshake handshake_ok by blast
qed (simp add: hs_abs_def)

lemma reach_programmed:
  "init_reach fuel env c0 c \<Longrightarrow> c_state c0 = NVME_CTRLR_STATE_INIT \<Longrightarrow>
   c_state c \<in> {NVME_CTRLR_STATE_ENABLE_WAIT_FOR_READY_1, NVME_CTRLR_STATE_READY} \<Longrightarrow> programmed c"
proof (induction rule: init_reach.induct)
  case (reach_call c c')
  then show ?case using init_programs [of fuel env c c'] by blast
qed simp

text \<open>
  C12. In every state that the initialisation of an attached or reset controller reaches, CC.EN agrees with the state; once the
  controller was enabled CC holds the entry sizes, the page size and the arbitration mechanism of the options, and the
  mechanism is one the controller supports.
\<close>

theorem init_reachable_registers:
  assumes "init_reach fuel env c0 c" and "c_state c0 = NVME_CTRLR_STATE_INIT"
  shows "(c_state c = NVME_CTRLR_STATE_DISABLE_WAIT_FOR_READY_0 \<longrightarrow> \<not> nvme_ctrlr_enabled c)
    \<and> (c_state c = NVME_CTRLR_STATE_DISABLE_WAIT_FOR_READY_1 \<longrightarrow> nvme_ctrlr_enabled c)
    \<and> (c_state c \<in> {NVME_CTRLR_STATE_ENABLE_WAIT_FOR_READY_1, NVME_CTRLR_STATE_READY} \<longrightarrow>
        ams_supported c \<and> cc_bits (r_cc c) CC_EN = 1 \<and> cc_bits (r_cc c) CC_IOSQES = 6 \<and> cc_bits (r_cc c) CC_IOCQES = 4
        \<and> cc_bits (r_cc c) CC_MPS = 0 \<and> cc_bits (r_cc c) CC_AMS = take_bit 3 (ams_code (opt_arb_mechanism (c_opts c))))"
proof -
  have "hs_ok (hs_abs c)" by (rule reach_hs [OF assms])
  then show ?thesis using reach_programmed [OF assms]
    by (auto simp: hs_abs_def programmed_def enable_cc_bits simp del: nvme_cc_register.simps)
qed

text \<open>
  C7. If the device lets CSTS.RDY follow CC.EN within \<open>D\<close> reads and within the time its capabilities promise, and supports the
  arbitration mechanism of the options, the loop of attach and reset comes to the start of the controller after at most \<open>3 D + 3\<close>
  calls, with CC programmed, and returns what starting the controller returns.
\<close>

theorem init_reaches_start:
  assumes "reacts env D (ready_to c)" and "c_state c = NVME_CTRLR_STATE_INIT" and "ams_supported c"
  shows "\<exists>m c'. m \<le> 3 * D + 3 \<and> programmed c' \<and> rdy_at env (c_tick c') (r_cc c')
    \<and> (\<forall>n>m. init_loop n fuel env c = rbind (nvme_ctrlr_start fuel env (next_tick c')) (\<lambda>(ret, c'').
          if ret \<noteq> 0 then Inr (ret, c'') else Inr (0, nvme_ctrlr_set_state env NVME_CTRLR_STATE_READY NVME_TIMEOUT_INFINITE c'')))"
proof -
  from reach_wait [OF assms, of fuel] obtain m c1 where
    m: "m \<le> 2 * D + 3" "comes fuel env c m c1" "waiting env NVME_CTRLR_STATE_ENABLE_WAIT_FOR_READY_1 True c c1" "programmed c1" by blast
  from reach_start [OF assms(1) m(3,4), of fuel] obtain k c2 where
    k: "k \<le> D" "comes fuel env c1 k c2" "c_state c2 = NVME_CTRLR_STATE_ENABLE_WAIT_FOR_READY_1" "rdy_at env (c_tick c2) (r_cc c2)" "programmed c2"
    by blast
  note c2 = comes_trans [OF m(2) k(2), unfolded comes_def]
  have "init_loop n fuel env c = init_loop (Suc (n - (m + k) - 1)) fuel env c2" if "m + k < n" for n
    using c2 [rule_format, of "Suc (n - (m + k) - 1)"] that by (simp del: init_loop.simps)
  then show ?thesis unfolding start_call [OF k(3,4)] using m(1) k by (intro exI [of _ "m + k"] exI [of _ c2] conjI) simp_all
qed

text \<open>
  If the device has not reacted when the time of the current state is over, after \<open>d\<close> calls that waited, the next call fails the controller and the
  loop returns -1.
\<close>

theorem init_times_out:
  assumes "state_timeout_ms c \<noteq> NVME_TIMEOUT_INFINITE"
    and "\<And>j. j \<le> d \<Longrightarrow> waits (c_state c) (rdy_at env (c_tick c + 2 * j) (r_cc c))"
    and "\<And>j. j < d \<Longrightarrow> os_time env (c_tick c + 2 * j + 1) \<le> state_timeout_ms c"
    and "os_time env (c_tick c + 2 * d + 1) > state_timeout_ms c"
  shows "init_loop (Suc d + n) fuel env c = rbind (nvme_ctrlr_fail fuel (c\<lparr>c_tick := c_tick c + 2 * d + 2\<rparr>)) (\<lambda>c'. Inr (-1, c'))"
proof -
  let ?c = "c\<lparr>c_tick := c_tick c + 2 * d\<rparr>"
  have "init_loop (Suc d + n) fuel env c = init_loop (Suc n) fuel env ?c"
    using wait_rounds [OF assms(1,2,3), of d "Suc n" fuel] by (simp del: init_loop.simps)
  moreover have w: "waits (c_state ?c) (rdy_at env (c_tick ?c) (r_cc ?c))" using assms(2) [of d] by simp
  have "nvme_ctrlr_init fuel env ?c = rbind (nvme_ctrlr_fail fuel (c\<lparr>c_tick := c_tick c + 2 * d + 2\<rparr>)) (\<lambda>c'. Inr (-1, c'))"
    using init_wait [OF w] assms(1,4) by (simp add: init_timeout_def nvme_time_msec_def next_tick_def)
  ultimately show ?thesis using not_ready_waits [OF w]
    by (cases "nvme_ctrlr_fail fuel (c\<lparr>c_tick := c_tick c + 2 * d + 2\<rparr>)") simp_all
qed

subsection \<open>Witnesses\<close>

text \<open>
  A controller with an admin queue of 128 entries whose timeout is 500 ms, and a device that shows CC.EN in CSTS.RDY at two of
  four consecutive reads only.
\<close>

definition ex_ctrlr :: nvme_ctrlr where
  "ex_ctrlr = (ctrlr_zero \<lparr>r_cap = push_bit 24 1, r_cc = 0, r_aqa = 0, r_asq = 0, r_acq = 0, r_cmbloc = 0, r_cmbsz = 0\<rparr> of_nat 0)
     \<lparr>adminq := qpair_zero\<lparr>entries := 128, cmd_bus_addr := 0x1000, cpl_bus_addr := 0x2000\<rparr>\<rparr>"

definition ex_cenv :: ctrlr_env where
  "ex_cenv = \<lparr>hw_csts = (\<lambda>t cc. if t mod 4 < 2 then 1 - cc_bits cc CC_EN else cc_bits cc CC_EN), hw_dev = (\<lambda>_. qp_cpl),
     hw_identify = (\<lambda>_. cdata_zero), hw_ns_data = (\<lambda>_. nsdata_zero),
     hw_log_dir = (\<lambda>_. \<lparr>ld_read_latency_log_len = 0, ld_write_latency_log_len = 0, ld_temperature_statistics_log_len = 0,
       ld_smart_log_len = 0, ld_marketing_description_log_len = 0\<rparr>),
     os_time = (\<lambda>_. 7), os_calloc = (\<lambda>_. True), os_alloc = (\<lambda>_. Some 0x4000), os_qpair = (\<lambda>_. ex_env), cdata_addr = 0x3000,
     pci_devid = 0, pci_bar = (\<lambda>_. (0, 0)), pci_map_bar = (\<lambda>_. (0, Some 0x8000)), pci_unmap_bar = (\<lambda>_. 0)\<rparr>"

lemma ctrlr_zero_simps [simp]:
  "c_state (ctrlr_zero regs v w) = NVME_CTRLR_STATE_INIT" "r_cc (ctrlr_zero regs v w) = r_cc regs" "r_cap (ctrlr_zero regs v w) = r_cap regs"
  "c_opts (ctrlr_zero regs v w) = \<lparr>opt_io_queues = 0, opt_use_cmb_sqs = False, opt_arb_mechanism = NVME_CC_AMS_RR\<rparr>"
  "c_tick (ctrlr_zero regs v w) = 0" "state_timeout_ms (ctrlr_zero regs v w) = 0"
  by (simp_all add: ctrlr_zero_def nvme_registers.defs nvme_ctrlr.defs)

lemma ex_ctrlr_simps [simp]:
  "c_state ex_ctrlr = NVME_CTRLR_STATE_INIT" "r_cc ex_ctrlr = 0" "r_cap ex_ctrlr = push_bit 24 1" "c_tick ex_ctrlr = 0"
  "c_opts ex_ctrlr = \<lparr>opt_io_queues = 0, opt_use_cmb_sqs = False, opt_arb_mechanism = NVME_CC_AMS_RR\<rparr>"
  "entries (adminq ex_ctrlr) = 128" "cmd_bus_addr (adminq ex_ctrlr) = 0x1000" "cpl_bus_addr (adminq ex_ctrlr) = 0x2000"
  "\<not> nvme_ctrlr_enabled ex_ctrlr" "ams_supported ex_ctrlr"
  by (simp_all add: ex_ctrlr_def nvme_ctrlr_enabled_def ams_supported_def bf_get_def)

lemma ex_ready_to: "nvme_ctrlr_get_ready_to_in_ms ex_ctrlr = 500"
  by (simp add: nvme_ctrlr_get_ready_to_in_ms_def NVME_READY_TIMEOUT_UNIT_def bf_get_def)

lemma one_bit_word: "bf_get (0, Suc 0) (w :: u32) = 0 \<or> bf_get (0, Suc 0) w = 1"
  by (simp add: bf_get_def take_bit_eq_mod mod2_eq_if)

lemma ex_rdy: "rdy_at ex_cenv t cc \<longleftrightarrow> (cc_bits cc CC_EN \<noteq> 0) = (2 \<le> t mod 4)"
proof -
  have "bf_get (0, Suc 0) (1 :: u32) = 1" "bf_get (0, Suc 0) (0 :: u32) = 0" by (simp_all add: bf_get_def)
  then show ?thesis using one_bit_word [of cc] by (auto simp: rdy_at_def ex_cenv_def)
qed

lemma ex_reacts: "reacts ex_cenv 1 500"
proof -
  have "\<exists>d\<le>1. 2 \<le> (t + 2 * d) mod 4" for t :: nat
  proof (cases "2 \<le> t mod 4")
    case False
    then have "2 \<le> (t + 2) mod 4" by presburger
    then show ?thesis by (intro exI [of _ 1]) simp
  qed auto
  then have "\<exists>d\<le>1. rdy_at ex_cenv (t + 2 * d) cc \<longleftrightarrow> cc_bits cc CC_EN \<noteq> 0" for t cc unfolding ex_rdy by blast
  moreover have "os_time ex_cenv t = 7" for t by (simp add: ex_cenv_def)
  ultimately show ?thesis by (simp add: reacts_def NVME_TIMEOUT_INFINITE_def)
qed

theorem ctrlr_enable_programs_witness:
  "fst (nvme_ctrlr_enable ex_ctrlr) = 0 \<and> unat (aqa_bits (r_aqa (snd (nvme_ctrlr_enable ex_ctrlr))) AQA_ASQS) = 127"
  using ctrlr_enable_programs [of ex_ctrlr "fst (nvme_ctrlr_enable ex_ctrlr)" "snd (nvme_ctrlr_enable ex_ctrlr)"] by simp

theorem init_refines_handshake_witness:
  "\<exists>c'. nvme_ctrlr_init 0 ex_cenv ex_ctrlr = Inr (0, c')
    \<and> handshake True (NVME_CTRLR_STATE_INIT, False) (hs_abs c') \<and> hs_ok (hs_abs c')"
proof -
  have r: "rdy_at ex_cenv (c_tick ex_ctrlr) (r_cc ex_ctrlr)" by (simp add: ex_rdy bf_get_def)
  then obtain c' where "nvme_ctrlr_init 0 ex_cenv ex_ctrlr = Inr (0, c')" by (simp add: nvme_ctrlr_init_def ready_eq)
  from init_refines_handshake [OF _ this] this r show ?thesis by (auto simp: hs_abs_def)
qed

theorem init_reachable_registers_witness:
  "\<exists>c. init_reach 0 ex_cenv ex_ctrlr c \<and> c_state c = NVME_CTRLR_STATE_DISABLE_WAIT_FOR_READY_0 \<and> \<not> nvme_ctrlr_enabled c"
proof -
  have "rdy_at ex_cenv (c_tick ex_ctrlr) (r_cc ex_ctrlr)" by (simp add: ex_rdy bf_get_def)
  then obtain c' where c': "nvme_ctrlr_init 0 ex_cenv ex_ctrlr = Inr (0, c')" "c_state c' = NVME_CTRLR_STATE_DISABLE_WAIT_FOR_READY_0"
    by (simp add: nvme_ctrlr_init_def ready_eq)
  have "init_reach 0 ex_cenv ex_ctrlr c'" by (rule reach_call [OF reach_init c'(1)])
  from init_reachable_registers [OF this] this c'(2) show ?thesis by auto
qed

theorem init_reaches_start_witness:
  "\<exists>m c'. m \<le> 6 \<and> programmed c' \<and> (\<forall>n>m. init_loop n 5 ex_cenv ex_ctrlr = rbind (nvme_ctrlr_start 5 ex_cenv (next_tick c')) (\<lambda>(ret, c'').
          if ret \<noteq> 0 then Inr (ret, c'') else Inr (0, nvme_ctrlr_set_state ex_cenv NVME_CTRLR_STATE_READY NVME_TIMEOUT_INFINITE c'')))"
proof -
  have r: "reacts ex_cenv 1 (ready_to ex_ctrlr)" using ex_reacts by (simp add: ex_ready_to)
  from init_reaches_start [OF r, of 5] show ?thesis by auto
qed

theorem init_times_out_witness:
  "\<exists>c'. init_loop 1 9 (ex_cenv\<lparr>hw_csts := \<lambda>_ _. 0\<rparr>) (ex_ctrlr\<lparr>c_state := NVME_CTRLR_STATE_ENABLE_WAIT_FOR_READY_1, state_timeout_ms := 3\<rparr>) =
    Inr (-1, c') \<and> failed c'"
proof -
  let ?c = "ex_ctrlr\<lparr>c_state := NVME_CTRLR_STATE_ENABLE_WAIT_FOR_READY_1, state_timeout_ms := 3\<rparr>"
  have "state_timeout_ms ?c \<noteq> NVME_TIMEOUT_INFINITE" by (simp add: NVME_TIMEOUT_INFINITE_def)
  from init_times_out [OF this, of 0 "ex_cenv\<lparr>hw_csts := \<lambda>_ _. 0\<rparr>" 0 9]
  have "init_loop 1 9 (ex_cenv\<lparr>hw_csts := \<lambda>_ _. 0\<rparr>) ?c = rbind (nvme_ctrlr_fail 9 (?c\<lparr>c_tick := Suc (Suc 0)\<rparr>)) (\<lambda>c'. Inr (-1, c'))"
    by (simp add: rdy_at_def bf_get_def ex_cenv_def del: init_loop.simps)
  moreover have "\<exists>c'. nvme_ctrlr_fail 9 (?c\<lparr>c_tick := Suc (Suc 0)\<rparr>) = Inr c' \<and> failed c'"
    by (simp add: nvme_ctrlr_fail_def on_adminq_def fail_qpair_def nvme_qpair_fail_def abort_queued_def load_qp_def store_qp_def
      ex_ctrlr_def ctrlr_zero_def qpair_zero_def nvme_qpair.defs qctx.defs nvme_registers.defs nvme_ctrlr.defs numeral_nat)
  ultimately show ?thesis by auto
qed

end
