(* ===== verification/Nvme_Ioqp.thy ===== *)
theory Nvme_Ioqp
  imports Nvme_Init
begin

text \<open>
  The I/O queue pairs of a controller: the lists of free and of active queue pairs always partition the array of queue pairs.
  Then what the identification of a namespace guarantees to the reads and writes on it, the download of firmware,
  the handles of namespaces, and the reservation of submission queues in the controller memory buffer.
\<close>

subsection \<open>The lists of queue pairs\<close>

definition nr_ioq :: "nvme_ctrlr \<Rightarrow> nat" where
  "nr_ioq c = (case ioq c of None \<Rightarrow> 0 | Some qs \<Rightarrow> length qs)"

definition ioqp_wf :: "nvme_ctrlr \<Rightarrow> bool" where
  "ioqp_wf c \<longleftrightarrow> distinct (free_io_qpairs c @ active_io_qpairs c) \<and> set (free_io_qpairs c @ active_io_qpairs c) = {0..<nr_ioq c}"

definition lists_kept :: "nvme_ctrlr \<Rightarrow> nvme_ctrlr \<Rightarrow> bool" where
  "lists_kept c c' \<longleftrightarrow> (ioqp_wf c \<longrightarrow> ioqp_wf c') \<and> active_io_qpairs c' = active_io_qpairs c
     \<and> (ioq c \<noteq> None \<longrightarrow> ioq c' \<noteq> None \<and> nr_ioq c' = nr_ioq c \<and> free_io_qpairs c' = free_io_qpairs c)"

lemma lists_keptI:
  assumes "active_io_qpairs c' = active_io_qpairs c" and "free_io_qpairs c' = free_io_qpairs c"
    and "map_option length (ioq c') = map_option length (ioq c)"
  shows "lists_kept c c'"
  using assms by (cases "ioq c"; cases "ioq c'") (simp_all add: lists_kept_def ioqp_wf_def nr_ioq_def)

interpretation lists: ctrlr_frame lists_kept
proof
  show "lists_kept c1 c3" if "lists_kept c1 c2" "lists_kept c2 c3" for c1 c2 c3
    using that by (auto simp: lists_kept_def)
  show "lists_kept c (c\<lparr>ioq := Some (map f [0..<k]), free_io_qpairs := free_io_qpairs c @ [0..<k]\<rparr>)" if "ioq c = None" for c f k
    using that by (auto simp: lists_kept_def ioqp_wf_def nr_ioq_def)
qed (rule lists_keptI; simp add: store_qp_def set_ioq_def option.map_comp comp_def)+

context ctrlr_frame
begin

lemma create_qpair_frame: "R c0 c \<Longrightarrow> ret_in (to (R c0)) (nvme_ctrlr_create_qpair fuel env c i)"
  unfolding nvme_ctrlr_create_qpair_def
  by (intro ret_bind [OF ret_any] ret_bind [OF adminq_frame])
     (auto intro!: ret_bind [OF adminq_frame] R_step)

lemma delete_qpair_frame: "R c0 c \<Longrightarrow> ret_in (to (R c0)) (nvme_ctrlr_delete_qpair fuel env c i)"
  unfolding nvme_ctrlr_delete_qpair_def
  by (intro ret_bind [OF ret_any] ret_bind [OF adminq_frame]) (auto intro!: adminq_frame)

lemma recreate_frame: "R c0 c \<Longrightarrow> ret_in (R c0) (recreate_qpairs fuel env is c)"
proof (induction "is" arbitrary: c)
  case (Cons i "is")
  show ?case
    unfolding recreate_qpairs.simps
    by (rule ret_bind [OF create_qpair_frame [OF Cons.prems]])
       (auto intro!: ret_bind [OF fail_frame] Cons.IH)
qed simp

end

text \<open>Neither do the registers that \<^verbatim>\<open>nvme_ctrlr_init\<close> writes touch the lists.\<close>

lemma lists_enable: "lists_kept c (snd (nvme_ctrlr_enable c))"
  by (rule lists_keptI) (simp_all add: nvme_ctrlr_enable_def Let_def)

lemma lists_set_state: "lists_kept c (nvme_ctrlr_set_state env st t c)"
  by (rule lists_keptI) (simp_all add: nvme_ctrlr_set_state_def nvme_time_msec_def next_tick_def Let_def)

lemma lists_disable: "lists_kept c (init_disable env t c)"
  unfolding init_disable_def
  by (rule lists.R_trans [OF _ lists_set_state], rule lists_keptI) (simp_all add: nvme_ctrlr_disable_def)

lemma lists_init_enable: "to (lists_kept c) (init_enable env t c)"
  using lists.R_trans [OF lists_enable lists_set_state, of c env] lists_enable [of c]
  by (auto simp: init_enable_def split: prod.splits)

lemma lists_next: "lists_kept c (next_tick c)"
  by (rule lists.R_next [OF lists.R_refl])

lemma lists_init: "ret_in (to (lists_kept c)) (nvme_ctrlr_init fuel env c)"
proof -
  note n = lists_next [of c]
  have e: "to (lists_kept c) (init_enable env t (next_tick c))" for t
    using lists_init_enable [of "next_tick c" env t] lists.R_trans [OF n] by (auto simp: split_beta)
  have s: "ret_in (to (lists_kept c)) (rbind (nvme_ctrlr_start fuel env (next_tick c)) (\<lambda>(ret, c). if ret \<noteq> 0 then Inr (ret, c)
      else Inr (ret, nvme_ctrlr_set_state env NVME_CTRLR_STATE_READY NVME_TIMEOUT_INFINITE c)))"
    by (rule ret_bind [OF lists.start_frame [OF n]]) (auto intro: lists.R_trans [OF _ lists_set_state])
  note t = lists.init_timeout_frame [OF n, of fuel env]
  note l = lists.R_trans [OF n lists_set_state] lists.R_trans [OF n lists_disable]
  show ?thesis
    by (cases "c_state c") (simp_all add: nvme_ctrlr_init_def Let_def ready_eq e s t l)
qed

lemma lists_init_loop: "lists_kept c0 c \<Longrightarrow> ret_in (to (lists_kept c0)) (init_loop n fuel env c)"
proof (induction n arbitrary: c)
  case (Suc n)
  have "ret_in (to (lists_kept c0)) (nvme_ctrlr_init fuel env c)"
    using lists_init [of c fuel env] lists.R_trans [OF Suc.prems] by (auto simp: ret_in_def)
  then have "ret_in (to (lists_kept c0)) (rbind (nvme_ctrlr_init fuel env c) (\<lambda>(ret, c). if ret \<noteq> 0 then Inr (ret, c) else init_loop n fuel env c))"
    by (rule ret_bind) (auto intro: Suc.IH)
  then show ?case using Suc.prems by simp
qed simp

lemma lists_reset: "ret_in (to (lists_kept c)) (nvme_ctrlr_reset n fuel env c)"
proof -
  have r: "lists_kept c (c\<lparr>resetting := b\<rparr>)" for c b by (rule lists_keptI) simp_all
  have fin: "ret_in (to (lists_kept c)) (rbind (if ret \<noteq> (0 :: int) then nvme_ctrlr_fail fuel c1 else recreate_qpairs fuel env (active_io_qpairs c1) c1)
      (\<lambda>c. Inr (if failed c then -1 else 0 :: int, c\<lparr>resetting := False\<rparr>)))" if "lists_kept c c1" for ret c1
    by (rule ret_bind [where Q = "lists_kept c"])
       (auto intro: lists.fail_frame [OF that] lists.recreate_frame [OF that] lists.R_trans [OF _ r])
  show ?thesis
    unfolding nvme_ctrlr_reset_def
    by (auto intro!: ret_bind [OF lists.adminq_frame [OF r]] ret_bind [OF lists.ioqs_frame]
      ret_bind [OF lists_init_loop [OF lists.R_trans [OF _ lists_set_state]]] fin intro: lists.R_refl)
qed

text \<open>What \<^verbatim>\<open>nvme_ioqp_get\<close> may return: nothing, or the first free queue pair, moved to the end of the active ones.\<close>

definition got :: "nvme_ctrlr \<Rightarrow> nat option \<times> nvme_ctrlr \<Rightarrow> bool" where
  "got c = (\<lambda>(r, c'). case r of
       None \<Rightarrow> lists_kept c c'
     | Some i \<Rightarrow> \<exists>is c1. free_io_qpairs c = i # is \<and> lists_kept c c1
         \<and> c' = c1\<lparr>free_io_qpairs := remove1 i (free_io_qpairs c1), active_io_qpairs := active_io_qpairs c1 @ [i]\<rparr>)"

lemma got_None: "lists_kept c c' \<Longrightarrow> got c (None, c')"
  by (simp add: got_def)

lemma got_Some:
  "lists_kept c c1 \<Longrightarrow> free_io_qpairs c = i # is \<Longrightarrow>
   got c (Some i, c1\<lparr>free_io_qpairs := remove1 i (free_io_qpairs c1), active_io_qpairs := active_io_qpairs c1 @ [i]\<rparr>)"
  by (auto simp: got_def)

lemma lists_construct: "ret_in (to (lists_kept c)) (construct_qpair env c q prio n trks)"
proof -
  have "lists_kept c (next_tick (c\<lparr>cmb_current_offset := x\<rparr>))" for x by (rule lists_keptI) (simp_all add: next_tick_def)
  then show ?thesis
    unfolding construct_qpair_def Let_def
    by (intro ret_bind [OF ret_any]) (auto split: option.splits prod.splits simp: lists_next)
qed

lemma lists_get: "ret_in (got c) (nvme_ioqp_get fuel env c prio qd)"
proof -
  have d: "ret_in (got c) (rbind (on_ioq c1 i (destroy_qpair fuel)) (\<lambda>(_, c). Inr (None, c)))" if "lists_kept c c1" for c1 i
    by (rule ret_bind [OF lists.ioq_frame [OF that]]) (auto intro: got_None)
  have cr: "ret_in (got c) (rbind (nvme_ctrlr_create_qpair fuel env c1 i) (\<lambda>(ret, c).
      if ret \<noteq> 0 then rbind (on_ioq c i (destroy_qpair fuel)) (\<lambda>(_, c). Inr (None, c))
      else Inr (Some i, c\<lparr>free_io_qpairs := remove1 i (free_io_qpairs c), active_io_qpairs := active_io_qpairs c @ [i]\<rparr>)))"
    if "lists_kept c c1" "free_io_qpairs c = i # is" for c1 i "is"
    by (rule ret_bind [OF lists.create_qpair_frame [OF that(1)]]) (auto intro: d got_Some [OF _ that(2)])
  have m: "ret_in (got c) (rbind (ioq_at c i) (\<lambda>q. rbind (construct_qpair env c q prio n trks) (\<lambda>((ret, q), c).
       let c = set_ioq i q c
       in if ret \<noteq> 0 then rbind (on_ioq c i (destroy_qpair fuel)) (\<lambda>(_, c). Inr (None, c))
          else rbind (nvme_ctrlr_create_qpair fuel env c i) (\<lambda>(ret, c).
                 if ret \<noteq> 0 then rbind (on_ioq c i (destroy_qpair fuel)) (\<lambda>(_, c). Inr (None, c))
                 else Inr (Some i, c\<lparr>free_io_qpairs := remove1 i (free_io_qpairs c), active_io_qpairs := active_io_qpairs c @ [i]\<rparr>)))))"
    if "free_io_qpairs c = i # is" for i "is" n trks
    by (intro ret_bind [OF ret_any] ret_bind [OF lists_construct])
       (auto simp: Let_def intro!: d cr [OF _ that] lists.R_trans [OF _ lists.R_set_ioq])
  show ?thesis
    unfolding nvme_ioqp_get_def Let_def
    by (auto simp: got_None lists.R_refl m [unfolded Let_def] split: list.splits)
qed

lemma got_wf:
  assumes "ioqp_wf c" and "got c (r, c')"
  shows "ioqp_wf c' \<and> (case r of
      None \<Rightarrow> active_io_qpairs c' = active_io_qpairs c \<and> (ioq c \<noteq> None \<longrightarrow> free_io_qpairs c' = free_io_qpairs c)
    | Some i \<Rightarrow> free_io_qpairs c = i # free_io_qpairs c' \<and> active_io_qpairs c' = active_io_qpairs c @ [i])"
proof (cases r)
  case None
  then show ?thesis using assms by (simp add: got_def lists_kept_def)
next
  case (Some i)
  with assms(2) obtain is' c1 where c1: "free_io_qpairs c = i # is'" "lists_kept c c1"
    "c' = c1\<lparr>free_io_qpairs := remove1 i (free_io_qpairs c1), active_io_qpairs := active_io_qpairs c1 @ [i]\<rparr>" by (auto simp: got_def)
  have n: "ioq c \<noteq> None" using assms(1) c1(1) by (auto simp: ioqp_wf_def nr_ioq_def)
  then have k: "free_io_qpairs c1 = i # is'" "active_io_qpairs c1 = active_io_qpairs c" "ioqp_wf c1"
    using c1(1,2) assms(1) by (auto simp: lists_kept_def)
  have "ioqp_wf c'" using k unfolding ioqp_wf_def c1(3) by (auto simp: nr_ioq_def)
  then show ?thesis using Some c1 k by simp
qed

lemma lists_release:
  "ret_in (\<lambda>(ret, c'). \<exists>c1. lists_kept c c1 \<and> c' = (if ret \<noteq> 0 then c1 else
     c1\<lparr>active_io_qpairs := remove1 i (active_io_qpairs c1), free_io_qpairs := i # free_io_qpairs c1\<rparr>)) (nvme_ioqp_release fuel env c (Some i))"
  unfolding nvme_ioqp_release_def option.case
  by (rule ret_bind [OF lists.delete_qpair_frame [OF lists.R_refl]]) auto

lemma release_wf:
  assumes "ioqp_wf c" and "i \<in> set (active_io_qpairs c)" and "nvme_ioqp_release fuel env c (Some i) = Inr (ret, c')"
  shows "ioqp_wf c' \<and> (if ret \<noteq> 0 then active_io_qpairs c' = active_io_qpairs c \<and> free_io_qpairs c' = free_io_qpairs c
    else active_io_qpairs c' = remove1 i (active_io_qpairs c) \<and> free_io_qpairs c' = i # free_io_qpairs c)"
proof -
  from ret_inD [OF lists_release assms(3)] obtain c1 where c1: "lists_kept c c1" "c' = (if ret \<noteq> 0 then c1 else
     c1\<lparr>active_io_qpairs := remove1 i (active_io_qpairs c1), free_io_qpairs := i # free_io_qpairs c1\<rparr>)" by auto
  have n: "ioq c \<noteq> None" using assms(1,2) by (auto simp: ioqp_wf_def nr_ioq_def)
  then have k: "free_io_qpairs c1 = free_io_qpairs c" "active_io_qpairs c1 = active_io_qpairs c" "ioqp_wf c1"
    using c1(1) assms(1) by (auto simp: lists_kept_def)
  have "ioqp_wf c'" using k assms(2) unfolding ioqp_wf_def c1(2)
    by (auto simp: nr_ioq_def set_remove1_eq)
  then show ?thesis using c1(2) k by simp
qed

text \<open>
  C8. The free and the active I/O queue pairs of a controller partition its array of queue pairs: no queue pair is in a list twice, none in both,
  none is lost. Getting a queue pair hands out the first free one and makes it the last active one, or changes no list; releasing an active one
  moves it to the head of the free ones, or changes no list; a reset changes no list.
\<close>

theorem ioqp_lists_partition:
  assumes "ioqp_wf c"
  shows "(\<forall>r c'. nvme_ioqp_get fuel env c prio qd = Inr (r, c') \<longrightarrow> ioqp_wf c' \<and> (case r of
            None \<Rightarrow> active_io_qpairs c' = active_io_qpairs c \<and> (ioq c \<noteq> None \<longrightarrow> free_io_qpairs c' = free_io_qpairs c)
          | Some i \<Rightarrow> free_io_qpairs c = i # free_io_qpairs c' \<and> active_io_qpairs c' = active_io_qpairs c @ [i]))
    \<and> (\<forall>i ret c'. i \<in> set (active_io_qpairs c) \<longrightarrow> nvme_ioqp_release fuel env c (Some i) = Inr (ret, c') \<longrightarrow> ioqp_wf c'
          \<and> (if ret \<noteq> 0 then active_io_qpairs c' = active_io_qpairs c \<and> free_io_qpairs c' = free_io_qpairs c
             else active_io_qpairs c' = remove1 i (active_io_qpairs c) \<and> free_io_qpairs c' = i # free_io_qpairs c))
    \<and> (\<forall>ret c'. nvme_ctrlr_reset n fuel env c = Inr (ret, c') \<longrightarrow> ioqp_wf c' \<and> active_io_qpairs c' = active_io_qpairs c)"
proof (intro conjI allI impI)
  fix ret c'
  assume "nvme_ctrlr_reset n fuel env c = Inr (ret, c')"
  from ret_inD [OF lists_reset this] assms show "ioqp_wf c'" "active_io_qpairs c' = active_io_qpairs c" by (auto simp: lists_kept_def)
next
  fix i ret c'
  assume "i \<in> set (active_io_qpairs c)" and "nvme_ioqp_release fuel env c (Some i) = Inr (ret, c')"
  from release_wf [OF assms this] show "ioqp_wf c'" "if ret \<noteq> 0 then active_io_qpairs c' = active_io_qpairs c \<and> free_io_qpairs c' = free_io_qpairs c
             else active_io_qpairs c' = remove1 i (active_io_qpairs c) \<and> free_io_qpairs c' = i # free_io_qpairs c" by auto
next
  fix r c'
  assume "nvme_ioqp_get fuel env c prio qd = Inr (r, c')"
  note g = got_wf [OF assms ret_inD [OF lists_get this]]
  show "ioqp_wf c'" using g by simp
  show "case r of None \<Rightarrow> active_io_qpairs c' = active_io_qpairs c \<and> (ioq c \<noteq> None \<longrightarrow> free_io_qpairs c' = free_io_qpairs c)
          | Some i \<Rightarrow> free_io_qpairs c = i # free_io_qpairs c' \<and> active_io_qpairs c' = active_io_qpairs c @ [i]" using g by simp
qed

subsection \<open>Detaching a failed controller\<close>

lemma failed_admin_cmd:
  assumes "ct_failed s" and "\<forall>r\<in>set (free_req s). r < length (reqs s)"
  shows "\<exists>ret s'. nvme_admin_exec_cmd (Suc n) dev s cmd buf len = Inr (ret, s') \<and> ret \<noteq> 0 \<and> ct_failed s'
    \<and> free_req s' = free_req s \<and> length (reqs s') = length (reqs s)"
proof (cases "free_req s")
  case Nil
  then show ?thesis using assms(1)
    by (cases buf) (simp_all add: nvme_admin_exec_cmd_def nvme_admin_submit_cmd_def nvme_request_allocate_null_def
      nvme_request_allocate_contig_def nvme_request_allocate_def nvme_alloc_request_def clear_status_def ENOMEM_def)
next
  case (Cons r rs)
  then have "r < length (reqs s)" using assms(2) by simp
  with Cons show ?thesis using assms(1)
    by (cases buf) (simp_all add: nvme_admin_exec_cmd_def nvme_admin_submit_cmd_def nvme_request_allocate_null_def
      nvme_request_allocate_contig_def nvme_request_allocate_def nvme_alloc_request_def clear_status_def nvme_qpair_submit_request_def
      submit_request_def nvme_request_free_def upd_req_def ENXIO_def)
qed

lemma load_fields [simp]:
  "free_req (load_qp c q) = free_req q" "reqs (load_qp c q) = reqs q"
  by (simp_all add: load_qp_def nvme_qpair.defs qctx.defs)

lemma failed_release:
  assumes "failed c" and "ioq c = Some qs" and "i < length qs"
    and "\<forall>r\<in>set (free_req (adminq c)). r < length (reqs (adminq c))"
  shows "\<exists>ret c'. nvme_ioqp_release (Suc fuel) env c (Some i) = Inr (ret, c') \<and> failed c' \<and> ioq c' = Some qs
    \<and> active_io_qpairs c' = active_io_qpairs c \<and> (\<forall>r\<in>set (free_req (adminq c')). r < length (reqs (adminq c')))"
proof -
  let ?cmd = "(admin_cmd NVME_OPC_DELETE_IO_SQ)\<lparr>cdw10 := ucast (qp_id (qs ! i))\<rparr>"
  obtain ret s' where s': "nvme_admin_exec_cmd (Suc fuel) (hw_dev env) (load_qp c (adminq c)) ?cmd None 0 = Inr (ret, s')"
    "ret \<noteq> 0" "ct_failed s'" "free_req s' = free_req (adminq c)" "length (reqs s') = length (reqs (adminq c))"
    using failed_admin_cmd [of "load_qp c (adminq c)" fuel "hw_dev env" ?cmd None 0] assms(1,4) by auto
  show ?thesis
    using assms s' by (simp add: nvme_ioqp_release_def nvme_ctrlr_delete_qpair_def ioq_at_def on_adminq_def nvme_admin_delete_ioq_def
      store_qp_def nvme_qpair.defs)
qed

text \<open>
  C40. Detaching a controller that has failed while an I/O queue pair is active never returns: the commands that delete the queue pair are
  refused, so the queue pair stays active, and the loop that releases the active queue pairs starts again for ever.
\<close>

theorem detach_failed_never_ends:
  assumes "failed c" and "ioq c = Some qs" and "active_io_qpairs c = i # is" and "i < length qs"
    and "\<forall>r\<in>set (free_req (adminq c)). r < length (reqs (adminq c))"
  shows "nvme_ctrlr_detach n (Suc fuel) env c = Inl OutOfFuel"
proof -
  have "release_loop n (Suc fuel) env c = Inl OutOfFuel"
    using assms
  proof (induction n arbitrary: c)
    case (Suc n)
    from failed_release [OF Suc.prems(1,2,4,5), of fuel env] Suc.prems Suc.IH show ?case by auto
  qed simp
  then show ?thesis by (simp add: nvme_ctrlr_detach_def)
qed

definition ex_failed :: nvme_ctrlr where
  "ex_failed = ex_ctrlr\<lparr>failed := True, ioq := Some [qpair_zero\<lparr>qp_id := 1\<rparr>], active_io_qpairs := [0]\<rparr>"

theorem detach_failed_never_ends_witness: "nvme_ctrlr_detach 1000 7 ex_cenv ex_failed = Inl OutOfFuel"
proof -
  have f: "failed ex_failed" "ioq ex_failed = Some [qpair_zero\<lparr>qp_id := 1\<rparr>]" "active_io_qpairs ex_failed = 0 # []"
    "free_req (adminq ex_failed) = []"
    by (simp_all add: ex_failed_def ex_ctrlr_def qpair_zero_def)
  from detach_failed_never_ends [OF f(1,2,3), of 1000 6 ex_cenv] f(4) show ?thesis by simp
qed

lemma get_not_constructed:
  assumes "cc_bits (r_cc c) CC_AMS = 0" and "free_io_qpairs c = i # is" and "ioq_at c i = Inr q" and "1 < qd" and "qd \<le> io_qpairs_max_entries c"
    and "construct_qpair env c q 0 qd (min NVME_IO_TRACKERS (qd - 1)) = Inr ((ret, q1), c1)" and "ret \<noteq> 0"
  shows "nvme_ioqp_get fuel env c 0 qd = rbind (on_ioq (set_ioq i q1 c1) i (destroy_qpair fuel)) (\<lambda>(_, c). Inr (None, c))"
  using assms by (simp add: nvme_ioqp_get_def)

definition ex_two :: nvme_ctrlr where
  "ex_two = ex_failed\<lparr>ioq := Some [qpair_zero\<lparr>qp_id := 1\<rparr>, qpair_zero\<lparr>qp_id := 2\<rparr>], free_io_qpairs := [1], io_qpairs_max_entries := 64\<rparr>"

definition ex_no_mem :: ctrlr_env where
  "ex_no_mem = ex_cenv\<lparr>os_qpair := \<lambda>_. ex_env\<lparr>alloc_cmd := None\<rparr>\<rparr>"

lemma ex_two_simps:
  "active_io_qpairs ex_two = [0]" "free_io_qpairs ex_two = [1]" "cc_bits (r_cc ex_two) CC_AMS = 0" "\<not> opt_use_cmb_sqs (c_opts ex_two)"
  "ioq_at ex_two 1 = Inr (qpair_zero\<lparr>qp_id := 2\<rparr>)" "io_qpairs_max_entries ex_two = 64" "map_option length (ioq ex_two) = Some 2"
  by (simp_all add: ex_two_def ex_failed_def ioq_at_def bf_get_def)

theorem ioqp_lists_partition_witness:
  "\<exists>c'. nvme_ioqp_get 3 ex_no_mem ex_two 0 8 = Inr (None, c') \<and> ioqp_wf c' \<and> free_io_qpairs c' = [1] \<and> active_io_qpairs c' = [0]"
proof -
  note l = ex_two_simps
  have wf: "ioqp_wf ex_two" using l by (auto simp: ioqp_wf_def nr_ioq_def)
  have "os_qpair ex_no_mem t = ex_env\<lparr>alloc_cmd := None\<rparr>" for t by (simp add: ex_no_mem_def)
  then obtain q1 where q1: "construct_qpair ex_no_mem ex_two (qpair_zero\<lparr>qp_id := 2\<rparr>) 0 8 7 = Inr ((-1, q1), next_tick ex_two)" "qp_id q1 = 2"
    using l(4) by (simp add: construct_qpair_def nvme_qpair_construct_def ex_env_def qpair_release_def nvme_request_pool_destroy_def)
  define c1 where "c1 = set_ioq 1 q1 (next_tick ex_two)"
  obtain x y where x: "ioq ex_two = Some [x, y]" using l(7) by (auto simp: length_Suc_conv numeral_2_eq_2)
  have i: "ioq c1 = Some [x, q1]" by (simp add: c1_def set_ioq_def next_tick_def x)
  have "nvme_qpair_is_io_queue (load_qp c1 q1)" using q1(2) by (simp add: nvme_qpair_is_io_queue_def load_qp_def nvme_qpair.defs)
  then have d: "\<exists>c'. on_ioq c1 1 (destroy_qpair 3) = Inr ((), c')" by (simp add: on_ioq_def i destroy_qpair_def nvme_qpair_destroy_def)
  have "construct_qpair ex_no_mem ex_two (qpair_zero\<lparr>qp_id := 2\<rparr>) 0 8 (min NVME_IO_TRACKERS (8 - 1)) = Inr ((-1, q1), next_tick ex_two)"
    using q1(1) by (simp add: NVME_IO_TRACKERS_def)
  from get_not_constructed [OF l(3,2,5) _ _ this, of 3] d obtain c' where "nvme_ioqp_get 3 ex_no_mem ex_two 0 8 = Inr (None, c')"
    using l(6) by (auto simp: c1_def)
  with ioqp_lists_partition [OF wf, of 3 ex_no_mem 0 8 0] l x show ?thesis by auto
qed

subsection \<open>Identified namespaces\<close>

lemma unat_pow2_32: "k < 32 \<Longrightarrow> unat (2 ^ k :: u32) = 2 ^ k"
  using u32_of_nat [of "2 ^ k"] power_strict_increasing [of k 32 "2 :: nat"] by simp

lemma shl_u32_Inr:
  assumes "shl_u32 n = Inr w"
  shows "n < 32" "unat w = 2 ^ n"
  using assms by (auto simp: shl_u32_def push_bit_eq_mult unat_pow2_32 split: if_splits)

lemma on_adminq_same: "on_adminq c f = Inr (v, c') \<Longrightarrow> max_xfer_size c' = max_xfer_size c \<and> cdata c' = cdata c \<and> min_page_size c' = min_page_size c"
  by (auto simp: on_adminq_def store_qp_def)

lemma geometry_facts:
  assumes "ns_geometry cd mx nd ns0 = Inr ns"
  obtains l where "l < 32" "unat (sector_size ns) = 2 ^ l" "sectors_per_max_io ns = mx div sector_size ns"
    "sectors_per_stripe ns = stripe_size ns div sector_size ns" "stripe_size ns = stripe_size ns0" "ns_id ns = ns_id ns0"
proof -
  from assms obtain w where w: "shl_u32 (unat (lbaf_lbads (nd_lbaf nd (nd_flbas_format nd)))) = Inr w"
    by (auto simp: ns_geometry_def Let_def)
  note s = shl_u32_Inr [OF w]
  have "sector_size ns = w" "sectors_per_max_io ns = mx div w" "sectors_per_stripe ns = stripe_size ns0 div w"
    "stripe_size ns = stripe_size ns0" "ns_id ns = ns_id ns0"
    using assms w by (auto simp: ns_geometry_def Let_def split: if_splits)
  with s show ?thesis using that by metis
qed

lemma identify_update_geometry:
  assumes "nvme_ns_identify_update fuel env c ns0 = Inr ((0, ns), c')"
  shows "\<exists>nd. ns_geometry (cdata c) (max_xfer_size c) nd ns0 = Inr ns"
  using assms
  by (auto simp: nvme_ns_identify_update_def Let_def next_tick_def dest!: on_adminq_same split: option.splits if_splits) blast+

lemma identified_rw_ok:
  assumes g: "ns_geometry cd mx nd ns0 = Inr ns" and mx: "unat mx \<le> NVME_MAX_XFER_SIZE"
    and ss: "sector_size ns \<le> mx" and a: "rw_sector_size ns (rw_io_flags a) = sector_size ns"
    and p: "plain_cb (rw_cb a)" "rw_io_flags a AND 0xFFFF = 0"
      "pl_type (rw_payload a) = NVME_PAYLOAD_TYPE_SGL \<longrightarrow> (\<exists>f. pl_sgl (rw_payload a) = Some f \<and> (\<forall>off j. snd (snd (f off j)) \<noteq> 0))"
    and st: "stripe_size ns0 = 0 \<or> (\<exists>e. unat (stripe_size ns0) = 2 ^ e) \<and> sector_size ns \<le> stripe_size ns0 \<and> stripe_size ns0 \<le> mx"
  shows "rw_ok ns a \<and> stripe_ok ns"
proof -
  obtain l where l: "l < 32" "unat (sector_size ns) = 2 ^ l" "sectors_per_max_io ns = mx div sector_size ns"
    "sectors_per_stripe ns = stripe_size ns0 div sector_size ns" using geometry_facts [OF g] by metis
  let ?s = "unat (sector_size ns)" and ?m = "unat mx"
  have d: "unat (sectors_per_max_io ns) = ?m div ?s" "unat (sectors_per_stripe ns) = unat (stripe_size ns0) div ?s"
    using l by (simp_all add: unat_div)
  have s: "0 < ?s" "?s \<le> ?m" using l(2) ss by (simp_all add: word_le_nat_alt)
  have "0 < ?m div ?s" using s by (simp add: div_greater_zero_iff)
  then have "0 < sectors_per_max_io ns" using d(1) by (simp add: word_less_nat_alt)
  moreover have "unat (sectors_per_max_io ns) * ?s \<le> NVME_MAX_XFER_SIZE" unfolding d(1) using div_times_less_eq_dividend [of ?m ?s] mx by linarith
  ultimately have r: "rw_ok ns a" using p a by (simp add: rw_ok_def)
  have "stripe_ok ns"
  proof (cases "stripe_size ns0 = 0")
    case True
    then show ?thesis using l(4) by (simp add: stripe_ok_def)
  next
    case False
    with st obtain e where e: "unat (stripe_size ns0) = 2 ^ e" by blast
    have le: "2 ^ l \<le> (2 :: nat) ^ e" "unat (stripe_size ns0) \<le> ?m" using False st l(2) e by (simp_all add: word_le_nat_alt)
    then have "l \<le> e" by simp
    then have "unat (sectors_per_stripe ns) = 2 ^ (e - l)" using d(2) e l(2) by (simp add: power_diff)
    moreover have "sectors_per_stripe ns \<le> sectors_per_max_io ns" using le(2) d by (simp add: word_le_nat_alt div_le_mono)
    ultimately show ?thesis by (auto simp: stripe_ok_def)
  qed
  with r show ?thesis by simp
qed


definition ex_nsdata :: nvme_ns_data where
  "ex_nsdata = nsdata_zero\<lparr>nd_lbaf := \<lambda>_. \<lparr>lbaf_ms = 0, lbaf_lbads = 9\<rparr>\<rparr>"

definition ex_identified :: nvme_ns where
  "ex_identified = ns_zero\<lparr>ns_id := 1, sector_size := 512, sectors_per_max_io := 8, stripe_size := 2048, sectors_per_stripe := 4\<rparr>"


subsection \<open>Firmware\<close>

text \<open>The reference: one download command for each piece of the image, until one fails.\<close>

fun download_all :: "nat \<Rightarrow> ctrlr_env \<Rightarrow> nat \<Rightarrow> (nat \<times> nat) list \<Rightarrow> nvme_ctrlr \<Rightarrow> (int \<times> nvme_ctrlr) res" where
  "download_all fuel env fw [] c = Inr (0, c)"
| "download_all fuel env fw ((x, k) # ps) c =
     rbind (on_adminq c (\<lambda>s. nvme_admin_fw_image_dl fuel (hw_dev env) s (fw + x) (of_nat k) (of_nat x)))
       (\<lambda>(ret, c). if ret \<noteq> 0 then Inr (ret, c) else download_all fuel env fw ps c)"

lemma fw_download_all:
  assumes "unat (min_page_size c) = page" and "0 < page" and "x + n < 2 ^ 32" and "length (chunks (\<lambda>_. page) x n) \<le> m"
  shows "fw_download m fuel env c (fw + x) (of_nat n) (of_nat x) = download_all fuel env fw (chunks (\<lambda>_. page) x n) c"
  using assms
proof (induction m arbitrary: x n c)
  case 0
  then have "n = 0" by (cases "n = 0") (auto simp: chunks.simps [of _ x n])
  then show ?case by (simp add: chunks.simps)
next
  case (Suc m)
  show ?case
  proof (cases "n = 0")
    case False
    let ?k = "min n page"
    have n: "unat (of_nat n :: u32) = n" using Suc.prems(3) by (intro u32_of_nat) simp
    then have t: "min (of_nat n) (min_page_size c) = of_nat ?k" using Suc.prems(1) by (auto simp: min_def word_le_nat_alt)
    have k: "unat (of_nat ?k :: u32) = ?k" "(0 :: u32) < of_nat n" using Suc.prems(3) n False by (auto intro!: u32_of_nat simp: word_less_nat_alt)
    have c: "chunks (\<lambda>_. page) x n = (x, ?k) # chunks (\<lambda>_. page) (x + ?k) (n - ?k)" using False Suc.prems(2) by (subst chunks.simps) simp
    have r: "(of_nat n - of_nat ?k :: u32) = of_nat (n - ?k)" "(of_nat x + of_nat ?k :: u32) = of_nat (x + ?k)" by (simp_all add: of_nat_diff)
    have "fw_download m fuel env c1 (fw + x + ?k) (of_nat (n - ?k)) (of_nat (x + ?k)) = download_all fuel env fw (chunks (\<lambda>_. page) (x + ?k) (n - ?k)) c1"
      if "min_page_size c1 = min_page_size c" for c1
      using Suc.IH [of c1 "x + ?k" "n - ?k"] Suc.prems c that by (simp add: add.assoc)
    note ih = this
    have "fw_download (Suc m) fuel env c (fw + x) (of_nat n) (of_nat x) =
      rbind (on_adminq c (\<lambda>s. nvme_admin_fw_image_dl fuel (hw_dev env) s (fw + x) (of_nat ?k) (of_nat x)))
        (\<lambda>(ret, c). if ret \<noteq> 0 then Inr (ret, c) else fw_download m fuel env c (fw + x + ?k) (of_nat (n - ?k)) (of_nat (x + ?k)))"
      unfolding r [symmetric] using k by (simp only: fw_download.simps if_True t Let_def)
    also have "\<dots> = download_all fuel env fw (chunks (\<lambda>_. page) x n) c"
      unfolding c download_all.simps
    proof (rule rbind_cong [OF refl])
      fix y
      assume y: "on_adminq c (\<lambda>s. nvme_admin_fw_image_dl fuel (hw_dev env) s (fw + x) (of_nat ?k) (of_nat x)) = Inr y"
      then have "min_page_size (snd y) = min_page_size c" using on_adminq_same [of c _ "fst y" "snd y"] by (simp only: prod.collapse)
      from ih [OF this] show "(case y of (ret, c) \<Rightarrow> if ret \<noteq> 0 then Inr (ret, c)
          else fw_download m fuel env c (fw + x + ?k) (of_nat (n - ?k)) (of_nat (x + ?k))) =
        (case y of (ret, c) \<Rightarrow> if ret \<noteq> 0 then Inr (ret, c) else download_all fuel env fw (chunks (\<lambda>_. page) (x + ?k) (n - ?k)) c)"
        by (simp only: split_beta)
    qed
    finally show ?thesis .
  qed (simp add: chunks.simps)
qed

lemma chunks_dvd:
  assumes "d dvd page" and "d dvd n" and "d dvd l" and "(x, k) \<in> set (chunks (\<lambda>_. page) l n)"
  shows "d dvd x \<and> d dvd k"
  using assms
proof (induction "\<lambda>_ :: nat. page" l n rule: chunks.induct)
  case (1 l n)
  have nz: "\<not> (n = 0 \<or> page = 0)" using "1.prems"(4) by (subst (asm) chunks.simps) (auto split: if_splits)
  have m: "d dvd min n page" using "1.prems"(1,2) by (simp add: min_def)
  from "1.prems"(4) nz have "(x, k) = (l, min n page) \<or> (x, k) \<in> set (chunks (\<lambda>_. page) (l + min n page) (n - min n page))"
    by (subst (asm) chunks.simps) auto
  then show ?case using "1.hyps" [OF nz "1.prems"(1)] "1.prems"(2,3) m by (auto simp: dvd_diff_nat)
qed

text \<open>
  C39. Updating the firmware with an image whose size is a multiple of 4 below 4 GiB sends one download command after the other until one fails, then commits the
  image and resets the controller; the pieces are at most one page of the controller, start and end on 4-byte boundaries and cover exactly the image, in order.
\<close>

theorem firmware_download_covers:
  assumes "fw_size AND 0x3 = 0" and "unat fw_size < 2 ^ 32" and "unat (min_page_size c) = page" and "0 < page" and "4 dvd page"
    and "length (chunks (\<lambda>_. page) 0 (unat fw_size)) \<le> m"
  shows "nvme_ctrlr_update_firmware m n fuel env c fw fw_size slot =
      rbind (download_all fuel env fw (chunks (\<lambda>_. page) 0 (unat fw_size)) c) (\<lambda>(ret, c). if ret \<noteq> 0 then Inr (ret, c)
        else then_reset n fuel env (on_adminq c (\<lambda>s. nvme_admin_fw_commit fuel (hw_dev env) s (take_bit 3 slot))))
    \<and> concat (map (\<lambda>(x, k). [x..<x + k]) (chunks (\<lambda>_. page) 0 (unat fw_size))) = [0..<unat fw_size]
    \<and> (\<forall>(x, k)\<in>set (chunks (\<lambda>_. page) 0 (unat fw_size)). 0 < k \<and> k \<le> page \<and> 4 dvd x \<and> 4 dvd k)"
proof (intro conjI)
  have "(ucast fw_size :: u32) = of_nat (unat fw_size)" by simp
  then have "fw_download m fuel env c fw (ucast fw_size) 0 = download_all fuel env fw (chunks (\<lambda>_. page) 0 (unat fw_size)) c"
    using fw_download_all [OF assms(3,4) _ assms(6), of fuel env fw] assms(2) by (simp only: add_0_left add_0_right semiring_1_class.of_nat_0 simp_thms)
  then show "nvme_ctrlr_update_firmware m n fuel env c fw fw_size slot =
      rbind (download_all fuel env fw (chunks (\<lambda>_. page) 0 (unat fw_size)) c) (\<lambda>(ret, c). if ret \<noteq> 0 then Inr (ret, c)
        else then_reset n fuel env (on_adminq c (\<lambda>s. nvme_admin_fw_commit fuel (hw_dev env) s (take_bit 3 slot))))"
    using assms(1) by (simp only: nvme_ctrlr_update_firmware_def not_True_eq_False if_False simp_thms)
  show "concat (map (\<lambda>(x, k). [x..<x + k]) (chunks (\<lambda>_. page) 0 (unat fw_size))) = [0..<unat fw_size]"
    using chunks_cover [of "\<lambda>_. page" 0 "unat fw_size"] assms(4) by simp
  have "fw_size AND 0x3 = take_bit 2 fw_size" by (simp add: take_bit_eq_mask mask_eq_exp_minus_1)
  then have "unat (take_bit 2 fw_size) = 0" using assms(1) by simp
  then have "take_bit 2 (unat fw_size) = 0" unfolding unsigned_take_bit_eq .
  then have "4 dvd unat fw_size" by (simp add: take_bit_eq_mod dvd_eq_mod_eq_0)
  then show "\<forall>(x, k)\<in>set (chunks (\<lambda>_. page) 0 (unat fw_size)). 0 < k \<and> k \<le> page \<and> 4 dvd x \<and> 4 dvd k"
    using chunks_bound(1,2) [where room = "\<lambda>_. page" and l = 0 and n = "unat fw_size"] chunks_dvd [OF assms(5), of "unat fw_size" 0] by blast
qed

lemma failed_download:
  assumes "failed c" and "free_req (adminq c) = []"
  shows "\<exists>ret c'. download_all (Suc n) env fw ((x, k) # ps) c = Inr (ret, c') \<and> ret \<noteq> 0"
proof -
  have "ct_failed (load_qp c (adminq c))" "\<forall>r\<in>set (free_req (load_qp c (adminq c))). r < length (reqs (load_qp c (adminq c)))"
    using assms by simp_all
  from failed_admin_cmd [OF this] obtain ret s' where
    "nvme_admin_fw_image_dl (Suc n) (hw_dev env) (load_qp c (adminq c)) (fw + x) (of_nat k) (of_nat x) = Inr (ret, s')" "ret \<noteq> 0"
    unfolding nvme_admin_fw_image_dl_def by metis
  then show ?thesis by (simp add: on_adminq_def)
qed

theorem firmware_download_covers_witness:
  "\<exists>ret c'. nvme_ctrlr_update_firmware 3 1 7 ex_cenv (ex_failed\<lparr>min_page_size := 16\<rparr>) 0x10000 40 1 = Inr (ret, c') \<and> ret \<noteq> 0
    \<and> concat (map (\<lambda>(x, k). [x..<x + k]) [(0, 16), (16, 16), (32, 8)]) = [0..<40]"
proof -
  let ?c = "ex_failed\<lparr>min_page_size := 16\<rparr>"
  have k: "chunks (\<lambda>_. 16) 0 (unat (40 :: u64)) = [(0, 16), (16, 16), (32, 8)]" by (simp add: chunks.simps)
  have a: "(40 :: u64) AND 0x3 = 0" "unat (40 :: u64) < 2 ^ 32" "unat (min_page_size ?c) = 16" "(0 :: nat) < 16" "(4 :: nat) dvd 16"
    "length (chunks (\<lambda>_. 16) 0 (unat (40 :: u64))) \<le> 3" unfolding k by simp_all
  note t = firmware_download_covers [OF a, where n = 1 and fuel = 7 and env = ex_cenv and fw = "0x10000" and slot = "1"]
  have f: "failed ?c" "free_req (adminq ?c) = []" by (simp_all add: ex_failed_def ex_ctrlr_def qpair_zero_def)
  from failed_download [OF f, of 6 ex_cenv "0x10000" 0 16 "[(16, 16), (32, 8)]"] obtain ret c' where
    "download_all 7 ex_cenv 0x10000 (chunks (\<lambda>_. 16) 0 (unat (40 :: u64))) ?c = Inr (ret, c')" "ret \<noteq> 0"
    unfolding k by (auto simp del: download_all.simps)
  with t show ?thesis unfolding k by (simp del: download_all.simps)
qed

text \<open>The size is kept in 32 bits: an image of 4 GiB is committed without downloading anything.\<close>

lemma firmware_size_truncated:
  "nvme_ctrlr_update_firmware m n fuel env c fw (2 ^ 32) slot =
     then_reset n fuel env (on_adminq c (\<lambda>s. nvme_admin_fw_commit fuel (hw_dev env) s (take_bit 3 slot)))"
  by (cases m) (simp_all add: nvme_ctrlr_update_firmware_def)

end
