(* ===== verification/Nvme_Text.thy ===== *)
theory Nvme_Text
  imports Nvme_Prelude
begin

text \<open>
  The text the library reads and writes (\<^verbatim>\<open>lib/common/nvme_common.c\<close> and \<^verbatim>\<open>nvme_common.h\<close>): trimming and splitting
  strings in place, sizes with units, numbers in files of \<^verbatim>\<open>/sys\<close>, and the functions of the C library these use. A C
  string is the list of its characters before the terminating null character; where a function writes to the
  string its argument is the buffer with the null character and what follows it.
\<close>

subsection \<open>Definitions: characters and numbers of the C library\<close>

abbreviation NUL :: char where "NUL \<equiv> char_of (0 :: nat)"

definition cstr :: "char list \<Rightarrow> string" where
  "cstr b = takeWhile (\<lambda>c. c \<noteq> NUL) b"

definition isspace :: "char \<Rightarrow> bool" where
  "isspace c \<longleftrightarrow> c = CHR '' '' \<or> (9 \<le> (of_char c :: nat) \<and> (of_char c :: nat) \<le> 13)"

definition digit_val :: "char \<Rightarrow> nat" where
  "digit_val c =
     (let n = of_char c
      in if 48 \<le> n \<and> n \<le> 57 then n - 48 else if 97 \<le> n \<and> n \<le> 122 then n - 87
         else if 65 \<le> n \<and> n \<le> 90 then n - 55 else 36)"

fun digits :: "nat \<Rightarrow> nat \<Rightarrow> string \<Rightarrow> nat \<times> string" where
  "digits b v [] = (v, [])"
| "digits b v (c # cs) = (if digit_val c < b then digits b (v * b + digit_val c) cs else (v, c # cs))"

definition strip_sign :: "string \<Rightarrow> bool \<times> string" where
  "strip_sign s =
     (case s of [] \<Rightarrow> (False, []) | c # cs \<Rightarrow> if c = CHR ''-'' then (True, cs) else if c = CHR ''+'' then (False, cs) else (False, s))"

definition hex_prefix :: "string \<Rightarrow> bool" where
  "hex_prefix s = (case s of z # x # d # _ \<Rightarrow> z = CHR ''0'' \<and> (x = CHR ''x'' \<or> x = CHR ''X'') \<and> digit_val d < 16 | _ \<Rightarrow> False)"

definition detect_base :: "nat \<Rightarrow> string \<Rightarrow> nat \<times> string" where
  "detect_base base s =
     (if (base = 0 \<or> base = 16) \<and> hex_prefix s then (16, drop 2 s)
      else if base = 0 then (if s \<noteq> [] \<and> hd s = CHR ''0'' then 8 else 10, s)
      else (base, s))"

text \<open>
  \<^verbatim>\<open>strtoul\<close> and \<^verbatim>\<open>strtoull\<close>: the value, whether it is out of range, and the characters from \<^verbatim>\<open>*endptr\<close> on. White
  space, a sign and a prefix \<^verbatim>\<open>0x\<close> are skipped; without a digit nothing is converted and the end is the start.
\<close>

definition strtoul :: "nat \<Rightarrow> string \<Rightarrow> u64 \<times> bool \<times> string" where
  "strtoul base s =
     (let (neg, t) = strip_sign (dropWhile isspace s); (b, u) = detect_base base t
      in if u = [] \<or> digit_val (hd u) \<ge> b then (0, False, s)
         else let (v, rest) = digits b 0 u
              in if v < 2 ^ 64 then (if neg then - of_nat v else of_nat v, False, rest) else (- 1, True, rest))"

text \<open>The conversions \<^verbatim>\<open>%x\<close> with leading zeros up to a width, and \<^verbatim>\<open>%u\<close>.\<close>

definition digit_char :: "nat \<Rightarrow> char" where
  "digit_char d = ''0123456789abcdef'' ! d"

function show_base :: "nat \<Rightarrow> nat \<Rightarrow> string" where
  "show_base b n = (if n < b \<or> b < 2 then [digit_char n] else show_base b (n div b) @ [digit_char (n mod b)])"
  by auto
termination
  by (relation "measure snd") auto

declare show_base.simps [simp del]

definition show_pad :: "nat \<Rightarrow> nat \<Rightarrow> nat \<Rightarrow> string" where
  "show_pad b w n = replicate (w - length (show_base b n)) CHR ''0'' @ show_base b n"

subsection \<open>Definitions: trimming and splitting\<close>

text \<open>Reading or writing outside the buffer is an invalid access.\<close>

definition rd :: "char list \<Rightarrow> nat \<Rightarrow> char res" where
  "rd b i = (if i < length b then Inr (b ! i) else Inl BadAccess)"

definition wr :: "char list \<Rightarrow> nat \<Rightarrow> char \<Rightarrow> char list res" where
  "wr b i c = (if i < length b then Inr (b[i := c]) else Inl BadAccess)"

function trim_head :: "char list \<Rightarrow> nat \<Rightarrow> nat res" where
  "trim_head b p =
     (if length b \<le> p then Inl BadAccess
      else if b ! p \<noteq> NUL \<and> isspace (b ! p) then trim_head b (Suc p) else Inr p)"
  by auto
termination
  by (relation "measure (\<lambda>(b, p). length b - p)") auto

function c_strlen :: "char list \<Rightarrow> nat \<Rightarrow> nat res" where
  "c_strlen b p = (if length b \<le> p then Inl BadAccess else if b ! p = NUL then Inr 0 else rbind (c_strlen b (Suc p)) (\<lambda>n. Inr (Suc n)))"
  by auto
termination
  by (relation "measure (\<lambda>(b, p). length b - p)") auto

fun trim_tail :: "char list \<Rightarrow> nat \<Rightarrow> nat \<Rightarrow> char list res" where
  "trim_tail b p 0 = Inr b"
| "trim_tail b p (Suc q) =
     (if p \<le> q then rbind (rd b q) (\<lambda>c. if isspace c then rbind (wr b q NUL) (\<lambda>b. trim_tail b p q) else Inr b) else Inr b)"

function move_down :: "char list \<Rightarrow> nat \<Rightarrow> nat \<Rightarrow> char list res" where
  "move_down b q p =
     (if length b \<le> p then Inl BadAccess
      else if b ! p \<noteq> NUL then rbind (wr b q (b ! p)) (\<lambda>b'. move_down b' (Suc q) (Suc p))
      else wr b q NUL)"
  by auto
termination
  by (relation "measure (\<lambda>(b, q, p). length b - p)") (auto simp: wr_def split: if_splits)

declare trim_head.simps [simp del] c_strlen.simps [simp del] move_down.simps [simp del]

definition nvme_str_trim :: "char list \<Rightarrow> char list res" where
  "nvme_str_trim s =
     rbind (trim_head s 0) (\<lambda>p.
     rbind (c_strlen s p) (\<lambda>n.
     rbind (trim_tail s p (p + n)) (\<lambda>s. if p \<noteq> 0 then move_down s 0 p else Inr s)))"

text \<open>Splitting returns the offsets of the tokens and the string with the delimiters overwritten.\<close>

function split_loop :: "char list \<Rightarrow> nat \<Rightarrow> nat \<Rightarrow> char \<Rightarrow> nat \<Rightarrow> bool \<Rightarrow> nat list \<Rightarrow> (nat list \<times> char list) res" where
  "split_loop s stringlen maxtokens delim i tokstart toks =
     (if stringlen \<le> i then Inr (toks, s)
      else rbind (rd s i) (\<lambda>c.
        if c = NUL \<or> length toks \<ge> maxtokens then Inr (toks, s)
        else
          let toks = (if tokstart then toks @ [i] else toks)
          in if c = delim then split_loop (s[i := NUL]) stringlen maxtokens delim (Suc i) True toks
             else split_loop s stringlen maxtokens delim (Suc i) False toks))"
  by auto
termination
  by (relation "measure (\<lambda>(s, stringlen, maxtokens, delim, i, tokstart, toks). stringlen - i)") auto

declare split_loop.simps [simp del]

definition nvme_str_split :: "char list option \<Rightarrow> nat \<Rightarrow> nat \<Rightarrow> char \<Rightarrow> (int \<times> nat list \<times> char list) res" where
  "nvme_str_split string stringlen maxtokens delim =
     (case string of
        None \<Rightarrow> Inr (-1, [], [])
      | Some s \<Rightarrow> rbind (split_loop s stringlen maxtokens delim 0 True []) (\<lambda>(toks, s). Inr (int (length toks), toks, s)))"

subsection \<open>Definitions: sizes and values in files\<close>

text \<open>Sizes are computed in 64 bits. \<open>unit_factor\<close> is the switch on the character after the number.\<close>

definition unit_factor :: "string \<Rightarrow> u64" where
  "unit_factor t =
     (case t of
        [] \<Rightarrow> 1
      | c # _ \<Rightarrow>
          if c = CHR ''G'' \<or> c = CHR ''g'' then 1024 * 1024 * 1024
          else if c = CHR ''M'' \<or> c = CHR ''m'' then 1024 * 1024
          else if c = CHR ''K'' \<or> c = CHR ''k'' then 1024 else 1)"

definition nvme_str2size :: "string \<Rightarrow> u64" where
  "nvme_str2size str =
     (let str = dropWhile isspace str
      in if str \<noteq> [] \<and> hd str = CHR ''-'' then 0
         else case strtoul 0 str of (sz, erange, endptr) \<Rightarrow>
           if erange then 0
           else sz * unit_factor (if endptr \<noteq> [] \<and> hd endptr = CHR '' '' then tl endptr else endptr))"

text \<open>
  A file is its content, \<open>None\<close> when it cannot be opened. \<^verbatim>\<open>fgets\<close> returns the characters up to the end of the line, at
  most one less than the size of the buffer, and \<open>None\<close> at the end of the file.
\<close>

definition fgets :: "nat \<Rightarrow> string \<Rightarrow> (string \<times> string) option" where
  "fgets n_buf f =
     (if f = [] then None
      else let line = takeWhile (\<lambda>c. c \<noteq> CHR 0x0A) f;
               n = min (n_buf - 1) (if length line < length f then Suc (length line) else length line)
           in Some (take n f, drop n f))"

definition BUFSIZ :: nat where "BUFSIZ = 8192"

definition nvme_parse_sysfs_value :: "string option \<Rightarrow> int \<times> u64 option" where
  "nvme_parse_sysfs_value file =
     (case file of
        None \<Rightarrow> (-1, None)
      | Some f \<Rightarrow>
          (case fgets BUFSIZ f of
             None \<Rightarrow> (-1, None)
           | Some (buf, _) \<Rightarrow>
               (case strtoul 0 (cstr buf) of (val, _, end) \<Rightarrow>
                  if cstr buf = [] \<or> end = [] \<or> hd end \<noteq> CHR 0x0A then (-1, Some val) else (0, Some val))))"

subsection \<open>Printing and reading numbers\<close>

lemma digit_val_char [simp]: "d < 16 \<Longrightarrow> digit_val (digit_char d) = d"
proof -
  assume "d < 16"
  then have "d \<in> set [0..<16]" by simp
  moreover have "\<forall>d\<in>set [0..<16]. digit_val (digit_char d) = d" by code_simp
  ultimately show ?thesis by blast
qed

lemma digit_not_special:
  assumes "digit_val c < 36"
  shows "\<not> isspace c" "c \<noteq> CHR ''-''" "c \<noteq> CHR ''+''" "c \<noteq> CHR '':''" "c \<noteq> CHR ''.''" "c \<noteq> NUL" "c \<noteq> CHR 0x0A"
  using assms by (auto simp: digit_val_def isspace_def)

lemma digit_val_special [simp]:
  "digit_val CHR 0x0A = 36" "digit_val CHR '' '' = 36" "digit_val CHR '':'' = 36" "digit_val CHR ''.'' = 36"
  "digit_val CHR ''x'' = 33" "digit_val CHR ''X'' = 33" "digit_val CHR ''0'' = 0"
  by code_simp+

definition digits_value :: "nat \<Rightarrow> string \<Rightarrow> nat" where
  "digits_value b s = foldl (\<lambda>v c. v * b + digit_val c) 0 s"

definition all_digits :: "nat \<Rightarrow> string \<Rightarrow> bool" where
  "all_digits b s \<longleftrightarrow> (\<forall>c\<in>set s. digit_val c < b)"

lemma digits_append:
  "all_digits b s \<Longrightarrow> r = [] \<or> b \<le> digit_val (hd r) \<Longrightarrow> digits b v (s @ r) = (foldl (\<lambda>v c. v * b + digit_val c) v s, r)"
  by (induction s arbitrary: v) (cases r; auto simp: all_digits_def)+

lemma all_digits_append [simp]: "all_digits b (s @ t) \<longleftrightarrow> all_digits b s \<and> all_digits b t"
  by (auto simp: all_digits_def)

lemma show_base_ok:
  assumes "2 \<le> b" and "b \<le> 16"
  shows "all_digits b (show_base b n) \<and> show_base b n \<noteq> [] \<and> digits_value b (show_base b n) = n"
  using assms
proof (induction b n rule: show_base.induct)
  case (1 b n)
  show ?case
  proof (cases "n < b")
    case True
    then show ?thesis using 1 by (simp add: show_base.simps [of b n] all_digits_def digits_value_def)
  next
    case False
    with 1 have "all_digits b (show_base b (n div b))" "digits_value b (show_base b (n div b)) = n div b" by simp_all
    moreover have "n mod b < b" "digit_val (digit_char (n mod b)) = n mod b"
      using 1 less_le_trans [of "n mod b" b 16] by simp_all
    ultimately show ?thesis using False 1(2,3)
      by (simp add: show_base.simps [of b n] all_digits_def digits_value_def)
  qed
qed

lemmas show_base_digits [simp] = show_base_ok [THEN conjunct1] show_base_ok [THEN conjunct2, THEN conjunct1]
  show_base_ok [THEN conjunct2, THEN conjunct2]

lemma show_base_hd: "2 \<le> b \<Longrightarrow> b \<le> 16 \<Longrightarrow> 0 < n \<Longrightarrow> digit_val (hd (show_base b n)) \<noteq> 0"
proof (induction b n rule: show_base.induct)
  case (1 b n)
  show ?case
  proof (cases "n < b")
    case True
    then show ?thesis using 1 by (simp add: show_base.simps [of b n])
  next
    case False
    then have "0 < n div b" using 1 by (simp add: div_greater_zero_iff)
    with False 1 have "digit_val (hd (show_base b (n div b))) \<noteq> 0" by simp
    then show ?thesis using False 1(2,3) by (simp add: show_base.simps [of b n])
  qed
qed

lemma show_pad_digits [simp]:
  assumes "2 \<le> b" and "b \<le> 16"
  shows "all_digits b (show_pad b w n)" "show_pad b w n \<noteq> []" "digits_value b (show_pad b w n) = n"
proof -
  have "digits_value b (replicate k CHR ''0'' @ s) = digits_value b s" for k s
    by (induction k) (simp_all add: digits_value_def)
  then show "digits_value b (show_pad b w n) = n" using assms by (simp add: show_pad_def)
qed (use assms in \<open>simp_all add: show_pad_def all_digits_def [of b "replicate _ _"]\<close>)

lemma digits_start:
  assumes "all_digits b s" and "s \<noteq> []" and "b \<le> 36"
  shows "dropWhile isspace (s @ r) = s @ r" "strip_sign (s @ r) = (False, s @ r)"
  using assms digit_not_special [of "hd s"] by (cases s; auto simp: all_digits_def strip_sign_def)+

lemma no_hex_prefix:
  assumes "all_digits b s" and "s \<noteq> []" and "b \<le> 16" and "r = [] \<or> 33 < digit_val (hd r)"
  shows "\<not> hex_prefix (s @ r)"
  using assms by (cases s; cases "tl s"; cases r) (auto simp: all_digits_def hex_prefix_def split: list.splits)

lemma strtoul_digits:
  assumes "all_digits b s" and "s \<noteq> []" and "r = [] \<or> 33 < digit_val (hd r)" and "digits_value b s < 2 ^ 64"
    and "b = 16 \<and> base = 16 \<or> b = 10 \<and> base = 0 \<and> hd s \<noteq> CHR ''0''"
  shows "strtoul base (s @ r) = (of_nat (digits_value b s), False, r)"
proof -
  have b: "b \<le> 16" using assms(5) by auto
  have d: "detect_base base (s @ r) = (b, s @ r)"
    using no_hex_prefix [OF assms(1,2) b assms(3)] assms(2,5) by (auto simp: detect_base_def)
  have h: "digit_val (hd (s @ r)) < b" using assms(1,2) by (cases s) (auto simp: all_digits_def)
  have "digits b 0 (s @ r) = (digits_value b s, r)"
    using digits_append [OF assms(1), of r 0] assms(3) b by (auto simp: digits_value_def)
  then show ?thesis using assms(2,4) h by (simp add: strtoul_def digits_start [OF assms(1,2)] order_trans [OF b] d del: hd_append2 dropWhile_append)
qed

subsection \<open>Trimming\<close>

definition rtrim :: "string \<Rightarrow> string" where
  "rtrim t = rev (dropWhile isspace (rev t))"

lemma rtrim_snoc: "rtrim (t @ [c]) = (if isspace c then rtrim t else t @ [c])"
  by (simp add: rtrim_def)

lemma length_rtrim: "length (rtrim t) \<le> length t"
  using length_dropWhile_le [of isspace "rev t"] by (simp add: rtrim_def)

lemma set_rtrim: "set (rtrim t) \<subseteq> set t"
  using set_dropWhileD by (fastforce simp: rtrim_def)

lemma cstr_append_NUL: "NUL \<notin> set t \<Longrightarrow> cstr (t @ NUL # r) = t"
  unfolding cstr_def by (subst takeWhile_append2) auto

lemma buffer_split: "NUL \<in> set b \<Longrightarrow> \<exists>r. b = cstr b @ NUL # r \<and> NUL \<notin> set (cstr b)"
  using split_list_first [of NUL b] cstr_append_NUL by fastforce

lemma trim_head_app:
  assumes "NUL \<notin> set t" and "p = length h"
  shows "trim_head (h @ t @ NUL # r) p = Inr (p + length (takeWhile isspace t))"
  using assms
proof (induction t arbitrary: h p)
  case Nil
  then show ?case by (simp add: trim_head.simps nth_append)
next
  case (Cons c t)
  from Cons.IH [of "Suc p" "h @ [c]"] Cons.prems have "isspace c \<Longrightarrow> trim_head (h @ (c # t) @ NUL # r) (Suc p) = Inr (p + length (takeWhile isspace (c # t)))"
    by simp
  then show ?case using Cons.prems by (subst trim_head.simps) (auto simp: nth_append)
qed

lemma c_strlen_app:
  assumes "NUL \<notin> set t" and "p = length h"
  shows "c_strlen (h @ t @ NUL # r) p = Inr (length t)"
  using assms
proof (induction t arbitrary: h p)
  case Nil
  then show ?case by (simp add: c_strlen.simps nth_append)
next
  case (Cons c t)
  from Cons.IH [of "Suc p" "h @ [c]"] Cons.prems have "c_strlen (h @ (c # t) @ NUL # r) (Suc p) = Inr (length t)" by simp
  then show ?case using Cons.prems by (subst c_strlen.simps) (auto simp: nth_append)
qed

lemma trim_tail_app:
  "p = length h \<Longrightarrow> trim_tail (h @ t @ r) p (p + length t) = Inr (h @ rtrim t @ replicate (length t - length (rtrim t)) NUL @ r)"
proof (induction t arbitrary: r rule: rev_induct)
  case Nil
  show ?case by (cases p) (simp_all add: rtrim_def)
next
  case (snoc c t)
  have at: "(h @ (t @ [c]) @ r) ! (p + length t) = c" "(h @ (t @ [c]) @ r)[p + length t := NUL] = h @ t @ NUL # r"
    using snoc.prems by (simp_all add: nth_append list_update_append)
  show ?case
  proof (cases "isspace c")
    case True
    have "trim_tail (h @ (t @ [c]) @ r) p (p + length (t @ [c])) = trim_tail (h @ t @ NUL # r) p (p + length t)"
      using at True snoc.prems by (simp add: rd_def wr_def)
    also have "\<dots> = Inr (h @ rtrim t @ replicate (length t - length (rtrim t)) NUL @ NUL # r)" by (rule snoc.IH [OF snoc.prems])
    finally show ?thesis using True length_rtrim [of t]
      by (simp add: rtrim_snoc Suc_diff_le replicate_app_Cons_same)
  next
    case False
    then show ?thesis using at snoc.prems by (simp add: rd_def rtrim_snoc)
  qed
qed

lemma move_down_app:
  assumes "NUL \<notin> set t" and "q = length x" and "p = length x + length y" and "y \<noteq> []"
  shows "\<exists>z. move_down (x @ y @ t @ NUL # r) q p = Inr (x @ t @ NUL # z) \<and> length (x @ t @ NUL # z) = length (x @ y @ t @ NUL # r)"
  using assms
proof (induction t arbitrary: x y q p)
  case Nil
  then obtain c ys where y: "y = c # ys" by (cases y) auto
  then show ?case using Nil by (intro exI [of _ "ys @ NUL # r"]) (simp add: move_down.simps wr_def nth_append list_update_append)
next
  case (Cons c t)
  then obtain d ys where y: "y = d # ys" by (cases y) auto
  let ?b = "x @ y @ (c # t) @ NUL # r" and ?b' = "(x @ [c]) @ (ys @ [c]) @ t @ NUL # r"
  have "?b ! p = c" using Cons.prems by (simp add: nth_append)
  moreover have "wr ?b q c = Inr ?b'" using Cons.prems y by (simp add: wr_def list_update_append)
  ultimately have e: "move_down ?b q p = move_down ?b' (Suc q) (Suc p)"
    using Cons.prems by (subst move_down.simps) auto
  from Cons.IH [of "Suc q" "x @ [c]" "Suc p" "ys @ [c]"] Cons.prems y
  obtain z where "move_down ?b' (Suc q) (Suc p) = Inr ((x @ [c]) @ t @ NUL # z)"
    "length ((x @ [c]) @ t @ NUL # z) = length ?b'" by auto
  then show ?case using e y by (intro exI [of _ z]) simp
qed

text \<open>Trimming a terminated string in place removes the white space at both ends, within the buffer.\<close>

lemma str_trim_spec:
  assumes "NUL \<in> set b"
  shows "\<exists>b'. nvme_str_trim b = Inr b' \<and> length b' = length b \<and> cstr b' = rtrim (dropWhile isspace (cstr b))"
proof -
  from buffer_split [OF assms] obtain r where b: "b = cstr b @ NUL # r" and n: "NUL \<notin> set (cstr b)" by blast
  define h where "h = takeWhile isspace (cstr b)"
  define t where "t = dropWhile isspace (cstr b)"
  have ht: "cstr b = h @ t" by (simp add: h_def t_def)
  with n have nt: "NUL \<notin> set t" "NUL \<notin> set (rtrim t)" using set_rtrim [of t] by auto
  have bb: "b = h @ t @ NUL # r" using b ht by simp
  let ?b1 = "h @ rtrim t @ replicate (length t - length (rtrim t)) NUL @ NUL # r"
  obtain r' where b1: "?b1 = h @ rtrim t @ NUL # r'" "length ?b1 = length b"
    using length_rtrim [of t] bb by (cases "length t - length (rtrim t)") auto
  have 1: "trim_head b 0 = Inr (length h)" using trim_head_app [OF n, of 0 "[]" r] b by (simp add: h_def)
  have 2: "c_strlen b (length h) = Inr (length t)" using c_strlen_app [OF nt(1) refl, of h r] bb by simp
  have 3: "trim_tail b (length h) (length h + length t) = Inr ?b1" using trim_tail_app [OF refl, of h t "NUL # r"] bb by simp
  show ?thesis
  proof (cases "h = []")
    case True
    then show ?thesis using 1 2 3 b1 cstr_append_NUL [OF nt(2)] by (simp add: nvme_str_trim_def t_def)
  next
    case False
    from move_down_app [OF nt(2), of 0 "[]" "length h" h r'] False obtain z where
      "move_down ?b1 0 (length h) = Inr (rtrim t @ NUL # z)" "length (rtrim t @ NUL # z) = length ?b1" using b1(1) by auto
    then show ?thesis using 1 2 3 False b1(2) cstr_append_NUL [OF nt(2)] by (simp add: nvme_str_trim_def t_def)
  qed
qed

subsection \<open>Sizes and values in files\<close>

lemma show_base_length: "2 \<le> b \<Longrightarrow> n < b ^ Suc k \<Longrightarrow> length (show_base b n) \<le> Suc k"
proof (induction b n arbitrary: k rule: show_base.induct)
  case (1 b n)
  show ?case
  proof (cases "n < b")
    case True
    then show ?thesis by (simp add: show_base.simps [of b n])
  next
    case False
    then obtain j where k: "k = Suc j" using 1 by (cases k) auto
    have "n div b < b ^ Suc j" using 1 k by (simp add: less_mult_imp_div_less ac_simps)
    with 1 False have "length (show_base b (n div b)) \<le> Suc j" by simp
    then show ?thesis using k 1(2) False by (simp add: show_base.simps [of b n])
  qed
qed

lemma newline_not_NUL [simp]: "CHR 0x0A \<noteq> NUL"
  by code_simp

lemma show_10_hd: "0 < n \<Longrightarrow> hd (show_base 10 n) \<noteq> CHR ''0''"
proof
  assume "0 < n" "hd (show_base 10 n) = CHR ''0''"
  with show_base_hd [of 10 n] show False by simp
qed

lemma fgets_line: "CHR 0x0A \<notin> set t \<Longrightarrow> length t + 2 \<le> n \<Longrightarrow> fgets n (t @ CHR 0x0A # r) = Some (t @ [CHR 0x0A], r)"
proof -
  assume nl: "CHR 0x0A \<notin> set t" and n: "length t + 2 \<le> n"
  have "takeWhile (\<lambda>c. c \<noteq> CHR 0x0A) (t @ CHR 0x0A # r) = t" using nl by (subst takeWhile_append2) auto
  moreover have "min (n - 1) (Suc (length t)) = Suc (length t)" using n by simp
  ultimately show ?thesis by (simp add: fgets_def)
qed

text \<open>A printed number in a file of \<^verbatim>\<open>/sys\<close> is read back.\<close>

lemma parse_sysfs_number:
  assumes "0 < n" and "n < 2 ^ 64"
  shows "nvme_parse_sysfs_value (Some (show_base 10 n @ CHR 0x0A # rest)) = (0, Some (of_nat n))"
proof -
  let ?s = "show_base 10 n"
  have d: "all_digits 10 ?s" by simp
  have "NUL \<notin> set ?s" "CHR 0x0A \<notin> set ?s" using d digit_not_special(6,7) by (force simp: all_digits_def)+
  moreover have "length ?s \<le> Suc 19" by (rule show_base_length) (use assms in simp_all)
  ultimately have "fgets BUFSIZ (?s @ CHR 0x0A # rest) = Some (?s @ [CHR 0x0A], rest)" "cstr (?s @ [CHR 0x0A]) = ?s @ [CHR 0x0A]"
    using fgets_line [of ?s BUFSIZ rest] by (auto simp: BUFSIZ_def cstr_def takeWhile_eq_all_conv)
  moreover have "strtoul 0 (?s @ [CHR 0x0A]) = (of_nat n, False, [CHR 0x0A])"
    using strtoul_digits [of 10 ?s "[CHR 0x0A]" 0] show_10_hd [of n] assms by auto
  ultimately show ?thesis by (simp add: nvme_parse_sysfs_value_def)
qed

text \<open>A printed number with a unit, as in \<^verbatim>\<open>/proc/meminfo\<close>, is the product of both, in 64 bits.\<close>

lemma str2size_unit:
  assumes "0 < n" and "n < 2 ^ 64" and "u = [] \<or> 33 < digit_val (hd u)"
  shows "nvme_str2size (replicate k CHR '' '' @ show_base 10 n @ u)
    = of_nat n * unit_factor (if u \<noteq> [] \<and> hd u = CHR '' '' then tl u else u)"
proof -
  let ?s = "show_base 10 n"
  have d: "all_digits 10 ?s" "?s \<noteq> []" by simp_all
  have sp: "dropWhile isspace (replicate k CHR '' '' @ t) = dropWhile isspace t" for t
    by (induction k) (simp_all add: isspace_def)
  have "hd (?s @ u) \<noteq> CHR ''-''" using d digit_not_special(2) [of "hd ?s"] by (cases ?s) (auto simp: all_digits_def)
  moreover have "strtoul 0 (?s @ u) = (of_nat n, False, u)"
    using strtoul_digits [of 10 ?s u 0] show_10_hd [of n] assms by auto
  ultimately show ?thesis
    by (simp only: nvme_str2size_def sp digits_start(1) [OF d] Let_def) simp
qed

end
