(* ===== verification/Nvme_Pci.thy ===== *)
theory Nvme_Pci
  imports Nvme_Text Nvme_Quirks
begin

text \<open>
  PCI devices (\<^verbatim>\<open>lib/common/nvme_pci.c\<close>, \<^verbatim>\<open>nvme_pci.h\<close>) and their names (\<^verbatim>\<open>nvme_pci_ctrlr_probe\<close> of
  \<^verbatim>\<open>lib/nvme/nvme.c\<close>). The PCI access library and the files of \<^verbatim>\<open>/sys\<close> are a parameter: the device that matches a
  slot, what probing it returns, the length of the link to its driver, the content of its configuration space
  (\<open>None\<close> when a read fails), and what opening and writing its reset file return.
\<close>

subsection \<open>Definitions: slot names\<close>

definition PCI_MATCH_ANY :: u32 where "PCI_MATCH_ANY = 0xffffffff"

record pci_slot_match =
  slot_domain :: u32
  slot_bus :: u32
  slot_dev :: u32
  slot_func :: u32

text \<open>The parts of a string before and after the last occurrence of a character.\<close>

definition strrchr :: "char \<Rightarrow> string \<Rightarrow> (string \<times> string) option" where
  "strrchr c s =
     (if c \<in> set s then Some (rev (tl (dropWhile (\<lambda>x. x \<noteq> c) (rev s))), rev (takeWhile (\<lambda>x. x \<noteq> c) (rev s))) else None)"

definition slot_number :: "string \<Rightarrow> u32 \<Rightarrow> u32 option" where
  "slot_number s limit =
     (case strtoul 16 s of (v, _, end) \<Rightarrow> if end \<noteq> [] \<or> ucast v > limit then None else Some (ucast v))"

text \<open>The name is cut at its last point, then at the last colon and at the last colon of the rest.\<close>

definition slot_parts :: "string \<Rightarrow> string option \<times> string \<times> string option \<times> string option" where
  "slot_parts slot_name =
     (let (pciid, func) = (case strrchr CHR ''.'' slot_name of Some (a, b) \<Rightarrow> (a, Some b) | None \<Rightarrow> (slot_name, None));
          (pciid, dev) = (case strrchr CHR '':'' pciid of Some (a, b) \<Rightarrow> (a, Some b) | None \<Rightarrow> (pciid, None));
          (domain, bus) = (case strrchr CHR '':'' pciid of Some (a, b) \<Rightarrow> (Some a, b) | None \<Rightarrow> (None, pciid))
      in (domain, bus, dev, func))"

definition pci_slot_of :: "string \<Rightarrow> pci_slot_match option" where
  "pci_slot_of slot_name =
     (case slot_parts slot_name of
        (domain, bus, Some dev, Some func) \<Rightarrow>
          (case (case domain of Some d \<Rightarrow> slot_number d 0xffff | None \<Rightarrow> Some PCI_MATCH_ANY) of
             None \<Rightarrow> None
           | Some dn \<Rightarrow>
               (case slot_number bus 0xff of
                  None \<Rightarrow> None
                | Some bn \<Rightarrow>
                    (case slot_number dev 0x1f of
                       None \<Rightarrow> None
                     | Some vn \<Rightarrow>
                         (case slot_number func 7 of
                            None \<Rightarrow> None
                          | Some fn \<Rightarrow> Some \<lparr>slot_domain = dn, slot_bus = bn, slot_dev = vn, slot_func = fn\<rparr>))))
      | _ \<Rightarrow> None)"

subsection \<open>Definitions: devices\<close>

definition NVME_PCI_CLASS :: u32 where "NVME_PCI_CLASS = 0x010802"
definition NVME_PCI_PATH_MAX :: int where "NVME_PCI_PATH_MAX = 256"
definition NVME_PCI_CFG_SIZE :: u32 where "NVME_PCI_CFG_SIZE = 256"
definition NVME_PCI_EXT_CAP_ID_SN :: u32 where "NVME_PCI_EXT_CAP_ID_SN = 0x03"

record pci_env =
  pci_sys_init :: int
  pci_next :: "pci_slot_match \<Rightarrow> pci_device option"
  pci_probe :: "pci_device \<Rightarrow> int"
  fs_readlink :: "string \<Rightarrow> int"
  fs_write :: "string \<Rightarrow> nat option"

definition nvme_pci_init :: "pci_env \<Rightarrow> int" where
  "nvme_pci_init pe = (if pci_sys_init pe \<noteq> 0 then pci_sys_init pe else 0)"

definition nvme_pci_dev_cmp :: "'a pci_device_scheme \<Rightarrow> 'b pci_device_scheme \<Rightarrow> int" where
  "nvme_pci_dev_cmp d e =
     (if pci_domain d = pci_domain e \<and> pci_bus d = pci_bus e \<and> pci_dev d = pci_dev e \<and> pci_func d = pci_func e then 0 else 1)"

definition nvme_pci_get_pci_id :: "'a pci_device_scheme \<Rightarrow> pci_id" where
  "nvme_pci_get_pci_id d = pci_id_of (vendor_id d) (device_id d) (subvendor_id d) (subdevice_id d)"

text \<open>\<^verbatim>\<open>%04x:%02x:%02x.%1u\<close>, the name of a device in \<^verbatim>\<open>/sys\<close>.\<close>

definition sysfs_name :: "u32 \<Rightarrow> u32 \<Rightarrow> u32 \<Rightarrow> u32 \<Rightarrow> string" where
  "sysfs_name domain bus dev func =
     show_pad 16 4 (unat domain) @ '':'' @ show_pad 16 2 (unat bus) @ '':'' @ show_pad 16 2 (unat dev) @ ''.'' @ show_pad 10 1 (unat func)"

definition sysfs_path :: "pci_device \<Rightarrow> string \<Rightarrow> string" where
  "sysfs_path d file = ''/sys/bus/pci/devices/'' @ sysfs_name (pci_domain d) (pci_bus d) (pci_dev d) (pci_func d) @ ''/'' @ file"

definition nvme_pci_device_has_kernel_driver :: "pci_env \<Rightarrow> pci_device option \<Rightarrow> bool res" where
  "nvme_pci_device_has_kernel_driver pe d =
     (case d of
        None \<Rightarrow> Inl BadAccess
      | Some d \<Rightarrow>
          let driver_len = fs_readlink pe (sysfs_path d ''driver'')
          in Inr (\<not> (driver_len \<le> 0 \<or> driver_len \<ge> NVME_PCI_PATH_MAX)))"

definition nvme_pci_device_probe :: "pci_env \<Rightarrow> pci_slot_match \<Rightarrow> pci_device option res" where
  "nvme_pci_device_probe pe slot =
     (let d = pci_next pe slot; ret = (case d of Some x \<Rightarrow> pci_probe pe x | None \<Rightarrow> - ENODEV)
      in if ret \<noteq> 0 then Inr None
         else case d of
           None \<Rightarrow> Inl BadAccess
         | Some x \<Rightarrow>
             let d = (if device_class x \<noteq> NVME_PCI_CLASS then None else Some x)
             in rbind (nvme_pci_device_has_kernel_driver pe d) (\<lambda>bound. Inr (if bound then None else d)))"

definition nvme_pci_ctrlr_probe :: "pci_env \<Rightarrow> string \<Rightarrow> pci_device option res" where
  "nvme_pci_ctrlr_probe pe slot_name =
     (case pci_slot_of slot_name of None \<Rightarrow> Inr None | Some slot \<Rightarrow> nvme_pci_device_probe pe slot)"

definition nvme_pci_device_reset :: "pci_env \<Rightarrow> pci_device \<Rightarrow> int" where
  "nvme_pci_device_reset pe d =
     (case fs_write pe (sysfs_path d ''reset'') of None \<Rightarrow> -1 | Some n \<Rightarrow> if n \<noteq> length ''1'' then -1 else 0)"

text \<open>
  The walk along the list of extended capabilities; \<open>fuel\<close> bounds its rounds. The arguments are the header read last and
  its position.
\<close>

fun sn_walk :: "nat \<Rightarrow> (u32 \<Rightarrow> u32 option) \<Rightarrow> u32 \<Rightarrow> u32 \<Rightarrow> (int \<times> string) res" where
  "sn_walk 0 cfg header pos = Inl OutOfFuel"
| "sn_walk (Suc fuel) cfg header pos =
     (if header AND 0x0000ffff = NVME_PCI_EXT_CAP_ID_SN \<and> pos \<noteq> 0
      then case cfg (pos + 4) of
             None \<Rightarrow> Inr (-1, [])
           | Some buf0 \<Rightarrow>
               (case cfg (pos + 8) of
                  None \<Rightarrow> Inr (-1, [])
                | Some buf1 \<Rightarrow> Inr (0, show_pad 16 8 (unat buf1) @ show_pad 16 8 (unat buf0)))
      else
        let pos = drop_bit 20 header AND 0xffc
        in if pos < NVME_PCI_CFG_SIZE then Inr (-1, [])
           else case cfg pos of None \<Rightarrow> Inr (-1, []) | Some header \<Rightarrow> sn_walk fuel cfg header pos)"

definition nvme_pci_device_get_serial_number :: "nat \<Rightarrow> (u32 \<Rightarrow> u32 option) \<Rightarrow> nat \<Rightarrow> (int \<times> string) res" where
  "nvme_pci_device_get_serial_number fuel cfg len =
     (if len < 17 then Inr (-1, [])
      else case cfg NVME_PCI_CFG_SIZE of
             None \<Rightarrow> Inr (-1, [])
           | Some header \<Rightarrow> if header = 0 then Inr (-1, []) else sn_walk fuel cfg header NVME_PCI_CFG_SIZE)"

subsection \<open>Slot names\<close>

lemma strrchr_last: "c \<notin> set t \<Longrightarrow> strrchr c (s @ c # t) = Some (s, t)"
proof -
  assume c: "c \<notin> set t"
  then have "takeWhile (\<lambda>x. x \<noteq> c) (rev t @ c # rev s) = rev t" by (subst takeWhile_append2) auto
  moreover have "dropWhile (\<lambda>x. x \<noteq> c) (rev t @ c # rev s) = c # rev s" using c by (subst dropWhile_append2) auto
  ultimately show ?thesis by (simp add: strrchr_def)
qed

lemma strrchr_none: "c \<notin> set s \<Longrightarrow> strrchr c s = None"
  by (simp add: strrchr_def)

lemma digits_no_sep: "all_digits b s \<Longrightarrow> b \<le> 16 \<Longrightarrow> CHR '':'' \<notin> set s \<and> CHR ''.'' \<notin> set s"
  using digit_not_special(4,5) by (fastforce simp: all_digits_def)

lemma slot_number_digits:
  assumes "all_digits 16 s" and "s \<noteq> []" and "digits_value 16 s \<le> unat limit"
  shows "slot_number s limit = Some (of_nat (digits_value 16 s))"
proof -
  have l: "unat limit < 2 ^ 32" using unsigned_less [of limit] by simp
  have "strtoul 16 s = (of_nat (digits_value 16 s), False, [])" using strtoul_digits [of 16 s "[]" 16] assms l by simp
  moreover have "ucast (of_nat (digits_value 16 s) :: u64) = (of_nat (digits_value 16 s) :: u32)"
    using assms(3) l by (simp add: unsigned_of_nat take_bit_nat_eq_self)
  moreover have "\<not> limit < (of_nat (digits_value 16 s) :: u32)"
    using assms(3) l by (simp add: word_less_nat_alt unat_of_nat_small)
  ultimately show ?thesis by (simp add: slot_number_def)
qed

lemma slot_parts_name:
  assumes "all_digits 16 b" and "all_digits 16 v" and "all_digits 16 f" and "\<And>d. domain = Some d \<Longrightarrow> all_digits 16 d"
  shows "slot_parts ((case domain of Some d \<Rightarrow> d @ '':'' | None \<Rightarrow> []) @ b @ '':'' @ v @ ''.'' @ f) = (domain, b, Some v, Some f)"
proof -
  let ?h = "case domain of Some d \<Rightarrow> d @ '':'' | None \<Rightarrow> []"
  have 1: "strrchr CHR ''.'' (?h @ b @ '':'' @ v @ ''.'' @ f) = Some (?h @ b @ '':'' @ v, f)"
    using strrchr_last [of "CHR ''.''" f "?h @ b @ '':'' @ v"] digits_no_sep [OF assms(3)] by simp
  have 2: "strrchr CHR '':'' (?h @ b @ '':'' @ v) = Some (?h @ b, v)"
    using strrchr_last [of "CHR '':''" v "?h @ b"] digits_no_sep [OF assms(2)] by simp
  have 3: "strrchr CHR '':'' (?h @ b) = map_option (\<lambda>d. (d, b)) domain"
    using strrchr_last [of "CHR '':''" b] strrchr_none [of "CHR '':''" b] digits_no_sep [OF assms(1)] by (cases domain) simp_all
  show ?thesis unfolding slot_parts_def 1 option.case prod.case Let_def 2 3 by (cases domain) simp_all
qed

lemma func_digit: "func \<le> 7 \<Longrightarrow> show_pad 10 1 (unat func) = [digit_char (unat func)]" for func :: u32
  by (simp add: show_pad_def show_base.simps word_le_nat_alt)

lemma slot_of_printed:
  fixes bus dev func :: u32
  assumes "bus \<le> 0xff" and "dev \<le> 0x1f" and "func \<le> 7" and "\<And>d. domain = Some d \<Longrightarrow> d \<le> (0xffff :: u32)"
  shows "pci_slot_of ((case domain of Some d \<Rightarrow> show_pad 16 4 (unat d) @ '':'' | None \<Rightarrow> [])
       @ show_pad 16 2 (unat bus) @ '':'' @ show_pad 16 2 (unat dev) @ ''.'' @ show_pad 10 1 (unat func))
    = Some \<lparr>slot_domain = (case domain of Some d \<Rightarrow> d | None \<Rightarrow> PCI_MATCH_ANY), slot_bus = bus, slot_dev = dev, slot_func = func\<rparr>"
proof -
  have f: "unat func < 16" "digit_val (digit_char (unat func)) = unat func" using assms(3) by (simp_all add: word_le_nat_alt)
  have parts: "slot_parts ((case map_option (\<lambda>d. show_pad 16 4 (unat d)) domain of Some d \<Rightarrow> d @ '':'' | None \<Rightarrow> [])
       @ show_pad 16 2 (unat bus) @ '':'' @ show_pad 16 2 (unat dev) @ ''.'' @ [digit_char (unat func)])
    = (map_option (\<lambda>d. show_pad 16 4 (unat d)) domain, show_pad 16 2 (unat bus), Some (show_pad 16 2 (unat dev)), Some [digit_char (unat func)])"
    by (rule slot_parts_name) (use f in \<open>auto simp: all_digits_def [of _ "[_]"]\<close>)
  have num: "slot_number (show_pad 16 w (unat x)) limit = Some x" if "x \<le> limit" for w and x limit :: u32
    using slot_number_digits [of "show_pad 16 w (unat x)" limit] that by (simp add: word_le_nat_alt)
  have fn: "slot_number [digit_char (unat func)] 7 = Some func"
    using slot_number_digits [of "[digit_char (unat func)]" 7] f assms(3)
    by (simp add: all_digits_def digits_value_def word_le_nat_alt)
  show ?thesis unfolding func_digit [OF assms(3)]
    using parts num [OF assms(1)] num [OF assms(2)] num [OF assms(4)] fn by (cases domain) (simp_all add: pci_slot_of_def)
qed

lemma slot_number_limit: "slot_number s limit = Some v \<Longrightarrow> v \<le> limit"
  by (auto simp: slot_number_def not_less split: prod.splits if_splits)

text \<open>
  C37. The printed name of a device, with or without its domain, is read back: probing by name probes exactly the slot with
  these numbers. Whatever the name is, the numbers of the slot that is probed are in the ranges of PCI addresses.
\<close>

theorem slot_name_roundtrip:
  fixes bus dev func :: u32
  assumes "bus \<le> 0xff" and "dev \<le> 0x1f" and "func \<le> 7" and "d \<le> 0xffff"
  shows "nvme_pci_ctrlr_probe pe (sysfs_name d bus dev func)
      = nvme_pci_device_probe pe \<lparr>slot_domain = d, slot_bus = bus, slot_dev = dev, slot_func = func\<rparr>
    \<and> nvme_pci_ctrlr_probe pe (drop 5 (sysfs_name d bus dev func))
      = nvme_pci_device_probe pe \<lparr>slot_domain = PCI_MATCH_ANY, slot_bus = bus, slot_dev = dev, slot_func = func\<rparr>
    \<and> (\<forall>name s. pci_slot_of name = Some s \<longrightarrow> (slot_domain s \<le> 0xffff \<or> slot_domain s = PCI_MATCH_ANY)
        \<and> slot_bus s \<le> 0xff \<and> slot_dev s \<le> 0x1f \<and> slot_func s \<le> 7)"
proof (intro conjI allI impI)
  have l: "length (show_pad 16 4 (unat d)) = 4"
    using show_base_length [of 16 "unat d" 3] assms(4) by (simp add: show_pad_def word_le_nat_alt)
  show "nvme_pci_ctrlr_probe pe (sysfs_name d bus dev func)
      = nvme_pci_device_probe pe \<lparr>slot_domain = d, slot_bus = bus, slot_dev = dev, slot_func = func\<rparr>"
    using slot_of_printed [OF assms(1-3), of "Some d"] assms(4) by (simp add: nvme_pci_ctrlr_probe_def sysfs_name_def)
  show "nvme_pci_ctrlr_probe pe (drop 5 (sysfs_name d bus dev func))
      = nvme_pci_device_probe pe \<lparr>slot_domain = PCI_MATCH_ANY, slot_bus = bus, slot_dev = dev, slot_func = func\<rparr>"
    using slot_of_printed [OF assms(1-3), of None] l by (simp add: nvme_pci_ctrlr_probe_def sysfs_name_def)
next
  fix name s assume "pci_slot_of name = Some s"
  then show "slot_domain s \<le> 0xffff \<or> slot_domain s = PCI_MATCH_ANY" "slot_bus s \<le> 0xff" "slot_dev s \<le> 0x1f" "slot_func s \<le> 7"
    using slot_number_limit by (auto simp: pci_slot_of_def split: prod.splits option.splits)
qed

definition ex_pci :: pci_env where
  "ex_pci = \<lparr>pci_sys_init = 0,
     pci_next = (\<lambda>s. if slot_bus s = 0xb then Some \<lparr>vendor_id = 0x8086, device_id = 0x0953, subvendor_id = 0x8086, subdevice_id = 0x3702,
       device_class = NVME_PCI_CLASS, revision = 0, pci_domain = 0x1a, pci_bus = 0xb, pci_dev = 0x1f, pci_func = 3\<rparr> else None),
     pci_probe = (\<lambda>_. 0), fs_readlink = (\<lambda>_. -1), fs_write = (\<lambda>_. Some 1)\<rparr>"

theorem slot_name_roundtrip_witness:
  "sysfs_name 0x1a 0xb 0x1f 3 = ''001a:0b:1f.3''
   \<and> nvme_pci_ctrlr_probe ex_pci ''001a:0b:1f.3''
       = nvme_pci_device_probe ex_pci \<lparr>slot_domain = 0x1a, slot_bus = 0xb, slot_dev = 0x1f, slot_func = 3\<rparr>"
proof -
  have n: "sysfs_name 0x1a 0xb 0x1f 3 = ''001a:0b:1f.3''" by code_simp
  from slot_name_roundtrip [of "0xb" "0x1f" 3 "0x1a" ex_pci] n show ?thesis by simp
qed

text \<open>
  Parts that are empty are read as 0, and numbers are cut to 32 bits before their range is checked: the name \<^verbatim>\<open>:.\<close> is the
  slot 00:00.0, and the domain \<^verbatim>\<open>100000000\<close> is 0.
\<close>

lemma slot_empty_parts:
  "pci_slot_of '':.'' = Some \<lparr>slot_domain = PCI_MATCH_ANY, slot_bus = 0, slot_dev = 0, slot_func = 0\<rparr>"
  "pci_slot_of ''100000000:00:00.0'' = Some \<lparr>slot_domain = 0, slot_bus = 0, slot_dev = 0, slot_func = 0\<rparr>"
  by (simp_all add: pci_slot_of_def slot_parts_def strrchr_def slot_number_def strtoul_def strip_sign_def detect_base_def hex_prefix_def
      isspace_def digit_val_def)

text \<open>
  Probing a slot returns a device exactly when the first device of the slot can be probed, is an NVMe controller and is not bound
  to a kernel driver; a device of another class makes the call read through a null pointer.
\<close>

theorem device_probe_result:
  "(nvme_pci_device_probe pe slot = Inr (Some d) \<longleftrightarrow>
      pci_next pe slot = Some d \<and> pci_probe pe d = 0 \<and> device_class d = NVME_PCI_CLASS
      \<and> (fs_readlink pe (sysfs_path d ''driver'') \<le> 0 \<or> NVME_PCI_PATH_MAX \<le> fs_readlink pe (sysfs_path d ''driver'')))
    \<and> (nvme_pci_device_probe pe slot = Inl BadAccess \<longleftrightarrow>
        (\<exists>x. pci_next pe slot = Some x \<and> pci_probe pe x = 0 \<and> device_class x \<noteq> NVME_PCI_CLASS))"
proof (cases "pci_next pe slot")
  case None
  then show ?thesis by (simp add: nvme_pci_device_probe_def errno_defs)
next
  case (Some x)
  then show ?thesis
    by (auto simp: nvme_pci_device_probe_def nvme_pci_device_has_kernel_driver_def Let_def)
qed

subsection \<open>The serial number\<close>

definition next_cap :: "u32 \<Rightarrow> u32" where
  "next_cap header = drop_bit 20 header AND 0xffc"

definition is_sn_cap :: "u32 \<Rightarrow> bool" where
  "is_sn_cap header \<longleftrightarrow> header AND 0x0000ffff = NVME_PCI_EXT_CAP_ID_SN"

text \<open>The position of the \<open>k\<close>-th capability of the list that starts at \<open>p\<close>.\<close>

primrec cap_at :: "(u32 \<Rightarrow> u32 option) \<Rightarrow> u32 \<Rightarrow> nat \<Rightarrow> u32 option" where
  "cap_at cfg p 0 = Some p"
| "cap_at cfg p (Suc k) =
     (case cfg p of None \<Rightarrow> None | Some h \<Rightarrow> if next_cap h < NVME_PCI_CFG_SIZE then None else cap_at cfg (next_cap h) k)"

lemma sn_walk_found:
  assumes "cap_at cfg p k = Some q" and "cfg p = Some h" and "cfg q = Some g" and "is_sn_cap g" and "q \<noteq> 0" and "k < fuel"
    and "\<forall>j<k. \<exists>r x. cap_at cfg p j = Some r \<and> cfg r = Some x \<and> \<not> is_sn_cap x"
    and "cfg (q + 4) = Some lo" and "cfg (q + 8) = Some hi"
  shows "sn_walk fuel cfg h p = Inr (0, show_pad 16 8 (unat hi) @ show_pad 16 8 (unat lo))"
  using assms(1,2,6,7)
proof (induction k arbitrary: p h fuel)
  case 0
  then obtain n where "fuel = Suc n" by (cases fuel) auto
  then show ?case using 0 assms(3-5,8,9) by (simp add: is_sn_cap_def)
next
  case (Suc k)
  then obtain n where n: "fuel = Suc n" "k < n" by (cases fuel) auto
  have h: "\<not> is_sn_cap h" "\<not> next_cap h < NVME_PCI_CFG_SIZE" "cap_at cfg (next_cap h) k = Some q"
    using Suc.prems by (force split: if_splits)+
  have rest: "\<exists>r x. cap_at cfg (next_cap h) j = Some r \<and> cfg r = Some x \<and> \<not> is_sn_cap x" if "j < k" for j
    using Suc.prems(4) [rule_format, of "Suc j"] that Suc.prems(2) h(2) by simp
  obtain g' where g': "cfg (next_cap h) = Some g'"
    using rest [of 0] h(3) assms(3) by (cases k) auto
  from Suc.IH [OF h(3) g' n(2)] rest have "sn_walk n cfg g' (next_cap h) = Inr (0, show_pad 16 8 (unat hi) @ show_pad 16 8 (unat lo))"
    by blast
  then show ?case using n(1) h(1,2) g' by (simp add: is_sn_cap_def next_cap_def)
qed

text \<open>
  When the list of extended capabilities has a serial number capability, reading the serial number returns the two words that
  follow its first such header, the second first, as 16 hexadecimal digits.
\<close>

theorem serial_number_found:
  assumes "cap_at cfg NVME_PCI_CFG_SIZE k = Some q" and "cfg NVME_PCI_CFG_SIZE = Some h" and "h \<noteq> 0" and "cfg q = Some g"
    and "is_sn_cap g" and "q \<noteq> 0" and "k < fuel" and "17 \<le> len"
    and "\<forall>j<k. \<exists>r x. cap_at cfg NVME_PCI_CFG_SIZE j = Some r \<and> cfg r = Some x \<and> \<not> is_sn_cap x"
    and "cfg (q + 4) = Some lo" and "cfg (q + 8) = Some hi"
  shows "nvme_pci_device_get_serial_number fuel cfg len = Inr (0, show_pad 16 8 (unat hi) @ show_pad 16 8 (unat lo))
    \<and> length (show_pad 16 8 (unat hi) @ show_pad 16 8 (unat lo)) = 16"
proof
  show "nvme_pci_device_get_serial_number fuel cfg len = Inr (0, show_pad 16 8 (unat hi) @ show_pad 16 8 (unat lo))"
    using sn_walk_found [OF assms(1,2,4,5,6,7,9-11)] assms(2,3,8) by (simp add: nvme_pci_device_get_serial_number_def)
  have "length (show_pad 16 8 (unat w)) = 8" for w :: u32
    using show_base_length [of 16 "unat w" 7] unsigned_less [of w, where ?'a = nat] by (simp add: show_pad_def)
  then show "length (show_pad 16 8 (unat hi) @ show_pad 16 8 (unat lo)) = 16" by simp
qed

definition ex_cfg :: "u32 \<Rightarrow> u32 option" where
  "ex_cfg p = Some (if p = 0x100 then 0x15010001 else if p = 0x150 then 0x00010003 else if p = 0x154 then 0xdeadbeef else if p = 0x158 then 0x12 else 0)"

theorem serial_number_found_witness:
  "nvme_pci_device_get_serial_number 2 ex_cfg 17 = Inr (0, ''00000012deadbeef'')"
proof -
  have s: "show_pad 16 8 (unat (0x12 :: u32)) @ show_pad 16 8 (unat (0xdeadbeef :: u32)) = ''00000012deadbeef''"
    by (simp add: show_pad_def show_base.simps digit_char_def) (simp add: numeral_eq_Suc)
  have c: "cap_at ex_cfg NVME_PCI_CFG_SIZE 1 = Some 0x150" "is_sn_cap 0x00010003" "\<not> is_sn_cap 0x15010001"
    by (simp_all add: ex_cfg_def NVME_PCI_CFG_SIZE_def next_cap_def is_sn_cap_def NVME_PCI_EXT_CAP_ID_SN_def)
  have "\<exists>r x. cap_at ex_cfg NVME_PCI_CFG_SIZE j = Some r \<and> ex_cfg r = Some x \<and> \<not> is_sn_cap x" if "j < 1" for j :: nat
    using that c(3) by (simp add: ex_cfg_def NVME_PCI_CFG_SIZE_def)
  from serial_number_found [OF c(1) _ _ _ c(2), of "0x15010001" 2 17] this s show ?thesis
    by (simp add: ex_cfg_def NVME_PCI_CFG_SIZE_def)
qed

text \<open>A list that runs in a circle makes the walk run for ever; a list in ascending order ends within 3841 rounds.\<close>

lemma sn_walk_circle:
  assumes "cfg p = Some h" and "next_cap h = p" and "\<not> is_sn_cap h" and "NVME_PCI_CFG_SIZE \<le> p"
  shows "sn_walk fuel cfg h p = Inl OutOfFuel"
  using assms by (induction fuel) (simp_all add: next_cap_def is_sn_cap_def not_less [symmetric])

lemma next_cap_less: "unat (next_cap h) < 4096"
proof -
  have "next_cap h = (drop_bit 20 h AND 0xffc) AND mask 12" by (simp add: next_cap_def mask_eq_exp_minus_1 and.assoc)
  then have "unat (next_cap h) = unat (drop_bit 20 h AND 0xffc) mod 2 ^ 12" using unat_and_mask by metis
  then show ?thesis by simp
qed

lemma sn_walk_ascending:
  assumes "\<And>p h. cfg p = Some h \<Longrightarrow> NVME_PCI_CFG_SIZE \<le> next_cap h \<Longrightarrow> p < next_cap h"
    and "cfg p = Some h" and "4096 - unat p < fuel" and "unat p < 4096"
  shows "\<exists>r. sn_walk fuel cfg h p = Inr r"
  using assms(2-4)
proof (induction fuel arbitrary: p h)
  case (Suc fuel)
  show ?case
  proof (cases "is_sn_cap h \<and> p \<noteq> 0 \<or> next_cap h < NVME_PCI_CFG_SIZE \<or> cfg (next_cap h) = None")
    case True
    then show ?thesis by (auto simp: is_sn_cap_def next_cap_def Let_def split: option.splits)
  next
    case False
    then obtain g where g: "cfg (next_cap h) = Some g" by auto
    have "p < next_cap h" using assms(1) Suc.prems(1) False by (simp add: not_less)
    then have "4096 - unat (next_cap h) < fuel" using Suc.prems(2,3) next_cap_less [of h] by (simp add: word_less_nat_alt)
    from Suc.IH [OF g this next_cap_less] show ?thesis using False g by (auto simp: is_sn_cap_def next_cap_def)
  qed
qed simp

end
