(* ===== verification/Nvme_Cpu.thy ===== *)
theory Nvme_Cpu
  imports Nvme_Text
begin

text \<open>
  CPU detection (\<^verbatim>\<open>lib/common/nvme_cpu.c\<close>). The files of \<^verbatim>\<open>/sys\<close> are a parameter: which CPUs and nodes are present, and the
  content of the topology files of each CPU.
\<close>

subsection \<open>Definitions\<close>

definition NVME_CPU_MAX :: nat where "NVME_CPU_MAX = 64"
definition NVME_SOCKET_MAX :: nat where "NVME_SOCKET_MAX = 32"

record nvme_cpu =
  cpu_id :: u32
  cpu_socket :: u32
  cpu_core :: u32
  cpu_thread :: nat
  cpu_present :: bool

record nvme_cpu_info =
  nr_cpus :: nat
  cpui_cpu :: "nvme_cpu list"
  nr_sockets :: nat
  nr_cores :: nat

record sys_env =
  sys_present :: "nat \<Rightarrow> bool"
  sys_node :: "nat \<Rightarrow> bool"
  sys_package :: "nat \<Rightarrow> string option"
  sys_core :: "nat \<Rightarrow> string option"

definition nvme_cpu_present :: "sys_env \<Rightarrow> nat \<Rightarrow> bool" where
  "nvme_cpu_present se i = sys_present se i"

definition nvme_socket_count :: "sys_env \<Rightarrow> nat" where
  "nvme_socket_count se = length (takeWhile (sys_node se) [0..<NVME_SOCKET_MAX])"

definition sysfs_id :: "string option \<Rightarrow> u32" where
  "sysfs_id file = (case nvme_parse_sysfs_value file of (ret, v) \<Rightarrow> if ret \<noteq> 0 then 0 else case v of Some v \<Rightarrow> ucast v | None \<Rightarrow> 0)"

definition nvme_cpu_socket_id :: "sys_env \<Rightarrow> nat \<Rightarrow> u32" where
  "nvme_cpu_socket_id se i = sysfs_id (sys_package se i)"

definition nvme_cpu_core_id :: "sys_env \<Rightarrow> nat \<Rightarrow> u32" where
  "nvme_cpu_core_id se i = sysfs_id (sys_core se i)"

definition nvme_cpu_thread_id :: "nvme_cpu_info \<Rightarrow> nat \<Rightarrow> nat" where
  "nvme_cpu_thread_id cpui i =
     length (filter (\<lambda>j. cpu_socket (cpui_cpu cpui ! j) = cpu_socket (cpui_cpu cpui ! i)
                       \<and> cpu_core (cpui_cpu cpui ! j) = cpu_core (cpui_cpu cpui ! i)) [0..<nr_cpus cpui])"

definition upd_cpu :: "nat \<Rightarrow> (nvme_cpu \<Rightarrow> nvme_cpu) \<Rightarrow> nvme_cpu_info \<Rightarrow> nvme_cpu_info" where
  "upd_cpu i f cpui = cpui\<lparr>cpui_cpu := (cpui_cpu cpui)[i := f (cpui_cpu cpui ! i)]\<rparr>"

text \<open>One round of the loop of \<^verbatim>\<open>nvme_cpu_init\<close>.\<close>

definition cpu_round :: "sys_env \<Rightarrow> nat \<Rightarrow> nvme_cpu_info \<Rightarrow> nvme_cpu_info" where
  "cpu_round se i cpui =
     (let cpui = upd_cpu i (\<lambda>c. c\<lparr>cpu_id := -1, cpu_present := nvme_cpu_present se i\<rparr>) cpui
      in if \<not> nvme_cpu_present se i then cpui
         else
           let cpui = upd_cpu i (\<lambda>c. c\<lparr>cpu_id := of_nat i, cpu_socket := nvme_cpu_socket_id se i, cpu_core := nvme_cpu_core_id se i\<rparr>) cpui;
               t = nvme_cpu_thread_id cpui i;
               cpui = upd_cpu i (\<lambda>c. c\<lparr>cpu_thread := t\<rparr>) cpui;
               cpui = cpui\<lparr>nr_cpus := nr_cpus cpui + 1\<rparr>
           in if t = 0 then cpui\<lparr>nr_cores := nr_cores cpui + 1\<rparr> else cpui)"

definition cpu_zero :: nvme_cpu where
  "cpu_zero = \<lparr>cpu_id = 0, cpu_socket = 0, cpu_core = 0, cpu_thread = 0, cpu_present = False\<rparr>"

definition nvme_cpu_init :: "sys_env \<Rightarrow> int \<times> nvme_cpu_info" where
  "nvme_cpu_init se =
     (let cpui = \<lparr>nr_cpus = 0, cpui_cpu = replicate NVME_CPU_MAX cpu_zero, nr_sockets = nvme_socket_count se, nr_cores = 0\<rparr>
      in (0, fold (cpu_round se) [0..<NVME_CPU_MAX] cpui))"

text \<open>\<open>None\<close> is a null pointer; the argument is the result of \<^verbatim>\<open>sched_getcpu\<close>.\<close>

definition nvme_get_cpu :: "nvme_cpu_info \<Rightarrow> int \<Rightarrow> nvme_cpu option" where
  "nvme_get_cpu cpui cpu = (if cpu < 0 \<or> cpu \<ge> int (nr_cpus cpui) then None else Some (cpui_cpu cpui ! nat cpu))"

definition nvme_cpu_id :: "nvme_cpu_info \<Rightarrow> int \<Rightarrow> u32" where
  "nvme_cpu_id cpui cpu = (case nvme_get_cpu cpui cpu of Some c \<Rightarrow> cpu_id c | None \<Rightarrow> - 1)"

definition nvme_socket_id :: "nvme_cpu_info \<Rightarrow> int \<Rightarrow> u32" where
  "nvme_socket_id cpui cpu = (case nvme_get_cpu cpui cpu of Some c \<Rightarrow> cpu_socket c | None \<Rightarrow> - 1)"

subsection \<open>Counting threads and cores\<close>

text \<open>The place of a CPU: its socket and core.\<close>

definition place :: "sys_env \<Rightarrow> nat \<Rightarrow> u32 \<times> u32" where
  "place se i = (nvme_cpu_socket_id se i, nvme_cpu_core_id se i)"

definition siblings_before :: "sys_env \<Rightarrow> nat \<Rightarrow> nat" where
  "siblings_before se i = length (filter (\<lambda>j. place se j = place se i) [0..<i])"

definition cpu_of :: "sys_env \<Rightarrow> nat \<Rightarrow> nvme_cpu" where
  "cpu_of se i = \<lparr>cpu_id = of_nat i, cpu_socket = nvme_cpu_socket_id se i, cpu_core = nvme_cpu_core_id se i,
     cpu_thread = siblings_before se i, cpu_present = True\<rparr>"

text \<open>The information after the first \<open>k\<close> CPUs, all present.\<close>

definition cpus_upto :: "sys_env \<Rightarrow> nat \<Rightarrow> nvme_cpu_info \<Rightarrow> bool" where
  "cpus_upto se k cpui \<longleftrightarrow> length (cpui_cpu cpui) = NVME_CPU_MAX \<and> nr_cpus cpui = k \<and> (\<forall>i<k. cpui_cpu cpui ! i = cpu_of se i)
     \<and> nr_cores cpui = card (place se ` {..<k}) \<and> nr_sockets cpui = nvme_socket_count se"

lemma card_first_places:
  "card (place se ` {..<Suc k}) = card (place se ` {..<k}) + (if siblings_before se k = 0 then 1 else 0)"
proof -
  have "siblings_before se k = 0 \<longleftrightarrow> place se k \<notin> place se ` {..<k}"
    unfolding siblings_before_def length_0_conv filter_empty_conv by (auto simp: image_iff eq_commute [of "place se k"])
  then show ?thesis by (simp add: lessThan_Suc card_insert_if)
qed

lemma cpu_round_present:
  assumes "cpus_upto se k cpui" and "sys_present se k" and "k < NVME_CPU_MAX"
  shows "cpus_upto se (Suc k) (cpu_round se k cpui)"
proof -
  define c1 where "c1 = upd_cpu k (\<lambda>c. c\<lparr>cpu_id := of_nat k, cpu_socket := nvme_cpu_socket_id se k, cpu_core := nvme_cpu_core_id se k\<rparr>)
    (upd_cpu k (\<lambda>c. c\<lparr>cpu_id := -1, cpu_present := True\<rparr>) cpui)"
  have c1: "length (cpui_cpu c1) = NVME_CPU_MAX" "nr_cpus c1 = k" "\<forall>i<k. cpui_cpu c1 ! i = cpu_of se i" "nr_cores c1 = card (place se ` {..<k})"
    "nr_sockets c1 = nvme_socket_count se" "cpui_cpu c1 ! k = (cpui_cpu c1 ! k)\<lparr>cpu_id := of_nat k, cpu_socket := nvme_cpu_socket_id se k,
       cpu_core := nvme_cpu_core_id se k, cpu_present := True\<rparr>"
    using assms(1,3) by (simp_all add: cpus_upto_def c1_def upd_cpu_def)
  have s: "cpu_socket (cpui_cpu c1 ! k) = nvme_cpu_socket_id se k" "cpu_core (cpui_cpu c1 ! k) = nvme_cpu_core_id se k"
    by (subst c1(6), simp)+
  have t: "nvme_cpu_thread_id c1 k = siblings_before se k"
    unfolding nvme_cpu_thread_id_def siblings_before_def c1(2) s
    by (rule arg_cong [where f = length], rule filter_cong) (use c1(3) in \<open>auto simp: cpu_of_def place_def\<close>)
  have new: "(cpui_cpu c1 ! k)\<lparr>cpu_thread := siblings_before se k\<rparr> = cpu_of se k"
    by (subst c1(6), simp add: cpu_of_def)
  have r: "cpu_round se k cpui = (let c2 = (upd_cpu k (\<lambda>c. c\<lparr>cpu_thread := siblings_before se k\<rparr>) c1)\<lparr>nr_cpus := k + 1\<rparr>
      in if siblings_before se k = 0 then c2\<lparr>nr_cores := nr_cores c1 + 1\<rparr> else c2)"
    using assms(2) t c1(2) by (simp add: cpu_round_def nvme_cpu_present_def Let_def c1_def [symmetric]) (simp add: upd_cpu_def)
  show ?thesis unfolding r
    using c1(1-5) new assms(3) card_first_places [of se k]
    by (auto simp: cpus_upto_def upd_cpu_def Let_def nth_list_update less_Suc_eq)
qed

lemma cpu_round_absent:
  "cpus_upto se k cpui \<Longrightarrow> \<not> sys_present se i \<Longrightarrow> k \<le> i \<Longrightarrow> cpus_upto se k (cpu_round se i cpui)"
  by (auto simp: cpus_upto_def cpu_round_def nvme_cpu_present_def upd_cpu_def)

text \<open>
  When the CPUs present are numbered from 0 without a gap, detection counts them, gives each the number of earlier CPUs on
  the same core of the same socket as its thread number, and counts as many cores as there are different pairs of socket and core.
\<close>

theorem cpu_init_counts:
  assumes "\<And>i. i < NVME_CPU_MAX \<Longrightarrow> sys_present se i \<longleftrightarrow> i < n" and "n \<le> NVME_CPU_MAX"
  shows "\<exists>cpui. nvme_cpu_init se = (0, cpui) \<and> nr_cpus cpui = n \<and> nr_cores cpui = card (place se ` {..<n})
    \<and> (\<forall>i<n. nvme_get_cpu cpui (int i) = Some (cpu_of se i) \<and> nvme_socket_id cpui (int i) = nvme_cpu_socket_id se i)
    \<and> (\<forall>i\<ge>n. nvme_get_cpu cpui (int i) = None)"
proof -
  define c0 where "c0 = \<lparr>nr_cpus = 0, cpui_cpu = replicate NVME_CPU_MAX cpu_zero, nr_sockets = nvme_socket_count se, nr_cores = 0\<rparr>"
  have "cpus_upto se (min k n) (fold (cpu_round se) [0..<k] c0)" if "k \<le> NVME_CPU_MAX" for k
    using that
  proof (induction k)
    case 0
    show ?case by (simp add: cpus_upto_def c0_def)
  next
    case (Suc k)
    show ?case
    proof (cases "k < n")
      case True
      then have "min k n = k" "min (Suc k) n = Suc k" by simp_all
      then show ?thesis using Suc cpu_round_present [of se k "fold (cpu_round se) [0..<k] c0"] assms(1) [of k] True by simp
    next
      case False
      then have "min k n = n" "min (Suc k) n = n" by simp_all
      then show ?thesis using Suc cpu_round_absent [of se n "fold (cpu_round se) [0..<k] c0" k] assms(1) [of k] False by simp
    qed
  qed
  from this [of NVME_CPU_MAX] assms(2) have "cpus_upto se n (fold (cpu_round se) [0..<NVME_CPU_MAX] c0)" by (simp add: min_absorb2)
  moreover have "nvme_cpu_init se = (0, fold (cpu_round se) [0..<NVME_CPU_MAX] c0)" by (simp add: nvme_cpu_init_def c0_def)
  ultimately show ?thesis by (auto simp: cpus_upto_def nvme_get_cpu_def nvme_socket_id_def cpu_of_def)
qed

text \<open>Four CPUs, two on each core.\<close>

definition ex_sys :: sys_env where
  "ex_sys = \<lparr>sys_present = (\<lambda>i. i < 4), sys_node = (\<lambda>i. i = 0), sys_package = (\<lambda>i. Some [CHR ''0'', CHR 0x0A]),
     sys_core = (\<lambda>i. Some [if even i then CHR ''0'' else CHR ''1'', CHR 0x0A])\<rparr>"

lemma sysfs_id_digit: "sysfs_id (Some [CHR ''0'', CHR 0x0A]) = 0" "sysfs_id (Some [CHR ''1'', CHR 0x0A]) = 1"
  by (simp_all add: sysfs_id_def nvme_parse_sysfs_value_def fgets_def BUFSIZ_def cstr_def strtoul_def strip_sign_def detect_base_def
      hex_prefix_def isspace_def digit_val_def char_of_def)

theorem cpu_init_counts_witness:
  "\<exists>cpui. nvme_cpu_init ex_sys = (0, cpui) \<and> nr_cpus cpui = 4 \<and> nr_cores cpui = 2
    \<and> nvme_get_cpu cpui 2 = Some \<lparr>cpu_id = 2, cpu_socket = 0, cpu_core = 0, cpu_thread = 1, cpu_present = True\<rparr>"
proof -
  have pl: "place ex_sys i = (0, if even i then 0 else 1)" for i
    using sysfs_id_digit by (simp add: place_def nvme_cpu_socket_id_def nvme_cpu_core_id_def ex_sys_def)
  have "{..<4} = {0, 1, 2, 3 :: nat}" by auto
  then have "place ex_sys ` {..<4} = {(0, 0), (0, 1)}" by (simp add: pl insert_commute)
  then have c: "card (place ex_sys ` {..<4}) = 2" by simp
  have "siblings_before ex_sys 2 = 1" by (simp add: siblings_before_def pl upt_rec)
  then have two: "cpu_of ex_sys 2 = \<lparr>cpu_id = 2, cpu_socket = 0, cpu_core = 0, cpu_thread = 1, cpu_present = True\<rparr>"
    using pl [of 2] by (simp add: cpu_of_def place_def)
  have p: "sys_present ex_sys i \<longleftrightarrow> i < 4" for i by (simp add: ex_sys_def)
  have "(4::nat) \<le> NVME_CPU_MAX" by (simp add: NVME_CPU_MAX_def)
  from cpu_init_counts [OF p this] obtain cpui where "nvme_cpu_init ex_sys = (0, cpui)" "nr_cpus cpui = 4" "nr_cores cpui = 2"
    "\<forall>i<4. nvme_get_cpu cpui (int i) = Some (cpu_of ex_sys i)" using c by auto
  then show ?thesis using two by (auto dest!: spec [of _ "2 :: nat"])
qed

text \<open>
  With a gap in the numbers the loop of \<^verbatim>\<open>nvme_cpu_thread_id\<close> is too short: when CPUs 0, 2 and 3 are present, the last two on one core, both get
  thread number 0 and count as a core of their own.
\<close>

lemma cpu_gap_threads:
  assumes "nr_cpus cpui = 2" and "cpui_cpu cpui = [c0, c1, c2, c3]" and "cpu_socket c0 \<noteq> cpu_socket c3" and "cpu_socket c1 \<noteq> cpu_socket c3"
  shows "nvme_cpu_thread_id cpui 3 = 0"
  using assms by (simp add: nvme_cpu_thread_id_def upt_rec numeral_eq_Suc)

end
