(* ===== verification/Nvme_Mem.thy ===== *)
theory Nvme_Mem
  imports Nvme_Util
begin

text \<open>
  Memory management (\<^verbatim>\<open>lib/common/nvme_mem.c\<close>, \<^verbatim>\<open>nvme_mem.h\<close>): fifteen memory pools of
  power-of-two object sizes from 128 B to 2 MB. A pool owns heaps, each built on one
  hugepage and managed by an allocation bitmap; the hugepages are found again from an
  address through a hash table of 32 buckets.

  Descriptors the code allocates with \<open>calloc\<close> and shares by pointer (hugepages and heaps)
  live in two stores keyed by their address; the lists of the code are lists of addresses.
  What the operating system answers (\<open>calloc\<close>, \<open>openat\<close>, \<open>mmap\<close>, \<open>mbind\<close>, \<open>mlock\<close> and the page
  map) is an argument of the operations.
\<close>

subsection \<open>Definitions: data\<close>

record nvme_hugepage =
  hp_sz :: nat
  hp_szb :: nat
  hp_vaddr :: nat
  hp_paddr :: u64
  hp_node_id :: nat
  hp_fd :: int
  hp_fname :: nat
  hp_mp :: "nat option"
  hp_heap :: "nat option"

record nvme_heap =
  heap_hp :: nat
  heap_nr_objs :: nat
  heap_nr_free_objs :: nat
  heap_bitmap :: bitmap

record nvme_mempool =
  mp_size_bits :: nat
  mp_size :: nat
  mp_nr_objs :: nat
  mp_nr_free_objs :: nat
  mp_node_id :: nat
  mp_nr_use :: nat
  mp_use_list :: "nat list"
  mp_nr_full :: nat
  mp_full_list :: "nat list"

record nvme_mem =
  pg_size :: nat
  pg_size_bits :: nat
  pg_size_mask :: nat
  hp_size :: nat
  hp_size_bits :: nat
  hp_tmp :: nat
  nr_hp :: int
  hp_list :: "nat list list"
  mm_mp :: "nvme_mempool list"
  hps :: "nat \<Rightarrow> nvme_hugepage option"
  heaps :: "nat \<Rightarrow> nvme_heap option"

definition NVME_MP_SIZE_BITS_MIN :: nat where "NVME_MP_SIZE_BITS_MIN = 7"
definition NVME_MP_SIZE_BITS_MAX :: nat where "NVME_MP_SIZE_BITS_MAX = 21"
definition NVME_MP_NUM :: nat where "NVME_MP_NUM = 15"
definition NVME_HP_HASH_SIZE :: nat where "NVME_HP_HASH_SIZE = 32"
definition NVME_PFN_MASK :: u64 where "NVME_PFN_MASK = 0x7fffffffffffff"
definition NVME_NODE_ID_ANY :: nat where "NVME_NODE_ID_ANY = 2 ^ 32 - 1"
definition NVME_NODE_MAX :: nat where "NVME_NODE_MAX = 32"

lemmas mem_consts = NVME_MP_SIZE_BITS_MIN_def NVME_MP_SIZE_BITS_MAX_def NVME_MP_NUM_def
  NVME_HP_HASH_SIZE_def

text \<open>
  The answers of the operating system while one hugepage and one heap are set up. The page
  map gives the entry of a virtual page number, \<open>None\<close> when \<open>pread\<close> does not return 8 bytes.
\<close>

record os_env =
  calloc_hp :: "nat option"
  openat_fd :: int
  mmap_hp :: "nat option"
  mbind_ret :: int
  mlock_ret :: int
  pagemap :: "nat \<Rightarrow> u64 option"
  calloc_heap :: "nat option"
  calloc_bitmap :: bool

definition nvme_heap_empty :: "nvme_heap \<Rightarrow> bool" where
  "nvme_heap_empty heap \<longleftrightarrow> heap_nr_free_objs heap = heap_nr_objs heap"

definition nvme_heap_full :: "nvme_heap \<Rightarrow> bool" where
  "nvme_heap_full heap \<longleftrightarrow> heap_nr_free_objs heap = 0"

subsection \<open>Definitions: hugepages\<close>

definition hp_hash :: "nvme_mem \<Rightarrow> nat \<Rightarrow> nat" where
  "hp_hash mm vaddr = (vaddr div 2 ^ hp_size_bits mm) mod NVME_HP_HASH_SIZE"

text \<open>\<^verbatim>\<open>nvme_mem_search_hp\<close>: the scan of one bucket stops at the first match.\<close>

definition nvme_mem_search_hp :: "nvme_mem \<Rightarrow> nat \<Rightarrow> nat option" where
  "nvme_mem_search_hp mm vaddr =
     (let hpn = vaddr div 2 ^ hp_size_bits mm;
          hphash = hpn mod NVME_HP_HASH_SIZE
      in find (\<lambda>hp. hp_vaddr (the (hps mm hp)) div 2 ^ hp_size_bits mm = hpn) (hp_list mm ! hphash))"

definition nvme_mem_vtophys :: "nvme_mem \<Rightarrow> (nat \<Rightarrow> u64 option) \<Rightarrow> nat \<Rightarrow> u64" where
  "nvme_mem_vtophys mm pmap vaddr =
     (case nvme_mem_search_hp mm vaddr of
        Some hp \<Rightarrow> hp_paddr (the (hps mm hp)) + of_nat vaddr - of_nat (hp_vaddr (the (hps mm hp)))
      | None \<Rightarrow>
          (let vpn = vaddr div 2 ^ pg_size_bits mm;
               ofst = vaddr mod 2 ^ pg_size_bits mm
           in case pmap vpn of
                None \<Rightarrow> NVME_VTOPHYS_ERROR
              | Some ppfn \<Rightarrow> push_bit (pg_size_bits mm) (ppfn AND NVME_PFN_MASK) + of_nat ofst))"

text \<open>
  \<^verbatim>\<open>nvme_mem_alloc_hp\<close>: the descriptor is entered in the store and in the hash table only when
  every call has succeeded; on an error path it is freed again. The file name counter is
  bumped before the file is opened.
\<close>

definition nvme_mem_alloc_hp :: "os_env \<Rightarrow> nvme_mem \<Rightarrow> nat \<Rightarrow> nat option \<times> nvme_mem" where
  "nvme_mem_alloc_hp env mm node =
     (case calloc_hp env of
        None \<Rightarrow> (None, mm)
      | Some p \<Rightarrow>
          (let tmp = hp_tmp mm + 1;
               mm = mm\<lparr>hp_tmp := tmp\<rparr>
           in if openat_fd env < 0 then (None, mm)
              else case mmap_hp env of
                None \<Rightarrow> (None, mm)
              | Some va \<Rightarrow>
                  if mbind_ret env \<noteq> 0 then (None, mm)
                  else if mlock_ret env \<noteq> 0 then (None, mm)
                  else
                    let pa = nvme_mem_vtophys mm (pagemap env) va
                    in if pa = NVME_VTOPHYS_ERROR then (None, mm)
                       else
                         let hp = \<lparr>hp_sz = hp_size mm, hp_szb = hp_size_bits mm, hp_vaddr = va,
                                   hp_paddr = pa, hp_node_id = node, hp_fd = openat_fd env,
                                   hp_fname = tmp, hp_mp = None, hp_heap = None\<rparr>;
                             h = hp_hash mm va
                         in (Some p, mm\<lparr>hps := (hps mm)(p \<mapsto> hp),
                                        hp_list := (hp_list mm)[h := p # (hp_list mm ! h)],
                                        nr_hp := nr_hp mm + 1\<rparr>)))"

text \<open>\<open>LIST_REMOVE\<close> unlinks the descriptor from the bucket it is in.\<close>

definition nvme_mem_free_hp :: "nvme_mem \<Rightarrow> nat \<Rightarrow> nvme_mem" where
  "nvme_mem_free_hp mm hp =
     (let h = hp_hash mm (hp_vaddr (the (hps mm hp)))
      in mm\<lparr>hp_list := (hp_list mm)[h := remove1 hp (hp_list mm ! h)],
            nr_hp := nr_hp mm - 1,
            hps := (hps mm)(hp := None)\<rparr>)"

subsection \<open>Definitions: memory pools\<close>

definition upd_mp :: "nat \<Rightarrow> (nvme_mempool \<Rightarrow> nvme_mempool) \<Rightarrow> nvme_mem \<Rightarrow> nvme_mem" where
  "upd_mp i f mm = mm\<lparr>mm_mp := (mm_mp mm)[i := f (mm_mp mm ! i)]\<rparr>"

definition nvme_mem_pool_grow :: "os_env \<Rightarrow> nvme_mem \<Rightarrow> nat \<Rightarrow> nat option \<times> nvme_mem" where
  "nvme_mem_pool_grow env mm mpi =
     (case nvme_mem_alloc_hp env mm (mp_node_id (mm_mp mm ! mpi)) of
        (None, mm) \<Rightarrow> (None, mm)
      | (Some p, mm) \<Rightarrow>
          (case calloc_heap env of
             None \<Rightarrow> (None, nvme_mem_free_hp mm p)
           | Some h \<Rightarrow>
               (let hp = the (hps mm p);
                    mm = mm\<lparr>hps := (hps mm)(p \<mapsto> hp\<lparr>hp_mp := Some mpi, hp_heap := Some h\<rparr>)\<rparr>;
                    n = hp_sz hp div 2 ^ mp_size_bits (mm_mp mm ! mpi)
                in if \<not> calloc_bitmap env then (None, nvme_mem_free_hp mm p)
                   else
                     let heap = \<lparr>heap_hp = p, heap_nr_objs = n, heap_nr_free_objs = n,
                                 heap_bitmap =
                                   replicate (8 * (unat (nvme_align_up (of_nat n) 64) div 64)) 0\<rparr>;
                         mm = mm\<lparr>heaps := (heaps mm)(h \<mapsto> heap)\<rparr>
                     in (Some h,
                         upd_mp mpi (\<lambda>mp. mp\<lparr>mp_use_list := h # mp_use_list mp,
                                              mp_nr_use := sz_add (mp_nr_use mp) 1,
                                              mp_nr_objs := sz_add (mp_nr_objs mp) n,
                                              mp_nr_free_objs := sz_add (mp_nr_free_objs mp) n\<rparr>) mm))))"

text \<open>
  The part of \<^verbatim>\<open>nvme_mem_pool_alloc\<close> after a heap has been found: take the first free object
  of the heap, and move the heap to the full list when it was the last one. The result is
  the object's address and its physical address (what \<open>paddr\<close> receives).
\<close>

definition pool_take :: "nvme_mem \<Rightarrow> nat \<Rightarrow> nat \<Rightarrow> (nat \<times> u64) option \<times> nvme_mem" where
  "pool_take mm mpi h =
     (let heap = the (heaps mm h);
          mp = mm_mp mm ! mpi;
          b = find_first_zero_bit (heap_bitmap heap) (heap_nr_objs heap)
      in if b < 0 then (None, mm)
         else
           let ofst = nat b * 2 ^ mp_size_bits mp;
               hp = the (hps mm (heap_hp heap));
               obj = hp_vaddr hp + ofst;
               pa = hp_paddr hp + of_nat ofst;
               heap = heap\<lparr>heap_bitmap := set_bit_bm (heap_bitmap heap) (nat b),
                           heap_nr_free_objs := sz_sub (heap_nr_free_objs heap) 1\<rparr>;
               mm = mm\<lparr>heaps := (heaps mm)(h \<mapsto> heap)\<rparr>;
               mm = upd_mp mpi (\<lambda>mp. mp\<lparr>mp_nr_free_objs := sz_sub (mp_nr_free_objs mp) 1\<rparr>) mm
           in (Some (obj, pa),
               if nvme_heap_full heap
               then upd_mp mpi (\<lambda>mp. mp\<lparr>mp_use_list := remove1 h (mp_use_list mp),
                                        mp_nr_use := sz_sub (mp_nr_use mp) 1,
                                        mp_full_list := h # mp_full_list mp,
                                        mp_nr_full := sz_add (mp_nr_full mp) 1\<rparr>) mm
               else mm))"

definition nvme_mem_pool_alloc ::
  "os_env \<Rightarrow> nvme_mem \<Rightarrow> nat \<Rightarrow> (nat \<times> u64) option \<times> nvme_mem" where
  "nvme_mem_pool_alloc env mm mpi =
     (case (if mp_nr_use (mm_mp mm ! mpi) \<noteq> 0 then (Some (hd (mp_use_list (mm_mp mm ! mpi))), mm)
            else nvme_mem_pool_grow env mm mpi) of
        (None, mm) \<Rightarrow> (None, mm)
      | (Some h, mm) \<Rightarrow> pool_take mm mpi h)"

text \<open>One unused heap is taken out of its pool and its hugepage given back.\<close>

definition free_heap :: "nvme_mem \<Rightarrow> nat \<Rightarrow> nat \<Rightarrow> nvme_mem" where
  "free_heap mm mpi h =
     (let heap = the (heaps mm h);
          mm = upd_mp mpi (\<lambda>mp. mp\<lparr>mp_use_list := remove1 h (mp_use_list mp),
                                   mp_nr_use := sz_sub (mp_nr_use mp) 1,
                                   mp_nr_objs := sz_sub (mp_nr_objs mp) (heap_nr_objs heap),
                                   mp_nr_free_objs :=
                                     sz_sub (mp_nr_free_objs mp) (heap_nr_free_objs heap)\<rparr>) mm;
          mm = nvme_mem_free_hp mm (heap_hp heap)
      in mm\<lparr>heaps := (heaps mm)(h := None)\<rparr>)"

fun shrink_loop :: "nat \<Rightarrow> bool \<Rightarrow> nat list \<Rightarrow> int \<Rightarrow> nvme_mem \<Rightarrow> nvme_mem" where
  "shrink_loop mpi force [] n mm = mm"
| "shrink_loop mpi force (h # hs) n mm =
     (let empty = nvme_heap_empty (the (heaps mm h));
          n = (if \<not> force \<and> empty then n + 1 else n)
      in if \<not> force \<and> (\<not> empty \<or> n = 1) then shrink_loop mpi force hs n mm
         else shrink_loop mpi force hs n (free_heap mm mpi h))"

definition nvme_mem_pool_shrink :: "nvme_mem \<Rightarrow> nat \<Rightarrow> bool \<Rightarrow> nvme_mem" where
  "nvme_mem_pool_shrink mm mpi force =
     shrink_loop mpi force (mp_use_list (mm_mp mm ! mpi)) 0 mm"

definition nvme_mem_pool_free :: "nvme_mem \<Rightarrow> nat \<Rightarrow> nat \<Rightarrow> nat \<Rightarrow> nvme_mem" where
  "nvme_mem_pool_free mm mpi h obj =
     (let heap = the (heaps mm h);
          hp = the (hps mm (heap_hp heap))
      in if obj < hp_vaddr hp \<or> hp_vaddr hp + hp_sz hp \<le> obj then mm
         else
           let b = (obj - hp_vaddr hp) div 2 ^ mp_size_bits (mm_mp mm ! mpi)
           in if heap_nr_free_objs heap = heap_nr_objs heap
                 \<or> \<not> test_bit_bm (heap_bitmap heap) b then mm
              else
                let mm = (if nvme_heap_full heap
                          then upd_mp mpi (\<lambda>mp. mp\<lparr>mp_full_list := remove1 h (mp_full_list mp),
                                                   mp_nr_full := sz_sub (mp_nr_full mp) 1,
                                                   mp_use_list := h # mp_use_list mp,
                                                   mp_nr_use := sz_add (mp_nr_use mp) 1\<rparr>) mm
                          else mm);
                    heap = heap\<lparr>heap_bitmap := clear_bit_bm (heap_bitmap heap) b,
                                heap_nr_free_objs := sz_add (heap_nr_free_objs heap) 1\<rparr>;
                    mm = mm\<lparr>heaps := (heaps mm)(h \<mapsto> heap)\<rparr>;
                    mm = upd_mp mpi (\<lambda>mp. mp\<lparr>mp_nr_free_objs := sz_add (mp_nr_free_objs mp) 1\<rparr>) mm
                in if nvme_heap_empty heap then nvme_mem_pool_shrink mm mpi False else mm)"

subsection \<open>Definitions: allocation interface\<close>

text \<open>
  \<^verbatim>\<open>nvme_mem_alloc_node\<close>: the pool is chosen from the larger of the size and the alignment.
  The NUMA node is computed and then not used: the pools are global and their \<open>node_id\<close> is
  never set.
\<close>

definition mem_pool_index :: "u64 \<Rightarrow> u64 \<Rightarrow> nat option" where
  "mem_pool_index sz align =
     (if sz = 0 \<or> (align \<noteq> 0 \<and> \<not> nvme_is_pow2 align) then None
      else
        let size_bits = unat (nvme_log2 (nvme_align_pow2 (if align < sz then sz else align)))
        in if size_bits \<le> NVME_MP_SIZE_BITS_MIN then Some 0
           else if size_bits \<le> NVME_MP_SIZE_BITS_MAX then Some (size_bits - NVME_MP_SIZE_BITS_MIN)
           else None)"

definition nvme_mem_alloc_node ::
  "os_env \<Rightarrow> nvme_mem \<Rightarrow> u64 \<Rightarrow> u64 \<Rightarrow> nat \<Rightarrow> (nat \<times> u64) option \<times> nvme_mem" where
  "nvme_mem_alloc_node env mm sz align node_id =
     (case mem_pool_index sz align of
        None \<Rightarrow> (None, mm)
      | Some mpi \<Rightarrow> nvme_mem_pool_alloc env mm mpi)"

definition nvme_malloc_node ::
  "os_env \<Rightarrow> nvme_mem \<Rightarrow> u64 \<Rightarrow> u64 \<Rightarrow> nat \<Rightarrow> nat option \<times> nvme_mem" where
  "nvme_malloc_node env mm sz align node_id =
     (case nvme_mem_alloc_node env mm sz align node_id of
        (r, mm) \<Rightarrow> (map_option fst r, mm))"

definition nvme_free :: "nvme_mem \<Rightarrow> nat \<Rightarrow> nvme_mem" where
  "nvme_free mm addr =
     (if addr = 0 then mm
      else case nvme_mem_search_hp mm addr of
             None \<Rightarrow> mm
           | Some p \<Rightarrow>
               nvme_mem_pool_free mm (the (hp_mp (the (hps mm p)))) (the (hp_heap (the (hps mm p)))) addr)"

text \<open>\<^verbatim>\<open>nvme_memstat\<close>; \<open>Inr\<close> carries the number of hugepages and the byte counts.\<close>

definition nvme_memstat :: "nvme_mem \<Rightarrow> bool \<Rightarrow> nat \<Rightarrow> int + (int \<times> nat \<times> nat)" where
  "nvme_memstat mm stats_nonnull node_id =
     (if \<not> stats_nonnull then Inl (- EFAULT)
      else if node_id \<noteq> NVME_NODE_ID_ANY \<and> NVME_NODE_MAX < node_id then Inl (- EINVAL)
      else Inr (nr_hp mm,
                foldl (\<lambda>t mp. sz_add t (mp_nr_objs mp * 2 ^ mp_size_bits mp mod 2 ^ 64)) 0 (mm_mp mm),
                foldl (\<lambda>t mp. sz_add t (mp_nr_free_objs mp * 2 ^ mp_size_bits mp mod 2 ^ 64)) 0 (mm_mp mm)))"

text \<open>
  \<^verbatim>\<open>nvme_mem_init\<close> with \<^verbatim>\<open>nvme_mem_hp_init\<close>: the result of \<open>sysconf\<close>, of opening the page map,
  of creating the hugetlbfs directory, the hugepage size read from \<^verbatim>\<open>/proc/meminfo\<close> and the
  directory descriptor are the answers of the operating system.
\<close>

record init_env =
  sysconf_pagesize :: u64
  pagemap_fd :: int
  get_hp_dir_ret :: int
  hp_size_read :: u64
  open_hp_dir :: int

definition nvme_mem_init :: "init_env \<Rightarrow> int \<times> nvme_mem" where
  "nvme_mem_init env =
     (let mp0 = \<lparr>mp_size_bits = 0, mp_size = 0, mp_nr_objs = 0, mp_nr_free_objs = 0,
                 mp_node_id = 0, mp_nr_use = 0, mp_use_list = [], mp_nr_full = 0,
                 mp_full_list = []\<rparr>;
          mm = \<lparr>pg_size = unat (sysconf_pagesize env),
                pg_size_bits = unat (nvme_log2 (sysconf_pagesize env)),
                pg_size_mask = unat (sysconf_pagesize env - 1),
                hp_size = 0, hp_size_bits = 0, hp_tmp = 0, nr_hp = 0,
                hp_list = replicate NVME_HP_HASH_SIZE [],
                mm_mp = replicate NVME_MP_NUM mp0,
                hps = Map.empty, heaps = Map.empty\<rparr>
      in if pagemap_fd env < 0 then (pagemap_fd env, mm)
         else if get_hp_dir_ret env < 0 then (get_hp_dir_ret env, mm)
         else
           let mm = mm\<lparr>hp_size := unat (hp_size_read env)\<rparr>
           in if hp_size_read env = 0 then (- ENOMEM, mm)
              else
                let mm = mm\<lparr>hp_size_bits := unat (nvme_log2 (hp_size_read env))\<rparr>
                in if open_hp_dir env < 0 then (open_hp_dir env, mm)
                   else (0, mm\<lparr>mm_mp :=
                              map (\<lambda>i. mp0\<lparr>mp_size_bits := NVME_MP_SIZE_BITS_MIN + i,
                                           mp_size := 2 ^ (NVME_MP_SIZE_BITS_MIN + i)\<rparr>)
                                [0..<NVME_MP_NUM]\<rparr>))"


subsection \<open>The invariant of the memory manager\<close>

text \<open>
  \<open>heap_ok mm i h\<close>: heap \<open>h\<close> of pool \<open>i\<close> and its hugepage point to each other, the bitmap has a
  bit for every object of the hugepage, and the free counter counts the clear bits.
\<close>

definition free_bits :: "nvme_heap \<Rightarrow> nat set" where
  "free_bits heap = {b. b < heap_nr_objs heap \<and> \<not> test_bit_bm (heap_bitmap heap) b}"

definition heap_ok :: "nvme_mem \<Rightarrow> nat \<Rightarrow> nat \<Rightarrow> bool" where
  "heap_ok mm i h \<longleftrightarrow> (\<exists>heap hp. heaps mm h = Some heap \<and> hps mm (heap_hp heap) = Some hp
     \<and> hp_mp hp = Some i \<and> hp_heap hp = Some h
     \<and> heap_nr_objs heap = hp_size mm div 2 ^ mp_size_bits (mm_mp mm ! i)
     \<and> length (heap_bitmap heap) = 8 * ((heap_nr_objs heap + 63) div 64)
     \<and> heap_nr_free_objs heap = card (free_bits heap))"

definition pool_heaps :: "nvme_mem \<Rightarrow> nat \<Rightarrow> nat list" where
  "pool_heaps mm i = mp_use_list (mm_mp mm ! i) @ mp_full_list (mm_mp mm ! i)"

definition pool_inv :: "nvme_mem \<Rightarrow> nat \<Rightarrow> bool" where
  "pool_inv mm i \<longleftrightarrow>
     (let mp = mm_mp mm ! i; f = (\<lambda>h. heap_nr_free_objs (the (heaps mm h)))
      in mp_size_bits mp = NVME_MP_SIZE_BITS_MIN + i
         \<and> mp_size mp = 2 ^ (NVME_MP_SIZE_BITS_MIN + i)
         \<and> distinct (pool_heaps mm i)
         \<and> mp_nr_use mp = length (mp_use_list mp) \<and> mp_nr_full mp = length (mp_full_list mp)
         \<and> (\<forall>h\<in>set (pool_heaps mm i). heap_ok mm i h)
         \<and> (\<forall>h\<in>set (mp_use_list mp). f h \<noteq> 0) \<and> (\<forall>h\<in>set (mp_full_list mp). f h = 0)
         \<and> mp_nr_objs mp = (\<Sum>h\<in>set (pool_heaps mm i). heap_nr_objs (the (heaps mm h)))
         \<and> mp_nr_free_objs mp = (\<Sum>h\<in>set (pool_heaps mm i). f h))"

text \<open>
  The hugepages: each is aligned on its size and linked in its bucket, no two cover the same
  addresses, and each belongs to a heap of a pool.
\<close>

definition hp_inv :: "nvme_mem \<Rightarrow> bool" where
  "hp_inv mm \<longleftrightarrow> length (hp_list mm) = NVME_HP_HASH_SIZE
     \<and> (\<forall>k<NVME_HP_HASH_SIZE. distinct (hp_list mm ! k)
          \<and> (\<forall>p\<in>set (hp_list mm ! k). \<exists>hp. hps mm p = Some hp \<and> hp_hash mm (hp_vaddr hp) = k))
     \<and> (\<forall>p hp. hps mm p = Some hp \<longrightarrow> p \<in> set (hp_list mm ! hp_hash mm (hp_vaddr hp))
          \<and> hp_sz hp = hp_size mm \<and> hp_size mm dvd hp_vaddr hp \<and> hp_vaddr hp \<noteq> 0
          \<and> hp_vaddr hp + hp_size mm \<le> 2 ^ 64)
     \<and> (\<forall>p q hp hq. hps mm p = Some hp \<longrightarrow> hps mm q = Some hq \<longrightarrow> hp_vaddr hp = hp_vaddr hq \<longrightarrow> p = q)"

definition owner_inv :: "nvme_mem \<Rightarrow> bool" where
  "owner_inv mm \<longleftrightarrow> (\<forall>p hp. hps mm p = Some hp \<longrightarrow>
     (\<exists>i h. i < NVME_MP_NUM \<and> hp_mp hp = Some i \<and> hp_heap hp = Some h
        \<and> h \<in> set (pool_heaps mm i) \<and> (\<exists>heap. heaps mm h = Some heap \<and> heap_hp heap = p)))"

definition mem_sizes :: "nvme_mem \<Rightarrow> bool" where
  "mem_sizes mm \<longleftrightarrow> hp_size mm = 2 ^ hp_size_bits mm \<and> NVME_MP_SIZE_BITS_MAX \<le> hp_size_bits mm
     \<and> hp_size_bits mm \<le> 30 \<and> length (mm_mp mm) = NVME_MP_NUM"

definition mem_inv :: "nvme_mem \<Rightarrow> bool" where
  "mem_inv mm \<longleftrightarrow> mem_sizes mm \<and> hp_inv mm \<and> owner_inv mm \<and> (\<forall>i<NVME_MP_NUM. pool_inv mm i)"

text \<open>
  The contract of \<open>calloc\<close> and \<open>mmap\<close>: new descriptors are new, and a hugepage mapping is
  aligned on the hugepage size, not null, below the end of the address space and not
  mapped already.
\<close>

definition env_ok :: "os_env \<Rightarrow> nvme_mem \<Rightarrow> bool" where
  "env_ok env mm \<longleftrightarrow>
     (\<forall>p. calloc_hp env = Some p \<longrightarrow> hps mm p = None)
     \<and> (\<forall>h. calloc_heap env = Some h \<longrightarrow> heaps mm h = None)
     \<and> (\<forall>va. mmap_hp env = Some va \<longrightarrow> hp_size mm dvd va \<and> va \<noteq> 0 \<and> va + hp_size mm \<le> 2 ^ 64
          \<and> (\<forall>p hp. hps mm p = Some hp \<longrightarrow> hp_vaddr hp \<noteq> va))"

text \<open>The abstract view of a pool: the addresses of the objects that are allocated.\<close>

abbreviation heap_at :: "nvme_mem \<Rightarrow> nat \<Rightarrow> nvme_heap" where
  "heap_at mm h \<equiv> the (heaps mm h)"

abbreviation hp_at :: "nvme_mem \<Rightarrow> nat \<Rightarrow> nvme_hugepage" where
  "hp_at mm h \<equiv> the (hps mm (heap_hp (heap_at mm h)))"

definition obj_addr :: "nvme_mem \<Rightarrow> nat \<Rightarrow> nat \<Rightarrow> nat \<Rightarrow> nat" where
  "obj_addr mm i h b = hp_vaddr (hp_at mm h) + b * 2 ^ mp_size_bits (mm_mp mm ! i)"

definition live_objs :: "nvme_mem \<Rightarrow> nat \<Rightarrow> nat set" where
  "live_objs mm i = {obj_addr mm i h b
     | h b. h \<in> set (pool_heaps mm i) \<and> b < heap_nr_objs (the (heaps mm h))
            \<and> test_bit_bm (heap_bitmap (the (heaps mm h))) b}"

subsection \<open>Basic facts\<close>

lemma free_bits_finite [simp]: "finite (free_bits heap)"
  by (simp add: free_bits_def)

lemma heap_okE:
  assumes "heap_ok mm i h"
  obtains heap hp where "heaps mm h = Some heap" "hps mm (heap_hp heap) = Some hp"
    "hp_mp hp = Some i" "hp_heap hp = Some h"
    "heap_nr_objs heap = hp_size mm div 2 ^ mp_size_bits (mm_mp mm ! i)"
    "length (heap_bitmap heap) = 8 * ((heap_nr_objs heap + 63) div 64)"
    "heap_nr_free_objs heap = card (free_bits heap)"
  using assms by (auto simp: heap_ok_def)

lemma mem_invD:
  assumes "mem_inv mm"
  shows "mem_sizes mm" "hp_inv mm" "owner_inv mm" "i < NVME_MP_NUM \<Longrightarrow> pool_inv mm i"
  using assms by (auto simp: mem_inv_def)

lemma pool_invD:
  assumes "pool_inv mm i"
  shows "mp_size_bits (mm_mp mm ! i) = NVME_MP_SIZE_BITS_MIN + i"
    "distinct (pool_heaps mm i)"
    "mp_nr_use (mm_mp mm ! i) = length (mp_use_list (mm_mp mm ! i))"
    "mp_nr_full (mm_mp mm ! i) = length (mp_full_list (mm_mp mm ! i))"
    "h \<in> set (pool_heaps mm i) \<Longrightarrow> heap_ok mm i h"
    "h \<in> set (mp_use_list (mm_mp mm ! i)) \<Longrightarrow> heap_nr_free_objs (the (heaps mm h)) \<noteq> 0"
    "h \<in> set (mp_full_list (mm_mp mm ! i)) \<Longrightarrow> heap_nr_free_objs (the (heaps mm h)) = 0"
    "mp_nr_objs (mm_mp mm ! i) = (\<Sum>h\<in>set (pool_heaps mm i). heap_nr_objs (the (heaps mm h)))"
    "mp_nr_free_objs (mm_mp mm ! i) = (\<Sum>h\<in>set (pool_heaps mm i). heap_nr_free_objs (the (heaps mm h)))"
  using assms by (auto simp: pool_inv_def Let_def)

lemma pool_invI:
  assumes "mp_size_bits (mm_mp mm ! i) = NVME_MP_SIZE_BITS_MIN + i"
    "mp_size (mm_mp mm ! i) = 2 ^ (NVME_MP_SIZE_BITS_MIN + i)"
    "distinct (pool_heaps mm i)"
    "mp_nr_use (mm_mp mm ! i) = length (mp_use_list (mm_mp mm ! i))"
    "mp_nr_full (mm_mp mm ! i) = length (mp_full_list (mm_mp mm ! i))"
    "\<And>h. h \<in> set (pool_heaps mm i) \<Longrightarrow> heap_ok mm i h"
    "\<And>h. h \<in> set (mp_use_list (mm_mp mm ! i)) \<Longrightarrow> heap_nr_free_objs (the (heaps mm h)) \<noteq> 0"
    "\<And>h. h \<in> set (mp_full_list (mm_mp mm ! i)) \<Longrightarrow> heap_nr_free_objs (the (heaps mm h)) = 0"
    "mp_nr_objs (mm_mp mm ! i) = (\<Sum>h\<in>set (pool_heaps mm i). heap_nr_objs (the (heaps mm h)))"
    "mp_nr_free_objs (mm_mp mm ! i) = (\<Sum>h\<in>set (pool_heaps mm i). heap_nr_free_objs (the (heaps mm h)))"
  shows "pool_inv mm i"
  unfolding pool_inv_def Let_def using assms by blast

lemma upd_mp_simps [simp]:
  "hps (upd_mp i f mm) = hps mm" "heaps (upd_mp i f mm) = heaps mm"
  "hp_list (upd_mp i f mm) = hp_list mm" "hp_size (upd_mp i f mm) = hp_size mm"
  "hp_size_bits (upd_mp i f mm) = hp_size_bits mm" "nr_hp (upd_mp i f mm) = nr_hp mm"
  "hp_hash (upd_mp i f mm) = hp_hash mm"
  "pg_size_bits (upd_mp i f mm) = pg_size_bits mm"
  "length (mm_mp (upd_mp i f mm)) = length (mm_mp mm)"
  by (simp_all add: upd_mp_def hp_hash_def fun_eq_iff)

lemma mm_mp_upd_mp:
  "i < length (mm_mp mm) \<Longrightarrow> mm_mp (upd_mp i f mm) ! j = (if j = i then f (mm_mp mm ! i) else mm_mp mm ! j)"
  by (simp add: upd_mp_def)

lemma hp_hash_upd [simp]:
  "hp_hash (mm\<lparr>heaps := x\<rparr>) = hp_hash mm" "hp_hash (mm\<lparr>hps := y\<rparr>) = hp_hash mm"
  "hp_hash (mm\<lparr>hp_list := z\<rparr>) = hp_hash mm" "hp_hash (mm\<lparr>nr_hp := n\<rparr>) = hp_hash mm"
  "hp_hash (mm\<lparr>hp_tmp := t\<rparr>) = hp_hash mm"
  by (simp_all add: hp_hash_def fun_eq_iff)

text \<open>A heap belongs to one pool and a hugepage to one heap.\<close>

lemma heap_ok_links:
  assumes "heap_ok mm i h"
  shows "heaps mm h = Some (the (heaps mm h))"
    "hps mm (heap_hp (the (heaps mm h))) = Some (the (hps mm (heap_hp (the (heaps mm h)))))"
    "hp_mp (the (hps mm (heap_hp (the (heaps mm h))))) = Some i"
    "hp_heap (the (hps mm (heap_hp (the (heaps mm h))))) = Some h"
  using assms by (auto elim!: heap_okE)

lemma heap_ok_unique:
  assumes "heap_ok mm i h" and "heap_ok mm j h"
  shows "i = j"
  using heap_ok_links(3) [OF assms(1)] heap_ok_links(3) [OF assms(2)] by simp

lemma heap_hp_inj:
  assumes "heap_ok mm i h" and "heap_ok mm j h'"
    and "heap_hp (the (heaps mm h)) = heap_hp (the (heaps mm h'))"
  shows "h = h'"
  using heap_ok_links(4) [OF assms(1)] heap_ok_links(4) [OF assms(2)] assms(3)
  by (metis option.inject)

lemma heap_ok_counts:
  assumes "heap_ok mm i h"
  shows "heap_nr_objs (heap_at mm h) = hp_size mm div 2 ^ mp_size_bits (mm_mp mm ! i)"
    "length (heap_bitmap (heap_at mm h)) = 8 * ((heap_nr_objs (heap_at mm h) + 63) div 64)"
    "heap_nr_free_objs (heap_at mm h) = card (free_bits (heap_at mm h))"
  using assms by (auto elim!: heap_okE)

lemma heap_okI:
  assumes "heaps mm h = Some heap" "hps mm (heap_hp heap) = Some hp"
    "hp_mp hp = Some i" "hp_heap hp = Some h"
    "heap_nr_objs heap = hp_size mm div 2 ^ mp_size_bits (mm_mp mm ! i)"
    "length (heap_bitmap heap) = 8 * ((heap_nr_objs heap + 63) div 64)"
    "heap_nr_free_objs heap = card (free_bits heap)"
  shows "heap_ok mm i h"
  using assms unfolding heap_ok_def by blast

text \<open>A heap depends on its own descriptor, its hugepage and the object size only.\<close>

lemma heap_ok_frame:
  assumes "heap_ok mm i h" "heaps mm' h = heaps mm h"
    "hps mm' (heap_hp (heap_at mm h)) = hps mm (heap_hp (heap_at mm h))"
    "hp_size mm' = hp_size mm" "mp_size_bits (mm_mp mm' ! i) = mp_size_bits (mm_mp mm ! i)"
  shows "heap_ok mm' i h"
  using assms unfolding heap_ok_def by auto

lemma hp_invD:
  assumes "hp_inv mm" "hps mm p = Some hp"
  shows "p \<in> set (hp_list mm ! hp_hash mm (hp_vaddr hp))" "hp_sz hp = hp_size mm"
    "hp_size mm dvd hp_vaddr hp" "hp_vaddr hp \<noteq> 0" "hp_vaddr hp + hp_size mm \<le> 2 ^ 64"
  using assms by (simp_all add: hp_inv_def)

lemma hp_inv_list:
  assumes "hp_inv mm"
  shows "length (hp_list mm) = NVME_HP_HASH_SIZE"
    "k < NVME_HP_HASH_SIZE \<Longrightarrow> distinct (hp_list mm ! k)"
    "k < NVME_HP_HASH_SIZE \<Longrightarrow> p \<in> set (hp_list mm ! k) \<Longrightarrow> \<exists>hp. hps mm p = Some hp \<and> hp_hash mm (hp_vaddr hp) = k"
    "hps mm p = Some hp \<Longrightarrow> hps mm q = Some hq \<Longrightarrow> hp_vaddr hp = hp_vaddr hq \<Longrightarrow> p = q"
  using assms unfolding hp_inv_def by blast+

lemma hp_hash_lt [simp]: "hp_hash mm va < NVME_HP_HASH_SIZE"
  by (simp add: hp_hash_def NVME_HP_HASH_SIZE_def)

text \<open>Two hugepages that are not the same cover different multiples of the hugepage size.\<close>

lemma hp_div_inj:
  assumes "hp_inv mm" "mem_sizes mm" "hps mm p = Some hp" "hps mm q = Some hq"
    and "hp_vaddr hp div hp_size mm = hp_vaddr hq div hp_size mm"
  shows "p = q"
proof -
  have "hp_vaddr hp = hp_vaddr hq"
    using hp_invD(3) [OF assms(1,3)] hp_invD(3) [OF assms(1,4)] assms(5)
    by (metis dvd_mult_div_cancel)
  then show ?thesis by (rule hp_inv_list(4) [OF assms(1,3,4)])
qed

lemma pool_heap_ok: "mem_inv mm \<Longrightarrow> i < NVME_MP_NUM \<Longrightarrow> h \<in> set (pool_heaps mm i) \<Longrightarrow> heap_ok mm i h"
  by (blast dest: mem_invD(4) pool_invD(5))

lemma pool_hp_div_inj:
  assumes "mem_inv mm" "i < NVME_MP_NUM" "j < NVME_MP_NUM"
    and "h \<in> set (pool_heaps mm i)" "h' \<in> set (pool_heaps mm j)"
    and "hp_vaddr (hp_at mm h) div hp_size mm = hp_vaddr (hp_at mm h') div hp_size mm"
  shows "h = h'" "i = j"
proof -
  have ok: "heap_ok mm i h" "heap_ok mm j h'" using assms by (blast intro: pool_heap_ok)+
  have "heap_hp (heap_at mm h) = heap_hp (heap_at mm h')"
    by (rule hp_div_inj [OF mem_invD(2,1) [OF assms(1)] heap_ok_links(2) [OF ok(1)]
          heap_ok_links(2) [OF ok(2)] assms(6)])
  then show "h = h'" by (rule heap_hp_inj [OF ok])
  with ok show "i = j" by (blast dest: heap_ok_unique)
qed

text \<open>The address space bounds the number of hugepages, so that the counters do not wrap.\<close>

lemma pool_heaps_bound:
  assumes inv: "mem_inv mm" and i: "i < NVME_MP_NUM"
  shows "length (pool_heaps mm i) * hp_size mm \<le> 2 ^ 64"
proof -
  let ?f = "\<lambda>h. hp_vaddr (hp_at mm h) div hp_size mm" and ?S = "set (pool_heaps mm i)"
  have sz: "hp_size mm = 2 ^ hp_size_bits mm" "hp_size_bits mm \<le> 30"
    using mem_invD(1) [OF inv] by (simp_all add: mem_sizes_def)
  have "inj_on ?f ?S" by (rule inj_onI) (rule pool_hp_div_inj(1) [OF inv i i])
  moreover have "?f ` ?S \<subseteq> {..<2 ^ (64 - hp_size_bits mm)}"
  proof clarify
    fix h assume "h \<in> ?S"
    from hp_invD(5) [OF mem_invD(2) [OF inv] heap_ok_links(2) [OF pool_heap_ok [OF inv i this]]]
    have "hp_vaddr (hp_at mm h) < 2 ^ 64" using sz(1) zero_less_power [of "2::nat" "hp_size_bits mm"] by linarith
    moreover have "(2::nat) ^ 64 = 2 ^ (64 - hp_size_bits mm) * 2 ^ hp_size_bits mm"
      using sz(2) by (simp flip: power_add)
    ultimately show "?f h < 2 ^ (64 - hp_size_bits mm)"
      by (simp add: sz(1) less_mult_imp_div_less)
  qed
  ultimately have "card ?S \<le> card {..<(2::nat) ^ (64 - hp_size_bits mm)}"
    by (intro card_inj_on_le) simp_all
  moreover have "length (pool_heaps mm i) = card ?S"
    using pool_invD(2) [OF mem_invD(4) [OF inv i]] by (simp add: distinct_card)
  ultimately have "length (pool_heaps mm i) * hp_size mm \<le> 2 ^ (64 - hp_size_bits mm) * 2 ^ hp_size_bits mm"
    using sz(1) by simp
  also have "\<dots> = 2 ^ 64" using sz(2) by (simp flip: power_add)
  finally show ?thesis .
qed

lemma mem_sizesD:
  assumes "mem_inv mm"
  shows "hp_size mm = 2 ^ hp_size_bits mm" "NVME_MP_SIZE_BITS_MAX \<le> hp_size_bits mm"
    "hp_size_bits mm \<le> 30" "length (mm_mp mm) = NVME_MP_NUM"
  using mem_invD(1) [OF assms] by (simp_all add: mem_sizes_def)

lemma obj_size_dvd:
  assumes "mem_inv mm" "i < NVME_MP_NUM"
  shows "2 ^ mp_size_bits (mm_mp mm ! i) dvd hp_size mm"
    "2 ^ 7 \<le> (2::nat) ^ mp_size_bits (mm_mp mm ! i)"
    "hp_size mm div 2 ^ mp_size_bits (mm_mp mm ! i) \<le> 2 ^ 23"
proof -
  have b: "mp_size_bits (mm_mp mm ! i) = 7 + i" "7 + i \<le> hp_size_bits mm"
    using pool_invD(1) [OF mem_invD(4) [OF assms]] mem_sizesD(2) [OF assms(1)] assms(2)
    by (simp_all add: mem_consts)
  show "2 ^ mp_size_bits (mm_mp mm ! i) dvd hp_size mm"
    using b mem_sizesD(1) [OF assms(1)] by (simp add: le_imp_power_dvd)
  show "2 ^ 7 \<le> (2::nat) ^ mp_size_bits (mm_mp mm ! i)"
    unfolding b(1) by (rule power_increasing) simp_all
  have "hp_size mm div 2 ^ (7 + i) = 2 ^ (hp_size_bits mm - (7 + i))"
    using b(2) mem_sizesD(1) [OF assms(1)] by (simp add: power_diff)
  also have "\<dots> \<le> 2 ^ 23" using mem_sizesD(3) [OF assms(1)] by (intro power_increasing) simp_all
  finally show "hp_size mm div 2 ^ mp_size_bits (mm_mp mm ! i) \<le> 2 ^ 23" by (simp add: b(1))
qed

lemma sum_free_le:
  assumes "\<And>h. h \<in> set hs \<Longrightarrow> heap_ok mm i h"
  shows "(\<Sum>h\<in>set hs. heap_nr_free_objs (heap_at mm h)) \<le> (\<Sum>h\<in>set hs. heap_nr_objs (heap_at mm h))"
proof (rule sum_mono)
  fix h assume "h \<in> set hs"
  then have "heap_nr_free_objs (heap_at mm h) = card (free_bits (heap_at mm h))"
    by (rule heap_ok_counts(3) [OF assms])
  also have "\<dots> \<le> card {..<heap_nr_objs (heap_at mm h)}"
    by (rule card_mono) (auto simp: free_bits_def)
  finally show "heap_nr_free_objs (heap_at mm h) \<le> heap_nr_objs (heap_at mm h)" by simp
qed

lemma pool_counts_bound:
  assumes inv: "mem_inv mm" and i: "i < NVME_MP_NUM"
  shows "mp_nr_objs (mm_mp mm ! i) \<le> 2 ^ 57" "mp_nr_free_objs (mm_mp mm ! i) \<le> mp_nr_objs (mm_mp mm ! i)"
    "length (pool_heaps mm i) \<le> 2 ^ 43"
proof -
  let ?n = "hp_size mm div 2 ^ mp_size_bits (mm_mp mm ! i)" and ?l = "length (pool_heaps mm i)"
  note P = mem_invD(4) [OF inv i]
  have "mp_nr_objs (mm_mp mm ! i) = (\<Sum>h\<in>set (pool_heaps mm i). ?n)"
    unfolding pool_invD(8) [OF P] by (rule sum.cong [OF refl]) (rule heap_ok_counts(1) [OF pool_invD(5) [OF P]])
  then have eq: "mp_nr_objs (mm_mp mm ! i) = ?l * ?n"
    using pool_invD(2) [OF P] by (simp add: distinct_card)
  have "?l * ?n * 2 ^ 7 \<le> ?l * ?n * 2 ^ mp_size_bits (mm_mp mm ! i)"
    by (rule mult_le_mono2) (rule obj_size_dvd(2) [OF inv i])
  also have "\<dots> \<le> ?l * hp_size mm" by simp
  also have "\<dots> \<le> 2 ^ 64" by (rule pool_heaps_bound [OF inv i])
  finally show "mp_nr_objs (mm_mp mm ! i) \<le> 2 ^ 57" unfolding eq by simp
  show "mp_nr_free_objs (mm_mp mm ! i) \<le> mp_nr_objs (mm_mp mm ! i)"
    unfolding pool_invD(8,9) [OF P] by (rule sum_free_le) (rule pool_invD(5) [OF P])
  have "?l * 2 ^ 21 \<le> ?l * hp_size mm"
    using mem_sizesD(1,2) [OF inv] by (intro mult_le_mono2) (simp only: mem_consts, rule power_increasing, simp_all)
  also have "\<dots> \<le> 2 ^ 64" by (rule pool_heaps_bound [OF inv i])
  finally show "?l \<le> 2 ^ 43" by simp
qed

text \<open>A pool that keeps its descriptor and its heaps keeps its invariant.\<close>

lemma pool_inv_frame:
  assumes P: "pool_inv mm j" and mp: "mm_mp mm' ! j = mm_mp mm ! j"
    and old: "\<And>h. h \<in> set (pool_heaps mm j) \<Longrightarrow> heap_at mm' h = heap_at mm h \<and> heap_ok mm' j h"
  shows "pool_inv mm' j"
proof -
  have ph: "pool_heaps mm' j = pool_heaps mm j" by (simp add: pool_heaps_def mp)
  have sub: "set (mp_use_list (mm_mp mm ! j)) \<subseteq> set (pool_heaps mm j)"
    "set (mp_full_list (mm_mp mm ! j)) \<subseteq> set (pool_heaps mm j)" by (auto simp: pool_heaps_def)
  show ?thesis using P old sub unfolding pool_inv_def Let_def mp ph by (simp add: subset_iff)
qed

text \<open>
  The common step of allocation and release: heap \<open>h\<close> of pool \<open>i\<close> gets a new bitmap and a new
  free counter, the pool's counter follows, and the heaps of the pool are at most moved
  between its two lists.
\<close>

definition heap_update :: "nat \<Rightarrow> nat \<Rightarrow> nvme_heap \<Rightarrow> nvme_mem \<Rightarrow> nvme_mem \<Rightarrow> bool" where
  "heap_update i h heap' mm mm' \<longleftrightarrow>
     hps mm' = hps mm \<and> heaps mm' = (heaps mm)(h \<mapsto> heap') \<and> hp_list mm' = hp_list mm
     \<and> hp_size mm' = hp_size mm \<and> hp_size_bits mm' = hp_size_bits mm
     \<and> length (mm_mp mm') = length (mm_mp mm)
     \<and> (\<forall>j. j \<noteq> i \<longrightarrow> mm_mp mm' ! j = mm_mp mm ! j)
     \<and> mp_size_bits (mm_mp mm' ! i) = mp_size_bits (mm_mp mm ! i)
     \<and> mp_size (mm_mp mm' ! i) = mp_size (mm_mp mm ! i)
     \<and> set (pool_heaps mm' i) = set (pool_heaps mm i)
     \<and> heap_hp heap' = heap_hp (heap_at mm h) \<and> heap_nr_objs heap' = heap_nr_objs (heap_at mm h)
     \<and> length (heap_bitmap heap') = length (heap_bitmap (heap_at mm h))"

lemma heap_update_pool_heaps:
  "heap_update i h heap' mm mm' \<Longrightarrow> j \<noteq> i \<Longrightarrow> pool_heaps mm' j = pool_heaps mm j"
  by (simp add: heap_update_def pool_heaps_def)

lemma heap_update_heap_ok:
  assumes upd: "heap_update i h heap' mm mm'" and ok: "heap_ok mm j h'"
    and "heap_nr_free_objs heap' = card (free_bits heap')"
  shows "heap_ok mm' j h'"
proof (cases "h' = h")
  case True
  from upd have "mp_size_bits (mm_mp mm' ! j) = mp_size_bits (mm_mp mm ! j)"
    by (cases "j = i") (simp_all add: heap_update_def)
  with True show ?thesis using upd heap_ok_links [OF ok] heap_ok_counts(1,2) [OF ok] assms(3)
    by (intro heap_okI [of _ _ heap' "hp_at mm h"]) (simp_all add: heap_update_def)
next
  case False
  show ?thesis
    by (rule heap_ok_frame [OF ok]) (use upd False in \<open>cases "j = i"; simp add: heap_update_def\<close>)+
qed

lemma heap_update_other_pool:
  assumes upd: "heap_update i h heap' mm mm'" and inv: "mem_inv mm"
    and i: "i < NVME_MP_NUM" "h \<in> set (pool_heaps mm i)" and j: "j < NVME_MP_NUM" "j \<noteq> i"
    and fr: "heap_nr_free_objs heap' = card (free_bits heap')"
  shows "pool_inv mm' j"
proof -
  have at: "heap_at mm' h' = heap_at mm h'" if "h' \<in> set (pool_heaps mm j)" for h'
  proof -
    have "h' \<noteq> h"
      using heap_ok_unique [OF pool_heap_ok [OF inv j(1)] pool_heap_ok [OF inv i(1)]] that i(2) j(2) by blast
    then show ?thesis using upd by (simp add: heap_update_def)
  qed
  show ?thesis
    using at heap_update_heap_ok [OF upd pool_heap_ok [OF inv j(1)] fr] upd j(2)
    by (intro pool_inv_frame [OF mem_invD(4) [OF inv j(1)]]) (simp_all add: heap_update_def)
qed

lemma heap_update_inv:
  assumes upd: "heap_update i h heap' mm mm'" and inv: "mem_inv mm"
    and i: "i < NVME_MP_NUM" and h: "h \<in> set (pool_heaps mm i)"
    and fr: "heap_nr_free_objs heap' = card (free_bits heap')"
    and P': "distinct (pool_heaps mm' i)"
      "mp_nr_use (mm_mp mm' ! i) = length (mp_use_list (mm_mp mm' ! i))"
      "mp_nr_full (mm_mp mm' ! i) = length (mp_full_list (mm_mp mm' ! i))"
      "mp_nr_objs (mm_mp mm' ! i) = mp_nr_objs (mm_mp mm ! i)"
      "mp_nr_free_objs (mm_mp mm' ! i) + heap_nr_free_objs (heap_at mm h)
         = mp_nr_free_objs (mm_mp mm ! i) + heap_nr_free_objs heap'"
      "\<And>h'. h' \<in> set (mp_use_list (mm_mp mm' ! i)) \<Longrightarrow> heap_nr_free_objs (heap_at mm' h') \<noteq> 0"
      "\<And>h'. h' \<in> set (mp_full_list (mm_mp mm' ! i)) \<Longrightarrow> heap_nr_free_objs (heap_at mm' h') = 0"
  shows "mem_inv mm'"
proof -
  have U: "hps mm' = hps mm" "heaps mm' = (heaps mm)(h \<mapsto> heap')" "hp_list mm' = hp_list mm"
    "hp_size mm' = hp_size mm" "hp_size_bits mm' = hp_size_bits mm" "length (mm_mp mm') = length (mm_mp mm)"
    "set (pool_heaps mm' i) = set (pool_heaps mm i)" "heap_hp heap' = heap_hp (heap_at mm h)"
    "heap_nr_objs heap' = heap_nr_objs (heap_at mm h)"
    "mp_size_bits (mm_mp mm' ! i) = mp_size_bits (mm_mp mm ! i)"
    "mp_size (mm_mp mm' ! i) = mp_size (mm_mp mm ! i)"
    using upd by (simp_all add: heap_update_def)
  have hh: "hp_hash mm' = hp_hash mm" by (simp add: hp_hash_def U fun_eq_iff)
  have ph: "set (pool_heaps mm' j) = set (pool_heaps mm j)" for j
    using U(7) heap_update_pool_heaps [OF upd] by (cases "j = i") simp_all
  note P = mem_invD(4) [OF inv i]
  have "mem_sizes mm'" using mem_invD(1) [OF inv] by (simp add: mem_sizes_def U)
  moreover have "hp_inv mm'" using mem_invD(2) [OF inv] unfolding hp_inv_def U hh .
  moreover have "owner_inv mm'"
    unfolding owner_inv_def
  proof (intro allI impI)
    fix p hp assume "hps mm' p = Some hp"
    then have "hps mm p = Some hp" by (simp add: U)
    then obtain j h1 heap1 where "j < NVME_MP_NUM" "hp_mp hp = Some j" "hp_heap hp = Some h1"
      "h1 \<in> set (pool_heaps mm j)" "heaps mm h1 = Some heap1" "heap_hp heap1 = p"
      using mem_invD(3) [OF inv] unfolding owner_inv_def by blast
    then show "\<exists>j h1. j < NVME_MP_NUM \<and> hp_mp hp = Some j \<and> hp_heap hp = Some h1
        \<and> h1 \<in> set (pool_heaps mm' j) \<and> (\<exists>heap1. heaps mm' h1 = Some heap1 \<and> heap_hp heap1 = p)"
      by (intro exI [of _ j] exI [of _ h1]) (cases "h1 = h", simp_all add: ph U)
  qed
  moreover have "pool_inv mm' i"
  proof -
    have objs: "heap_nr_objs (heap_at mm' h') = heap_nr_objs (heap_at mm h')" for h'
      by (cases "h' = h") (simp_all add: U)
    have "(\<Sum>h'\<in>set (pool_heaps mm i). heap_nr_free_objs (heap_at mm' h')) + heap_nr_free_objs (heap_at mm h)
        = (\<Sum>h'\<in>set (pool_heaps mm i). heap_nr_free_objs (heap_at mm h')) + heap_nr_free_objs heap'"
      using h by (simp add: sum.remove [of _ h] U)
    then have "mp_nr_free_objs (mm_mp mm' ! i) = (\<Sum>h'\<in>set (pool_heaps mm' i). heap_nr_free_objs (heap_at mm' h'))"
      using P'(5) pool_invD(9) [OF P] by (simp add: U(7))
    moreover have "heap_ok mm' i h'" if "h' \<in> set (pool_heaps mm' i)" for h'
      by (rule heap_update_heap_ok [OF upd pool_invD(5) [OF P] fr]) (use that U(7) in simp)
    moreover have "mp_nr_objs (mm_mp mm' ! i) = (\<Sum>h'\<in>set (pool_heaps mm' i). heap_nr_objs (heap_at mm' h'))"
      unfolding objs P'(4) U(7) by (rule pool_invD(8) [OF P])
    moreover have "mp_size (mm_mp mm ! i) = 2 ^ (NVME_MP_SIZE_BITS_MIN + i)"
      using P by (simp add: pool_inv_def Let_def)
    ultimately show ?thesis using P'(1-3,6,7) pool_invD(1) [OF P] U(10,11) by (intro pool_invI) simp_all
  qed
  moreover have "pool_inv mm' j" if "j < NVME_MP_NUM" "j \<noteq> i" for j
    by (rule heap_update_other_pool [OF upd inv i h that fr])
  ultimately show ?thesis unfolding mem_inv_def by blast
qed

subsection \<open>Objects and their addresses\<close>

lemma obj_in_hp:
  assumes inv: "mem_inv mm" and i: "i < NVME_MP_NUM" and h: "h \<in> set (pool_heaps mm i)"
    and b: "b < heap_nr_objs (heap_at mm h)"
  shows "obj_addr mm i h b + 2 ^ mp_size_bits (mm_mp mm ! i) \<le> hp_vaddr (hp_at mm h) + hp_size mm"
proof -
  let ?s = "2 ^ mp_size_bits (mm_mp mm ! i)"
  have "Suc b * ?s \<le> hp_size mm div ?s * ?s"
    using b heap_ok_counts(1) [OF pool_heap_ok [OF inv i h]] by (intro mult_le_mono1) simp
  also have "\<dots> = hp_size mm" using obj_size_dvd(1) [OF inv i] by simp
  finally show ?thesis by (simp add: obj_addr_def)
qed

lemma div_between:
  assumes "d dvd v" "v \<le> a" "a < v + d" shows "a div d = v div (d::nat)"
proof -
  obtain k where "v = d * k" using assms(1) by blast
  then have "a = d * k + (a - v)" "a - v < d" using assms(2,3) by auto
  then have "a div d = k" by (metis div_mult_self4 div_less add.right_neutral not_less0)
  then show ?thesis using \<open>v = d * k\<close> assms(2,3) by (cases "d = 0") auto
qed

lemma heap_hp_inv:
  assumes "mem_inv mm" "i < NVME_MP_NUM" "h \<in> set (pool_heaps mm i)"
  shows "hp_sz (hp_at mm h) = hp_size mm" "hp_size mm dvd hp_vaddr (hp_at mm h)"
    "hp_vaddr (hp_at mm h) \<noteq> 0" "hp_vaddr (hp_at mm h) + hp_size mm \<le> 2 ^ 64"
  using hp_invD [OF mem_invD(2) [OF assms(1)] heap_ok_links(2) [OF pool_heap_ok [OF assms]]] by simp_all

lemma in_hp_div:
  assumes "mem_inv mm" "i < NVME_MP_NUM" "h \<in> set (pool_heaps mm i)"
    and "hp_vaddr (hp_at mm h) \<le> a" "a < hp_vaddr (hp_at mm h) + hp_size mm"
  shows "a div hp_size mm = hp_vaddr (hp_at mm h) div hp_size mm"
  by (rule div_between [OF heap_hp_inv(2) [OF assms(1-3)] assms(4,5)])

text \<open>Every address lies in at most one object.\<close>

lemma obj_unique:
  assumes inv: "mem_inv mm" and i: "i < NVME_MP_NUM" "h \<in> set (pool_heaps mm i)" "b < heap_nr_objs (heap_at mm h)"
    and j: "j < NVME_MP_NUM" "h' \<in> set (pool_heaps mm j)" "b' < heap_nr_objs (heap_at mm h')"
    and a: "obj_addr mm i h b \<le> a" "a < obj_addr mm i h b + 2 ^ mp_size_bits (mm_mp mm ! i)"
    and a': "obj_addr mm j h' b' \<le> a" "a < obj_addr mm j h' b' + 2 ^ mp_size_bits (mm_mp mm ! j)"
  shows "i = j \<and> h = h' \<and> b = b'"
proof -
  have div: "a div hp_size mm = hp_vaddr (hp_at mm h) div hp_size mm"
    "a div hp_size mm = hp_vaddr (hp_at mm h') div hp_size mm"
    by (rule in_hp_div [OF inv i(1,2)]; use obj_in_hp [OF inv i] a in \<open>simp add: obj_addr_def\<close>)
       (rule in_hp_div [OF inv j(1,2)]; use obj_in_hp [OF inv j] a' in \<open>simp add: obj_addr_def\<close>)
  then have eq: "h = h'" "i = j" using pool_hp_div_inj [OF inv i(1) j(1) i(2) j(2)] by (metis, metis)
  let ?s = "2 ^ mp_size_bits (mm_mp mm ! i)" and ?o = "a - hp_vaddr (hp_at mm h)"
  have "b * ?s \<le> ?o" "?o < Suc b * ?s" "b' * ?s \<le> ?o" "?o < Suc b' * ?s"
    using a a' eq by (simp_all add: obj_addr_def)
  then have "b = ?o div ?s" "b' = ?o div ?s" by (intro div_nat_eqI [symmetric]; simp add: mult.commute)+
  with eq show ?thesis by simp
qed

lemma obj_addr_inj:
  assumes inv: "mem_inv mm" and i: "i < NVME_MP_NUM" "h \<in> set (pool_heaps mm i)" "b < heap_nr_objs (heap_at mm h)"
    and j: "j < NVME_MP_NUM" "h' \<in> set (pool_heaps mm j)" "b' < heap_nr_objs (heap_at mm h')"
    and "obj_addr mm i h b = obj_addr mm j h' b'"
  shows "i = j \<and> h = h' \<and> b = b'"
  by (rule obj_unique [OF inv i j, of "obj_addr mm i h b"]) (use assms(8) in simp_all)

lemma addr_in_obj:
  assumes inv: "mem_inv mm" and i: "i < NVME_MP_NUM" and h: "h \<in> set (pool_heaps mm i)"
    and a: "hp_vaddr (hp_at mm h) \<le> a" "a < hp_vaddr (hp_at mm h) + hp_size mm"
    and b: "b = (a - hp_vaddr (hp_at mm h)) div 2 ^ mp_size_bits (mm_mp mm ! i)"
  shows "b < heap_nr_objs (heap_at mm h)" "obj_addr mm i h b \<le> a"
    "a < obj_addr mm i h b + 2 ^ mp_size_bits (mm_mp mm ! i)"
proof -
  let ?s = "2 ^ mp_size_bits (mm_mp mm ! i) :: nat" and ?o = "a - hp_vaddr (hp_at mm h)"
  show "b < heap_nr_objs (heap_at mm h)"
    unfolding b heap_ok_counts(1) [OF pool_heap_ok [OF inv i h]] using a obj_size_dvd(1) [OF inv i]
    by (intro less_mult_imp_div_less) simp
  have "b * ?s \<le> ?o" "?o < b * ?s + ?s"
    using dividend_less_div_times [of ?s ?o] by (simp_all add: b div_times_less_eq_dividend add.commute)
  then show "obj_addr mm i h b \<le> a" "a < obj_addr mm i h b + ?s" using a(1) by (simp_all add: obj_addr_def)
qed

lemma heap_update_obj_addr:
  "heap_update i h heap' mm mm' \<Longrightarrow> obj_addr mm' j h' b = obj_addr mm j h' b"
  by (cases "h' = h"; cases "j = i") (simp_all add: obj_addr_def heap_update_def)

lemma live_objs_update:
  assumes upd: "heap_update i h heap' mm mm'" and h: "h \<in> set (pool_heaps mm i)"
  shows "live_objs mm' i = {obj_addr mm i h' b | h' b. h' \<in> set (pool_heaps mm i) \<and> h' \<noteq> h
           \<and> b < heap_nr_objs (heap_at mm h') \<and> test_bit_bm (heap_bitmap (heap_at mm h')) b}
         \<union> {obj_addr mm i h b | b. b < heap_nr_objs (heap_at mm h) \<and> test_bit_bm (heap_bitmap heap') b}"
  (is "_ = ?A \<union> ?B")
proof -
  have U: "heaps mm' = (heaps mm)(h \<mapsto> heap')" "set (pool_heaps mm' i) = set (pool_heaps mm i)"
    "heap_nr_objs heap' = heap_nr_objs (heap_at mm h)"
    using upd by (simp_all add: heap_update_def)
  show ?thesis
    unfolding live_objs_def heap_update_obj_addr [OF upd] U(2)
  proof (intro set_eqI iffI; elim CollectE exE conjE UnE)
    fix x h1 b assume "x = obj_addr mm i h1 b" "h1 \<in> set (pool_heaps mm i)"
      "b < heap_nr_objs (heap_at mm' h1)" "test_bit_bm (heap_bitmap (heap_at mm' h1)) b"
    then show "x \<in> ?A \<union> ?B" by (cases "h1 = h") (auto simp: U)
  qed (use h U in force)+
qed

lemma live_objs_update_other:
  assumes upd: "heap_update i h heap' mm mm'" and inv: "mem_inv mm"
    and i: "i < NVME_MP_NUM" "h \<in> set (pool_heaps mm i)" and j: "j < NVME_MP_NUM" "j \<noteq> i"
  shows "live_objs mm' j = live_objs mm j"
proof -
  have "heap_at mm' h' = heap_at mm h'" if "h' \<in> set (pool_heaps mm j)" for h'
  proof -
    have "h' \<noteq> h"
      using heap_ok_unique [OF pool_heap_ok [OF inv j(1)] pool_heap_ok [OF inv i(1)]] that i(2) j(2) by blast
    then show ?thesis using upd by (simp add: heap_update_def)
  qed
  then show ?thesis
    unfolding live_objs_def heap_update_obj_addr [OF upd] heap_update_pool_heaps [OF upd j(2)]
    by (intro Collect_cong) (auto, metis+)
qed

subsection \<open>Allocation from a heap\<close>

lemma bitmap_index_lt:
  assumes "(b::nat) < n" shows "b div 8 < 8 * ((n + 63) div 64)"
proof -
  have "(b + 64) div 64 \<le> (n + 63) div 64" using assms by (intro div_le_mono) simp
  then have "b div 8 div 8 < (n + 63) div 64" by (simp flip: div_mult2_eq)
  then show ?thesis by linarith
qed

lemma heap_nr_objs_bounds:
  assumes inv: "mem_inv mm" and i: "i < NVME_MP_NUM" and h: "h \<in> set (pool_heaps mm i)"
  shows "heap_nr_objs (heap_at mm h) + 63 < 2 ^ 32"
    "b < heap_nr_objs (heap_at mm h) \<Longrightarrow> b div 8 < length (heap_bitmap (heap_at mm h))"
    "heap_nr_free_objs (heap_at mm h) < 2 ^ 32"
proof -
  note ok = pool_heap_ok [OF inv i h]
  show n: "heap_nr_objs (heap_at mm h) + 63 < 2 ^ 32"
    unfolding heap_ok_counts(1) [OF ok] by (rule le_less_trans [OF add_le_mono1 [OF obj_size_dvd(3) [OF inv i]]]) simp
  show "b div 8 < length (heap_bitmap (heap_at mm h))" if "b < heap_nr_objs (heap_at mm h)"
    unfolding heap_ok_counts(2) [OF ok] using that by (rule bitmap_index_lt)
  have "card (free_bits (heap_at mm h)) \<le> card {..<heap_nr_objs (heap_at mm h)}"
    by (rule card_mono) (auto simp: free_bits_def)
  then show "heap_nr_free_objs (heap_at mm h) < 2 ^ 32" unfolding heap_ok_counts(3) [OF ok] using n by (simp only: card_lessThan)
qed

lemma free_bits_set:
  assumes "b div 8 < length (heap_bitmap heap)"
  shows "free_bits (heap\<lparr>heap_bitmap := set_bit_bm (heap_bitmap heap) b, heap_nr_free_objs := n\<rparr>)
    = free_bits heap - {b}"
  using assms by (auto simp: free_bits_def test_set_bit_bm)

lemma free_bits_clear:
  assumes "b div 8 < length (heap_bitmap heap)" "b < heap_nr_objs heap"
  shows "free_bits (heap\<lparr>heap_bitmap := clear_bit_bm (heap_bitmap heap) b, heap_nr_free_objs := n\<rparr>)
    = insert b (free_bits heap)"
  using assms by (auto simp: free_bits_def test_clear_bit_bm)

lemma find_free_obj:
  assumes inv: "mem_inv mm" and i: "i < NVME_MP_NUM" and h: "h \<in> set (mp_use_list (mm_mp mm ! i))"
  obtains b where "find_first_zero_bit (heap_bitmap (heap_at mm h)) (heap_nr_objs (heap_at mm h)) = int b"
    "b < heap_nr_objs (heap_at mm h)" "\<not> test_bit_bm (heap_bitmap (heap_at mm h)) b"
proof -
  have ph: "h \<in> set (pool_heaps mm i)" using h by (simp add: pool_heaps_def)
  note ok = pool_heap_ok [OF inv i ph] and P = mem_invD(4) [OF inv i]
  have "card (free_bits (heap_at mm h)) \<noteq> 0"
    using pool_invD(6) [OF P h] unfolding heap_ok_counts(3) [OF ok] .
  then have "free_bits (heap_at mm h) \<noteq> {}" by auto
  then obtain c where "c < heap_nr_objs (heap_at mm h)" "\<not> test_bit_bm (heap_bitmap (heap_at mm h)) c"
    by (auto simp: free_bits_def)
  then show thesis
    by (rule find_first_zero_bit_Some [OF heap_nr_objs_bounds(1) [OF inv i ph]
          eq_refl [OF heap_ok_counts(2) [OF ok, symmetric]]]) (rule that)
qed

lemma pool_take_ok:
  assumes inv: "mem_inv mm" and i: "i < NVME_MP_NUM" and h: "h \<in> set (mp_use_list (mm_mp mm ! i))"
  obtains b heap' mm' where
    "pool_take mm i h = (Some (obj_addr mm i h b,
        hp_paddr (hp_at mm h) + of_nat (b * 2 ^ mp_size_bits (mm_mp mm ! i))), mm')"
    "b < heap_nr_objs (heap_at mm h)" "\<not> test_bit_bm (heap_bitmap (heap_at mm h)) b"
    "heap_update i h heap' mm mm'"
    "heap_bitmap heap' = set_bit_bm (heap_bitmap (heap_at mm h)) b"
    "mem_inv mm'" "nr_hp mm' = nr_hp mm"
proof -
  let ?heap = "heap_at mm h" and ?mp = "mm_mp mm ! i"
  have ph: "h \<in> set (pool_heaps mm i)" using h by (simp add: pool_heaps_def)
  note ok = pool_heap_ok [OF inv i ph] and P = mem_invD(4) [OF inv i]
  obtain b where b: "find_first_zero_bit (heap_bitmap ?heap) (heap_nr_objs ?heap) = int b"
    "b < heap_nr_objs ?heap" "\<not> test_bit_bm (heap_bitmap ?heap) b"
    by (rule find_free_obj [OF inv i h])
  define heap' where "heap' = ?heap\<lparr>heap_bitmap := set_bit_bm (heap_bitmap ?heap) b,
    heap_nr_free_objs := heap_nr_free_objs ?heap - 1\<rparr>"
  define mm' where "mm' = snd (pool_take mm i h)"
  have len: "i < length (mm_mp mm)" using i mem_sizesD(4) [OF inv] by simp
  have nz: "heap_nr_free_objs ?heap \<noteq> 0" by (rule pool_invD(6) [OF P h])
  have fh: "heap_nr_free_objs ?heap \<le> mp_nr_free_objs ?mp"
    unfolding pool_invD(9) [OF P] by (rule member_le_sum) (use ph in simp_all)
  note bd = pool_counts_bound [OF inv i] heap_nr_objs_bounds [OF inv i ph]
  have s1: "sz_sub (heap_nr_free_objs ?heap) 1 = heap_nr_free_objs ?heap - 1"
    "sz_sub (mp_nr_free_objs ?mp) 1 = mp_nr_free_objs ?mp - 1"
    "sz_sub (mp_nr_use ?mp) 1 = mp_nr_use ?mp - 1" "sz_add (mp_nr_full ?mp) 1 = mp_nr_full ?mp + 1"
    using nz fh bd(1,2,3,6) pool_invD(3,4) [OF P] length_pos_if_in_set [OF h]
    by (simp_all add: pool_heaps_def Suc_le_eq)
  have take: "pool_take mm i h = (Some (obj_addr mm i h b,
        hp_paddr (hp_at mm h) + of_nat (b * 2 ^ mp_size_bits ?mp)), mm')"
    by (simp add: mm'_def pool_take_def Let_def b(1) obj_addr_def)
  have mm'_eq: "mm' = (let m = upd_mp i (\<lambda>mp. mp\<lparr>mp_nr_free_objs := mp_nr_free_objs ?mp - 1\<rparr>)
                    (mm\<lparr>heaps := (heaps mm)(h \<mapsto> heap')\<rparr>)
      in if nvme_heap_full heap'
         then upd_mp i (\<lambda>mp. mp\<lparr>mp_use_list := remove1 h (mp_use_list ?mp), mp_nr_use := mp_nr_use ?mp - 1,
                                 mp_full_list := h # mp_full_list ?mp, mp_nr_full := mp_nr_full ?mp + 1\<rparr>) m
         else m)"
    using len by (simp add: mm'_def pool_take_def Let_def b(1) heap'_def upd_mp_def s1 del: One_nat_def)
  have dist: "distinct (mp_use_list ?mp @ mp_full_list ?mp)"
    using pool_invD(2) [OF P] by (simp add: pool_heaps_def)
  have upd: "heap_update i h heap' mm mm'"
    using len dist h unfolding mm'_eq heap_update_def
    by (auto simp: Let_def upd_mp_def pool_heaps_def heap'_def)
  have "b \<in> free_bits ?heap" using b by (simp add: free_bits_def)
  then have "heap_nr_free_objs heap' = card (free_bits heap')"
    using nz heap_ok_counts(3) [OF ok] \<open>b \<in> free_bits ?heap\<close>
    by (simp add: heap'_def free_bits_set [OF bd(5) [OF b(2)]])
  moreover have "mp_nr_free_objs (mm_mp mm' ! i) + heap_nr_free_objs ?heap
      = mp_nr_free_objs ?mp + heap_nr_free_objs heap'"
    using len nz fh by (simp add: mm'_eq Let_def upd_mp_def heap'_def)
  ultimately have "mem_inv mm'"
    by (intro heap_update_inv [OF upd inv i ph])
       (use len dist h pool_invD(3,4,6,7) [OF P] in
        \<open>auto simp: mm'_eq Let_def upd_mp_def pool_heaps_def heap'_def nvme_heap_full_def length_remove1
          split: if_splits\<close>)
  then show thesis
    using that [OF take b(2,3) upd] by (simp add: heap'_def mm'_eq Let_def)
qed

subsection \<open>Growing a pool\<close>

lemma mem_inv_hp_tmp [simp]: "mem_inv (mm\<lparr>hp_tmp := t\<rparr>) = mem_inv mm"
  by (simp add: mem_inv_def mem_sizes_def hp_inv_def owner_inv_def pool_inv_def pool_heaps_def heap_ok_def)

lemma live_objs_hp_tmp [simp]: "live_objs (mm\<lparr>hp_tmp := t\<rparr>) i = live_objs mm i"
  by (simp add: live_objs_def obj_addr_def pool_heaps_def)

lemma alloc_hp_cases:
  assumes "nvme_mem_alloc_hp env mm node = (r, mm')"
  obtains (fail) t where "r = None" "mm' = mm\<lparr>hp_tmp := t\<rparr>"
  | (ok) p va hp t where "r = Some p" "calloc_hp env = Some p" "mmap_hp env = Some va"
      "hp_sz hp = hp_size mm" "hp_vaddr hp = va" "hp_mp hp = None" "hp_heap hp = None"
      "hp_paddr hp = nvme_mem_vtophys (mm\<lparr>hp_tmp := t\<rparr>) (pagemap env) va"
      "mm' = mm\<lparr>hp_tmp := t, hps := (hps mm)(p \<mapsto> hp),
               hp_list := (hp_list mm)[hp_hash mm va := p # (hp_list mm ! hp_hash mm va)],
               nr_hp := nr_hp mm + 1\<rparr>"
proof (cases "r")
  case None
  have "\<exists>t. mm' = mm\<lparr>hp_tmp := t\<rparr>"
    using assms None unfolding nvme_mem_alloc_hp_def Let_def
    by (auto split: option.splits if_splits intro: exI [of _ "hp_tmp mm"])
  then show thesis using fail None by blast
next
  case (Some p)
  obtain va where "mmap_hp env = Some va"
    using assms Some by (auto simp: nvme_mem_alloc_hp_def Let_def split: option.splits if_splits)
  with Some show thesis
    using assms unfolding nvme_mem_alloc_hp_def Let_def
    by (intro ok [of p va "\<lparr>hp_sz = hp_size mm, hp_szb = hp_size_bits mm, hp_vaddr = va,
            hp_paddr = nvme_mem_vtophys (mm\<lparr>hp_tmp := hp_tmp mm + 1\<rparr>) (pagemap env) va, hp_node_id = node,
            hp_fd = openat_fd env, hp_fname = hp_tmp mm + 1, hp_mp = None, hp_heap = None\<rparr>" "hp_tmp mm + 1"])
       (auto split: option.splits if_splits)
qed

lemma bitmap_bytes:
  assumes "n + 63 < 2 ^ 32"
  shows "8 * (unat (nvme_align_up (of_nat n) 64) div 64) = 8 * ((n + 63) div 64)"
proof -
  have "unat (of_nat n :: u64) = n" using assms by (simp add: unat_of_nat_small)
  then show ?thesis using unat_align_up [of 6 "of_nat n"] assms by simp
qed

text \<open>What a successful growth does to the memory manager.\<close>

definition pool_grown :: "nat \<Rightarrow> nat \<Rightarrow> nat \<Rightarrow> nvme_hugepage \<Rightarrow> nvme_mem \<Rightarrow> nvme_mem \<Rightarrow> bool" where
  "pool_grown i h p hp mm mm' \<longleftrightarrow>
     (let n = hp_size mm div 2 ^ mp_size_bits (mm_mp mm ! i); k = hp_hash mm (hp_vaddr hp); mp = mm_mp mm ! i
      in hps mm p = None \<and> heaps mm h = None
         \<and> hps mm' = (hps mm)(p \<mapsto> hp)
         \<and> heaps mm' = (heaps mm)(h \<mapsto> \<lparr>heap_hp = p, heap_nr_objs = n, heap_nr_free_objs = n,
              heap_bitmap = replicate (8 * ((n + 63) div 64)) 0\<rparr>)
         \<and> hp_list mm' = (hp_list mm)[k := p # hp_list mm ! k]
         \<and> hp_size mm' = hp_size mm \<and> hp_size_bits mm' = hp_size_bits mm
         \<and> mm_mp mm' = (mm_mp mm)[i := mp\<lparr>mp_use_list := h # mp_use_list mp,
              mp_nr_use := mp_nr_use mp + 1, mp_nr_objs := mp_nr_objs mp + n,
              mp_nr_free_objs := mp_nr_free_objs mp + n\<rparr>]
         \<and> hp_sz hp = hp_size mm \<and> hp_mp hp = Some i \<and> hp_heap hp = Some h
         \<and> hp_size mm dvd hp_vaddr hp \<and> hp_vaddr hp \<noteq> 0 \<and> hp_vaddr hp + hp_size mm \<le> 2 ^ 64
         \<and> (\<forall>q hq. hps mm q = Some hq \<longrightarrow> hp_vaddr hq \<noteq> hp_vaddr hp))"

lemma pool_grow_cases:
  assumes grow: "nvme_mem_pool_grow env mm i = (r, mm')" and inv: "mem_inv mm"
    and env: "env_ok env mm" and i: "i < NVME_MP_NUM"
  obtains (fail) t where "r = None" "mm' = mm\<lparr>hp_tmp := t\<rparr>"
  | (ok) h p hp where "r = Some h" "pool_grown i h p hp mm mm'"
proof -
  have len: "i < length (mm_mp mm)" using i mem_sizesD(4) [OF inv] by simp
  obtain r1 m1 where a: "nvme_mem_alloc_hp env mm (mp_node_id (mm_mp mm ! i)) = (r1, m1)" by fastforce
  from a show thesis
  proof (cases rule: alloc_hp_cases)
    case (fail t)
    then show thesis using grow a that(1) by (auto simp: nvme_mem_pool_grow_def)
  next
    case (ok p va hp t)
    have E: "hps mm p = None" "hp_size mm dvd va" "va \<noteq> 0" "va + hp_size mm \<le> 2 ^ 64"
      "\<forall>q hq. hps mm q = Some hq \<longrightarrow> hp_vaddr hq \<noteq> va"
      using env ok(2,3) by (simp_all add: env_ok_def)
    let ?k = "hp_hash mm va" and ?n = "hp_size mm div 2 ^ mp_size_bits (mm_mp mm ! i)"
    have undo: "nvme_mem_free_hp (m1\<lparr>hps := (hps m1)(p \<mapsto> hp\<lparr>hp_mp := x, hp_heap := y\<rparr>)\<rparr>) p = mm\<lparr>hp_tmp := t\<rparr>" for x y
      using ok E(1) hp_inv_list(1) [OF mem_invD(2) [OF inv]]
      by (simp add: nvme_mem_free_hp_def Let_def fun_upd_idem)
    have undo': "nvme_mem_free_hp m1 p = mm\<lparr>hp_tmp := t\<rparr>"
      using ok E(1) hp_inv_list(1) [OF mem_invD(2) [OF inv]]
      by (simp add: nvme_mem_free_hp_def Let_def fun_upd_idem)
    show thesis
    proof (cases "calloc_heap env = None \<or> \<not> calloc_bitmap env")
      case True
      then have "r = None \<and> mm' = mm\<lparr>hp_tmp := t\<rparr>"
        using grow a ok(1) undo undo' ok(9)
        by (auto simp: nvme_mem_pool_grow_def Let_def split: option.splits)
      then show thesis using that(1) by blast
    next
      case False
      then obtain h where h: "calloc_heap env = Some h" "calloc_bitmap env" by auto
      have "heaps mm h = None" using env h by (simp add: env_ok_def)
      moreover have "mp_nr_objs (mm_mp mm ! i) + ?n < 2 ^ 64" "mp_nr_free_objs (mm_mp mm ! i) + ?n < 2 ^ 64"
        "mp_nr_use (mm_mp mm ! i) + 1 < 2 ^ 64" "?n + 63 < 2 ^ 32"
        using pool_counts_bound [OF inv i] obj_size_dvd(3) [OF inv i] pool_invD(3) [OF mem_invD(4) [OF inv i]]
        by (simp_all add: pool_heaps_def)
      ultimately have "r = Some h \<and> pool_grown i h p (hp\<lparr>hp_mp := Some i, hp_heap := Some h\<rparr>) mm mm'"
        using grow a ok h E len
        by (auto simp: nvme_mem_pool_grow_def Let_def pool_grown_def upd_mp_def bitmap_bytes hp_hash_def
            simp del: One_nat_def)
      then show thesis using that(2) by blast
    qed
  qed
qed

lemma pool_grown_heaps:
  assumes G: "pool_grown i h p hp mm mm'" and len: "i < length (mm_mp mm)"
  shows "pool_heaps mm' i = h # pool_heaps mm i" "j \<noteq> i \<Longrightarrow> pool_heaps mm' j = pool_heaps mm j"
    "mp_size_bits (mm_mp mm' ! j) = mp_size_bits (mm_mp mm ! j)"
  using G len by (cases "j = i"; simp add: pool_grown_def Let_def pool_heaps_def)+

lemma pool_grown_old:
  assumes G: "pool_grown i h p hp mm mm'" and len: "i < length (mm_mp mm)" and ok: "heap_ok mm j h'"
  shows "heap_at mm' h' = heap_at mm h'" "hp_at mm' h' = hp_at mm h'" "heap_ok mm' j h'" "h' \<noteq> h"
proof -
  have ne: "h' \<noteq> h" "heap_hp (heap_at mm h') \<noteq> p"
    using heap_ok_links(1,2) [OF ok] G by (auto simp: pool_grown_def Let_def)
  then show "h' \<noteq> h" "heap_at mm' h' = heap_at mm h'" "hp_at mm' h' = hp_at mm h'"
    using G by (simp_all add: pool_grown_def Let_def)
  show "heap_ok mm' j h'"
    by (rule heap_ok_frame [OF ok]) (use G ne pool_grown_heaps(3) [OF G len] in \<open>simp_all add: pool_grown_def Let_def\<close>)
qed

lemma pool_grown_hp_inv:
  assumes G: "pool_grown i h p hp mm mm'" and inv: "hp_inv mm"
  shows "hp_inv mm'"
proof -
  let ?k = "hp_hash mm (hp_vaddr hp)"
  have G': "hps mm p = None" "hps mm' = (hps mm)(p \<mapsto> hp)" "hp_list mm' = (hp_list mm)[?k := p # hp_list mm ! ?k]"
    "hp_size mm' = hp_size mm" "\<And>q hq. hps mm q = Some hq \<Longrightarrow> hp_vaddr hq \<noteq> hp_vaddr hp"
    "hp_sz hp = hp_size mm" "hp_size mm dvd hp_vaddr hp" "hp_vaddr hp \<noteq> 0" "hp_vaddr hp + hp_size mm \<le> 2 ^ 64"
    and hh: "hp_hash mm' = hp_hash mm"
    using G by (auto simp: pool_grown_def Let_def hp_hash_def fun_eq_iff)
  have new: "p \<notin> set (hp_list mm ! k)" if "k < NVME_HP_HASH_SIZE" for k
    using hp_inv_list(3) [OF inv that] G'(1) by fastforce
  have len: "length (hp_list mm) = NVME_HP_HASH_SIZE" by (rule hp_inv_list(1) [OF inv])
  have 1: "\<forall>k<NVME_HP_HASH_SIZE. distinct (hp_list mm' ! k)
          \<and> (\<forall>q\<in>set (hp_list mm' ! k). \<exists>hq. hps mm' q = Some hq \<and> hp_hash mm' (hp_vaddr hq) = k)"
  proof (intro allI impI conjI ballI)
    fix k assume k: "k < NVME_HP_HASH_SIZE"
    show "distinct (hp_list mm' ! k)"
      using hp_inv_list(2) [OF inv k] new [OF k] len k by (simp add: G' nth_list_update)
    fix q assume "q \<in> set (hp_list mm' ! k)"
    then have "q = p \<and> k = ?k \<or> q \<in> set (hp_list mm ! k)"
      using len k by (auto simp: G' nth_list_update split: if_splits)
    then show "\<exists>hq. hps mm' q = Some hq \<and> hp_hash mm' (hp_vaddr hq) = k"
      using hp_inv_list(3) [OF inv k] new [OF k] by (auto simp: G'(2) hh)
  qed
  have 2: "q \<in> set (hp_list mm' ! hp_hash mm (hp_vaddr hq)) \<and> hp_sz hq = hp_size mm \<and> hp_size mm dvd hp_vaddr hq
      \<and> hp_vaddr hq \<noteq> 0 \<and> hp_vaddr hq + hp_size mm \<le> 2 ^ 64" if "hps mm' q = Some hq" for q hq
    using that hp_invD [OF inv, of q hq] len G'(6-9)
    by (cases "q = p") (auto simp: G'(2,3) nth_list_update)
  have 3: "q = r" if "hps mm' q = Some hq" "hps mm' r = Some hr" "hp_vaddr hq = hp_vaddr hr" for q r hq hr
    using that hp_inv_list(4) [OF inv, of q hq r hr] G'(5) by (cases "q = p"; cases "r = p") (auto simp: G'(2))
  show ?thesis unfolding hp_inv_def G'(4) hh using 1 [unfolded hh] 2 3 len by (simp add: G'(3))
qed

lemma pool_grown_owner_inv:
  assumes G: "pool_grown i h p hp mm mm'" and inv: "mem_inv mm" and i: "i < NVME_MP_NUM"
  shows "owner_inv mm'"
  unfolding owner_inv_def
proof (intro allI impI)
  fix q hq assume q: "hps mm' q = Some hq"
  have len: "i < length (mm_mp mm)" using i mem_sizesD(4) [OF inv] by simp
  note H = pool_grown_heaps [OF G len]
  show "\<exists>j h1. j < NVME_MP_NUM \<and> hp_mp hq = Some j \<and> hp_heap hq = Some h1
      \<and> h1 \<in> set (pool_heaps mm' j) \<and> (\<exists>heap1. heaps mm' h1 = Some heap1 \<and> heap_hp heap1 = q)"
  proof (cases "q = p")
    case True
    then show ?thesis using q G i H(1)
      by (intro exI [of _ i] exI [of _ h]) (simp add: pool_grown_def Let_def)
  next
    case False
    then have "hps mm q = Some hq" using q G by (simp add: pool_grown_def Let_def)
    then obtain j h1 heap1 where j: "j < NVME_MP_NUM" "hp_mp hq = Some j" "hp_heap hq = Some h1"
      "h1 \<in> set (pool_heaps mm j)" "heaps mm h1 = Some heap1" "heap_hp heap1 = q"
      using mem_invD(3) [OF inv] unfolding owner_inv_def by blast
    have "heaps mm' h1 = Some heap1"
      using G j(5) pool_grown_old(4) [OF G len pool_heap_ok [OF inv j(1,4)]] by (simp add: pool_grown_def Let_def)
    moreover have "h1 \<in> set (pool_heaps mm' j)" using j(4) H(1,2) by (cases "j = i") simp_all
    ultimately show ?thesis using j by blast
  qed
qed

lemma pool_grown_new_heap:
  assumes G: "pool_grown i h p hp mm mm'" and inv: "mem_inv mm" and i: "i < NVME_MP_NUM"
  defines "n \<equiv> hp_size mm div 2 ^ mp_size_bits (mm_mp mm ! i)"
  shows "heap_at mm' h = \<lparr>heap_hp = p, heap_nr_objs = n, heap_nr_free_objs = n,
      heap_bitmap = replicate (8 * ((n + 63) div 64)) 0\<rparr>" (is ?at)
    "heap_ok mm' i h" "n \<noteq> 0"
proof -
  show at: ?at using G by (simp add: pool_grown_def Let_def n_def)
  have "free_bits (heap_at mm' h) = {..<n}"
    unfolding at by (auto simp: free_bits_def bitmap_index_lt)
  then show "heap_ok mm' i h"
    using G i mem_sizesD(4) [OF inv]
    by (intro heap_okI [of _ _ "heap_at mm' h" hp]) (simp_all add: at pool_grown_def Let_def n_def)
  show "n \<noteq> 0"
    using obj_size_dvd(1) [OF inv i] mem_sizesD(1) [OF inv] unfolding n_def
    by (metis dvd_div_eq_0_iff power_not_zero zero_neq_numeral)
qed

lemma pool_grown_pool_inv:
  assumes G: "pool_grown i h p hp mm mm'" and inv: "mem_inv mm" and i: "i < NVME_MP_NUM"
  shows "pool_inv mm' i"
proof (rule pool_invI)
  let ?n = "hp_size mm div 2 ^ mp_size_bits (mm_mp mm ! i)"
  have len: "i < length (mm_mp mm)" using i mem_sizesD(4) [OF inv] by simp
  note H = pool_grown_heaps [OF G len] and P = mem_invD(4) [OF inv i]
    and N = pool_grown_new_heap [OF G inv i]
  have old: "heap_at mm' h' = heap_at mm h'" "heap_ok mm' i h'" "h' \<noteq> h" if "h' \<in> set (pool_heaps mm i)" for h'
    using pool_grown_old [OF G len pool_heap_ok [OF inv i that]] by simp_all
  have new: "h \<notin> set (pool_heaps mm i)" using old(3) by blast
  have sz: "mp_size (mm_mp mm ! i) = 2 ^ (NVME_MP_SIZE_BITS_MIN + i)" using P by (simp add: pool_inv_def Let_def)
  have mp: "mm_mp mm' ! i = (mm_mp mm ! i)\<lparr>mp_use_list := h # mp_use_list (mm_mp mm ! i),
            mp_nr_use := mp_nr_use (mm_mp mm ! i) + 1, mp_nr_objs := mp_nr_objs (mm_mp mm ! i) + ?n,
            mp_nr_free_objs := mp_nr_free_objs (mm_mp mm ! i) + ?n\<rparr>"
    using G len by (simp add: pool_grown_def Let_def)
  show "mp_size_bits (mm_mp mm' ! i) = NVME_MP_SIZE_BITS_MIN + i" using H(3) pool_invD(1) [OF P] by simp
  show "mp_size (mm_mp mm' ! i) = 2 ^ (NVME_MP_SIZE_BITS_MIN + i)" using sz by (simp add: mp)
  show "distinct (pool_heaps mm' i)" using new pool_invD(2) [OF P] by (simp add: H(1))
  show "mp_nr_use (mm_mp mm' ! i) = length (mp_use_list (mm_mp mm' ! i))"
    "mp_nr_full (mm_mp mm' ! i) = length (mp_full_list (mm_mp mm' ! i))"
    using pool_invD(3,4) [OF P] by (simp_all add: mp)
  show "heap_ok mm' i h'" if "h' \<in> set (pool_heaps mm' i)" for h'
    using that N(2) old(2) by (auto simp: H(1))
  show "heap_nr_free_objs (heap_at mm' h') \<noteq> 0" if "h' \<in> set (mp_use_list (mm_mp mm' ! i))" for h'
    using that pool_invD(6) [OF P] old(1) N(1,3) by (cases "h' = h") (simp_all add: mp pool_heaps_def)
  show "heap_nr_free_objs (heap_at mm' h') = 0" if "h' \<in> set (mp_full_list (mm_mp mm' ! i))" for h'
    using that pool_invD(7) [OF P] old(1) by (simp add: mp pool_heaps_def)
  have "(\<Sum>h'\<in>set (pool_heaps mm i). f (heap_at mm' h')) = (\<Sum>h'\<in>set (pool_heaps mm i). f (heap_at mm h'))"
    for f :: "nvme_heap \<Rightarrow> nat" by (rule sum.cong [OF refl]) (simp add: old(1))
  then show "mp_nr_objs (mm_mp mm' ! i) = (\<Sum>h\<in>set (pool_heaps mm' i). heap_nr_objs (heap_at mm' h))"
    "mp_nr_free_objs (mm_mp mm' ! i) = (\<Sum>h\<in>set (pool_heaps mm' i). heap_nr_free_objs (heap_at mm' h))"
    using new pool_invD(8,9) [OF P] by (simp_all add: mp H(1) N(1))
qed

lemma pool_grown_inv:
  assumes G: "pool_grown i h p hp mm mm'" and inv: "mem_inv mm" and i: "i < NVME_MP_NUM"
  shows "mem_inv mm'"
proof -
  have len: "i < length (mm_mp mm)" using i mem_sizesD(4) [OF inv] by simp
  have "mem_sizes mm'" using mem_invD(1) [OF inv] G by (simp add: mem_sizes_def pool_grown_def Let_def)
  moreover have "hp_inv mm'" by (rule pool_grown_hp_inv [OF G mem_invD(2) [OF inv]])
  moreover have "pool_inv mm' j" if "j < NVME_MP_NUM" for j
  proof (cases "j = i")
    case True
    then show ?thesis using pool_grown_pool_inv [OF G inv i] by simp
  next
    case False
    then show ?thesis
      using G pool_grown_old [OF G len pool_heap_ok [OF inv that]]
      by (intro pool_inv_frame [OF mem_invD(4) [OF inv that]]) (auto simp: pool_grown_def Let_def)
  qed
  ultimately show ?thesis unfolding mem_inv_def using pool_grown_owner_inv [OF G inv i] by blast
qed

lemma live_objs_grown:
  assumes G: "pool_grown i h p hp mm mm'" and inv: "mem_inv mm" and i: "i < NVME_MP_NUM" and j: "j < NVME_MP_NUM"
  shows "live_objs mm' j = live_objs mm j"
proof -
  have len: "i < length (mm_mp mm)" using i mem_sizesD(4) [OF inv] by simp
  note H = pool_grown_heaps [OF G len] and O = pool_grown_old [OF G len pool_heap_ok [OF inv j]]
  have addr: "obj_addr mm' j h' b = obj_addr mm j h' b" if "h' \<in> set (pool_heaps mm j)" for h' b
    using O(2) [OF that] H(3) by (simp add: obj_addr_def)
  have "\<not> test_bit_bm (heap_bitmap (heap_at mm' h)) b" if "b < heap_nr_objs (heap_at mm' h)" for b
    using that unfolding pool_grown_new_heap(1) [OF G inv i] by (simp add: bitmap_index_lt)
  moreover have "set (pool_heaps mm' j) = set (pool_heaps mm j) \<or> j = i \<and> set (pool_heaps mm' j) = insert h (set (pool_heaps mm j))"
    using H(1,2) by (cases "j = i") simp_all
  ultimately show ?thesis
    unfolding live_objs_def using O(1) addr by (intro Collect_cong) (metis insert_iff)
qed

subsection \<open>Allocation from a pool\<close>

text \<open>
  The abstract step of a successful allocation: a new object appears in pool \<open>i\<close>, the other
  pools keep theirs.
\<close>

definition alloc_step :: "nat \<Rightarrow> nat \<Rightarrow> nvme_mem \<Rightarrow> nvme_mem \<Rightarrow> bool" where
  "alloc_step i a mm mm' \<longleftrightarrow> a \<notin> live_objs mm i \<and> live_objs mm' i = insert a (live_objs mm i)
     \<and> (\<forall>j<NVME_MP_NUM. j \<noteq> i \<longrightarrow> live_objs mm' j = live_objs mm j)"

lemma pool_take_step:
  assumes inv: "mem_inv mm" and i: "i < NVME_MP_NUM" and h: "h \<in> set (pool_heaps mm i)"
    and b: "b < heap_nr_objs (heap_at mm h)" "\<not> test_bit_bm (heap_bitmap (heap_at mm h)) b"
    and upd: "heap_update i h heap' mm mm'" "heap_bitmap heap' = set_bit_bm (heap_bitmap (heap_at mm h)) b"
  shows "alloc_step i (obj_addr mm i h b) mm mm'"
proof -
  have bd: "b div 8 < length (heap_bitmap (heap_at mm h))" by (rule heap_nr_objs_bounds(2) [OF inv i h b(1)])
  have "obj_addr mm i h b \<notin> live_objs mm i"
    using obj_addr_inj [OF inv i h b(1) i] b(2) unfolding live_objs_def by blast
  moreover have "live_objs mm' i = insert (obj_addr mm i h b) (live_objs mm i)"
    unfolding live_objs_update [OF upd(1) h] upd(2) test_set_bit_bm [OF bd]
    using h b(1) unfolding live_objs_def by blast
  ultimately show ?thesis
    using live_objs_update_other [OF upd(1) inv i h] by (simp add: alloc_step_def)
qed

lemma pool_alloc_cases:
  assumes alloc: "nvme_mem_pool_alloc env mm i = (r, mm')" and inv: "mem_inv mm"
    and env: "env_ok env mm" and i: "i < NVME_MP_NUM"
  obtains (fail) t where "r = None" "mm' = mm\<lparr>hp_tmp := t\<rparr>" "nvme_mem_pool_grow env mm i = (None, mm')"
      "mp_use_list (mm_mp mm ! i) = []"
  | (ok) h b a where "r = Some (a, hp_paddr (hp_at mm' h) + of_nat (b * 2 ^ mp_size_bits (mm_mp mm' ! i)))"
      "a = obj_addr mm' i h b" "h \<in> set (pool_heaps mm' i)" "b < heap_nr_objs (heap_at mm' h)"
      "mem_inv mm'" "alloc_step i a mm mm'"
proof -
  have take: thesis if m: "mem_inv m" "h \<in> set (mp_use_list (mm_mp m ! i))" "pool_take m i h = (r, mm')"
    "\<And>j. j < NVME_MP_NUM \<Longrightarrow> live_objs m j = live_objs mm j" for m h
  proof -
    have ph: "h \<in> set (pool_heaps m i)" using m(2) by (simp add: pool_heaps_def)
    obtain b heap' where T: "r = Some (obj_addr m i h b, hp_paddr (hp_at m h) + of_nat (b * 2 ^ mp_size_bits (mm_mp m ! i)))"
      "b < heap_nr_objs (heap_at m h)" "\<not> test_bit_bm (heap_bitmap (heap_at m h)) b"
      "heap_update i h heap' m mm'" "heap_bitmap heap' = set_bit_bm (heap_bitmap (heap_at m h)) b" "mem_inv mm'"
      using pool_take_ok [OF m(1) i m(2)] m(3) by (metis prod.inject)
    have "alloc_step i (obj_addr m i h b) mm mm'"
      using pool_take_step [OF m(1) i ph T(2-5)] m(4) i by (simp add: alloc_step_def)
    moreover have "hp_at mm' h = hp_at m h" "heap_nr_objs (heap_at mm' h) = heap_nr_objs (heap_at m h)"
      "mp_size_bits (mm_mp mm' ! i) = mp_size_bits (mm_mp m ! i)" "set (pool_heaps mm' i) = set (pool_heaps m i)"
      using T(4) by (simp_all add: heap_update_def)
    ultimately show thesis
      using T(1,2,6) ph heap_update_obj_addr [OF T(4)] by (intro ok [of "obj_addr m i h b" h b]) simp_all
  qed
  note P = mem_invD(4) [OF inv i]
  show thesis
  proof (cases "mp_use_list (mm_mp mm ! i)")
    case (Cons h hs)
    then show thesis using alloc pool_invD(3) [OF P]
      by (intro take [OF inv, of h]) (simp_all add: nvme_mem_pool_alloc_def)
  next
    case Nil
    obtain g m where g: "nvme_mem_pool_grow env mm i = (g, m)" by fastforce
    have al: "(case g of None \<Rightarrow> (None, m) | Some h \<Rightarrow> pool_take m i h) = (r, mm')"
      using alloc g pool_invD(3) [OF P] Nil by (simp add: nvme_mem_pool_alloc_def)
    from g inv env i show thesis
    proof (cases rule: pool_grow_cases)
      case (fail t)
      then show thesis using al that(1) g Nil by auto
    next
      case (ok h p hp)
      have "h \<in> set (mp_use_list (mm_mp m ! i))"
        using ok(2) i mem_sizesD(4) [OF inv] by (simp add: pool_grown_def Let_def)
      then show thesis using al ok
        by (intro take [OF pool_grown_inv [OF ok(2) inv i]]) (simp_all add: live_objs_grown [OF ok(2) inv i])
    qed
  qed
qed

subsection \<open>Releasing heaps\<close>

text \<open>What giving back a heap of the use list does to the memory manager.\<close>

definition heap_freed :: "nat \<Rightarrow> nat \<Rightarrow> nvme_mem \<Rightarrow> nvme_mem \<Rightarrow> bool" where
  "heap_freed i h mm mm' \<longleftrightarrow>
     (let p = heap_hp (heap_at mm h); k = hp_hash mm (hp_vaddr (hp_at mm h)); mp = mm_mp mm ! i
      in hps mm' = (hps mm)(p := None) \<and> heaps mm' = (heaps mm)(h := None)
         \<and> hp_list mm' = (hp_list mm)[k := remove1 p (hp_list mm ! k)]
         \<and> hp_size mm' = hp_size mm \<and> hp_size_bits mm' = hp_size_bits mm
         \<and> nr_hp mm' = nr_hp mm - 1
         \<and> mm_mp mm' = (mm_mp mm)[i := mp\<lparr>mp_use_list := remove1 h (mp_use_list mp),
              mp_nr_use := mp_nr_use mp - 1, mp_nr_objs := mp_nr_objs mp - heap_nr_objs (heap_at mm h),
              mp_nr_free_objs := mp_nr_free_objs mp - heap_nr_free_objs (heap_at mm h)\<rparr>])"

lemma free_heap_freed:
  assumes inv: "mem_inv mm" and i: "i < NVME_MP_NUM" and h: "h \<in> set (mp_use_list (mm_mp mm ! i))"
  shows "heap_freed i h mm (free_heap mm i h)"
proof -
  have ph: "h \<in> set (pool_heaps mm i)" using h by (simp add: pool_heaps_def)
  note P = mem_invD(4) [OF inv i]
  have "heap_nr_objs (heap_at mm h) \<le> mp_nr_objs (mm_mp mm ! i)"
    "heap_nr_free_objs (heap_at mm h) \<le> mp_nr_free_objs (mm_mp mm ! i)"
    unfolding pool_invD(8,9) [OF P] using ph by (auto intro: member_le_sum)
  moreover have "1 \<le> mp_nr_use (mm_mp mm ! i)"
    using length_pos_if_in_set [OF h] pool_invD(3) [OF P] by (simp add: Suc_le_eq)
  ultimately show ?thesis
    using pool_counts_bound [OF inv i] pool_invD(3) [OF P]
    by (simp add: heap_freed_def free_heap_def nvme_mem_free_hp_def Let_def upd_mp_def pool_heaps_def hp_hash_def
        del: One_nat_def)
qed

lemma heap_freed_heaps:
  assumes F: "heap_freed i h mm mm'" and inv: "mem_inv mm" and i: "i < NVME_MP_NUM"
    and h: "h \<in> set (mp_use_list (mm_mp mm ! i))"
  shows "set (pool_heaps mm' i) = set (pool_heaps mm i) - {h}" "distinct (pool_heaps mm' i)"
    "j \<noteq> i \<Longrightarrow> pool_heaps mm' j = pool_heaps mm j"
    "mp_size_bits (mm_mp mm' ! j) = mp_size_bits (mm_mp mm ! j)"
proof -
  have len: "i < length (mm_mp mm)" using i mem_sizesD(4) [OF inv] by simp
  have d: "distinct (mp_use_list (mm_mp mm ! i) @ mp_full_list (mm_mp mm ! i))"
    using pool_invD(2) [OF mem_invD(4) [OF inv i]] by (simp add: pool_heaps_def)
  show "set (pool_heaps mm' i) = set (pool_heaps mm i) - {h}" "distinct (pool_heaps mm' i)"
    using F len d h by (auto simp: heap_freed_def Let_def pool_heaps_def)
  show "j \<noteq> i \<Longrightarrow> pool_heaps mm' j = pool_heaps mm j"
    "mp_size_bits (mm_mp mm' ! j) = mp_size_bits (mm_mp mm ! j)"
    using F len by (cases "j = i"; simp add: heap_freed_def Let_def pool_heaps_def)+
qed

lemma heap_freed_old:
  assumes F: "heap_freed i h mm mm'" and inv: "mem_inv mm" and i: "i < NVME_MP_NUM"
    and h: "h \<in> set (mp_use_list (mm_mp mm ! i))"
    and j: "j < NVME_MP_NUM" and h': "h' \<in> set (pool_heaps mm j)" "h' \<noteq> h"
  shows "heaps mm' h' = heaps mm h'" "hp_at mm' h' = hp_at mm h'" "heap_ok mm' j h'"
proof -
  have ph: "h \<in> set (pool_heaps mm i)" using h by (simp add: pool_heaps_def)
  note ok = pool_heap_ok [OF inv j h'(1)] and okh = pool_heap_ok [OF inv i ph]
  have ne: "heap_hp (heap_at mm h') \<noteq> heap_hp (heap_at mm h)"
    using heap_hp_inj [OF ok okh] h'(2) by blast
  show "heaps mm' h' = heaps mm h'" "hp_at mm' h' = hp_at mm h'"
    using F h'(2) ne by (simp_all add: heap_freed_def Let_def)
  show "heap_ok mm' j h'"
    by (rule heap_ok_frame [OF ok])
       (use F h'(2) ne heap_freed_heaps(4) [OF F inv i h] in \<open>simp_all add: heap_freed_def Let_def\<close>)
qed

lemma heap_freed_hp_inv:
  assumes F: "heap_freed i h mm mm'" and inv: "mem_inv mm" and i: "i < NVME_MP_NUM"
    and h: "h \<in> set (pool_heaps mm i)"
  shows "hp_inv mm'"
proof -
  let ?p = "heap_hp (heap_at mm h)" and ?k = "hp_hash mm (hp_vaddr (hp_at mm h))"
  note I = mem_invD(2) [OF inv] and ok = pool_heap_ok [OF inv i h]
  have F': "hps mm' = (hps mm)(?p := None)" "hp_list mm' = (hp_list mm)[?k := remove1 ?p (hp_list mm ! ?k)]"
    "hp_size mm' = hp_size mm" and hh: "hp_hash mm' = hp_hash mm"
    using F by (simp_all add: heap_freed_def Let_def hp_hash_def fun_eq_iff)
  have len: "length (hp_list mm) = NVME_HP_HASH_SIZE" by (rule hp_inv_list(1) [OF I])
  have set: "set (hp_list mm' ! k) = set (hp_list mm ! k) - {?p}" "distinct (hp_list mm' ! k)"
    if k: "k < NVME_HP_HASH_SIZE" for k
  proof -
    have "?p \<notin> set (hp_list mm ! k)" if "k \<noteq> ?k"
      using hp_inv_list(3) [OF I k, of ?p] heap_ok_links(2) [OF ok] that by fastforce
    then show "set (hp_list mm' ! k) = set (hp_list mm ! k) - {?p}" "distinct (hp_list mm' ! k)"
      using hp_inv_list(2) [OF I k] k len by (auto simp: F' nth_list_update)
  qed
  have 1: "\<exists>hq. hps mm' q = Some hq \<and> hp_hash mm (hp_vaddr hq) = k"
    if "k < NVME_HP_HASH_SIZE" "q \<in> set (hp_list mm' ! k)" for k q
    using hp_inv_list(3) [OF I that(1), of q] that set(1) [OF that(1)] by (auto simp: F'(1))
  have 2: "q \<in> set (hp_list mm' ! hp_hash mm (hp_vaddr hq)) \<and> hp_sz hq = hp_size mm \<and> hp_size mm dvd hp_vaddr hq
      \<and> hp_vaddr hq \<noteq> 0 \<and> hp_vaddr hq + hp_size mm \<le> 2 ^ 64" if "hps mm' q = Some hq" for q hq
    using that hp_invD [OF I, of q hq] by (auto simp: F'(1) set(1) split: if_splits)
  have 3: "q = r" if "hps mm' q = Some hq" "hps mm' r = Some hr" "hp_vaddr hq = hp_vaddr hr" for q r hq hr
    using that hp_inv_list(4) [OF I, of q hq r hr] by (auto simp: F'(1) split: if_splits)
  show ?thesis unfolding hp_inv_def F'(3) hh using 1 2 3 set(2) len by (simp add: F'(2))
qed

lemma heap_freed_owner_inv:
  assumes F: "heap_freed i h mm mm'" and inv: "mem_inv mm" and i: "i < NVME_MP_NUM"
    and h: "h \<in> set (mp_use_list (mm_mp mm ! i))"
  shows "owner_inv mm'"
  unfolding owner_inv_def
proof (intro allI impI)
  fix q hq assume "hps mm' q = Some hq"
  then have q: "hps mm q = Some hq" "q \<noteq> heap_hp (heap_at mm h)"
    using F by (auto simp: heap_freed_def Let_def split: if_splits)
  then obtain j h1 heap1 where j: "j < NVME_MP_NUM" "hp_mp hq = Some j" "hp_heap hq = Some h1"
    "h1 \<in> set (pool_heaps mm j)" "heaps mm h1 = Some heap1" "heap_hp heap1 = q"
    using mem_invD(3) [OF inv] unfolding owner_inv_def by blast
  have ne: "h1 \<noteq> h" using j(5,6) q(2) by auto
  have "heaps mm' h1 = Some heap1" using heap_freed_old(1) [OF F inv i h j(1,4) ne] j(5) by simp
  moreover have "h1 \<in> set (pool_heaps mm' j)"
    using heap_freed_heaps(1,3) [OF F inv i h] j(4) ne by (cases "j = i") simp_all
  ultimately show "\<exists>j h1. j < NVME_MP_NUM \<and> hp_mp hq = Some j \<and> hp_heap hq = Some h1
      \<and> h1 \<in> set (pool_heaps mm' j) \<and> (\<exists>heap1. heaps mm' h1 = Some heap1 \<and> heap_hp heap1 = q)"
    using j by blast
qed

lemma heap_freed_pool_inv:
  assumes F: "heap_freed i h mm mm'" and inv: "mem_inv mm" and i: "i < NVME_MP_NUM"
    and h: "h \<in> set (mp_use_list (mm_mp mm ! i))"
  shows "pool_inv mm' i"
proof (rule pool_invI)
  note P = mem_invD(4) [OF inv i] and H = heap_freed_heaps [OF F inv i h] and old = heap_freed_old [OF F inv i h i]
  have ph: "h \<in> set (pool_heaps mm i)" using h by (simp add: pool_heaps_def)
  have d: "distinct (mp_use_list (mm_mp mm ! i))" using pool_invD(2) [OF P] by (simp add: pool_heaps_def)
  have mp: "mm_mp mm' ! i = (mm_mp mm ! i)\<lparr>mp_use_list := remove1 h (mp_use_list (mm_mp mm ! i)),
      mp_nr_use := mp_nr_use (mm_mp mm ! i) - 1,
      mp_nr_objs := mp_nr_objs (mm_mp mm ! i) - heap_nr_objs (heap_at mm h),
      mp_nr_free_objs := mp_nr_free_objs (mm_mp mm ! i) - heap_nr_free_objs (heap_at mm h)\<rparr>"
    using F i mem_sizesD(4) [OF inv] by (simp add: heap_freed_def Let_def)
  show "mp_size_bits (mm_mp mm' ! i) = NVME_MP_SIZE_BITS_MIN + i" using H(4) pool_invD(1) [OF P] by simp
  show "mp_size (mm_mp mm' ! i) = 2 ^ (NVME_MP_SIZE_BITS_MIN + i)"
    using P by (simp add: mp pool_inv_def Let_def)
  show "distinct (pool_heaps mm' i)" by (rule H(2))
  show "mp_nr_use (mm_mp mm' ! i) = length (mp_use_list (mm_mp mm' ! i))"
    "mp_nr_full (mm_mp mm' ! i) = length (mp_full_list (mm_mp mm' ! i))"
    using pool_invD(3,4) [OF P] h by (simp_all add: mp length_remove1)
  show "heap_ok mm' i h'" if "h' \<in> set (pool_heaps mm' i)" for h'
    using that old(3) by (simp add: H(1))
  show "heap_nr_free_objs (heap_at mm' h') \<noteq> 0" if "h' \<in> set (mp_use_list (mm_mp mm' ! i))" for h'
    using that pool_invD(6) [OF P] old(1) d by (simp add: mp pool_heaps_def)
  show "heap_nr_free_objs (heap_at mm' h') = 0" if "h' \<in> set (mp_full_list (mm_mp mm' ! i))" for h'
  proof -
    have "h' \<noteq> h" "h' \<in> set (pool_heaps mm i)"
      using that pool_invD(2) [OF P] h by (auto simp: mp pool_heaps_def)
    then show ?thesis using that pool_invD(7) [OF P] old(1) by (simp add: mp)
  qed
  have "(\<Sum>h'\<in>set (pool_heaps mm' i). f (heap_at mm' h')) = (\<Sum>h'\<in>set (pool_heaps mm i). f (heap_at mm h')) - f (heap_at mm h)"
    for f :: "nvme_heap \<Rightarrow> nat"
  proof -
    have "(\<Sum>h'\<in>set (pool_heaps mm' i). f (heap_at mm' h')) = (\<Sum>h'\<in>set (pool_heaps mm i) - {h}. f (heap_at mm h'))"
      unfolding H(1) by (rule sum.cong [OF refl]) (use old(1) in auto)
    also have "\<dots> = (\<Sum>h'\<in>set (pool_heaps mm i). f (heap_at mm h')) - f (heap_at mm h)"
      using ph by (simp add: sum_diff1_nat)
    finally show ?thesis .
  qed
  then show "mp_nr_objs (mm_mp mm' ! i) = (\<Sum>h\<in>set (pool_heaps mm' i). heap_nr_objs (heap_at mm' h))"
    "mp_nr_free_objs (mm_mp mm' ! i) = (\<Sum>h\<in>set (pool_heaps mm' i). heap_nr_free_objs (heap_at mm' h))"
    using pool_invD(8,9) [OF P] by (simp_all add: mp)
qed

lemma free_heap_inv:
  assumes inv: "mem_inv mm" and i: "i < NVME_MP_NUM" and h: "h \<in> set (mp_use_list (mm_mp mm ! i))"
  shows "mem_inv (free_heap mm i h)"
proof -
  let ?m = "free_heap mm i h"
  note F = free_heap_freed [OF inv i h]
  have ph: "h \<in> set (pool_heaps mm i)" using h by (simp add: pool_heaps_def)
  have "mem_sizes ?m" using mem_invD(1) [OF inv] F by (simp add: mem_sizes_def heap_freed_def Let_def)
  moreover have "pool_inv ?m j" if "j < NVME_MP_NUM" for j
  proof (cases "j = i")
    case True
    then show ?thesis using heap_freed_pool_inv [OF F inv i h] by simp
  next
    case False
    have ne: "h' \<noteq> h" if "h' \<in> set (pool_heaps mm j)" for h'
      using heap_ok_unique [OF pool_heap_ok [OF inv \<open>j < NVME_MP_NUM\<close> that]] pool_heap_ok [OF inv i ph] False by blast
    show ?thesis
      using F False heap_freed_old(1,3) [OF F inv i h that] ne
      by (intro pool_inv_frame [OF mem_invD(4) [OF inv that]]) (auto simp: heap_freed_def Let_def)
  qed
  ultimately show ?thesis
    unfolding mem_inv_def using heap_freed_owner_inv [OF F inv i h] heap_freed_hp_inv [OF F inv i ph] by blast
qed

text \<open>An empty heap carries no object.\<close>

lemma heap_empty_no_bits:
  assumes ok: "heap_ok mm i h" and e: "nvme_heap_empty (heap_at mm h)" and b: "b < heap_nr_objs (heap_at mm h)"
  shows "\<not> test_bit_bm (heap_bitmap (heap_at mm h)) b"
proof -
  have sub: "free_bits (heap_at mm h) \<subseteq> {..<heap_nr_objs (heap_at mm h)}" by (auto simp: free_bits_def)
  have "card (free_bits (heap_at mm h)) = card {..<heap_nr_objs (heap_at mm h)}"
    using heap_ok_counts(3) [OF ok] e by (simp add: nvme_heap_empty_def)
  then have "free_bits (heap_at mm h) = {..<heap_nr_objs (heap_at mm h)}"
    by (intro card_subset_eq [OF _ sub]) simp_all
  then show ?thesis using b by (auto simp: free_bits_def)
qed

lemma free_heap_live:
  assumes inv: "mem_inv mm" and i: "i < NVME_MP_NUM" and h: "h \<in> set (mp_use_list (mm_mp mm ! i))"
    and e: "nvme_heap_empty (heap_at mm h)" and j: "j < NVME_MP_NUM"
  shows "live_objs (free_heap mm i h) j = live_objs mm j"
proof -
  note F = free_heap_freed [OF inv i h]
  note H = heap_freed_heaps [OF F inv i h] and old = heap_freed_old [OF F inv i h j]
  have ph: "h \<in> set (pool_heaps mm i)" using h by (simp add: pool_heaps_def)
  note ok = pool_heap_ok [OF inv i ph]
  have "set (pool_heaps (free_heap mm i h) j) = set (pool_heaps mm j) - {h}"
    using H(1,3) heap_ok_unique [OF pool_heap_ok [OF inv j] ok] by (cases "j = i") auto
  moreover have "obj_addr (free_heap mm i h) j h' b = obj_addr mm j h' b"
    if "h' \<in> set (pool_heaps mm j) - {h}" for h' b
    using old(2) [of h'] that H(4) by (simp add: obj_addr_def)
  ultimately show ?thesis
    unfolding live_objs_def using heap_empty_no_bits [OF ok e] old(1)
    by (intro Collect_cong) (metis Diff_iff insertCI insertE empty_iff)
qed

lemma shrink_loop_inv:
  assumes "mem_inv mm" "i < NVME_MP_NUM" "set hs \<subseteq> set (mp_use_list (mm_mp mm ! i))" "distinct hs"
  shows "mem_inv (shrink_loop i force hs n mm)
    \<and> (\<not> force \<longrightarrow> (\<forall>j<NVME_MP_NUM. live_objs (shrink_loop i force hs n mm) j = live_objs mm j))"
  using assms
proof (induction hs arbitrary: n mm)
  case Nil
  then show ?case by simp
next
  case (Cons h hs)
  let ?m = "free_heap mm i h"
  have h: "h \<in> set (mp_use_list (mm_mp mm ! i))" using Cons.prems by simp
  note F = free_heap_freed [OF Cons.prems(1,2) h]
  have "distinct (mp_use_list (mm_mp mm ! i))"
    using pool_invD(2) [OF mem_invD(4) [OF Cons.prems(1,2)]] by (simp add: pool_heaps_def)
  then have sub: "set hs \<subseteq> set (mp_use_list (mm_mp ?m ! i))"
    using F Cons.prems mem_sizesD(4) [OF Cons.prems(1)] by (auto simp: heap_freed_def Let_def)
  have freed: "mem_inv (shrink_loop i force hs k ?m)
      \<and> (\<not> force \<longrightarrow> (\<forall>j<NVME_MP_NUM. live_objs (shrink_loop i force hs k ?m) j = live_objs ?m j))" for k
    using Cons.IH [OF free_heap_inv [OF Cons.prems(1,2) h] Cons.prems(2) sub] Cons.prems(4) by simp
  show ?case
    using freed Cons.IH [OF Cons.prems(1,2)] Cons.prems(3,4) free_heap_live [OF Cons.prems(1,2) h]
    by (auto simp: Let_def)
qed

subsection \<open>Releasing objects\<close>

lemma pool_shrink_inv:
  assumes "mem_inv mm" "i < NVME_MP_NUM"
  shows "mem_inv (nvme_mem_pool_shrink mm i force)"
    "\<not> force \<Longrightarrow> j < NVME_MP_NUM \<Longrightarrow> live_objs (nvme_mem_pool_shrink mm i force) j = live_objs mm j"
proof -
  have "distinct (mp_use_list (mm_mp mm ! i))"
    using pool_invD(2) [OF mem_invD(4) [OF assms]] by (simp add: pool_heaps_def)
  from shrink_loop_inv [OF assms subset_refl this, of force 0]
  show "mem_inv (nvme_mem_pool_shrink mm i force)"
    "\<not> force \<Longrightarrow> j < NVME_MP_NUM \<Longrightarrow> live_objs (nvme_mem_pool_shrink mm i force) j = live_objs mm j"
    unfolding nvme_mem_pool_shrink_def by blast+
qed

text \<open>The state of \<^verbatim>\<open>nvme_mem_pool_free\<close> before the pool is shrunk.\<close>

lemma pool_free_update:
  assumes inv: "mem_inv mm" and i: "i < NVME_MP_NUM" and h: "h \<in> set (pool_heaps mm i)"
    and a: "hp_vaddr (hp_at mm h) \<le> a" "a < hp_vaddr (hp_at mm h) + hp_size mm"
    and b: "b = (a - hp_vaddr (hp_at mm h)) div 2 ^ mp_size_bits (mm_mp mm ! i)"
    and t: "test_bit_bm (heap_bitmap (heap_at mm h)) b"
  obtains heap' mm1 where "heap_update i h heap' mm mm1" "mem_inv mm1"
    "heap_bitmap heap' = clear_bit_bm (heap_bitmap (heap_at mm h)) b"
    "nvme_mem_pool_free mm i h a = (if nvme_heap_empty heap' then nvme_mem_pool_shrink mm1 i False else mm1)"
proof -
  let ?heap = "heap_at mm h" and ?mp = "mm_mp mm ! i" and ?hp = "hp_at mm h"
  note ok = pool_heap_ok [OF inv i h] and P = mem_invD(4) [OF inv i]
  have bn: "b < heap_nr_objs ?heap" by (rule addr_in_obj(1) [OF inv i h a b])
  note bd = pool_counts_bound [OF inv i] heap_nr_objs_bounds [OF inv i h]
  have ne: "heap_nr_free_objs ?heap \<noteq> heap_nr_objs ?heap"
    using heap_empty_no_bits [OF ok _ bn] t by (auto simp: nvme_heap_empty_def)
  define heap' where "heap' = ?heap\<lparr>heap_bitmap := clear_bit_bm (heap_bitmap ?heap) b,
    heap_nr_free_objs := heap_nr_free_objs ?heap + 1\<rparr>"
  define mm1 where "mm1 = mm\<lparr>heaps := (heaps mm)(h \<mapsto> heap'),
    mm_mp := (mm_mp mm)[i := (if nvme_heap_full ?heap
       then ?mp\<lparr>mp_full_list := remove1 h (mp_full_list ?mp), mp_nr_full := mp_nr_full ?mp - 1,
               mp_use_list := h # mp_use_list ?mp, mp_nr_use := mp_nr_use ?mp + 1,
               mp_nr_free_objs := mp_nr_free_objs ?mp + 1\<rparr>
       else ?mp\<lparr>mp_nr_free_objs := mp_nr_free_objs ?mp + 1\<rparr>)]\<rparr>"
  have len: "i < length (mm_mp mm)" using i mem_sizesD(4) [OF inv] by simp
  have full: "nvme_heap_full ?heap \<longleftrightarrow> h \<in> set (mp_full_list ?mp)" "nvme_heap_full ?heap \<longleftrightarrow> h \<notin> set (mp_use_list ?mp)"
    using h pool_invD(6,7) [OF P, of h] by (auto simp: pool_heaps_def nvme_heap_full_def)
  have s: "sz_add (heap_nr_free_objs ?heap) 1 = heap_nr_free_objs ?heap + 1"
    "sz_add (mp_nr_free_objs ?mp) 1 = mp_nr_free_objs ?mp + 1" "sz_add (mp_nr_use ?mp) 1 = mp_nr_use ?mp + 1"
    "nvme_heap_full ?heap \<Longrightarrow> sz_sub (mp_nr_full ?mp) 1 = mp_nr_full ?mp - 1"
    using bd(1,2,3,6) pool_invD(3,4) [OF P] length_pos_if_in_set [of h "mp_full_list ?mp"] full(1)
    by (simp_all add: pool_heaps_def Suc_le_eq)
  have eq: "nvme_mem_pool_free mm i h a = (if nvme_heap_empty heap' then nvme_mem_pool_shrink mm1 i False else mm1)"
    using a t ne len heap_hp_inv(1) [OF inv i h]
    by (simp add: nvme_mem_pool_free_def Let_def upd_mp_def mm1_def heap'_def s b [symmetric] del: One_nat_def)
  have dist: "distinct (mp_use_list ?mp @ mp_full_list ?mp)"
    using pool_invD(2) [OF P] by (simp add: pool_heaps_def)
  have upd: "heap_update i h heap' mm mm1"
    using len dist full by (auto simp: heap_update_def mm1_def heap'_def pool_heaps_def)
  have "b \<notin> free_bits ?heap" using t by (simp add: free_bits_def)
  then have "heap_nr_free_objs heap' = card (free_bits heap')"
    using heap_ok_counts(3) [OF ok] by (simp add: heap'_def free_bits_clear [OF bd(5) [OF bn] bn])
  moreover have "mp_nr_free_objs (mm_mp mm1 ! i) + heap_nr_free_objs ?heap
      = mp_nr_free_objs ?mp + heap_nr_free_objs heap'"
    using len by (simp add: mm1_def heap'_def)
  ultimately have "mem_inv mm1"
    by (intro heap_update_inv [OF upd inv i h])
       (use len dist full pool_invD(3,4,6,7) [OF P] in
        \<open>auto simp: mm1_def pool_heaps_def heap'_def length_remove1 split: if_splits\<close>)
  then show thesis using upd eq by (intro that [of heap' mm1]) (simp_all add: heap'_def)
qed

text \<open>
  Releasing address \<open>a\<close> of pool \<open>i\<close> removes the object that contains it, and only that one.
\<close>

definition free_step :: "nat \<Rightarrow> nvme_mem \<Rightarrow> nvme_mem \<Rightarrow> bool" where
  "free_step a mm mm' \<longleftrightarrow> (\<forall>j<NVME_MP_NUM. live_objs mm' j =
     {x \<in> live_objs mm j. \<not> (x \<le> a \<and> a < x + 2 ^ (NVME_MP_SIZE_BITS_MIN + j))})"

lemma live_objsI:
  "h \<in> set (pool_heaps mm i) \<Longrightarrow> b < heap_nr_objs (heap_at mm h) \<Longrightarrow> test_bit_bm (heap_bitmap (heap_at mm h)) b
   \<Longrightarrow> obj_addr mm i h b \<in> live_objs mm i"
  unfolding live_objs_def by blast

lemma live_objsE:
  assumes "x \<in> live_objs mm i"
  obtains h b where "x = obj_addr mm i h b" "h \<in> set (pool_heaps mm i)" "b < heap_nr_objs (heap_at mm h)"
    "test_bit_bm (heap_bitmap (heap_at mm h)) b"
  using assms unfolding live_objs_def by blast

lemma pool_size_bits: "mem_inv mm \<Longrightarrow> i < NVME_MP_NUM \<Longrightarrow> mp_size_bits (mm_mp mm ! i) = NVME_MP_SIZE_BITS_MIN + i"
  by (rule pool_invD(1) [OF mem_invD(4)])

lemma pool_free_step:
  assumes inv: "mem_inv mm" and i: "i < NVME_MP_NUM" and h: "h \<in> set (pool_heaps mm i)"
    and a: "hp_vaddr (hp_at mm h) \<le> a" "a < hp_vaddr (hp_at mm h) + hp_size mm"
  shows "mem_inv (nvme_mem_pool_free mm i h a)" "free_step a mm (nvme_mem_pool_free mm i h a)"
    "\<not> test_bit_bm (heap_bitmap (heap_at mm h)) ((a - hp_vaddr (hp_at mm h)) div 2 ^ mp_size_bits (mm_mp mm ! i))
     \<Longrightarrow> nvme_mem_pool_free mm i h a = mm"
proof -
  define b where "b = (a - hp_vaddr (hp_at mm h)) div 2 ^ mp_size_bits (mm_mp mm ! i)"
  let ?in = "\<lambda>j x. x \<le> a \<and> a < x + 2 ^ (NVME_MP_SIZE_BITS_MIN + j)"
  note B = addr_in_obj [OF inv i h a b_def] and ok = pool_heap_ok [OF inv i h]
  have uniq: "j = i \<and> h' = h \<and> b' = b"
    if "j < NVME_MP_NUM" "h' \<in> set (pool_heaps mm j)" "b' < heap_nr_objs (heap_at mm h')" "?in j (obj_addr mm j h' b')" for j h' b'
    using obj_unique [OF inv that(1-3) i h B(1) _ _ B(2,3)] that(4) pool_size_bits [OF inv that(1)] by simp
  show noop: "nvme_mem_pool_free mm i h a = mm" if "\<not> test_bit_bm (heap_bitmap (heap_at mm h)) b"
    using that a heap_hp_inv(1) [OF inv i h] unfolding nvme_mem_pool_free_def Let_def b_def by simp
  have "mem_inv (nvme_mem_pool_free mm i h a) \<and> free_step a mm (nvme_mem_pool_free mm i h a)"
  proof (cases "test_bit_bm (heap_bitmap (heap_at mm h)) b")
    case False
    then have "\<not> ?in j x" if "j < NVME_MP_NUM" "x \<in> live_objs mm j" for j x
      using uniq [OF that(1)] that(2) by (auto elim!: live_objsE)
    then show ?thesis using inv by (auto simp: noop [OF False] free_step_def)
  next
    case True
    obtain heap' mm1 where U: "heap_update i h heap' mm mm1" "mem_inv mm1"
      "heap_bitmap heap' = clear_bit_bm (heap_bitmap (heap_at mm h)) b"
      "nvme_mem_pool_free mm i h a = (if nvme_heap_empty heap' then nvme_mem_pool_shrink mm1 i False else mm1)"
      by (rule pool_free_update [OF inv i h a b_def True])
    have keep: "mem_inv (nvme_mem_pool_free mm i h a)"
      "\<And>j. j < NVME_MP_NUM \<Longrightarrow> live_objs (nvme_mem_pool_free mm i h a) j = live_objs mm1 j"
      using pool_shrink_inv(1) [OF U(2) i, of False] pool_shrink_inv(2) [OF U(2) i, of False] U(2)
      by (simp_all add: U(4))
    have "live_objs mm1 j = {x \<in> live_objs mm j. \<not> ?in j x}" if j: "j < NVME_MP_NUM" for j
    proof (cases "j = i")
      case True
      have bd: "b div 8 < length (heap_bitmap (heap_at mm h))" by (rule heap_nr_objs_bounds(2) [OF inv i h B(1)])
      have "?in i (obj_addr mm i h b)" using B(2,3) pool_size_bits [OF inv i] by simp
      then show ?thesis
        unfolding True live_objs_update [OF U(1) h] U(3) test_clear_bit_bm [OF bd]
        unfolding live_objs_def using uniq [OF i] h by blast
    next
      case False
      show ?thesis
        unfolding live_objs_update_other [OF U(1) inv i h j False]
        unfolding live_objs_def using uniq [OF j] False by blast
    qed
    then show ?thesis using keep by (simp add: free_step_def)
  qed
  then show "mem_inv (nvme_mem_pool_free mm i h a)" "free_step a mm (nvme_mem_pool_free mm i h a)" by simp_all
qed

lemma search_hp_Some:
  assumes inv: "mem_inv mm" and s: "nvme_mem_search_hp mm a = Some p"
  obtains hp i h where "hps mm p = Some hp" "hp_mp hp = Some i" "hp_heap hp = Some h" "i < NVME_MP_NUM"
    "h \<in> set (pool_heaps mm i)" "heap_hp (heap_at mm h) = p" "hp_vaddr hp \<le> a" "a < hp_vaddr hp + hp_size mm"
proof -
  let ?k = "a div 2 ^ hp_size_bits mm mod NVME_HP_HASH_SIZE"
  have k: "?k < NVME_HP_HASH_SIZE" by (simp add: NVME_HP_HASH_SIZE_def)
  have "p \<in> set (hp_list mm ! ?k)" and div: "hp_vaddr (the (hps mm p)) div hp_size mm = a div hp_size mm"
    using s mem_sizesD(1) [OF inv] by (auto simp: nvme_mem_search_hp_def Let_def find_Some_iff in_set_conv_nth)
  then obtain hp where hp: "hps mm p = Some hp" using hp_inv_list(3) [OF mem_invD(2) [OF inv] k] by blast
  then obtain i h heap where "i < NVME_MP_NUM" "hp_mp hp = Some i" "hp_heap hp = Some h"
    "h \<in> set (pool_heaps mm i)" "heaps mm h = Some heap" "heap_hp heap = p"
    using mem_invD(3) [OF inv] unfolding owner_inv_def by blast
  moreover have "hp_vaddr hp = a div hp_size mm * hp_size mm"
    using hp_invD(3) [OF mem_invD(2) [OF inv] hp] div hp by (metis dvd_div_mult_self option.sel)
  then have "hp_vaddr hp \<le> a" "a < hp_vaddr hp + hp_size mm"
    using mem_sizesD(1) [OF inv] dividend_less_div_times [of "hp_size mm" a] by (simp_all add: add.commute)
  ultimately show thesis using hp by (intro that [of hp i h]) simp_all
qed

lemma search_hp_hit:
  assumes inv: "mem_inv mm" and i: "i < NVME_MP_NUM" and h: "h \<in> set (pool_heaps mm i)"
    and a: "hp_vaddr (hp_at mm h) \<le> a" "a < hp_vaddr (hp_at mm h) + hp_size mm"
  shows "nvme_mem_search_hp mm a = Some (heap_hp (heap_at mm h))"
proof -
  let ?p = "heap_hp (heap_at mm h)" and ?P = "\<lambda>hp. hp_vaddr (the (hps mm hp)) div 2 ^ hp_size_bits mm = a div 2 ^ hp_size_bits mm"
  let ?l = "hp_list mm ! (a div 2 ^ hp_size_bits mm mod NVME_HP_HASH_SIZE)"
  note sz = mem_sizesD(1) [OF inv] and I = mem_invD(2) [OF inv]
  note hp = heap_ok_links(2) [OF pool_heap_ok [OF inv i h]]
  have div: "a div 2 ^ hp_size_bits mm = hp_vaddr (hp_at mm h) div 2 ^ hp_size_bits mm"
    using in_hp_div [OF inv i h a] by (simp add: sz)
  have k: "a div 2 ^ hp_size_bits mm mod NVME_HP_HASH_SIZE < NVME_HP_HASH_SIZE" by (simp add: NVME_HP_HASH_SIZE_def)
  have mem: "?p \<in> set ?l" using hp_invD(1) [OF I hp] by (simp add: hp_hash_def div)
  have only: "q = ?p" if q: "q \<in> set ?l" "?P q" for q
  proof -
    obtain hq where hq: "hps mm q = Some hq" using hp_inv_list(3) [OF I k q(1)] by blast
    have "hp_vaddr hq div hp_size mm = hp_vaddr (hp_at mm h) div hp_size mm"
      using q(2) unfolding div sz hq by simp
    then show ?thesis by (rule hp_div_inj [OF I mem_invD(1) [OF inv] hq hp])
  qed
  have "?P ?p" by (rule div [symmetric])
  then have "find ?P ?l \<noteq> None" using mem unfolding find_None_iff by blast
  then obtain q where q: "find ?P ?l = Some q" by blast
  then have "q \<in> set ?l" "?P q" unfolding find_Some_iff by (auto intro: nth_mem)
  then have "q = ?p" by (rule only)
  with q show ?thesis unfolding nvme_mem_search_hp_def Let_def by simp
qed

lemma live_in_hp:
  assumes inv: "mem_inv mm" and i: "i < NVME_MP_NUM" and x: "x \<in> live_objs mm i"
    and a: "x \<le> a" "a < x + 2 ^ (NVME_MP_SIZE_BITS_MIN + i)"
  obtains h b where "x = obj_addr mm i h b" "h \<in> set (pool_heaps mm i)" "b < heap_nr_objs (heap_at mm h)"
    "test_bit_bm (heap_bitmap (heap_at mm h)) b"
    "hp_vaddr (hp_at mm h) \<le> a" "a < hp_vaddr (hp_at mm h) + hp_size mm"
proof -
  obtain h b where o: "x = obj_addr mm i h b" "h \<in> set (pool_heaps mm i)" "b < heap_nr_objs (heap_at mm h)"
    "test_bit_bm (heap_bitmap (heap_at mm h)) b" using x by (rule live_objsE)
  have "a < hp_vaddr (hp_at mm h) + hp_size mm" "hp_vaddr (hp_at mm h) \<le> a"
    using obj_in_hp [OF inv i o(2,3)] a pool_size_bits [OF inv i] by (simp_all add: o(1) obj_addr_def)
  with o show thesis by (intro that) 
qed

lemma nvme_free_step:
  assumes inv: "mem_inv mm"
  shows "mem_inv (nvme_free mm a)" "free_step a mm (nvme_free mm a)"
    "(\<And>j x. j < NVME_MP_NUM \<Longrightarrow> x \<in> live_objs mm j \<Longrightarrow> \<not> (x \<le> a \<and> a < x + 2 ^ (NVME_MP_SIZE_BITS_MIN + j)))
     \<Longrightarrow> nvme_free mm a = mm"
proof -
  have *: "mem_inv (nvme_free mm a) \<and> free_step a mm (nvme_free mm a) \<and>
    ((\<forall>j x. j < NVME_MP_NUM \<longrightarrow> x \<in> live_objs mm j \<longrightarrow> \<not> (x \<le> a \<and> a < x + 2 ^ (NVME_MP_SIZE_BITS_MIN + j)))
     \<longrightarrow> nvme_free mm a = mm)"
  proof (cases "a = 0 \<or> nvme_mem_search_hp mm a = None")
    case True
    then have eq: "nvme_free mm a = mm" by (auto simp: nvme_free_def)
    have "False" if j: "j < NVME_MP_NUM" "x \<in> live_objs mm j" "x \<le> a" "a < x + 2 ^ (NVME_MP_SIZE_BITS_MIN + j)" for j x
    proof -
      obtain h where h: "h \<in> set (pool_heaps mm j)" "hp_vaddr (hp_at mm h) \<le> a" "a < hp_vaddr (hp_at mm h) + hp_size mm"
        using live_in_hp [OF inv j] by metis
      then show False
        using search_hp_hit [OF inv j(1) h] heap_hp_inv(3) [OF inv j(1) h(1)] True by auto
    qed
    then show ?thesis using inv eq by (auto simp: free_step_def)
  next
    case False
    then obtain p where p: "nvme_mem_search_hp mm a = Some p" "a \<noteq> 0" by auto
    obtain hp i h where S: "hps mm p = Some hp" "hp_mp hp = Some i" "hp_heap hp = Some h" "i < NVME_MP_NUM"
      "h \<in> set (pool_heaps mm i)" "heap_hp (heap_at mm h) = p" "hp_vaddr hp \<le> a" "a < hp_vaddr hp + hp_size mm"
      by (rule search_hp_Some [OF inv p(1)])
    have a: "hp_vaddr (hp_at mm h) \<le> a" "a < hp_vaddr (hp_at mm h) + hp_size mm" using S by simp_all
    have eq: "nvme_free mm a = nvme_mem_pool_free mm i h a" using p S by (simp add: nvme_free_def)
    note B = addr_in_obj [OF inv S(4,5) a refl]
    have "nvme_mem_pool_free mm i h a = mm"
      if "\<forall>j x. j < NVME_MP_NUM \<longrightarrow> x \<in> live_objs mm j \<longrightarrow> \<not> (x \<le> a \<and> a < x + 2 ^ (NVME_MP_SIZE_BITS_MIN + j))"
    proof (rule pool_free_step(3) [OF inv S(4,5) a], rule notI)
      assume "test_bit_bm (heap_bitmap (heap_at mm h)) ((a - hp_vaddr (hp_at mm h)) div 2 ^ mp_size_bits (mm_mp mm ! i))"
      from live_objsI [OF S(5) B(1) this] B(2,3) that S(4) show False
        by (metis pool_size_bits [OF inv S(4)])
    qed
    then show ?thesis unfolding eq using pool_free_step(1,2) [OF inv S(4,5) a] by blast
  qed
  then show "mem_inv (nvme_free mm a)" "free_step a mm (nvme_free mm a)"
    "(\<And>j x. j < NVME_MP_NUM \<Longrightarrow> x \<in> live_objs mm j \<Longrightarrow> \<not> (x \<le> a \<and> a < x + 2 ^ (NVME_MP_SIZE_BITS_MIN + j)))
     \<Longrightarrow> nvme_free mm a = mm" by blast+
qed

end
