(* ===== verification/Nvme_Alloc.thy ===== *)
theory Nvme_Alloc
  imports Nvme_Mem
begin

text \<open>
  The contract of the memory manager and its consequences: the locale \<open>allocator\<close> states what
  a client of \<^verbatim>\<open>nvme_mem_alloc_node\<close> and \<^verbatim>\<open>nvme_free\<close> relies on, and is interpreted on the
  definitions of \<open>Nvme_Mem\<close>.
\<close>

subsection \<open>The interface of an allocator\<close>

text \<open>
  Blocks are pairs of a base address and a length. An allocation that succeeds adds one block
  at a new base; releasing an address removes the block that contains it.
\<close>

locale allocator =
  fixes inv :: "'m \<Rightarrow> bool" and blocks :: "'m \<Rightarrow> (nat \<times> nat) set"
    and env_fits :: "'e \<Rightarrow> 'm \<Rightarrow> bool"
    and alloc :: "'e \<Rightarrow> 'm \<Rightarrow> 'r \<Rightarrow> nat option \<times> 'm" and release :: "'m \<Rightarrow> nat \<Rightarrow> 'm"
  assumes alloc_inv: "inv m \<Longrightarrow> env_fits e m \<Longrightarrow> alloc e m r = (res, m') \<Longrightarrow> inv m'"
    and alloc_None: "inv m \<Longrightarrow> env_fits e m \<Longrightarrow> alloc e m r = (None, m') \<Longrightarrow> blocks m' = blocks m"
    and alloc_Some: "inv m \<Longrightarrow> env_fits e m \<Longrightarrow> alloc e m r = (Some a, m') \<Longrightarrow>
      \<exists>n>0. (a, n) \<notin> blocks m \<and> blocks m' = insert (a, n) (blocks m)"
    and release_inv: "inv m \<Longrightarrow> inv (release m a)"
    and release_blocks: "inv m \<Longrightarrow> blocks (release m a) = {(x, n) \<in> blocks m. \<not> (x \<le> a \<and> a < x + n)}"
    and blocks_disjoint: "inv m \<Longrightarrow> (x, n) \<in> blocks m \<Longrightarrow> (y, k) \<in> blocks m \<Longrightarrow> (x, n) \<noteq> (y, k)
      \<Longrightarrow> {x..<x + n} \<inter> {y..<y + k} = {}"
begin

text \<open>Releasing what was just allocated gives back the blocks there were before.\<close>

lemma alloc_release:
  assumes "inv m" "env_fits e m" "alloc e m r = (Some a, m')"
  shows "blocks (release m' a) = blocks m"
proof -
  obtain n where n: "n > 0" "(a, n) \<notin> blocks m" "blocks m' = insert (a, n) (blocks m)"
    using alloc_Some [OF assms] by blast
  have inv': "inv m'" by (rule alloc_inv [OF assms])
  have "\<not> (x \<le> a \<and> a < x + k)" if xk: "(x, k) \<in> blocks m" for x k
  proof
    assume "x \<le> a \<and> a < x + k"
    then have "a \<in> {x..<x + k} \<inter> {a..<a + n}" using n(1) by simp
    moreover have "{x..<x + k} \<inter> {a..<a + n} = {}"
      by (rule blocks_disjoint [OF inv']) (use xk n(2,3) in auto)
    ultimately show False by blast
  qed
  then show ?thesis using n by (auto simp: release_blocks [OF inv'])
qed

text \<open>A block that was live before an allocation does not overlap the new one.\<close>

lemma alloc_disjoint:
  assumes "inv m" "env_fits e m" "alloc e m r = (Some a, m')" "(x, k) \<in> blocks m"
  shows "a \<notin> {x..<x + k}" and "k > 0 \<Longrightarrow> x \<noteq> a"
proof -
  obtain n where n: "n > 0" "(a, n) \<notin> blocks m" "blocks m' = insert (a, n) (blocks m)"
    using alloc_Some [OF assms(1-3)] by blast
  have d: "{x..<x + k} \<inter> {a..<a + n} = {}"
    by (rule blocks_disjoint [OF alloc_inv [OF assms(1-3)]]) (use assms(4) n(2,3) in auto)
  then show "a \<notin> {x..<x + k}" using n(1) by auto
  then show "x \<noteq> a" if "k > 0" using that by auto
qed

text \<open>Releasing the same address a second time changes nothing.\<close>

lemma release_twice:
  assumes "inv m" shows "blocks (release (release m a) a) = blocks (release m a)"
  by (auto simp: release_blocks [OF release_inv [OF assms]] release_blocks [OF assms])

end

subsection \<open>Pool selection\<close>

lemma align_is_small:
  assumes "align = 0 \<or> nvme_is_pow2 align"
  shows "unat align \<le> 2 ^ 63"
  using assms
proof
  assume "nvme_is_pow2 align"
  then obtain k where "k < 64" "align = 2 ^ k" by (rule is_pow2_exists)
  moreover have "(2::nat) ^ k \<le> 2 ^ 63" using \<open>k < 64\<close> by (intro power_increasing) simp_all
  ultimately show ?thesis by (simp add: unat_pow2)
qed simp

lemma mem_pool_index_Some:
  assumes "mem_pool_index sz align = Some i" and "unat sz \<le> 2 ^ 63"
  shows "i < NVME_MP_NUM" "sz \<noteq> 0" "align = 0 \<or> nvme_is_pow2 align"
    "unat sz \<le> 2 ^ (NVME_MP_SIZE_BITS_MIN + i)" "unat align \<le> 2 ^ (NVME_MP_SIZE_BITS_MIN + i)"
    "i \<noteq> 0 \<Longrightarrow> 2 ^ (NVME_MP_SIZE_BITS_MIN + i) < 2 * max (unat sz) (unat align)"
proof -
  let ?v = "if align < sz then sz else align"
  have g: "sz \<noteq> 0" "align = 0 \<or> nvme_is_pow2 align"
    using assms(1) by (auto simp: mem_pool_index_def split: if_splits)
  then show "sz \<noteq> 0" "align = 0 \<or> nvme_is_pow2 align" by simp_all
  have v: "unat ?v = max (unat sz) (unat align)" by (simp add: word_less_nat_alt max_def)
  have "0 < unat ?v" "unat ?v \<le> 2 ^ 63"
    using g(1) assms(2) align_is_small [OF g(2)] unfolding v by (auto simp: unat_gt_0 less_max_iff_disj)
  then obtain k where k: "k < 64" "nvme_align_pow2 ?v = 2 ^ k" "unat ?v \<le> 2 ^ k" "2 ^ k < 2 * unat ?v"
    by (rule align_pow2_power)
  have lg: "unat (nvme_log2 (nvme_align_pow2 ?v)) = k"
    using k(1) unfolding k(2) by (simp add: unat_of_nat_small)
  have i: "i = k - NVME_MP_SIZE_BITS_MIN" "k \<le> NVME_MP_SIZE_BITS_MAX"
    using assms(1) g unfolding mem_pool_index_def Let_def lg by (auto simp: mem_consts split: if_splits)
  then show "i < NVME_MP_NUM" by (simp add: mem_consts)
  have "k \<le> NVME_MP_SIZE_BITS_MIN + i" using i by simp
  then have "(2::nat) ^ k \<le> 2 ^ (NVME_MP_SIZE_BITS_MIN + i)" by (rule power_increasing) simp
  then show "unat sz \<le> 2 ^ (NVME_MP_SIZE_BITS_MIN + i)" "unat align \<le> 2 ^ (NVME_MP_SIZE_BITS_MIN + i)"
    using k(3) unfolding v max.bounded_iff by (blast intro: le_trans)+
  show "2 ^ (NVME_MP_SIZE_BITS_MIN + i) < 2 * max (unat sz) (unat align)" if "i \<noteq> 0"
    using k(4) i(1) that unfolding v by simp
qed

subsection \<open>The memory manager implements the interface\<close>

definition all_blocks :: "nvme_mem \<Rightarrow> (nat \<times> nat) set" where
  "all_blocks mm = {(x, 2 ^ (NVME_MP_SIZE_BITS_MIN + i)) | x i. i < NVME_MP_NUM \<and> x \<in> live_objs mm i}"

text \<open>Requests are a size, an alignment and a node; sizes above \<open>2 ^ 63\<close> are treated below.\<close>

definition mem_alloc_req ::
  "os_env \<Rightarrow> nvme_mem \<Rightarrow> u64 \<times> u64 \<times> nat \<Rightarrow> nat option \<times> nvme_mem" where
  "mem_alloc_req env mm r = (case r of (sz, align, node) \<Rightarrow> nvme_malloc_node env mm sz align node)"

lemma mem_pool_index_lt:
  assumes "mem_pool_index sz align = Some i" shows "i < NVME_MP_NUM"
  using assms by (auto simp: mem_pool_index_def Let_def mem_consts split: if_splits)

lemma blocks_alloc_step:
  assumes "alloc_step i a mm mm'" "i < NVME_MP_NUM"
  shows "all_blocks mm' = insert (a, 2 ^ (NVME_MP_SIZE_BITS_MIN + i)) (all_blocks mm)"
    "(a, 2 ^ (NVME_MP_SIZE_BITS_MIN + i)) \<notin> all_blocks mm"
proof -
  have L: "live_objs mm' i = insert a (live_objs mm i)" "a \<notin> live_objs mm i"
    "\<And>j. j < NVME_MP_NUM \<Longrightarrow> j \<noteq> i \<Longrightarrow> live_objs mm' j = live_objs mm j"
    using assms(1) by (simp_all add: alloc_step_def)
  then have "x \<in> live_objs mm' j \<longleftrightarrow> j = i \<and> x = a \<or> x \<in> live_objs mm j" if "j < NVME_MP_NUM" for x j
    using that by (cases "j = i") auto
  then show "all_blocks mm' = insert (a, 2 ^ (NVME_MP_SIZE_BITS_MIN + i)) (all_blocks mm)"
    unfolding all_blocks_def using assms(2) by blast
  show "(a, 2 ^ (NVME_MP_SIZE_BITS_MIN + i)) \<notin> all_blocks mm"
    using L(2) by (auto simp: all_blocks_def)
qed

lemma live_disjoint:
  assumes inv: "mem_inv mm" and x: "i < NVME_MP_NUM" "x \<in> live_objs mm i"
    and y: "j < NVME_MP_NUM" "y \<in> live_objs mm j" and ne: "x \<noteq> y \<or> i \<noteq> j"
  shows "{x..<x + 2 ^ (NVME_MP_SIZE_BITS_MIN + i)} \<inter> {y..<y + 2 ^ (NVME_MP_SIZE_BITS_MIN + j)} = {}"
proof (rule ccontr)
  obtain h b where X: "x = obj_addr mm i h b" "h \<in> set (pool_heaps mm i)" "b < heap_nr_objs (heap_at mm h)"
    using x(2) by (rule live_objsE)
  obtain h' b' where Y: "y = obj_addr mm j h' b'" "h' \<in> set (pool_heaps mm j)" "b' < heap_nr_objs (heap_at mm h')"
    using y(2) by (rule live_objsE)
  assume "\<not> ?thesis"
  then obtain a where "x \<le> a" "a < x + 2 ^ (NVME_MP_SIZE_BITS_MIN + i)" "y \<le> a" "a < y + 2 ^ (NVME_MP_SIZE_BITS_MIN + j)"
    unfolding disjoint_iff atLeastLessThan_iff by blast
  then have "i = j \<and> h = h' \<and> b = b'"
    using obj_unique [OF inv x(1) X(2,3) y(1) Y(2,3)] X(1) Y(1) pool_size_bits [OF inv] x(1) y(1) by simp
  with ne X(1) Y(1) show False by simp
qed

lemma malloc_node_cases:
  assumes al: "mem_alloc_req env mm r = (res, mm')" and inv: "mem_inv mm" and env: "env_ok env mm"
  obtains (fail) t where "res = None" "mm' = mm\<lparr>hp_tmp := t\<rparr>"
  | (ok) i a where "res = Some a" "i < NVME_MP_NUM" "mem_inv mm'" "alloc_step i a mm mm'"
proof -
  obtain sz align node where r: "r = (sz, align, node)" by (cases r)
  show thesis
  proof (cases "mem_pool_index sz align")
    case None
    then show thesis using al fail [of "hp_tmp mm"]
      by (simp add: r mem_alloc_req_def nvme_malloc_node_def nvme_mem_alloc_node_def)
  next
    case (Some i)
    obtain q where q: "nvme_mem_pool_alloc env mm i = (q, mm')" and res: "res = map_option fst q"
      using al Some by (auto simp: r mem_alloc_req_def nvme_malloc_node_def nvme_mem_alloc_node_def split: prod.splits)
    note i = mem_pool_index_lt [OF Some]
    from q inv env i show thesis
    proof (cases rule: pool_alloc_cases)
      case (fail t)
      then show thesis using that(1) res by blast
    next
      case (ok h b a)
      then show thesis using that(2) res i by auto
    qed
  qed
qed

interpretation mem: allocator mem_inv all_blocks env_ok mem_alloc_req nvme_free
proof unfold_locales
  fix m :: nvme_mem and e r res m' assume A: "mem_inv m" "env_ok e m" "mem_alloc_req e m r = (res, m')"
  from A(3,1,2) show "mem_inv m'" by (cases rule: malloc_node_cases) (use A(1) in auto)
next
  fix m :: nvme_mem and e r m' assume A: "mem_inv m" "env_ok e m" "mem_alloc_req e m r = (None, m')"
  from A(3,1,2) show "all_blocks m' = all_blocks m"
    by (cases rule: malloc_node_cases) (auto simp: all_blocks_def)
next
  fix m :: nvme_mem and e r a m' assume A: "mem_inv m" "env_ok e m" "mem_alloc_req e m r = (Some a, m')"
  from A(3,1,2) show "\<exists>n>0. (a, n) \<notin> all_blocks m \<and> all_blocks m' = insert (a, n) (all_blocks m)"
  proof (cases rule: malloc_node_cases)
    case (ok i b)
    then show ?thesis using blocks_alloc_step by (intro exI [of _ "2 ^ (NVME_MP_SIZE_BITS_MIN + i)"]) auto
  qed simp
next
  fix m :: nvme_mem and a assume A: "mem_inv m"
  show "mem_inv (nvme_free m a)" by (rule nvme_free_step(1) [OF A])
  show "all_blocks (nvme_free m a) = {(x, n) \<in> all_blocks m. \<not> (x \<le> a \<and> a < x + n)}"
    using nvme_free_step(2) [OF A, of a] by (auto simp: all_blocks_def free_step_def)
next
  fix m :: nvme_mem and x n y k assume "mem_inv m" "(x, n) \<in> all_blocks m" "(y, k) \<in> all_blocks m" "(x, n) \<noteq> (y, k)"
  then show "{x..<x + n} \<inter> {y..<y + k} = {}"
    using live_disjoint [of m] by (auto simp: all_blocks_def)
qed

subsection \<open>Initialisation\<close>

lemma init_inv:
  assumes init: "nvme_mem_init env = (0, mm)" and sz: "hp_size_read env = 2 ^ k" "21 \<le> k" "k \<le> 30"
  shows "mem_inv mm" "all_blocks mm = {}" "nr_hp mm = 0"
proof -
  have k: "unat (nvme_log2 (hp_size_read env)) = k" "unat (hp_size_read env) = 2 ^ k" "hp_size_read env \<noteq> 0"
    using sz by (simp_all add: unat_of_nat_small unat_pow2)
  have mm: "hps mm = Map.empty" "heaps mm = Map.empty" "hp_size mm = 2 ^ k" "hp_size_bits mm = k"
    "hp_list mm = replicate NVME_HP_HASH_SIZE []" "nr_hp mm = 0"
    "length (mm_mp mm) = NVME_MP_NUM"
    "\<And>i. i < NVME_MP_NUM \<Longrightarrow> mm_mp mm ! i = \<lparr>mp_size_bits = NVME_MP_SIZE_BITS_MIN + i,
       mp_size = 2 ^ (NVME_MP_SIZE_BITS_MIN + i), mp_nr_objs = 0, mp_nr_free_objs = 0, mp_node_id = 0,
       mp_nr_use = 0, mp_use_list = [], mp_nr_full = 0, mp_full_list = []\<rparr>"
    using init k by (auto simp: nvme_mem_init_def Let_def ENOMEM_def split: if_splits)
  show "mem_inv mm"
    using sz by (simp add: mem_inv_def mem_sizes_def hp_inv_def owner_inv_def pool_inv_def pool_heaps_def mm
        NVME_MP_SIZE_BITS_MAX_def)
  show "all_blocks mm = {}" by (auto simp: all_blocks_def live_objs_def pool_heaps_def mm)
  show "nr_hp mm = 0" by (rule mm(6))
qed

subsection \<open>Objects and physical addresses\<close>

lemma obj_addr_aligned:
  assumes inv: "mem_inv mm" and i: "i < NVME_MP_NUM" and h: "h \<in> set (pool_heaps mm i)"
  shows "2 ^ (NVME_MP_SIZE_BITS_MIN + i) dvd obj_addr mm i h b" "obj_addr mm i h b \<noteq> 0"
proof -
  have "2 ^ (NVME_MP_SIZE_BITS_MIN + i) dvd hp_vaddr (hp_at mm h)"
    using obj_size_dvd(1) [OF inv i] heap_hp_inv(2) [OF inv i h] pool_size_bits [OF inv i] by (auto intro: dvd_trans)
  then show "2 ^ (NVME_MP_SIZE_BITS_MIN + i) dvd obj_addr mm i h b"
    unfolding obj_addr_def pool_size_bits [OF inv i] by (rule dvd_add) simp
  show "obj_addr mm i h b \<noteq> 0" using heap_hp_inv(3) [OF inv i h] by (simp add: obj_addr_def)
qed

lemma obj_vtophys:
  assumes inv: "mem_inv mm" and i: "i < NVME_MP_NUM" and h: "h \<in> set (pool_heaps mm i)"
    and b: "b < heap_nr_objs (heap_at mm h)" and k: "k < 2 ^ (NVME_MP_SIZE_BITS_MIN + i)"
  shows "nvme_mem_vtophys mm pmap (obj_addr mm i h b + k)
    = hp_paddr (hp_at mm h) + of_nat (b * 2 ^ mp_size_bits (mm_mp mm ! i)) + of_nat k"
proof -
  have "obj_addr mm i h b + k < hp_vaddr (hp_at mm h) + hp_size mm"
    using obj_in_hp [OF inv i h b] k pool_size_bits [OF inv i] by simp
  then have "nvme_mem_search_hp mm (obj_addr mm i h b + k) = Some (heap_hp (heap_at mm h))"
    by (intro search_hp_hit [OF inv i h]) (simp_all add: obj_addr_def)
  then show ?thesis by (simp add: nvme_mem_vtophys_def obj_addr_def)
qed

lemma pow2_dvd_pow2:
  assumes "align \<noteq> 0 \<Longrightarrow> nvme_is_pow2 align" "unat align \<le> 2 ^ n" "align \<noteq> 0"
  shows "unat align dvd 2 ^ n"
proof -
  obtain k where k: "k < 64" "align = 2 ^ k" using assms(1,3) is_pow2_exists by blast
  then have "(2::nat) ^ k \<le> 2 ^ n" using assms(2) by (simp add: unat_pow2)
  then have "k \<le> n" by (simp add: power_le_imp_le_exp)
  then show ?thesis using k by (simp add: unat_pow2 le_imp_power_dvd)
qed

subsection \<open>Properties\<close>

text \<open>A concrete memory manager and concrete answers of the operating system, for the witnesses.\<close>

definition ex_init :: init_env where
  "ex_init = \<lparr>sysconf_pagesize = 4096, pagemap_fd = 3, get_hp_dir_ret = 0, hp_size_read = 2 ^ 21, open_hp_dir = 4\<rparr>"

definition ex_os :: os_env where
  "ex_os = \<lparr>calloc_hp = Some 16, openat_fd = 5, mmap_hp = Some (3 * 2 ^ 21), mbind_ret = 0, mlock_ret = 0,
     pagemap = (\<lambda>_. Some 7), calloc_heap = Some 32, calloc_bitmap = True\<rparr>"

definition ex_mm :: nvme_mem where "ex_mm = snd (nvme_mem_init ex_init)"

lemma ex_init_ok: "nvme_mem_init ex_init = (0, ex_mm)"
  by (simp add: ex_mm_def nvme_mem_init_def ex_init_def Let_def)

lemma ex_mm_inv: "mem_inv ex_mm"
  by (rule init_inv(1) [OF ex_init_ok, of 21]) (simp_all add: ex_init_def)

lemma ex_os_ok: "env_ok ex_os ex_mm"
  by (simp add: env_ok_def ex_os_def ex_mm_def nvme_mem_init_def ex_init_def Let_def unat_pow2)

lemma ex_mm_fields:
  "hp_size ex_mm = 2 ^ 21" "hp_size_bits ex_mm = 21" "pg_size_bits ex_mm = 12" "hp_list ex_mm = replicate 32 []"
  "hps ex_mm = Map.empty" "heaps ex_mm = Map.empty" "length (mm_mp ex_mm) = 15"
  "mm_mp ex_mm ! 13 = \<lparr>mp_size_bits = 20, mp_size = 2 ^ 20, mp_nr_objs = 0, mp_nr_free_objs = 0, mp_node_id = 0,
     mp_nr_use = 0, mp_use_list = [], mp_nr_full = 0, mp_full_list = []\<rparr>"
proof -
  have lg: "unat (nvme_log2 4096) = 12" "unat (nvme_log2 2097152) = 21" by code_simp+
  show "hp_size ex_mm = 2 ^ 21" "hp_size_bits ex_mm = 21" "pg_size_bits ex_mm = 12" "hp_list ex_mm = replicate 32 []"
    "hps ex_mm = Map.empty" "heaps ex_mm = Map.empty" "length (mm_mp ex_mm) = 15"
    "mm_mp ex_mm ! 13 = \<lparr>mp_size_bits = 20, mp_size = 2 ^ 20, mp_nr_objs = 0, mp_nr_free_objs = 0, mp_node_id = 0,
       mp_nr_use = 0, mp_use_list = [], mp_nr_full = 0, mp_full_list = []\<rparr>"
    by (simp_all add: ex_mm_def nvme_mem_init_def ex_init_def Let_def mem_consts lg)
qed

lemma ex_alloc_hp:
  "\<exists>m hp. nvme_mem_alloc_hp ex_os ex_mm 0 = (Some 16, m) \<and> hps m 16 = Some hp \<and> hp_vaddr hp = 3 * 2 ^ 21
    \<and> hp_sz hp = 2 ^ 21 \<and> hp_paddr hp = 7 * 4096 \<and> mm_mp m = mm_mp ex_mm"
proof -
  have "nvme_mem_vtophys (ex_mm\<lparr>hp_tmp := Suc (hp_tmp ex_mm)\<rparr>) (\<lambda>_. Some 7) 6291456 = 28672"
    by (simp add: nvme_mem_vtophys_def nvme_mem_search_hp_def ex_mm_fields Let_def NVME_HP_HASH_SIZE_def NVME_PFN_MASK_def)
  then show ?thesis by (simp add: nvme_mem_alloc_hp_def ex_os_def Let_def ex_mm_fields NVME_VTOPHYS_ERROR_def)
qed

lemma ex_alloc: "\<exists>mm'. nvme_mem_alloc_node ex_os ex_mm (2 ^ 20) 4096 0 = (Some (3 * 2 ^ 21, 7 * 4096), mm')
    \<and> mp_use_list (mm_mp mm' ! 13) = [32]"
proof -
  have x1: "mem_pool_index 1048576 4096 = Some 13" by code_simp
  have x2: "find_first_zero_bit (replicate 8 0) 2 = 0"
    by (subst find_first_zero_bit_find) (simp_all add: upt_rec)
  have x3: "unat (nvme_align_up 2 64) = 64" using unat_align_up [of 6 2] by simp
  have x4: "calloc_heap ex_os = Some 32" "calloc_bitmap ex_os" by (simp_all add: ex_os_def)
  show ?thesis using ex_alloc_hp
    by (auto simp: nvme_mem_alloc_node_def x1 nvme_mem_pool_alloc_def nvme_mem_pool_grow_def pool_take_def
        Let_def ex_mm_fields x4 upd_mp_def x2 x3 nvme_heap_full_def)
qed

text \<open>An operating system that gives nothing more.\<close>

definition no_os :: os_env where
  "no_os = \<lparr>calloc_hp = None, openat_fd = 5, mmap_hp = None, mbind_ret = 0, mlock_ret = 0,
     pagemap = (\<lambda>_. None), calloc_heap = None, calloc_bitmap = False\<rparr>"

lemma no_os_ok: "env_ok no_os mm" by (simp add: env_ok_def no_os_def)

lemma pool_alloc_no_grow:
  assumes "mem_inv mm" "env_ok env mm" "i < NVME_MP_NUM" "mp_use_list (mm_mp mm ! i) \<noteq> []"
  shows "\<exists>a pa mm'. nvme_mem_pool_alloc env mm i = (Some (a, pa), mm')"
proof -
  obtain r mm' where q: "nvme_mem_pool_alloc env mm i = (r, mm')" by fastforce
  from q assms(1-3) show ?thesis
  proof (cases rule: pool_alloc_cases)
    case (fail t)
    then show ?thesis using assms(4) by simp
  next
    case (ok h b a)
    then show ?thesis using q by blast
  qed
qed

text \<open>Two allocations from the same heap give two live blocks.\<close>

lemma ex_two_blocks:
  "\<exists>mm a n b k. mem_inv mm \<and> (a, n) \<in> all_blocks mm \<and> (b, k) \<in> all_blocks mm \<and> (a, n) \<noteq> (b, k)"
proof -
  obtain m1 where m1: "nvme_malloc_node ex_os ex_mm (2 ^ 20) 4096 0 = (Some (3 * 2 ^ 21), m1)"
    "mp_use_list (mm_mp m1 ! 13) \<noteq> []" using ex_alloc by (auto simp: nvme_malloc_node_def)
  have al1: "mem_alloc_req ex_os ex_mm (2 ^ 20, 4096, 0) = (Some (3 * 2 ^ 21), m1)"
    using m1 by (simp add: mem_alloc_req_def)
  note inv1 = mem.alloc_inv [OF ex_mm_inv ex_os_ok al1]
  obtain n where n: "(3 * 2 ^ 21, n) \<in> all_blocks m1" using mem.alloc_Some [OF ex_mm_inv ex_os_ok al1] by blast
  have ix: "mem_pool_index 1048576 4096 = Some 13" by code_simp
  obtain b m2 where al2: "mem_alloc_req no_os m1 (2 ^ 20, 4096, 0) = (Some b, m2)"
    using pool_alloc_no_grow [OF inv1 no_os_ok _ m1(2)]
    by (auto simp: mem_alloc_req_def nvme_malloc_node_def nvme_mem_alloc_node_def ix NVME_MP_NUM_def)
  obtain k where k: "(b, k) \<notin> all_blocks m1" "all_blocks m2 = insert (b, k) (all_blocks m1)"
    using mem.alloc_Some [OF inv1 no_os_ok al2] by blast
  then show ?thesis
    using n mem.alloc_inv [OF inv1 no_os_ok al2]
    by (intro exI [of _ m2] exI [of _ "3 * 2 ^ 21"] exI [of _ n] exI [of _ b] exI [of _ k]) auto
qed

text \<open>
  C1. Allocation: when \<^verbatim>\<open>nvme_mem_alloc_node\<close> returns an object, the object is a new block that
  is at least as long as the size asked for, its address is a multiple of the alignment and of
  the block length, no other block changes, the invariant of the pools is kept, and the
  physical address handed back is the one address translation gives, for every byte of it.
\<close>

theorem alloc_node_object:
  assumes "mem_inv mm" and "env_ok env mm" and "unat sz \<le> 2 ^ 63"
    and al: "nvme_mem_alloc_node env mm sz align node = (Some (a, pa), mm')"
  shows "mem_inv mm' \<and> (\<exists>n. (a, n) \<notin> all_blocks mm \<and> all_blocks mm' = insert (a, n) (all_blocks mm)
     \<and> unat sz \<le> n \<and> n dvd a \<and> a \<noteq> 0 \<and> (align \<noteq> 0 \<longrightarrow> unat align dvd a)
     \<and> (\<forall>k<n. nvme_mem_vtophys mm' pmap (a + k) = pa + of_nat k))"
proof -
  obtain i where i: "mem_pool_index sz align = Some i"
    and q: "nvme_mem_pool_alloc env mm i = (Some (a, pa), mm')"
    using al by (auto simp: nvme_mem_alloc_node_def split: option.splits)
  note I = mem_pool_index_Some [OF i assms(3)]
  let ?n = "2 ^ (NVME_MP_SIZE_BITS_MIN + i) :: nat"
  from q assms(1,2) I(1) show ?thesis
  proof (cases rule: pool_alloc_cases)
    case (ok h b x)
    have "?n dvd a" "a \<noteq> 0" using obj_addr_aligned [OF ok(5) I(1) ok(3)] ok(1,2) by simp_all
    moreover have "unat align dvd a" if "align \<noteq> 0"
      using pow2_dvd_pow2 [OF _ I(5) that] I(3) \<open>?n dvd a\<close> by (blast intro: dvd_trans)
    moreover have "nvme_mem_vtophys mm' pmap (a + k) = pa + of_nat k" if "k < ?n" for k
      using obj_vtophys [OF ok(5) I(1) ok(3,4) that] ok(1,2) by simp
    ultimately show ?thesis
      using blocks_alloc_step [OF ok(6) I(1)] I(4) ok(1,5) by (intro conjI exI [of _ ?n]) simp_all
  qed simp
qed

theorem alloc_node_object_witness:
  "\<exists>mm'. mem_inv mm' \<and> (\<exists>n. all_blocks mm' = insert (3 * 2 ^ 21, n) (all_blocks ex_mm) \<and> 2 ^ 20 \<le> n
     \<and> nvme_mem_vtophys mm' (\<lambda>_. None) (3 * 2 ^ 21 + 5) = 7 * 4096 + 5)"
proof -
  obtain mm' where al: "nvme_mem_alloc_node ex_os ex_mm (2 ^ 20) 4096 0 = (Some (3 * 2 ^ 21, 7 * 4096), mm')"
    using ex_alloc by blast
  have sz: "unat (2 ^ 20 :: u64) = 2 ^ 20" by (rule unat_pow2) simp
  have "mem_inv mm' \<and> (\<exists>n. (3 * 2 ^ 21, n) \<notin> all_blocks ex_mm \<and> all_blocks mm' = insert (3 * 2 ^ 21, n) (all_blocks ex_mm)
     \<and> unat (2 ^ 20 :: u64) \<le> n \<and> n dvd 3 * 2 ^ 21 \<and> 3 * 2 ^ 21 \<noteq> (0::nat) \<and> ((4096 :: u64) \<noteq> 0 \<longrightarrow> unat (4096 :: u64) dvd 3 * 2 ^ 21)
     \<and> (\<forall>k<n. nvme_mem_vtophys mm' (\<lambda>_. None) (3 * 2 ^ 21 + k) = 7 * 4096 + of_nat k))"
    by (rule alloc_node_object [OF ex_mm_inv ex_os_ok _ al]) (simp add: unat_pow2)
  then obtain n where n: "mem_inv mm'" "all_blocks mm' = insert (3 * 2 ^ 21, n) (all_blocks ex_mm)" "2 ^ 20 \<le> n"
    "\<forall>k<n. nvme_mem_vtophys mm' (\<lambda>_. None) (3 * 2 ^ 21 + k) = 7 * 4096 + of_nat k" unfolding sz by blast
  have "5 < n" using n(3) by simp
  with n(4) have "nvme_mem_vtophys mm' (\<lambda>_. None) (3 * 2 ^ 21 + 5) = 7 * 4096 + of_nat 5" by blast
  with n show ?thesis by (intro exI [of _ mm'] conjI exI [of _ n]) simp_all
qed

text \<open>
  C15. Release: \<^verbatim>\<open>nvme_free\<close> of any address keeps the invariant and removes exactly the block that
  contains the address. When no live block contains it (an unknown address, a null pointer, a
  second release), nothing of the memory manager changes.
\<close>

theorem free_exact:
  assumes "mem_inv mm"
  shows "mem_inv (nvme_free mm a)
    \<and> all_blocks (nvme_free mm a) = {(x, n) \<in> all_blocks mm. \<not> (x \<le> a \<and> a < x + n)}
    \<and> ((\<forall>(x, n) \<in> all_blocks mm. \<not> (x \<le> a \<and> a < x + n)) \<longrightarrow> nvme_free mm a = mm)"
proof -
  have "nvme_free mm a = mm" if "\<forall>(x, n) \<in> all_blocks mm. \<not> (x \<le> a \<and> a < x + n)"
    by (rule nvme_free_step(3) [OF assms]) (use that in \<open>auto simp: all_blocks_def\<close>)
  then show ?thesis using mem.release_inv [OF assms] mem.release_blocks [OF assms] by blast
qed

theorem free_exact_witness:
  "\<exists>mm a n. mem_inv mm \<and> (a, n) \<in> all_blocks mm \<and> (a, n) \<notin> all_blocks (nvme_free mm (a + (n - 1)))"
proof -
  obtain mm where al: "mem_alloc_req ex_os ex_mm (2 ^ 20, 4096, 0) = (Some (3 * 2 ^ 21), mm)"
    using ex_alloc by (auto simp: nvme_malloc_node_def mem_alloc_req_def)
  obtain n where "0 < n" "(3 * 2 ^ 21, n) \<in> all_blocks mm" using mem.alloc_Some [OF ex_mm_inv ex_os_ok al] by blast
  then show ?thesis
    using free_exact [OF mem.alloc_inv [OF ex_mm_inv ex_os_ok al], of "3 * 2 ^ 21 + (n - 1)"]
      mem.alloc_inv [OF ex_mm_inv ex_os_ok al]
    by (intro exI [of _ mm] exI [of _ "3 * 2 ^ 21"] exI [of _ n]) auto
qed



text \<open>
  Round trip: allocating an object and releasing it leaves the live blocks as they were.
\<close>

theorem alloc_free_roundtrip:
  assumes "mem_inv mm" and "env_ok env mm" and "nvme_malloc_node env mm sz align node = (Some a, mm')"
  shows "mem_inv (nvme_free mm' a) \<and> all_blocks (nvme_free mm' a) = all_blocks mm"
proof -
  have al: "mem_alloc_req env mm (sz, align, node) = (Some a, mm')" using assms(3) by (simp add: mem_alloc_req_def)
  show ?thesis
    using mem.alloc_release [OF assms(1,2) al] mem.release_inv [OF mem.alloc_inv [OF assms(1,2) al]] by blast
qed

theorem alloc_free_roundtrip_witness:
  "\<exists>mm'. fst (nvme_malloc_node ex_os ex_mm (2 ^ 20) 4096 0) = Some (3 * 2 ^ 21)
     \<and> all_blocks (nvme_free mm' (3 * 2 ^ 21)) = all_blocks ex_mm"
proof -
  obtain mm' where "nvme_malloc_node ex_os ex_mm (2 ^ 20) 4096 0 = (Some (3 * 2 ^ 21), mm')"
    using ex_alloc by (auto simp: nvme_malloc_node_def)
  then show ?thesis using alloc_free_roundtrip [OF ex_mm_inv ex_os_ok] by (metis fst_conv)
qed

text \<open>
  Initialisation: when \<^verbatim>\<open>nvme_mem_init\<close> succeeds on a system whose hugepages are a power of two
  between 2 MB and 1 GB, the memory manager satisfies its invariant and holds no block.
\<close>

theorem mem_init_establishes:
  assumes "nvme_mem_init env = (0, mm)" and "hp_size_read env = 2 ^ k" and "21 \<le> k" and "k \<le> 30"
  shows "mem_inv mm \<and> all_blocks mm = {} \<and> nr_hp mm = 0"
  using init_inv [OF assms] by blast

theorem mem_init_establishes_witness: "mem_inv ex_mm \<and> all_blocks ex_mm = {} \<and> nr_hp ex_mm = 0"
  by (rule mem_init_establishes [OF ex_init_ok, of 21]) (simp_all add: ex_init_def)

text \<open>
  A size above \<open>2 ^ 63\<close> wraps in \<^verbatim>\<open>nvme_align_pow2\<close> and is served from the pool of 128-byte objects.
\<close>

theorem huge_size_wraps:
  assumes "2 ^ 63 < unat sz" and "align = 0 \<or> nvme_is_pow2 align"
  shows "nvme_mem_alloc_node env mm sz align node = nvme_mem_pool_alloc env mm 0"
proof -
  have lt: "align < sz" using align_is_small [OF assms(2)] assms(1) by (simp add: word_less_nat_alt)
  have "sz \<noteq> 0" using assms(1) by auto
  then have "unat (sz - 1) = unat sz - 1" by (simp add: unat_minus_one)
  moreover have "unat sz < 2 ^ 64" using unsigned_less [of sz, where 'a = nat] by simp
  ultimately have "smear (sz - 1) = mask (Suc 63)" using assms(1) by (intro smear_interval) simp_all
  then have "nvme_align_pow2 sz = 0" by (simp add: align_pow2_smear mask_eq_exp_minus_1)
  then have "mem_pool_index sz align = Some 0"
    using lt \<open>sz \<noteq> 0\<close> assms(2) by (auto simp: mem_pool_index_def nvme_log2_def nvme_is_pow2_def)
  then show ?thesis by (simp add: nvme_mem_alloc_node_def)
qed

theorem huge_size_wraps_witness:
  "nvme_mem_alloc_node ex_os ex_mm (2 ^ 63 + 1) 0 0 = nvme_mem_pool_alloc ex_os ex_mm 0"
  by (rule huge_size_wraps) simp_all

end
