(* ===== verification/Nvme_Setup.thy ===== *)
theory Nvme_Setup
  imports Nvme_Alloc Nvme_Text
begin

text \<open>
  Setting up and cleaning up the memory manager (\<^verbatim>\<open>lib/common/nvme_mem.c\<close>): the search for the hugetlbfs mount point and the
  hugepage size in \<^verbatim>\<open>/proc\<close>, and the release of all heaps and hugepages at exit. The files are parameters.
\<close>

subsection \<open>Definitions: hugepage size\<close>

definition HPSIZE_KEY :: string where "HPSIZE_KEY = ''Hugepagesize:''"

lemma fgets_shorter: "fgets (Suc (Suc n)) f = Some (buf, rest) \<Longrightarrow> length rest < length f"
  by (cases f) (auto simp: fgets_def Let_def)

text \<open>The loop over the lines of \<^verbatim>\<open>/proc/meminfo\<close>, read into a buffer of 256 bytes.\<close>

function hp_size_loop :: "string \<Rightarrow> u64" where
  "hp_size_loop f =
     (case fgets 256 f of
        None \<Rightarrow> 0
      | Some (buf, rest) \<Rightarrow>
          if take 13 (cstr buf) = HPSIZE_KEY then nvme_str2size (drop 13 (cstr buf)) else hp_size_loop rest)"
  by auto
termination
  by (relation "measure length") (auto simp: numeral_eq_Suc dest: fgets_shorter)

declare hp_size_loop.simps [simp del]

definition nvme_mem_get_hp_size :: "string option \<Rightarrow> u64" where
  "nvme_mem_get_hp_size meminfo = (case meminfo of None \<Rightarrow> 0 | Some f \<Rightarrow> hp_size_loop f)"

subsection \<open>Definitions: mount point\<close>

text \<open>
  \<^verbatim>\<open>sscanf\<close> with four conversions \<^verbatim>\<open>%s\<close> and two \<^verbatim>\<open>%d\<close>. A word that does not fit into its array (64 bytes for the device
  and the type, 4096 for the directory, 128 for the options) is written past its end. A number ends at the first character that is not a digit.
\<close>

definition scan_word :: "nat \<Rightarrow> string \<Rightarrow> (string \<Rightarrow> string \<Rightarrow> 'a option res) \<Rightarrow> 'a option res" where
  "scan_word cap s f =
     (let t = dropWhile isspace s; w = takeWhile (\<lambda>c. \<not> isspace c) t
      in if t = [] then Inr None
         else if cap \<le> length w then Inl BadAccess
         else f w (drop (length w) t))"

definition scan_int :: "string \<Rightarrow> string option" where
  "scan_int s =
     (let t = snd (strip_sign (dropWhile isspace s))
      in if t \<noteq> [] \<and> digit_val (hd t) < 10 then Some (snd (digits 10 0 t)) else None)"

text \<open>The directory of a line that describes a hugetlbfs mount.\<close>

definition mount_line :: "string \<Rightarrow> string option res" where
  "mount_line buf =
     scan_word 64 (cstr buf) (\<lambda>dev s.
     scan_word 4096 s (\<lambda>dir s.
     scan_word 64 s (\<lambda>type s.
     scan_word 128 s (\<lambda>opts s.
       Inr (case scan_int s of
              None \<Rightarrow> None
            | Some s \<Rightarrow> if scan_int s \<noteq> None \<and> type = ''hugetlbfs'' then Some dir else None)))))"

function hp_dir_loop :: "string \<Rightarrow> string option res" where
  "hp_dir_loop f =
     (case fgets 512 f of
        None \<Rightarrow> Inr None
      | Some (buf, rest) \<Rightarrow> rbind (mount_line buf) (\<lambda>d. case d of Some dir \<Rightarrow> Inr (Some dir) | None \<Rightarrow> hp_dir_loop rest))"
  by auto
termination
  by (relation "measure length") (auto simp: numeral_eq_Suc dest: fgets_shorter)

declare hp_dir_loop.simps [simp del]

text \<open>
  The answers of the operating system: the content of the two files, the name \<^verbatim>\<open>mkdtemp\<close> makes of the template (\<open>None\<close> with
  an error number when it fails), and whether \<^verbatim>\<open>asprintf\<close> can allocate it.
\<close>

record hp_env =
  proc_mounts :: "string option"
  proc_meminfo :: "string option"
  os_asprintf :: bool
  os_mkdtemp :: "string \<Rightarrow> int + string"
  os_pid :: nat

definition nvme_mem_get_hp_dir :: "hp_env \<Rightarrow> (int \<times> string option) res" where
  "nvme_mem_get_hp_dir he =
     (case proc_mounts he of
        None \<Rightarrow> Inr (- ENOENT, None)
      | Some f \<Rightarrow>
          rbind (hp_dir_loop f) (\<lambda>d. case d of
            None \<Rightarrow> Inr (- ENOENT, None)
          | Some mntdir \<Rightarrow>
              if \<not> os_asprintf he then Inr (- ENOMEM, None)
              else
                (case os_mkdtemp he (mntdir @ ''/libnvme.'' @ show_base 10 (os_pid he) @ ''.XXXXXX'') of
                   Inl errno \<Rightarrow> Inr (- errno, None)
                 | Inr dir \<Rightarrow> Inr (0, Some dir))))"

text \<open>\<^verbatim>\<open>nvme_mem_hp_init\<close> within \<^verbatim>\<open>nvme_mem_init\<close>, with the answers read from the files.\<close>

definition mem_setup :: "hp_env \<Rightarrow> u64 \<Rightarrow> int \<Rightarrow> int \<Rightarrow> (int \<times> nvme_mem) res" where
  "mem_setup he pagesize mapfd dd =
     rbind (if mapfd < 0 then Inr (0, None) else nvme_mem_get_hp_dir he) (\<lambda>(ret, _).
       Inr (nvme_mem_init \<lparr>sysconf_pagesize = pagesize, pagemap_fd = mapfd, get_hp_dir_ret = ret,
              hp_size_read = nvme_mem_get_hp_size (proc_meminfo he), open_hp_dir = dd\<rparr>))"

subsection \<open>Definitions: cleanup\<close>

fun move_full :: "nat \<Rightarrow> nat list \<Rightarrow> nvme_mem \<Rightarrow> nvme_mem" where
  "move_full i [] mm = mm"
| "move_full i (h # hs) mm =
     move_full i hs (upd_mp i (\<lambda>mp. mp\<lparr>mp_full_list := remove1 h (mp_full_list mp), mp_use_list := h # mp_use_list mp\<rparr>) mm)"

text \<open>The loops run until a list is empty; \<open>n\<close> bounds their rounds.\<close>

fun empty_use :: "nat \<Rightarrow> nat \<Rightarrow> nvme_mem \<Rightarrow> nvme_mem res" where
  "empty_use 0 i mm = (if mp_use_list (mm_mp mm ! i) = [] then Inr mm else Inl OutOfFuel)"
| "empty_use (Suc n) i mm = (if mp_use_list (mm_mp mm ! i) = [] then Inr mm else empty_use n i (nvme_mem_pool_shrink mm i True))"

fun cleanup_pools :: "nat \<Rightarrow> nat list \<Rightarrow> nvme_mem \<Rightarrow> nvme_mem res" where
  "cleanup_pools n [] mm = Inr mm"
| "cleanup_pools n (i # is) mm = rbind (empty_use n i (move_full i (mp_full_list (mm_mp mm ! i)) mm)) (cleanup_pools n is)"

fun empty_bucket :: "nat \<Rightarrow> nat \<Rightarrow> nvme_mem \<Rightarrow> nvme_mem res" where
  "empty_bucket 0 k mm = (if hp_list mm ! k = [] then Inr mm else Inl OutOfFuel)"
| "empty_bucket (Suc n) k mm = (case hp_list mm ! k of [] \<Rightarrow> Inr mm | hp # _ \<Rightarrow> empty_bucket n k (nvme_mem_free_hp mm hp))"

fun cleanup_buckets :: "nat \<Rightarrow> nat list \<Rightarrow> nvme_mem \<Rightarrow> nvme_mem res" where
  "cleanup_buckets n [] mm = Inr mm"
| "cleanup_buckets n (k # ks) mm = rbind (empty_bucket n k mm) (cleanup_buckets n ks)"

text \<open>The descriptor and the name of the hugepage directory are not part of the state.\<close>

definition nvme_mem_hp_cleanup :: "nat \<Rightarrow> nvme_mem \<Rightarrow> nvme_mem res" where
  "nvme_mem_hp_cleanup n mm = cleanup_buckets n [0..<NVME_HP_HASH_SIZE] mm"

definition nvme_mem_cleanup :: "nat \<Rightarrow> nvme_mem \<Rightarrow> nvme_mem res" where
  "nvme_mem_cleanup n mm = rbind (cleanup_pools n [0..<NVME_MP_NUM] mm) (nvme_mem_hp_cleanup n)"

subsection \<open>Cleanup releases everything\<close>

text \<open>
  What the cleanup relies on: the buckets hold hugepages with their hash, every heap of a pool and its hugepage point to each other, and every hugepage
  belongs to a heap. The counters of the pools, which the cleanup does not maintain, play no role.
\<close>

definition buckets_ok :: "nvme_mem \<Rightarrow> bool" where
  "buckets_ok mm \<longleftrightarrow> length (hp_list mm) = NVME_HP_HASH_SIZE
     \<and> (\<forall>k<NVME_HP_HASH_SIZE. distinct (hp_list mm ! k)
          \<and> (\<forall>p\<in>set (hp_list mm ! k). \<exists>hp. hps mm p = Some hp \<and> hp_hash mm (hp_vaddr hp) = k))"

definition linked_heap :: "nvme_mem \<Rightarrow> nat \<Rightarrow> nat \<Rightarrow> bool" where
  "linked_heap mm i h \<longleftrightarrow> (\<exists>heap hp. heaps mm h = Some heap \<and> hps mm (heap_hp heap) = Some hp \<and> hp_mp hp = Some i \<and> hp_heap hp = Some h)"

definition owned_hp :: "nvme_mem \<Rightarrow> nat \<Rightarrow> bool" where
  "owned_hp mm p \<longleftrightarrow> (\<exists>i<NVME_MP_NUM. \<exists>h\<in>set (pool_heaps mm i). \<exists>heap. heaps mm h = Some heap \<and> heap_hp heap = p)"

definition clean_inv :: "nvme_mem \<Rightarrow> bool" where
  "clean_inv mm \<longleftrightarrow> length (mm_mp mm) = NVME_MP_NUM \<and> buckets_ok mm
     \<and> (\<forall>i<NVME_MP_NUM. distinct (pool_heaps mm i) \<and> (\<forall>h\<in>set (pool_heaps mm i). linked_heap mm i h))
     \<and> (\<forall>p. hps mm p \<noteq> None \<longrightarrow> owned_hp mm p)"

lemma clean_invD:
  assumes "clean_inv mm"
  shows "length (mm_mp mm) = NVME_MP_NUM" "buckets_ok mm" "i < NVME_MP_NUM \<Longrightarrow> distinct (pool_heaps mm i)"
    "i < NVME_MP_NUM \<Longrightarrow> h \<in> set (pool_heaps mm i) \<Longrightarrow> linked_heap mm i h" "hps mm p = Some hp \<Longrightarrow> owned_hp mm p"
  using assms by (auto simp: clean_inv_def)

lemma clean_invI:
  assumes "mem_inv mm"
  shows "clean_inv mm"
  unfolding clean_inv_def
proof (intro conjI allI impI ballI)
  show "length (mm_mp mm) = NVME_MP_NUM" using assms by (simp add: mem_inv_def mem_sizes_def)
  show "buckets_ok mm" using assms by (simp add: mem_inv_def hp_inv_def buckets_ok_def)
  show "distinct (pool_heaps mm i)" if "i < NVME_MP_NUM" for i using assms that by (simp add: mem_inv_def pool_inv_def Let_def)
  show "linked_heap mm i h" if "i < NVME_MP_NUM" "h \<in> set (pool_heaps mm i)" for i h
  proof -
    have "heap_ok mm i h" using assms that by (simp add: mem_inv_def pool_inv_def Let_def)
    then show ?thesis unfolding heap_ok_def linked_heap_def by blast
  qed
  show "owned_hp mm p" if "hps mm p \<noteq> None" for p
    using assms that unfolding mem_inv_def owner_inv_def owned_hp_def by blast
qed

lemma clean_inv_lists:
  assumes "clean_inv mm" and "i < NVME_MP_NUM" and "set (mp_use_list (f (mm_mp mm ! i)) @ mp_full_list (f (mm_mp mm ! i))) = set (pool_heaps mm i)"
    and "distinct (mp_use_list (f (mm_mp mm ! i)) @ mp_full_list (f (mm_mp mm ! i)))"
  shows "clean_inv (upd_mp i f mm)"
proof -
  have l: "length (mm_mp mm) = NVME_MP_NUM" using assms(1) by (simp add: clean_inv_def)
  have "set (pool_heaps (upd_mp i f mm) j) = set (pool_heaps mm j)"
    "j < NVME_MP_NUM \<Longrightarrow> distinct (pool_heaps (upd_mp i f mm) j)" for j
    using assms(2-4) l clean_invD(3) [OF assms(1), of j] by (cases "j = i"; simp add: pool_heaps_def upd_mp_def)+
  then show ?thesis using assms(1) by (simp add: clean_inv_def buckets_ok_def linked_heap_def owned_hp_def)
qed

lemma move_full_ok:
  assumes "clean_inv mm" and "i < NVME_MP_NUM" and "mp_full_list (mm_mp mm ! i) = hs"
  shows "clean_inv (move_full i hs mm) \<and> mp_full_list (mm_mp (move_full i hs mm) ! i) = []
    \<and> (\<forall>j. j \<noteq> i \<longrightarrow> mm_mp (move_full i hs mm) ! j = mm_mp mm ! j)"
  using assms
proof (induction hs arbitrary: mm)
  case Nil
  then show ?case by simp
next
  case (Cons h hs)
  let ?m = "upd_mp i (\<lambda>mp. mp\<lparr>mp_full_list := remove1 h (mp_full_list mp), mp_use_list := h # mp_use_list mp\<rparr>) mm"
  have l: "length (mm_mp mm) = NVME_MP_NUM" using Cons.prems(1) by (simp add: clean_inv_def)
  have "clean_inv ?m" using Cons.prems clean_invD(3) [OF Cons.prems(1,2)] by (intro clean_inv_lists) (auto simp: pool_heaps_def)
  moreover have "mp_full_list (mm_mp ?m ! i) = hs" using Cons.prems l by (simp add: upd_mp_def)
  moreover have "mm_mp ?m ! j = mm_mp mm ! j" if "j \<noteq> i" for j using that by (simp add: upd_mp_def)
  ultimately show ?case using Cons.IH [of ?m] Cons.prems(2) by simp
qed

lemma free_hp_buckets:
  assumes "buckets_ok mm" and "hps mm p = Some hp"
  shows "buckets_ok (nvme_mem_free_hp mm p)"
  using assms unfolding buckets_ok_def nvme_mem_free_hp_def Let_def
  by (auto simp: nth_list_update dest: notin_set_remove1) fastforce+

lemma free_heap_ok:
  assumes "clean_inv mm" and "i < NVME_MP_NUM" and "h \<in> set (mp_use_list (mm_mp mm ! i))"
  shows "clean_inv (free_heap mm i h) \<and> mp_use_list (mm_mp (free_heap mm i h) ! i) = remove1 h (mp_use_list (mm_mp mm ! i))
    \<and> mp_full_list (mm_mp (free_heap mm i h) ! i) = mp_full_list (mm_mp mm ! i)
    \<and> (\<forall>j. j \<noteq> i \<longrightarrow> mm_mp (free_heap mm i h) ! j = mm_mp mm ! j)"
proof -
  have l: "length (mm_mp mm) = NVME_MP_NUM" using assms(1) by (simp add: clean_inv_def)
  have hin: "h \<in> set (pool_heaps mm i)" using assms(3) by (simp add: pool_heaps_def)
  then obtain heap hp where hh: "heaps mm h = Some heap" "hps mm (heap_hp heap) = Some hp" "hp_mp hp = Some i" "hp_heap hp = Some h"
    using clean_invD(4) [OF assms(1,2)] unfolding linked_heap_def by blast
  let ?m = "free_heap mm i h"
  have f: "mp_use_list (mm_mp ?m ! i) = remove1 h (mp_use_list (mm_mp mm ! i))" "mp_full_list (mm_mp ?m ! i) = mp_full_list (mm_mp mm ! i)"
    "\<And>j. j \<noteq> i \<Longrightarrow> mm_mp ?m ! j = mm_mp mm ! j" "length (mm_mp ?m) = NVME_MP_NUM" "heaps ?m = (heaps mm)(h := None)"
    "hps ?m = (hps mm)(heap_hp heap := None)"
    using l assms(2) hh(1) by (simp_all add: free_heap_def nvme_mem_free_hp_def upd_mp_def Let_def)
  have "distinct (pool_heaps mm i)" using assms(1,2) by (simp add: clean_inv_def)
  then have ph: "pool_heaps ?m j = (if j = i then remove1 h (pool_heaps mm i) else pool_heaps mm j)" for j
    using f assms(3) by (auto simp: pool_heaps_def remove1_append)
  have b: "buckets_ok ?m"
  proof -
    let ?u = "upd_mp i (\<lambda>mp. mp\<lparr>mp_use_list := remove1 h (mp_use_list mp), mp_nr_use := sz_sub (mp_nr_use mp) 1,
        mp_nr_objs := sz_sub (mp_nr_objs mp) (heap_nr_objs heap), mp_nr_free_objs := sz_sub (mp_nr_free_objs mp) (heap_nr_free_objs heap)\<rparr>) mm"
    have "buckets_ok ?u" using assms(1) by (simp add: clean_inv_def buckets_ok_def)
    from free_hp_buckets [OF this, of "heap_hp heap" hp] hh show ?thesis by (simp add: free_heap_def buckets_ok_def Let_def)
  qed
  have other: "linked_heap ?m j g" if "j < NVME_MP_NUM" "g \<in> set (pool_heaps mm j)" "g \<noteq> h" for j g
  proof -
    from clean_invD(4) [OF assms(1) that(1,2)] obtain hg pg where
      g: "heaps mm g = Some hg" "hps mm (heap_hp hg) = Some pg" "hp_mp pg = Some j" "hp_heap pg = Some g" unfolding linked_heap_def by blast
    then have "heap_hp hg \<noteq> heap_hp heap" using hh that(3) by auto
    then show ?thesis using g that(3) f by (auto simp: linked_heap_def)
  qed
  have nin: "h \<notin> set (pool_heaps mm j)" if "j < NVME_MP_NUM" "j \<noteq> i" for j
  proof
    assume "h \<in> set (pool_heaps mm j)"
    then have "linked_heap mm j h" using that assms(1) by (simp add: clean_inv_def)
    then show False using hh that(2) by (auto simp: linked_heap_def)
  qed
  have sub: "set (pool_heaps ?m j) = set (pool_heaps mm j) - {h}" "distinct (pool_heaps ?m j)" if "j < NVME_MP_NUM" for j
    using that assms(1) nin [OF that] by (auto simp: ph clean_inv_def)
  have "owned_hp ?m p" if "hps ?m p \<noteq> None" for p
  proof -
    have "hps mm p \<noteq> None" "p \<noteq> heap_hp heap" using that f(6) by (auto split: if_splits)
    then have "owned_hp mm p" using assms(1) by (simp add: clean_inv_def)
    then obtain j g hg where j: "j < NVME_MP_NUM" "g \<in> set (pool_heaps mm j)" "heaps mm g = Some hg" "heap_hp hg = p"
      by (auto simp: owned_hp_def)
    with \<open>p \<noteq> heap_hp heap\<close> hh(1) have "g \<noteq> h" by auto
    then show ?thesis using j sub(1) [OF j(1)] f(5) by (auto simp: owned_hp_def)
  qed
  then have "clean_inv ?m" using f(4) b sub other by (auto simp: clean_inv_def)
  then show ?thesis using f by blast
qed

lemma shrink_loop_ok:
  assumes "clean_inv mm" and "i < NVME_MP_NUM" and "mp_use_list (mm_mp mm ! i) = hs"
  shows "clean_inv (shrink_loop i True hs n mm) \<and> mp_use_list (mm_mp (shrink_loop i True hs n mm) ! i) = []
    \<and> mp_full_list (mm_mp (shrink_loop i True hs n mm) ! i) = mp_full_list (mm_mp mm ! i)
    \<and> (\<forall>j. j \<noteq> i \<longrightarrow> mm_mp (shrink_loop i True hs n mm) ! j = mm_mp mm ! j)"
  using assms
proof (induction hs arbitrary: mm n)
  case (Cons h hs)
  have "h \<in> set (mp_use_list (mm_mp mm ! i))" using Cons.prems(3) by simp
  note fh = free_heap_ok [OF Cons.prems(1,2) this]
  then show ?case using Cons.IH [of "free_heap mm i h" n] Cons.prems(2,3) by (simp add: Let_def)
qed simp

lemma cleanup_pool_ok:
  assumes "clean_inv mm" and "i < NVME_MP_NUM" and "0 < n"
  shows "\<exists>mm'. empty_use n i (move_full i (mp_full_list (mm_mp mm ! i)) mm) = Inr mm' \<and> clean_inv mm' \<and> pool_heaps mm' i = []
    \<and> (\<forall>j. j \<noteq> i \<longrightarrow> mm_mp mm' ! j = mm_mp mm ! j)"
proof -
  let ?m = "move_full i (mp_full_list (mm_mp mm ! i)) mm"
  note m = move_full_ok [OF assms(1,2) refl]
  note s = shrink_loop_ok [OF conjunct1 [OF m] assms(2) refl, of 0]
  obtain k where n: "n = Suc k" using assms(3) by (cases n) auto
  show ?thesis
  proof (cases "mp_use_list (mm_mp ?m ! i) = []")
    case True
    then show ?thesis using m n by (auto simp: pool_heaps_def)
  next
    case False
    let ?s = "nvme_mem_pool_shrink ?m i True"
    have e: "mp_use_list (mm_mp ?s ! i) = []" using s by (simp add: nvme_mem_pool_shrink_def)
    then have "empty_use k i ?s = Inr ?s" by (cases k) simp_all
    then show ?thesis using False n s m by (auto simp: nvme_mem_pool_shrink_def pool_heaps_def)
  qed
qed

lemma cleanup_pools_ok:
  assumes "clean_inv mm" and "set is \<subseteq> {..<NVME_MP_NUM}" and "0 < n"
  shows "\<exists>mm'. cleanup_pools n is mm = Inr mm' \<and> clean_inv mm'
    \<and> (\<forall>j. pool_heaps mm' j = (if j \<in> set is then [] else pool_heaps mm j))"
  using assms(1,2)
proof (induction "is" arbitrary: mm)
  case (Cons i "is")
  from cleanup_pool_ok [OF Cons.prems(1) _ assms(3), of i] Cons.prems(2) obtain m1 where
    m1: "empty_use n i (move_full i (mp_full_list (mm_mp mm ! i)) mm) = Inr m1" "clean_inv m1" "pool_heaps m1 i = []"
    "\<forall>j. j \<noteq> i \<longrightarrow> mm_mp m1 ! j = mm_mp mm ! j" by auto
  from Cons.IH [OF m1(2)] Cons.prems(2) obtain m2 where m2: "cleanup_pools n is m1 = Inr m2" "clean_inv m2"
    "\<forall>j. pool_heaps m2 j = (if j \<in> set is then [] else pool_heaps m1 j)" by auto
  have "pool_heaps m1 j = pool_heaps mm j" if "j \<noteq> i" for j using m1(4) that by (simp add: pool_heaps_def)
  then show ?case using m1(1,3) m2 by auto
qed simp

lemma cleanup_buckets_empty: "\<forall>k\<in>set ks. hp_list mm ! k = [] \<Longrightarrow> cleanup_buckets n ks mm = Inr mm"
proof (induction ks)
  case (Cons k ks)
  then have "empty_bucket n k mm = Inr mm" by (cases n) simp_all
  then show ?case using Cons by simp
qed simp

lemma cleanup_all:
  assumes "mem_inv mm" and "0 < n"
  shows "\<exists>mm'. nvme_mem_cleanup n mm = Inr mm' \<and> hps mm' = Map.empty \<and> (\<forall>i<NVME_MP_NUM. pool_heaps mm' i = [])
    \<and> (\<forall>k<NVME_HP_HASH_SIZE. hp_list mm' ! k = [])"
proof -
  from cleanup_pools_ok [OF clean_invI [OF assms(1)] _ assms(2), of "[0..<NVME_MP_NUM]"] lessThan_atLeast0 obtain m where
    m: "cleanup_pools n [0..<NVME_MP_NUM] mm = Inr m" "clean_inv m" "\<forall>j<NVME_MP_NUM. pool_heaps m j = []" by auto
  have h: "hps m = Map.empty"
  proof
    fix p
    have "\<not> owned_hp m p" using m(3) by (simp add: owned_hp_def)
    then show "hps m p = None" using m(2) by (auto simp: clean_inv_def)
  qed
  then have b: "hp_list m ! k = []" if "k < NVME_HP_HASH_SIZE" for k
    using m(2) that by (auto simp: clean_inv_def buckets_ok_def)
  then have "nvme_mem_hp_cleanup n m = Inr m" by (simp add: nvme_mem_hp_cleanup_def cleanup_buckets_empty)
  then show ?thesis using m h b by (auto simp: nvme_mem_cleanup_def)
qed

text \<open>
  Cleaning up at exit ends after one round of each loop and releases everything: no pool has a heap left, no hugepage is mapped and
  the hash table of hugepages is empty, whatever was still allocated.
\<close>

theorem cleanup_releases_all:
  assumes "mem_inv mm" and "0 < n"
  shows "\<exists>mm'. nvme_mem_cleanup n mm = Inr mm' \<and> hps mm' = Map.empty \<and> (\<forall>i<NVME_MP_NUM. pool_heaps mm' i = [])
    \<and> (\<forall>k<NVME_HP_HASH_SIZE. hp_list mm' ! k = [])"
  by (rule cleanup_all [OF assms])

theorem cleanup_releases_all_witness:
  "\<exists>mm mm'. fst (nvme_malloc_node ex_os ex_mm (2 ^ 20) 4096 0) = Some (3 * 2 ^ 21) \<and> mm = snd (nvme_malloc_node ex_os ex_mm (2 ^ 20) 4096 0)
    \<and> all_blocks mm \<noteq> {} \<and> nvme_mem_cleanup 1 mm = Inr mm' \<and> hps mm' = Map.empty"
proof -
  obtain mm where al: "nvme_malloc_node ex_os ex_mm (2 ^ 20) 4096 0 = (Some (3 * 2 ^ 21), mm)"
    using ex_alloc by (auto simp: nvme_malloc_node_def)
  then have r: "mem_alloc_req ex_os ex_mm (2 ^ 20, 4096, 0) = (Some (3 * 2 ^ 21), mm)" by (simp add: mem_alloc_req_def)
  from mem.alloc_Some [OF ex_mm_inv ex_os_ok r] have "all_blocks mm \<noteq> {}" by blast
  moreover from cleanup_releases_all [OF mem.alloc_inv [OF ex_mm_inv ex_os_ok r], of 1]
  obtain mm' where "nvme_mem_cleanup 1 mm = Inr mm'" "hps mm' = Map.empty" by auto
  ultimately show ?thesis using al by auto
qed

subsection \<open>Setting up from the files\<close>

lemma hp_size_skip:
  assumes "CHR 0x0A \<notin> set l" and "NUL \<notin> set l" and "length l \<le> 254" and "take 13 (l @ [CHR 0x0A]) \<noteq> HPSIZE_KEY"
  shows "hp_size_loop (l @ CHR 0x0A # f) = hp_size_loop f"
proof -
  have "fgets 256 (l @ CHR 0x0A # f) = Some (l @ [CHR 0x0A], f)" using fgets_line [of l 256 f] assms(1,3) by simp
  moreover have "cstr (l @ [CHR 0x0A]) = l @ [CHR 0x0A]" using assms(2) by (auto simp: cstr_def takeWhile_eq_all_conv)
  ultimately show ?thesis using assms(4) by (subst hp_size_loop.simps) simp
qed

definition other_line :: "string \<Rightarrow> bool" where
  "other_line l \<longleftrightarrow> CHR 0x0A \<notin> set l \<and> NUL \<notin> set l \<and> length l \<le> 254 \<and> take 13 (l @ [CHR 0x0A]) \<noteq> HPSIZE_KEY"

lemma hp_size_lines: "list_all other_line ls \<Longrightarrow> hp_size_loop (concat (map (\<lambda>l. l @ [CHR 0x0A]) ls) @ f) = hp_size_loop f"
proof (induction ls)
  case (Cons l ls)
  then show ?case using hp_size_skip [of l "concat (map (\<lambda>l. l @ [CHR 0x0A]) ls) @ f"] by (simp add: other_line_def)
qed simp

lemma hp_size_line:
  assumes "0 < n" and "n < 2 ^ 64" and "j \<le> 200"
  shows "hp_size_loop (HPSIZE_KEY @ replicate j CHR '' '' @ show_base 10 n @ '' kB'' @ CHR 0x0A # f) = of_nat n * 1024"
proof -
  let ?d = "show_base 10 n" and ?sp = "replicate j CHR '' ''"
  have d: "all_digits 10 ?d" by simp
  have nl: "CHR 0x0A \<notin> set ?d" "NUL \<notin> set ?d" using d digit_not_special(6,7) by (force simp: all_digits_def)+
  have len: "length ?d \<le> Suc 19" by (rule show_base_length) (use assms in simp_all)
  define l where "l = HPSIZE_KEY @ ?sp @ ?d @ '' kB''"
  have key: "length HPSIZE_KEY = 13" "CHR 0x0A \<notin> set HPSIZE_KEY" "NUL \<notin> set HPSIZE_KEY" by (simp_all add: HPSIZE_KEY_def char_of_def)
  have l: "CHR 0x0A \<notin> set l" "NUL \<notin> set l" "length l \<le> 254" using key nl len assms(3) by (auto simp: l_def char_of_def)
  have "fgets 256 (l @ CHR 0x0A # f) = Some (l @ [CHR 0x0A], f)" using fgets_line [of l 256 f] l by simp
  moreover have "cstr (l @ [CHR 0x0A]) = l @ [CHR 0x0A]" using l(2) by (auto simp: cstr_def takeWhile_eq_all_conv)
  moreover have "take 13 (l @ [CHR 0x0A]) = HPSIZE_KEY" "drop 13 (l @ [CHR 0x0A]) = ?sp @ ?d @ '' kB'' @ [CHR 0x0A]"
    using key by (simp_all add: l_def)
  moreover have "nvme_str2size (?sp @ ?d @ '' kB'' @ [CHR 0x0A]) = of_nat n * 1024"
    using str2size_unit [OF assms(1,2), of "'' kB'' @ [CHR 0x0A]" j] by (simp add: unit_factor_def)
  ultimately have "hp_size_loop (l @ CHR 0x0A # f) = of_nat n * 1024" by (subst hp_size_loop.simps) simp
  then show ?thesis by (simp add: l_def)
qed

text \<open>
  C27. Set up from the files of \<^verbatim>\<open>/proc\<close>: when a line of \<^verbatim>\<open>/proc/meminfo\<close> gives the hugepage size as a number of kB, after any other
  lines, and the rest of the set-up succeeds, the hugepage size is that number times 1024, the memory manager satisfies its invariant and holds no block.
\<close>

theorem mem_setup_establishes:
  assumes "mem_setup he pagesize mapfd dd = Inr (0, mm)" and "list_all other_line ls" and "j \<le> 200" and "n * 1024 = 2 ^ k" and "21 \<le> k" and "k \<le> 30"
    and "proc_meminfo he = Some (concat (map (\<lambda>l. l @ [CHR 0x0A]) ls)
           @ HPSIZE_KEY @ replicate j CHR '' '' @ show_base 10 n @ '' kB'' @ CHR 0x0A # rest)"
  shows "hp_size mm = n * 1024 \<and> mem_inv mm \<and> all_blocks mm = {} \<and> nr_hp mm = 0"
proof -
  have pk: "(2::nat) ^ k \<le> 2 ^ 30" using assms(6) by (rule power_increasing) simp
  have n: "0 < n" "n < 2 ^ 64" using assms(4) pk by (cases n; simp)+
  have "nvme_mem_get_hp_size (proc_meminfo he) = of_nat n * 1024"
    using hp_size_lines [OF assms(2)] hp_size_line [OF n assms(3)] assms(7) by (simp add: nvme_mem_get_hp_size_def)
  also have "\<dots> = of_nat (n * 1024)" by simp
  finally have sz: "nvme_mem_get_hp_size (proc_meminfo he) = 2 ^ k" using assms(4) by simp
  obtain env where e: "nvme_mem_init env = (0, mm)" "hp_size_read env = 2 ^ k"
    using assms(1) sz by (auto simp: mem_setup_def split: if_splits)
  have "unat (2 ^ k :: u64) = 2 ^ k" using assms(6) by (intro unat_pow2) simp
  then have "hp_size mm = n * 1024" using e assms(4) by (auto simp: nvme_mem_init_def Let_def split: if_splits)
  then show ?thesis using init_inv [OF e assms(5,6)] by simp
qed

text \<open>The options of a mount are not bounded by the conversion, and a line with 128 characters of them is written past the end of the array.\<close>

lemma mount_options_overflow: "128 \<le> n \<Longrightarrow> mount_line (''overlay / overlay '' @ replicate n CHR ''a'') = Inl BadAccess"
proof -
  assume n: "128 \<le> n"
  have "cstr (replicate n CHR ''a'') = replicate n CHR ''a''" "takeWhile (\<lambda>c. \<not> isspace c) (replicate n CHR ''a'') = replicate n CHR ''a''"
    "dropWhile isspace (replicate n CHR ''a'') = replicate n CHR ''a''"
    by (auto simp: cstr_def isspace_def takeWhile_replicate dropWhile_replicate char_of_def)
  then show ?thesis using n by (simp add: mount_line_def scan_word_def cstr_def isspace_def Let_def char_of_def)
qed

definition ex_hp :: hp_env where
  "ex_hp = \<lparr>proc_mounts = Some (''none /mnt/huge hugetlbfs rw 0 0'' @ [CHR 0x0A]),
     proc_meminfo = Some (''MemTotal: 8 kB'' @ [CHR 0x0A] @ ''Hugepagesize:    2048 kB'' @ [CHR 0x0A]),
     os_asprintf = True, os_mkdtemp = (\<lambda>t. Inr t), os_pid = 1\<rparr>"

lemma ex_hp_meminfo:
  "proc_meminfo ex_hp = Some (concat (map (\<lambda>l. l @ [CHR 0x0A]) [''MemTotal: 8 kB''])
     @ HPSIZE_KEY @ replicate 4 CHR '' '' @ show_base 10 2048 @ '' kB'' @ CHR 0x0A # [])" "list_all other_line [''MemTotal: 8 kB'']"
proof -
  have "show_base 10 2048 = ''2048''" by (simp add: show_base.simps digit_char_def)
  then show "proc_meminfo ex_hp = Some (concat (map (\<lambda>l. l @ [CHR 0x0A]) [''MemTotal: 8 kB''])
     @ HPSIZE_KEY @ replicate 4 CHR '' '' @ show_base 10 2048 @ '' kB'' @ CHR 0x0A # [])"
    by (simp add: ex_hp_def HPSIZE_KEY_def numeral_eq_Suc)
  show "list_all other_line [''MemTotal: 8 kB'']" by (simp add: other_line_def HPSIZE_KEY_def char_of_def)
qed

lemma ex_hp_dir: "nvme_mem_get_hp_dir ex_hp = Inr (0, Some ''/mnt/huge/libnvme.1.XXXXXX'')"
  by code_simp

theorem mem_setup_establishes_witness: "\<exists>mm. mem_setup ex_hp 4096 3 4 = Inr (0, mm) \<and> hp_size mm = 2048 * 1024 \<and> mem_inv mm"
proof -
  have "nvme_mem_get_hp_size (proc_meminfo ex_hp) = of_nat 2048 * 1024"
    using hp_size_lines [OF ex_hp_meminfo(2)] hp_size_line [of 2048 4 "[]"] by (simp add: nvme_mem_get_hp_size_def ex_hp_meminfo(1))
  then obtain mm where m: "mem_setup ex_hp 4096 3 4 = Inr (0, mm)"
    by (simp add: mem_setup_def ex_hp_dir nvme_mem_init_def Let_def)
  from mem_setup_establishes [OF m ex_hp_meminfo(2) _ _ _ _ ex_hp_meminfo(1), of 21] m show ?thesis by simp
qed

end
