(* ===== verification/Nvme_Log.thy ===== *)
theory Nvme_Log
  imports Nvme_Text
begin

text \<open>
  Log messages (\<^verbatim>\<open>lib/common/nvme_log.c\<close>): the level and facility in force, and the messages written to each target. A message is the text the
  format and its arguments give. What \<^verbatim>\<open>fopen\<close> returns is a parameter.
\<close>

subsection \<open>Definitions\<close>

datatype nvme_log_level =
    NVME_LOG_NONE | NVME_LOG_EMERG | NVME_LOG_ALERT | NVME_LOG_CRIT | NVME_LOG_ERR | NVME_LOG_WARNING | NVME_LOG_NOTICE
  | NVME_LOG_INFO | NVME_LOG_DEBUG | NVME_LOG_LEVEL_OTHER int

primrec level_code :: "nvme_log_level \<Rightarrow> int" where
  "level_code NVME_LOG_NONE = 0"
| "level_code NVME_LOG_EMERG = 1"
| "level_code NVME_LOG_ALERT = 2"
| "level_code NVME_LOG_CRIT = 3"
| "level_code NVME_LOG_ERR = 4"
| "level_code NVME_LOG_WARNING = 5"
| "level_code NVME_LOG_NOTICE = 6"
| "level_code NVME_LOG_INFO = 7"
| "level_code NVME_LOG_DEBUG = 8"
| "level_code (NVME_LOG_LEVEL_OTHER n) = n"

datatype nvme_log_facility = NVME_LOG_STDOUT | NVME_LOG_FILE | NVME_LOG_SYSLOG | NVME_LOG_FACILITY_OTHER

datatype log_target = Stdout | File nat | Syslog int

record nvme_log =
  log_level :: nvme_log_level
  log_facility :: nvme_log_facility
  log_file :: "nat option"
  log_out :: "(log_target \<times> string) list"

definition log_default :: nvme_log where
  "log_default = \<lparr>log_level = NVME_LOG_NOTICE, log_facility = NVME_LOG_STDOUT, log_file = None, log_out = []\<rparr>"

definition nvme_close_log :: "nvme_log \<Rightarrow> nvme_log" where
  "nvme_close_log l =
     (let l = (case log_facility l of NVME_LOG_FILE \<Rightarrow> l\<lparr>log_file := None\<rparr> | _ \<Rightarrow> l) in l\<lparr>log_facility := NVME_LOG_STDOUT\<rparr>)"

text \<open>\<open>fopen\<close> is the file opened, or the error number.\<close>

definition nvme_set_log_facility :: "int + nat \<Rightarrow> nvme_log_facility \<Rightarrow> nvme_log \<Rightarrow> int \<times> nvme_log" where
  "nvme_set_log_facility fopen facility l =
     (let l = nvme_close_log l; bad = l\<lparr>log_facility := NVME_LOG_STDOUT, log_file := None\<rparr>
      in case facility of
           NVME_LOG_STDOUT \<Rightarrow> (0, l\<lparr>log_facility := facility\<rparr>)
         | NVME_LOG_FILE \<Rightarrow>
             (case fopen of Inl errno \<Rightarrow> (- errno, bad) | Inr f \<Rightarrow> (0, l\<lparr>log_file := Some f, log_facility := facility\<rparr>))
         | NVME_LOG_SYSLOG \<Rightarrow> (0, l\<lparr>log_facility := facility\<rparr>)
         | NVME_LOG_FACILITY_OTHER \<Rightarrow> (- EINVAL, bad))"

definition nvme_get_log_facility :: "nvme_log \<Rightarrow> nvme_log_facility" where
  "nvme_get_log_facility l = log_facility l"

definition nvme_set_log_level :: "nvme_log_level \<Rightarrow> nvme_log \<Rightarrow> nvme_log" where
  "nvme_set_log_level level l =
     (if level_code NVME_LOG_EMERG \<le> level_code level \<and> level_code level \<le> level_code NVME_LOG_DEBUG then l\<lparr>log_level := level\<rparr> else l)"

definition nvme_get_log_level :: "nvme_log \<Rightarrow> nvme_log_level" where
  "nvme_get_log_level l = log_level l"

text \<open>The buffer has \<open>BUFSIZ + 1\<close> bytes; \<^verbatim>\<open>vsnprintf\<close> returns the length of the whole message and writes at most \<open>BUFSIZ\<close> bytes.\<close>

definition nvme_vlog_syslog :: "string \<Rightarrow> nvme_log \<Rightarrow> nvme_log res" where
  "nvme_vlog_syslog msg l =
     (if length msg = 0 then Inr l
      else if length msg > BUFSIZ then Inl BadAccess
      else Inr (l\<lparr>log_out := log_out l @ [(Syslog (level_code (log_level l) - 1), take (BUFSIZ - 1) msg)]\<rparr>))"

definition nvme_vlog :: "nvme_log_level \<Rightarrow> string \<Rightarrow> nvme_log \<Rightarrow> nvme_log res" where
  "nvme_vlog level msg l =
     (if level_code level > level_code (log_level l) then Inr l
      else case log_facility l of
             NVME_LOG_STDOUT \<Rightarrow> Inr (l\<lparr>log_out := log_out l @ [(Stdout, msg)]\<rparr>)
           | NVME_LOG_FILE \<Rightarrow>
               (case log_file l of Some f \<Rightarrow> Inr (l\<lparr>log_out := log_out l @ [(File f, msg)]\<rparr>) | None \<Rightarrow> Inr l)
           | NVME_LOG_SYSLOG \<Rightarrow> nvme_vlog_syslog msg l
           | NVME_LOG_FACILITY_OTHER \<Rightarrow> Inr l)"

subsection \<open>Facilities and levels\<close>

text \<open>A file is open exactly while messages go to it, and the level is one of those that exist.\<close>

definition log_ok :: "nvme_log \<Rightarrow> bool" where
  "log_ok l \<longleftrightarrow> (log_facility l = NVME_LOG_FILE \<longleftrightarrow> log_file l \<noteq> None) \<and> log_facility l \<noteq> NVME_LOG_FACILITY_OTHER
     \<and> 1 \<le> level_code (log_level l) \<and> level_code (log_level l) \<le> 8"

lemma log_ok_default: "log_ok log_default"
  by (simp add: log_ok_def log_default_def)

lemma log_ok_facility:
  assumes "log_ok l" and "nvme_set_log_facility fopen facility l = (ret, l')" and "\<And>e. fopen = Inl e \<Longrightarrow> 0 < e"
  shows "log_ok l'" "nvme_get_log_facility l' = (if ret = 0 then facility else NVME_LOG_STDOUT)"
  using assms
  by (auto simp: log_ok_def nvme_set_log_facility_def nvme_close_log_def nvme_get_log_facility_def Let_def errno_defs
      split: nvme_log_facility.splits sum.splits)

lemma log_ok_level: "log_ok l \<Longrightarrow> log_ok (nvme_set_log_level level l)"
  by (auto simp: log_ok_def nvme_set_log_level_def)

text \<open>A message is written once to the target in force when its level is not above that of the log, and else nowhere.\<close>

lemma vlog_written:
  assumes "log_ok l" and "length msg \<le> BUFSIZ - 1" and "msg \<noteq> []"
  shows "\<exists>t l'. nvme_vlog level msg l = Inr l' \<and> log_ok l'
    \<and> log_out l' = log_out l @ (if level_code level \<le> level_code (log_level l) then [(t, msg)] else [])"
  using assms
  by (auto simp: log_ok_def nvme_vlog_def nvme_vlog_syslog_def BUFSIZ_def split: nvme_log_facility.splits option.splits)

text \<open>Level \<^verbatim>\<open>NVME_LOG_NONE\<close> cannot be set, and a message longer than the buffer is written past its end.\<close>

lemma log_level_none: "nvme_set_log_level NVME_LOG_NONE l = l"
  by (simp add: nvme_set_log_level_def)

lemma syslog_overflow: "BUFSIZ < length msg \<Longrightarrow> nvme_vlog_syslog msg l = Inl BadAccess"
  by (auto simp: nvme_vlog_syslog_def)

end
