(* ===== verification/Nvme_Open.thy ===== *)
theory Nvme_Open
  imports Nvme_Ioqp Nvme_Pci Nvme_Cpu Nvme_Setup Nvme_Log
begin

text \<open>
  The entry points of the library (\<^verbatim>\<open>lib/nvme/nvme.c\<close> and \<^verbatim>\<open>nvme_lib_init\<close>, \<^verbatim>\<open>nvme_lib_exit\<close> of \<^verbatim>\<open>lib/common/nvme_common.c\<close>): the
  list of open controllers, opening and closing them, and what is reported of a controller. A handle is the address of a controller; an address
  that is not in the list is not the address of a controller any more.
\<close>

subsection \<open>Definitions: the list of open controllers\<close>

record open_ctrlr =
  oc_addr :: nat
  oc_pci :: pci_device
  oc_env :: ctrlr_env
  oc_ctrlr :: nvme_ctrlr

type_synonym ctrlr_list = "open_ctrlr list"

definition nvme_ctrlr_get :: "ctrlr_list \<Rightarrow> nat \<Rightarrow> bool \<Rightarrow> open_ctrlr option \<times> ctrlr_list" where
  "nvme_ctrlr_get head ctrlr rm =
     (case find (\<lambda>c. oc_addr c = ctrlr) head of
        None \<Rightarrow> (None, head)
      | Some c \<Rightarrow> (Some c, if rm then remove1 c head else head))"

text \<open>
  What opening a controller uses of its surroundings: the PCI library, and for the controller that is attached its address, its device with
  its registers and the command word of its configuration space, the address translation, and the bounds on rounds and calls.
\<close>

record open_env =
  oe_pci :: pci_env
  oe_addr :: nat
  oe_env :: ctrlr_env
  oe_regs :: nvme_registers
  oe_vtophys :: "nat \<Rightarrow> u64"
  oe_cmd :: u32
  oe_rounds :: nat
  oe_fuel :: nat

definition nvme_ctrlr_open :: "open_env \<Rightarrow> ctrlr_list \<Rightarrow> string \<Rightarrow> nvme_ctrlr_opts option \<Rightarrow> (nat option \<times> ctrlr_list) res" where
  "nvme_ctrlr_open oe head url opts =
     (if take 6 url \<noteq> ''pci://'' then Inr (None, head)
      else rbind (nvme_pci_ctrlr_probe (oe_pci oe) (drop 6 url)) (\<lambda>pdev. case pdev of
        None \<Rightarrow> Inr (None, head)
      | Some pdev \<Rightarrow>
          if list_ex (\<lambda>c. nvme_pci_dev_cmp (oc_pci c) pdev = 0) head then Inr (None, head)
          else rbind (nvme_ctrlr_attach (oe_rounds oe) (oe_fuel oe) (oe_env oe) (oe_regs oe) (oe_vtophys oe) (oe_cmd oe) pdev opts) (\<lambda>c.
            case c of
              None \<Rightarrow> Inr (None, head)
            | Some c \<Rightarrow> Inr (Some (oe_addr oe), \<lparr>oc_addr = oe_addr oe, oc_pci = pdev, oc_env = oe_env oe, oc_ctrlr = c\<rparr> # head))))"

definition nvme_ctrlr_close :: "nat \<Rightarrow> nat \<Rightarrow> ctrlr_list \<Rightarrow> nat \<Rightarrow> (int \<times> ctrlr_list) res" where
  "nvme_ctrlr_close n fuel head ctrlr =
     (case nvme_ctrlr_get head ctrlr True of
        (None, head) \<Rightarrow> Inr (- EINVAL, head)
      | (Some c, head) \<Rightarrow> rbind (nvme_ctrlr_detach n fuel (oc_env c) (oc_ctrlr c)) (\<lambda>_. Inr (0, head)))"

fun nvme_ctrlr_cleanup :: "nat \<Rightarrow> nat \<Rightarrow> ctrlr_list \<Rightarrow> ctrlr_list res" where
  "nvme_ctrlr_cleanup n fuel [] = Inr []"
| "nvme_ctrlr_cleanup n fuel (c # cs) =
     rbind (nvme_ctrlr_detach n fuel (oc_env c) (oc_ctrlr c)) (\<lambda>_. nvme_ctrlr_cleanup n fuel cs)"

subsection \<open>Definitions: information about a controller\<close>

definition NVME_SERIAL_NUMBER_LENGTH :: nat where "NVME_SERIAL_NUMBER_LENGTH = 20 + 1"
definition NVME_MODEL_NUMBER_LENGTH :: nat where "NVME_MODEL_NUMBER_LENGTH = 40 + 1"
definition NVME_MAX_NS :: nat where "NVME_MAX_NS = 1024"

record nvme_ctrlr_stat =
  cs_pci :: pci_device
  cs_sn :: "char list"
  cs_mn :: "char list"
  cs_max_xfer_size :: u32
  cs_log_pages :: "bool list"
  cs_features :: "bool list"
  cs_nr_ns :: nat
  cs_ns_ids :: "nat list"
  cs_max_io_qpairs :: nat
  cs_io_qpairs :: nat
  cs_enabled_io_qpairs :: int
  cs_max_qd :: nat

text \<open>\<^verbatim>\<open>strncpy\<close> of \<open>n\<close> bytes into a cleared array of \<open>n + 1\<close>.\<close>

definition strncpy_cleared :: "nat \<Rightarrow> u8 list \<Rightarrow> char list" where
  "strncpy_cleared n bytes =
     (let s = cstr (map (\<lambda>b. char_of (unat b)) (take n bytes)) in s @ replicate (n + 1 - length s) NUL)"

text \<open>The handle is read before it is looked up in the list.\<close>

definition nvme_ctrlr_stat_get :: "ctrlr_list \<Rightarrow> nat \<Rightarrow> nvme_ctrlr_stat res" where
  "nvme_ctrlr_stat_get head ctrlr =
     (case nvme_ctrlr_get head ctrlr False of
        (None, _) \<Rightarrow> Inl BadAccess
      | (Some oc, _) \<Rightarrow>
          let c = oc_ctrlr oc
          in rbind (nvme_str_trim (strncpy_cleared (NVME_SERIAL_NUMBER_LENGTH - 1) (cd_sn (cdata c)))) (\<lambda>sn.
             rbind (nvme_str_trim (strncpy_cleared (NVME_MODEL_NUMBER_LENGTH - 1) (cd_mn (cdata c)))) (\<lambda>mn.
             if NVME_MAX_NS < nr_ns c then Inl BadAccess
             else Inr \<lparr>cs_pci = oc_pci oc, cs_sn = sn, cs_mn = mn, cs_max_xfer_size = max_xfer_size c, cs_log_pages = log_page_supported c,
                       cs_features = feature_supported c, cs_nr_ns = nr_ns c,
                       cs_ns_ids = map Suc [0..<nr_ns c] @ replicate (NVME_MAX_NS - nr_ns c) 0, cs_max_io_qpairs = max_io_queues c,
                       cs_io_qpairs = io_queues c, cs_enabled_io_qpairs = enabled_io_qpairs c, cs_max_qd = io_qpairs_max_entries c\<rparr>)))"

definition nvme_ctrlr_data_get :: "ctrlr_list \<Rightarrow> nat \<Rightarrow> int \<times> (nvme_ctrlr_data \<times> u64) option" where
  "nvme_ctrlr_data_get head ctrlr =
     (case nvme_ctrlr_get head ctrlr False of
        (None, _) \<Rightarrow> (- EINVAL, None)
      | (Some oc, _) \<Rightarrow> (0, Some (cdata (oc_ctrlr oc), cap_bits (r_cap (oc_ctrlr oc)) CAP_MQES)))"

record nvme_qpair_stat =
  qs_id :: u16
  qs_qd :: nat
  qs_enabled :: bool
  qs_qprio :: nat

text \<open>A queue pair belongs to the controller with the given address.\<close>

definition nvme_qpair_stat_get :: "ctrlr_list \<Rightarrow> nat \<Rightarrow> nvme_qpair \<Rightarrow> int \<times> nvme_qpair_stat option" where
  "nvme_qpair_stat_get head ctrlr q =
     (case nvme_ctrlr_get head ctrlr False of
        (None, _) \<Rightarrow> (- EINVAL, None)
      | (Some _, _) \<Rightarrow> (0, Some \<lparr>qs_id = qp_id q, qs_qd = entries q, qs_enabled = qp_enabled q, qs_qprio = qprio q\<rparr>))"

subsection \<open>Definitions: starting and ending\<close>

record lib_env =
  le_fopen :: "int + nat"
  le_sys :: sys_env
  le_pci :: pci_env
  le_hp :: hp_env
  le_pagesize :: u64
  le_pagemap :: int
  le_hp_dd :: int

record nvme_lib =
  lib_log :: nvme_log
  lib_cpui :: nvme_cpu_info
  lib_mm :: nvme_mem
  lib_ctrlrs :: ctrlr_list

definition nvme_lib_init :: "lib_env \<Rightarrow> nvme_log_level \<Rightarrow> nvme_log_facility \<Rightarrow> nvme_lib \<Rightarrow> (int \<times> nvme_lib) res" where
  "nvme_lib_init le level facility lib =
     (let lib = lib\<lparr>lib_log := snd (nvme_set_log_facility (le_fopen le) facility (nvme_set_log_level level (lib_log lib)))\<rparr>
      in case nvme_cpu_init (le_sys le) of (ret, cpui) \<Rightarrow>
           let lib = lib\<lparr>lib_cpui := cpui\<rparr>
           in if ret \<noteq> 0 then Inr (ret, lib)
              else if nvme_pci_init (le_pci le) \<noteq> 0 then Inr (nvme_pci_init (le_pci le), lib)
              else rbind (mem_setup (le_hp le) (le_pagesize le) (le_pagemap le) (le_hp_dd le)) (\<lambda>(ret, mm). Inr (ret, lib\<lparr>lib_mm := mm\<rparr>)))"

definition nvme_lib_exit :: "nat \<Rightarrow> nat \<Rightarrow> nvme_lib \<Rightarrow> nvme_lib res" where
  "nvme_lib_exit n fuel lib =
     rbind (nvme_ctrlr_cleanup n fuel (lib_ctrlrs lib)) (\<lambda>cs.
     rbind (nvme_mem_cleanup n (lib_mm lib)) (\<lambda>mm. Inr (lib\<lparr>lib_ctrlrs := cs, lib_mm := mm\<rparr>)))"

subsection \<open>One handle per device\<close>

text \<open>The place of a device on the bus, and what every list of open controllers satisfies.\<close>

definition bdf :: "'a pci_device_scheme \<Rightarrow> u32 \<times> u32 \<times> u32 \<times> u32" where
  "bdf d = (pci_domain d, pci_bus d, pci_dev d, pci_func d)"

definition reg_ok :: "ctrlr_list \<Rightarrow> bool" where
  "reg_ok head \<longleftrightarrow> distinct (map oc_addr head) \<and> distinct (map (\<lambda>c. bdf (oc_pci c)) head)"

lemma dev_cmp_bdf: "nvme_pci_dev_cmp d e = 0 \<longleftrightarrow> bdf d = bdf e"
  by (auto simp: nvme_pci_dev_cmp_def bdf_def)

text \<open>The steps of the list: opening (a new controller gets an address that is not in use), closing, and closing all.\<close>

inductive reg_step :: "ctrlr_list \<Rightarrow> ctrlr_list \<Rightarrow> bool" where
  reg_open: "nvme_ctrlr_open oe head url opts = Inr (h, head') \<Longrightarrow> oe_addr oe \<notin> oc_addr ` set head \<Longrightarrow> reg_step head head'"
| reg_close: "nvme_ctrlr_close n fuel head a = Inr (ret, head') \<Longrightarrow> reg_step head head'"
| reg_cleanup: "nvme_ctrlr_cleanup n fuel head = Inr head' \<Longrightarrow> reg_step head head'"

lemma open_cases:
  assumes "nvme_ctrlr_open oe head url opts = Inr (h, head')"
  obtains (refused) "h = None" "head' = head"
  | (opened) c where "h = Some (oe_addr oe)" "head' = c # head" "oc_addr c = oe_addr oe" "\<forall>x\<in>set head. bdf (oc_pci x) \<noteq> bdf (oc_pci c)"
proof (cases "take 6 url = ''pci://''")
  case True
  then obtain pd where p: "nvme_pci_ctrlr_probe (oe_pci oe) (drop 6 url) = Inr pd" using assms by (auto simp: nvme_ctrlr_open_def)
  show ?thesis
  proof (cases "\<exists>d. pd = Some d \<and> \<not> list_ex (\<lambda>c. nvme_pci_dev_cmp (oc_pci c) d = 0) head")
    case False
    then show ?thesis using assms True p refused by (auto simp: nvme_ctrlr_open_def split: option.splits)
  next
    case t: True
    then obtain d where d: "pd = Some d" "\<not> list_ex (\<lambda>c. nvme_pci_dev_cmp (oc_pci c) d = 0) head" by blast
    with assms True p obtain c where
      "nvme_ctrlr_attach (oe_rounds oe) (oe_fuel oe) (oe_env oe) (oe_regs oe) (oe_vtophys oe) (oe_cmd oe) d opts = Inr c"
      by (auto simp: nvme_ctrlr_open_def)
    then show ?thesis using assms True p d refused opened
      by (cases c) (auto simp: nvme_ctrlr_open_def list_ex_iff dev_cmp_bdf)
  qed
qed (use assms refused in \<open>simp add: nvme_ctrlr_open_def\<close>)

lemma get_remove: "nvme_ctrlr_get head a True = (c, head') \<Longrightarrow> set head' \<subseteq> set head \<and> (reg_ok head \<longrightarrow> reg_ok head')"
  by (auto simp: nvme_ctrlr_get_def reg_ok_def distinct_map inj_on_def dest: notin_set_remove1 set_remove1_subset [THEN subsetD] split: option.splits)

lemma cleanup_empty: "nvme_ctrlr_cleanup n fuel head = Inr head' \<Longrightarrow> head' = []"
  by (induction head) auto

lemma reg_step_ok: "reg_step head head' \<Longrightarrow> reg_ok head \<Longrightarrow> reg_ok head'"
proof (induction rule: reg_step.induct)
  case (reg_open oe head url opts h head')
  from reg_open.hyps(1) show ?case
    by (cases rule: open_cases) (use reg_open in \<open>auto simp: reg_ok_def\<close>)
next
  case (reg_close n fuel head a ret head')
  obtain c h1 where g: "nvme_ctrlr_get head a True = (c, h1)" by fastforce
  then have "head' = h1" using reg_close.hyps by (auto simp: nvme_ctrlr_close_def split: option.splits)
  then show ?case using get_remove [OF g] reg_close.prems by simp
next
  case (reg_cleanup n fuel head head')
  then show ?case using cleanup_empty [of n fuel head head'] by (simp add: reg_ok_def)
qed

lemma reg_reachable_ok: "reg_step\<^sup>*\<^sup>* head0 head \<Longrightarrow> reg_ok head0 \<Longrightarrow> reg_ok head"
  by (induction rule: rtranclp_induct) (auto simp: reg_step_ok)

text \<open>
  C13. However controllers are opened and closed, starting from a list (such as the empty one) with no two controllers that have the same address or are the same
  device, there are never two such controllers, and opening a device that is open is refused without a change.
\<close>

theorem open_exclusive:
  assumes "reg_ok head0" and "reg_step\<^sup>*\<^sup>* head0 head" and "c \<in> set head" and "take 6 url = ''pci://''"
    and "nvme_pci_ctrlr_probe (oe_pci oe) (drop 6 url) = Inr (Some d)" and "bdf d = bdf (oc_pci c)"
  shows "distinct (map oc_addr head) \<and> distinct (map (\<lambda>c. bdf (oc_pci c)) head)
    \<and> nvme_ctrlr_open oe head url opts = Inr (None, head)"
proof -
  have "list_ex (\<lambda>c. nvme_pci_dev_cmp (oc_pci c) d = 0) head" using assms(3,6) by (auto simp: list_ex_iff dev_cmp_bdf)
  then show ?thesis using reg_reachable_ok [OF assms(2,1)] assms(4,5) by (simp add: nvme_ctrlr_open_def reg_ok_def)
qed

lemma find_addr:
  assumes "distinct (map oc_addr head)" and "c \<in> set head"
  shows "find (\<lambda>x. oc_addr x = oc_addr c) head = Some c"
  using assms by (induction head) (auto simp: image_iff)

lemma find_addr_None: "find (\<lambda>c. oc_addr c = a) head = None \<longleftrightarrow> a \<notin> oc_addr ` set head"
  by (auto simp: find_None_iff image_iff)

text \<open>
  Closing the handle of an open controller, when detaching it returns, gives 0, takes exactly that controller out of the list and leaves every other handle valid;
  closing it once more is refused with \<open>- EINVAL\<close>. When the controller was the one opened last, the list is the one before it was opened.
\<close>

theorem close_exact:
  assumes "reg_ok head" and "c \<in> set head" and "nvme_ctrlr_detach n fuel (oc_env c) (oc_ctrlr c) = Inr x"
  shows "nvme_ctrlr_close n fuel head (oc_addr c) = Inr (0, remove1 c head)
    \<and> nvme_ctrlr_close n fuel (remove1 c head) (oc_addr c) = Inr (- EINVAL, remove1 c head)
    \<and> (\<forall>b\<in>set head - {c}. nvme_ctrlr_get (remove1 c head) (oc_addr b) False = (Some b, remove1 c head))
    \<and> (\<forall>oe url opts h. nvme_ctrlr_open oe (remove1 c head) url opts = Inr (Some h, head) \<longrightarrow> h = oc_addr c)"
proof (intro conjI ballI allI impI)
  have d: "distinct head" "distinct (map oc_addr head)" "inj_on oc_addr (set head)" using assms(1) by (auto simp: reg_ok_def distinct_map)
  then have d': "distinct (map oc_addr (remove1 c head))" "set (remove1 c head) = set head - {c}"
    by (simp_all add: distinct_map inj_on_diff)
  show "nvme_ctrlr_close n fuel head (oc_addr c) = Inr (0, remove1 c head)"
    using assms(3) by (simp add: nvme_ctrlr_close_def nvme_ctrlr_get_def find_addr [OF d(2) assms(2)])
  have "oc_addr c \<notin> oc_addr ` set (remove1 c head)" using d(3) d'(2) assms(2) by (auto simp: inj_on_def)
  then show "nvme_ctrlr_close n fuel (remove1 c head) (oc_addr c) = Inr (- EINVAL, remove1 c head)"
    using find_addr_None [of "oc_addr c" "remove1 c head"] by (simp add: nvme_ctrlr_close_def nvme_ctrlr_get_def)
  show "nvme_ctrlr_get (remove1 c head) (oc_addr b) False = (Some b, remove1 c head)" if "b \<in> set head - {c}" for b
    using find_addr [OF d'(1), of b] d'(2) that by (simp add: nvme_ctrlr_get_def)
  show "h = oc_addr c" if "nvme_ctrlr_open oe (remove1 c head) url opts = Inr (Some h, head)" for oe url opts h
    using that
  proof (cases rule: open_cases)
    case (opened e)
    have "set head = insert e (set head - {c})" using arg_cong [OF opened(2), of set] d'(2) by (simp only: list.set)
    then have "c \<in> insert e (set head - {c})" using assms(2) by (rule subst)
    then have "e = c" by simp
    then show ?thesis using opened(1,3) by simp
  qed simp
qed

subsection \<open>What is reported\<close>

lemma strncpy_cleared_cstr:
  assumes "length bytes \<le> n"
  shows "cstr (strncpy_cleared n bytes) = cstr (map (\<lambda>b. char_of (unat b)) bytes)" "NUL \<in> set (strncpy_cleared n bytes)"
    "length (strncpy_cleared n bytes) = n + 1"
proof -
  let ?s = "cstr (map (\<lambda>b. char_of (unat b)) bytes)"
  have l: "length ?s \<le> n" using assms length_takeWhile_le [of _ "map (\<lambda>b. char_of (unat b)) bytes"] by (auto simp: cstr_def intro: order_trans)
  have e: "strncpy_cleared n bytes = ?s @ NUL # replicate (n - length ?s) NUL"
    using assms l by (simp add: strncpy_cleared_def Let_def Suc_diff_le)
  have "NUL \<notin> set ?s" using set_takeWhileD by (fastforce simp: cstr_def)
  then show "cstr (strncpy_cleared n bytes) = ?s" using e cstr_append_NUL by simp
  show "NUL \<in> set (strncpy_cleared n bytes)" "length (strncpy_cleared n bytes) = n + 1" using e l by simp_all
qed

text \<open>
  The serial and model numbers that are reported are those of the identification data, cut at a null character and without the white space at both ends,
  and the identifiers of the namespaces are the numbers from 1 to the number of namespaces.
\<close>

theorem ctrlr_stat_reports:
  assumes "nvme_ctrlr_get head a False = (Some oc, head)" and "nr_ns (oc_ctrlr oc) \<le> NVME_MAX_NS"
    and "length (cd_sn (cdata (oc_ctrlr oc))) = 20" and "length (cd_mn (cdata (oc_ctrlr oc))) = 40"
  shows "\<exists>st. nvme_ctrlr_stat_get head a = Inr st
    \<and> cstr (cs_sn st) = rtrim (dropWhile isspace (cstr (map (\<lambda>b. char_of (unat b)) (cd_sn (cdata (oc_ctrlr oc))))))
    \<and> cstr (cs_mn st) = rtrim (dropWhile isspace (cstr (map (\<lambda>b. char_of (unat b)) (cd_mn (cdata (oc_ctrlr oc))))))
    \<and> take (cs_nr_ns st) (cs_ns_ids st) = [1..<Suc (nr_ns (oc_ctrlr oc))] \<and> length (cs_ns_ids st) = NVME_MAX_NS
    \<and> cs_max_qd st = io_qpairs_max_entries (oc_ctrlr oc)"
proof -
  let ?c = "oc_ctrlr oc"
  have l: "length (cd_sn (cdata ?c)) \<le> NVME_SERIAL_NUMBER_LENGTH - 1" "length (cd_mn (cdata ?c)) \<le> NVME_MODEL_NUMBER_LENGTH - 1"
    using assms(3,4) by (simp_all add: NVME_SERIAL_NUMBER_LENGTH_def NVME_MODEL_NUMBER_LENGTH_def)
  note sn = strncpy_cleared_cstr [OF l(1)] and mn = strncpy_cleared_cstr [OF l(2)]
  from str_trim_spec [OF sn(2)] obtain b1 where b1: "nvme_str_trim (strncpy_cleared (NVME_SERIAL_NUMBER_LENGTH - 1) (cd_sn (cdata ?c))) = Inr b1"
    "cstr b1 = rtrim (dropWhile isspace (cstr (map (\<lambda>b. char_of (unat b)) (cd_sn (cdata ?c)))))" using sn(1) by auto
  from str_trim_spec [OF mn(2)] obtain b2 where b2: "nvme_str_trim (strncpy_cleared (NVME_MODEL_NUMBER_LENGTH - 1) (cd_mn (cdata ?c))) = Inr b2"
    "cstr b2 = rtrim (dropWhile isspace (cstr (map (\<lambda>b. char_of (unat b)) (cd_mn (cdata ?c)))))" using mn(1) by auto
  have "map Suc [0..<nr_ns ?c] = [1..<Suc (nr_ns ?c)]" using map_Suc_upt [of 0 "nr_ns ?c"] by (simp del: upt_Suc)
  then show ?thesis using assms(1,2) b1 b2 by (simp add: nvme_ctrlr_stat_get_def Let_def not_less del: upt_Suc)
qed

subsection \<open>Ending\<close>

lemma ctrlr_cleanup_ok:
  "(\<And>c. c \<in> set cs \<Longrightarrow> \<exists>x. nvme_ctrlr_detach n fuel (oc_env c) (oc_ctrlr c) = Inr x) \<Longrightarrow> nvme_ctrlr_cleanup n fuel cs = Inr []"
  by (induction cs) fastforce+

text \<open>
  C28. At exit, when detaching each open controller returns, every controller is closed and every heap and hugepage of the memory manager is released.
\<close>

theorem lib_exit_releases:
  assumes "mem_inv (lib_mm lib)" and "0 < n"
    and "\<And>c. c \<in> set (lib_ctrlrs lib) \<Longrightarrow> \<exists>x. nvme_ctrlr_detach n fuel (oc_env c) (oc_ctrlr c) = Inr x"
  shows "\<exists>lib'. nvme_lib_exit n fuel lib = Inr lib' \<and> lib_ctrlrs lib' = [] \<and> hps (lib_mm lib') = Map.empty
    \<and> (\<forall>i<NVME_MP_NUM. pool_heaps (lib_mm lib') i = [])"
  using cleanup_all [OF assms(1,2)] ctrlr_cleanup_ok [OF assms(3)] by (auto simp: nvme_lib_exit_def)

subsection \<open>Witnesses\<close>

lemma shutdown_wait_keeps:
  "adminq (snd (shutdown_wait env k csts c)) = adminq c \<and> ioq (snd (shutdown_wait env k csts c)) = ioq c"
proof (induction env k csts c rule: shutdown_wait.induct)
  case (1 env k csts c)
  then show ?case by (subst (1 2) shutdown_wait.simps) (auto simp: read_csts_def next_tick_def)
qed

lemma detach_idle:
  assumes "active_io_qpairs c = []" and "ioq c = None" and "outstanding_tr (adminq c) = []"
  shows "\<exists>x. nvme_ctrlr_detach n (Suc fuel) env c = Inr x"
proof -
  have r: "release_loop n (Suc fuel) env c = Inr c" using assms(1) by (cases n) simp_all
  define c1 where "c1 = nvme_ctrlr_destruct_namespaces (nvme_ctrlr_shutdown env c)"
  have c1: "adminq c1 = adminq c" "ioq c1 = ioq c"
    using shutdown_wait_keeps by (simp_all add: c1_def nvme_ctrlr_destruct_namespaces_def nvme_ctrlr_shutdown_def read_csts_def next_tick_def Let_def)
  have "outstanding_tr (load_qp c1 (adminq c1)) = []" using assms(3) c1 by (simp add: load_qp_def nvme_qpair.defs)
  then have "\<exists>s. destroy_qpair (Suc fuel) (load_qp c1 (adminq c1)) = Inr ((), s)"
    by (simp add: destroy_qpair_def nvme_qpair_destroy_def nvme_qpair_abort_aers_def list_first_def)
  then show ?thesis using r assms(2) c1(2) by (auto simp: nvme_ctrlr_detach_def c1_def [symmetric] on_adminq_def)
qed

text \<open>A list with one controller, at the place of the device of the example of slot names.\<close>

definition ex_pdev :: pci_device where
  "ex_pdev = \<lparr>vendor_id = 0x8086, device_id = 0x0953, subvendor_id = 0x8086, subdevice_id = 0x3702, device_class = NVME_PCI_CLASS,
     revision = 0, pci_domain = 0x1a, pci_bus = 0xb, pci_dev = 0x1f, pci_func = 3\<rparr>"

definition ex_open :: open_ctrlr where
  "ex_open = \<lparr>oc_addr = 0x5000, oc_pci = ex_pdev, oc_env = ex_cenv,
     oc_ctrlr = ex_ctrlr\<lparr>nr_ns := 2, cdata := cdata_zero\<lparr>cd_sn := 0x20 # 0x41 # 0x42 # replicate 17 0x20\<rparr>\<rparr>\<rparr>"

definition ex_oe :: open_env where
  "ex_oe = \<lparr>oe_pci = ex_pci, oe_addr = 0x6000, oe_env = ex_cenv,
     oe_regs = \<lparr>r_cap = 0, r_cc = 0, r_aqa = 0, r_asq = 0, r_acq = 0, r_cmbloc = 0, r_cmbsz = 0\<rparr>, oe_vtophys = (\<lambda>_. 0), oe_cmd = 0,
     oe_rounds = 3, oe_fuel = 3\<rparr>"

lemma ex_open_ok: "reg_ok [ex_open]" "nvme_ctrlr_get [ex_open] 0x5000 False = (Some ex_open, [ex_open])"
  by (simp_all add: reg_ok_def nvme_ctrlr_get_def ex_open_def)

lemma ex_open_detach: "\<exists>x. nvme_ctrlr_detach 1 (Suc 0) (oc_env ex_open) (oc_ctrlr ex_open) = Inr x"
  by (rule detach_idle)
    (simp_all add: ex_open_def ex_ctrlr_def qpair_zero_def ctrlr_zero_def nvme_registers.defs nvme_ctrlr.defs)

lemma ex_open_probe: "nvme_pci_ctrlr_probe ex_pci ''001a:0b:1f.3'' = Inr (Some ex_pdev)"
proof -
  have "pci_slot_of ''001a:0b:1f.3'' = Some \<lparr>slot_domain = 0x1a, slot_bus = 0xb, slot_dev = 0x1f, slot_func = 3\<rparr>"
    by (simp add: pci_slot_of_def slot_parts_def strrchr_def slot_number_def strtoul_def strip_sign_def detect_base_def hex_prefix_def
        isspace_def digit_val_def)
  then show ?thesis
    by (simp add: nvme_pci_ctrlr_probe_def nvme_pci_device_probe_def ex_pci_def nvme_pci_device_has_kernel_driver_def ex_pdev_def)
qed

theorem open_exclusive_witness: "nvme_ctrlr_open ex_oe [ex_open] ''pci://001a:0b:1f.3'' None = Inr (None, [ex_open])"
proof -
  have p: "nvme_pci_ctrlr_probe (oe_pci ex_oe) (drop 6 ''pci://001a:0b:1f.3'') = Inr (Some ex_pdev)" using ex_open_probe by (simp add: ex_oe_def)
  from open_exclusive [OF ex_open_ok(1) rtranclp.rtrancl_refl _ _ p, of ex_open None] show ?thesis by (simp add: ex_open_def)
qed

theorem close_exact_witness: "nvme_ctrlr_close 1 (Suc 0) [ex_open] 0x5000 = Inr (0, [])"
proof -
  from ex_open_detach obtain x where "nvme_ctrlr_detach 1 (Suc 0) (oc_env ex_open) (oc_ctrlr ex_open) = Inr x" by blast
  from close_exact [OF ex_open_ok(1) _ this] show ?thesis by (simp add: ex_open_def)
qed

theorem ctrlr_stat_reports_witness:
  "\<exists>st. nvme_ctrlr_stat_get [ex_open] 0x5000 = Inr st \<and> cstr (cs_sn st) = ''AB'' \<and> take 2 (cs_ns_ids st) = [1, 2]"
proof -
  let ?sn = "0x20 # 0x41 # 0x42 # replicate 17 0x20 :: u8 list"
  have f: "cd_sn (cdata (oc_ctrlr ex_open)) = ?sn" "length (cd_mn (cdata (oc_ctrlr ex_open))) = 40" "nr_ns (oc_ctrlr ex_open) = 2"
    by (simp_all add: ex_open_def cdata_zero_def)
  have t: "rtrim (dropWhile isspace (cstr (map (\<lambda>b. char_of (unat b)) ?sn))) = ''AB''" by code_simp
  have n: "nr_ns (oc_ctrlr ex_open) \<le> NVME_MAX_NS" using f(3) by (simp add: NVME_MAX_NS_def)
  have l: "length (cd_sn (cdata (oc_ctrlr ex_open))) = 20" using f(1) by simp
  from ctrlr_stat_reports [OF ex_open_ok(2) n l f(2)] obtain st where "nvme_ctrlr_stat_get [ex_open] 0x5000 = Inr st"
    "cstr (cs_sn st) = ''AB''" "take (cs_nr_ns st) (cs_ns_ids st) = [1..<Suc 2]" unfolding f(1,3) t by blast
  moreover have "cs_nr_ns st = 2" if "nvme_ctrlr_stat_get [ex_open] 0x5000 = Inr st" for st
    using that f(3) by (auto simp: nvme_ctrlr_stat_get_def ex_open_ok(2) Let_def split: if_splits)
  ultimately show ?thesis by (auto simp: upt_rec)
qed

definition ex_lib :: nvme_lib where
  "ex_lib = \<lparr>lib_log = log_default, lib_cpui = snd (nvme_cpu_init ex_sys), lib_mm = snd (nvme_malloc_node ex_os ex_mm (2 ^ 20) 4096 0),
     lib_ctrlrs = [ex_open]\<rparr>"

theorem lib_exit_releases_witness:
  "\<exists>lib'. nvme_lib_exit 1 (Suc 0) ex_lib = Inr lib' \<and> lib_ctrlrs lib' = [] \<and> hps (lib_mm lib') = Map.empty"
proof -
  obtain mm where al: "nvme_malloc_node ex_os ex_mm (2 ^ 20) 4096 0 = (Some (3 * 2 ^ 21), mm)"
    using ex_alloc by (auto simp: nvme_malloc_node_def)
  then have "mem_alloc_req ex_os ex_mm (2 ^ 20, 4096, 0) = (Some (3 * 2 ^ 21), mm)" by (simp add: mem_alloc_req_def)
  from mem.alloc_inv [OF ex_mm_inv ex_os_ok this] have "mem_inv (lib_mm ex_lib)" using al by (simp add: ex_lib_def)
  from lib_exit_releases [OF this, of 1 "Suc 0"] ex_open_detach show ?thesis by (auto simp: ex_lib_def)
qed

end
