(* ===== verification/Nvme_Names.thy ===== *)
theory Nvme_Names
  imports Nvme_Qpair Nvme_Text
begin

text \<open>
  The names of commands and statuses in the messages of the queue pairs (\<^verbatim>\<open>lib/nvme/nvme_qpair.c\<close>): tables from codes to
  strings that end with an entry for \<^verbatim>\<open>0xFFFF\<close>, their search, and the texts printed for commands and completions, without the end of the line. The codes are those of
  \<^verbatim>\<open>include/libnvme/nvme_spec.h\<close>.
\<close>

subsection \<open>Definitions: tables\<close>

type_synonym nvme_qpair_string = "u16 \<times> string"

definition admin_opcode :: "nvme_qpair_string list" where
  "admin_opcode =
     [(ucast (admin_opc NVME_OPC_DELETE_IO_SQ), ''DELETE IO SQ''),
      (ucast (admin_opc NVME_OPC_CREATE_IO_SQ), ''CREATE IO SQ''),
      (ucast (admin_opc NVME_OPC_GET_LOG_PAGE), ''GET LOG PAGE''),
      (ucast (admin_opc NVME_OPC_DELETE_IO_CQ), ''DELETE IO CQ''),
      (ucast (admin_opc NVME_OPC_CREATE_IO_CQ), ''CREATE IO CQ''), (ucast (admin_opc NVME_OPC_IDENTIFY), ''IDENTIFY''),
      (ucast (admin_opc NVME_OPC_ABORT), ''ABORT''), (ucast (admin_opc NVME_OPC_SET_FEATURES), ''SET FEATURES''),
      (ucast (admin_opc NVME_OPC_GET_FEATURES), ''GET FEATURES''),
      (ucast (admin_opc NVME_OPC_ASYNC_EVENT_REQUEST), ''ASYNC EVENT REQUEST''),
      (ucast (admin_opc NVME_OPC_NS_MANAGEMENT), ''NAMESPACE MANAGEMENT''),
      (ucast (admin_opc NVME_OPC_FIRMWARE_COMMIT), ''FIRMWARE COMMIT''),
      (ucast (admin_opc NVME_OPC_FIRMWARE_IMAGE_DOWNLOAD), ''FIRMWARE IMAGE DOWNLOAD''),
      (ucast (admin_opc NVME_OPC_NS_ATTACHMENT), ''NAMESPACE ATTACHMENT''),
      (ucast (admin_opc NVME_OPC_FORMAT_NVM), ''FORMAT NVM''),
      (ucast (admin_opc NVME_OPC_SECURITY_SEND), ''SECURITY SEND''),
      (ucast (admin_opc NVME_OPC_SECURITY_RECEIVE), ''SECURITY RECEIVE''), (0xFFFF, ''ADMIN COMMAND'')]"

definition io_opcode :: "nvme_qpair_string list" where
  "io_opcode =
     [(ucast (nvm_opc NVME_OPC_FLUSH), ''FLUSH''), (ucast (nvm_opc NVME_OPC_WRITE), ''WRITE''),
      (ucast (nvm_opc NVME_OPC_READ), ''READ''), (ucast (nvm_opc NVME_OPC_WRITE_UNCORRECTABLE), ''WRITE UNCORRECTABLE''),
      (ucast (nvm_opc NVME_OPC_COMPARE), ''COMPARE''), (ucast (nvm_opc NVME_OPC_WRITE_ZEROES), ''WRITE ZEROES''),
      (ucast (nvm_opc NVME_OPC_DATASET_MANAGEMENT), ''DATASET MANAGEMENT''),
      (ucast (nvm_opc NVME_OPC_RESERVATION_REGISTER), ''RESERVATION REGISTER''),
      (ucast (nvm_opc NVME_OPC_RESERVATION_REPORT), ''RESERVATION REPORT''),
      (ucast (nvm_opc NVME_OPC_RESERVATION_ACQUIRE), ''RESERVATION ACQUIRE''),
      (ucast (nvm_opc NVME_OPC_RESERVATION_RELEASE), ''RESERVATION RELEASE''), (0xFFFF, ''IO COMMAND'')]"

definition generic_status :: "nvme_qpair_string list" where
  "generic_status =
     [(0x00, ''SUCCESS''), (0x01, ''INVALID OPCODE''), (0x02, ''INVALID FIELD''), (0x03, ''COMMAND ID CONFLICT''),
      (0x04, ''DATA TRANSFER ERROR''), (0x05, ''ABORTED - POWER LOSS''), (0x06, ''INTERNAL DEVICE ERROR''),
      (0x07, ''ABORTED - BY REQUEST''), (0x08, ''ABORTED - SQ DELETION''), (0x09, ''ABORTED - FAILED FUSED''),
      (0x0a, ''ABORTED - MISSING FUSED''), (0x0b, ''INVALID NAMESPACE OR FORMAT''), (0x0c, ''COMMAND SEQUENCE ERROR''),
      (0x0d, ''INVALID SGL SEGMENT DESCRIPTOR''), (0x0e, ''INVALID NUMBER OF SGL DESCRIPTORS''),
      (0x0f, ''DATA SGL LENGTH INVALID''), (0x10, ''METADATA SGL LENGTH INVALID''), (0x11, ''SGL DESCRIPTOR TYPE INVALID''),
      (0x12, ''INVALID CONTROLLER MEMORY BUFFER''), (0x13, ''INVALID PRP OFFSET''), (0x14, ''ATOMIC WRITE UNIT EXCEEDED''),
      (0x80, ''LBA OUT OF RANGE''), (0x81, ''CAPACITY EXCEEDED''), (0x82, ''NAMESPACE NOT READY''),
      (0x83, ''RESERVATION CONFLICT''), (0x84, ''FORMAT IN PROGRESS''), (0xFFFF, ''GENERIC'')]"

definition command_specific_status :: "nvme_qpair_string list" where
  "command_specific_status =
     [(0x00, ''INVALID COMPLETION QUEUE''), (0x01, ''INVALID QUEUE IDENTIFIER''), (0x02, ''MAX QUEUE SIZE EXCEEDED''),
      (0x03, ''ABORT CMD LIMIT EXCEEDED''), (0x05, ''ASYNC LIMIT EXCEEDED''), (0x06, ''INVALID FIRMWARE SLOT''),
      (0x07, ''INVALID FIRMWARE IMAGE''), (0x08, ''INVALID INTERRUPT VECTOR''), (0x09, ''INVALID LOG PAGE''),
      (0x0a, ''INVALID FORMAT''), (0x0b, ''FIRMWARE REQUIRES CONVENTIONAL RESET''), (0x0c, ''INVALID QUEUE DELETION''),
      (0x0d, ''FEATURE ID NOT SAVEABLE''), (0x0e, ''FEATURE NOT CHANGEABLE''), (0x0f, ''FEATURE NOT NAMESPACE SPECIFIC''),
      (0x10, ''FIRMWARE REQUIRES NVM RESET''), (0x11, ''FIRMWARE REQUIRES RESET''),
      (0x12, ''FIRMWARE REQUIRES MAX TIME VIOLATION''), (0x13, ''FIRMWARE ACTIVATION PROHIBITED''),
      (0x14, ''OVERLAPPING RANGE''), (0x15, ''NAMESPACE INSUFFICIENT CAPACITY''), (0x16, ''NAMESPACE ID UNAVAILABLE''),
      (0x18, ''NAMESPACE ALREADY ATTACHED''), (0x19, ''NAMESPACE IS PRIVATE''), (0x1a, ''NAMESPACE NOT ATTACHED''),
      (0x1b, ''THINPROVISIONING NOT SUPPORTED''), (0x1c, ''CONTROLLER LIST INVALID''), (0x80, ''CONFLICTING ATTRIBUTES''),
      (0x81, ''INVALID PROTECTION INFO''), (0x82, ''WRITE TO RO PAGE''), (0xFFFF, ''COMMAND SPECIFIC'')]"

definition media_error_status :: "nvme_qpair_string list" where
  "media_error_status =
     [(0x80, ''WRITE FAULTS''), (0x81, ''UNRECOVERED READ ERROR''), (0x82, ''GUARD CHECK ERROR''),
      (0x83, ''APPLICATION TAG CHECK ERROR''), (0x84, ''REFERENCE TAG CHECK ERROR''), (0x85, ''COMPARE FAILURE''),
      (0x86, ''ACCESS DENIED''), (0x87, ''DEALLOCATED OR UNWRITTEN BLOCK''), (0xFFFF, ''MEDIA ERROR'')]"

subsection \<open>Definitions: search and messages\<close>

text \<open>Running past the end of the table is an invalid access.\<close>

fun nvme_qpair_get_string :: "nvme_qpair_string list \<Rightarrow> u16 \<Rightarrow> string res" where
  "nvme_qpair_get_string [] v = Inl BadAccess"
| "nvme_qpair_get_string ((w, s) # es) v = (if w = 0xFFFF then Inr s else if w = v then Inr s else nvme_qpair_get_string es v)"

definition get_status_string :: "u16 \<Rightarrow> u16 \<Rightarrow> string res" where
  "get_status_string sct sc =
     (if sct = 0x0 then nvme_qpair_get_string generic_status sc
      else if sct = 0x1 then nvme_qpair_get_string command_specific_status sc
      else if sct = 0x2 then nvme_qpair_get_string media_error_status sc
      else if sct = 0x7 then Inr ''VENDOR SPECIFIC'' else Inr ''RESERVED'')"

text \<open>The conversions \<^verbatim>\<open>%d\<close> of a 32-bit value, \<^verbatim>\<open>%0\<close>\<open>w\<close>\<^verbatim>\<open>x\<close> and \<^verbatim>\<open>%llu\<close>.\<close>

definition show_d :: "u32 \<Rightarrow> string" where
  "show_d w = (if sint w < 0 then CHR ''-'' # show_base 10 (nat (- sint w)) else show_base 10 (nat (sint w)))"

definition show_x :: "nat \<Rightarrow> u32 \<Rightarrow> string" where
  "show_x n w = show_pad 16 n (unat w)"

definition nvme_qpair_admin_qpair_print_command :: "'a nvme_qpair_scheme \<Rightarrow> nvme_cmd \<Rightarrow> string res" where
  "nvme_qpair_admin_qpair_print_command q cmd =
     rbind (nvme_qpair_get_string admin_opcode (ucast (opc cmd))) (\<lambda>s. Inr (s @ '' ('' @ show_x 2 (ucast (opc cmd)) @ '') sqid:'' @ show_d (ucast (qp_id q))
       @ '' cid:'' @ show_d (ucast (cmd_cid cmd)) @ '' nsid:'' @ show_x 1 (nsid cmd) @ '' cdw10:'' @ show_x 8 (cdw10 cmd) @ '' cdw11:'' @ show_x 8 (cdw11 cmd) @ [CHR 0x0A]))"

definition nvme_qpair_io_qpair_print_command :: "'a nvme_qpair_scheme \<Rightarrow> nvme_cmd \<Rightarrow> string res" where
  "nvme_qpair_io_qpair_print_command q cmd =
     rbind (nvme_qpair_get_string io_opcode (ucast (opc cmd))) (\<lambda>s.
       let ids = '' sqid:'' @ show_d (ucast (qp_id q)) @ '' cid:'' @ show_d (ucast (cmd_cid cmd)) @ '' nsid:'' @ show_d (nsid cmd)
       in if opc cmd \<in> set (map nvm_opc [NVME_OPC_WRITE, NVME_OPC_READ, NVME_OPC_WRITE_UNCORRECTABLE, NVME_OPC_COMPARE])
          then Inr (s @ ids @ '' lba:'' @ show_base 10 (unat (push_bit 32 (ucast (cdw11 cmd)) + ucast (cdw10 cmd) :: u64))
                      @ '' len:'' @ show_d ((cdw12 cmd AND 0xFFFF) + 1) @ [CHR 0x0A])
          else if opc cmd = nvm_opc NVME_OPC_FLUSH \<or> opc cmd = nvm_opc NVME_OPC_DATASET_MANAGEMENT then Inr (s @ ids @ [CHR 0x0A])
          else Inr (s @ '' ('' @ show_x 2 (ucast (opc cmd)) @ '')'' @ ids @ [CHR 0x0A]))"

definition nvme_qpair_print_command :: "'a nvme_qpair_scheme \<Rightarrow> nvme_cmd \<Rightarrow> string res" where
  "nvme_qpair_print_command q cmd =
     (if qp_id q = 0 then nvme_qpair_admin_qpair_print_command q cmd else nvme_qpair_io_qpair_print_command q cmd)"

definition show_bit :: "bool \<Rightarrow> string" where
  "show_bit b = (if b then ''1'' else ''0'')"

definition nvme_qpair_print_completion :: "nvme_cpl \<Rightarrow> string res" where
  "nvme_qpair_print_completion cpl =
     (let st = cpl_status cpl
      in rbind (get_status_string (ucast (st_sct st)) (ucast (st_sc st))) (\<lambda>s. Inr (''Cpl: '' @ s @ '' ('' @ show_x 2 (ucast (st_sct st)) @ ''/'' @ show_x 2 (ucast (st_sc st))
           @ '') sqid:'' @ show_d (ucast (cpl_sqid cpl)) @ '' cid:'' @ show_d (ucast (cpl_cid cpl)) @ '' cdw0:'' @ show_x 1 (cpl_cdw0 cpl)
           @ '' sqhd:'' @ show_x 4 (ucast (cpl_sqhd cpl)) @ '' p:'' @ show_bit (st_p st) @ '' m:'' @ show_bit (st_m st) @ '' dnr:'' @ show_bit (st_dnr st) @ [CHR 0x0A])))"

subsection \<open>The search is a lookup\<close>

text \<open>A table that ends with the entry for \<^verbatim>\<open>0xFFFF\<close> and has no other one: the search is the lookup with that entry as the default.\<close>

lemma get_string_lookup:
  assumes "0xFFFF \<notin> fst ` set t"
  shows "nvme_qpair_get_string (t @ [(0xFFFF, d)]) v = Inr (case map_of t v of Some s \<Rightarrow> s | None \<Rightarrow> d)"
  using assms
proof (induction t)
  case (Cons e t)
  then show ?case by (cases e) auto
qed simp

definition proper_table :: "nvme_qpair_string list \<Rightarrow> bool" where
  "proper_table t \<longleftrightarrow> t \<noteq> [] \<and> fst (last t) = 0xFFFF \<and> 0xFFFF \<notin> fst ` set (butlast t) \<and> distinct (map fst t) \<and> distinct (map snd t)"

lemma tables_proper: "list_all proper_table [admin_opcode, io_opcode, generic_status, command_specific_status, media_error_status]"
  by code_simp

lemma get_string_table:
  assumes "proper_table t"
  shows "nvme_qpair_get_string t v = Inr (case map_of (butlast t) v of Some s \<Rightarrow> s | None \<Rightarrow> snd (last t))"
proof -
  have "t = butlast t @ [(0xFFFF, snd (last t))]"
    using assms by (metis append_butlast_last_id prod.collapse proper_table_def)
  then show ?thesis using get_string_lookup [of "butlast t" "snd (last t)" v] assms by (simp add: proper_table_def)
qed

text \<open>Every code has a name, different codes of a table have different names, and no message runs past a table.\<close>

lemma get_string_inj:
  assumes "proper_table t" and "(v, s) \<in> set (butlast t)"
  shows "nvme_qpair_get_string t v = Inr s" "nvme_qpair_get_string t w = Inr s \<Longrightarrow> w = v"
proof -
  have d: "distinct (map fst (butlast t))" "distinct (map snd (butlast t))"
    using assms(1) by (auto simp: proper_table_def map_butlast distinct_butlast)
  have m: "map_of (butlast t) v = Some s" using d(1) assms(2) by (simp add: map_of_is_SomeI)
  then show "nvme_qpair_get_string t v = Inr s" using get_string_table [OF assms(1), of v] by simp
  assume w: "nvme_qpair_get_string t w = Inr s"
  show "w = v"
  proof (cases "map_of (butlast t) w")
    case None
    then have "s = snd (last t)" using w get_string_table [OF assms(1), of w] by simp
    moreover have "distinct (map snd (butlast t @ [last t]))"
      using assms(1) unfolding proper_table_def by (simp only: append_butlast_last_id not_False_eq_True)
    then have "snd (last t) \<notin> snd ` set (butlast t)" by simp
    moreover have "s \<in> snd ` set (butlast t)" using assms(2) by (metis image_eqI snd_conv)
    ultimately show ?thesis by simp
  next
    case (Some r)
    then have "r = s" using w get_string_table [OF assms(1), of w] by simp
    then have "(w, s) \<in> set (butlast t)" using Some by (simp add: map_of_SomeD)
    then have "(w, s) = (v, s)" using d(2) assms(2) by (intro inj_onD [of snd "set (butlast t)"]) (simp_all add: distinct_map)
    then show ?thesis by simp
  qed
qed

lemma print_returns: "\<exists>s. nvme_qpair_print_command q cmd = Inr s" "\<exists>s. nvme_qpair_print_completion cpl = Inr s"
  using tables_proper
  by (auto simp: nvme_qpair_print_command_def nvme_qpair_admin_qpair_print_command_def nvme_qpair_io_qpair_print_command_def
      nvme_qpair_print_completion_def get_status_string_def get_string_table Let_def)

end
