(* ===== verification/Nvme_Cmb.thy ===== *)
theory Nvme_Cmb
  imports Nvme_Ctrlr
begin

text \<open>
  Submission queues in the controller memory buffer (\<^verbatim>\<open>nvme_ctrlr_map_cmb\<close> of \<^verbatim>\<open>lib/nvme/nvme_ctrlr.c\<close> and
  \<^verbatim>\<open>nvme_ctrlr_reserve_sq_in_cmb\<close> of \<^verbatim>\<open>lib/nvme/nvme_qpair.c\<close>): the room reserved for different queues does not overlap and lies inside the buffer.
\<close>

subsection \<open>One reservation\<close>

lemma unat_queue_bytes: "unat (ucast (n :: u16) * 64 :: u64) = unat n * 64"
proof -
  have n: "unat n < 2 ^ 16" using unsigned_less [of n, where 'a = nat] by simp
  have "unat (ucast n :: u64) = unat n" using take_bit_nat_eq_self [of "unat n" 64] n by (simp add: unsigned_ucast_eq)
  then show ?thesis using n by (simp add: unat_word_ariths)
qed

lemma reserve_step:
  assumes "nvme_ctrlr_reserve_sq_in_cmb cur sz n 4096 = Some (ofst, cur')" and "unat cur < 2 ^ 63"
  shows "unat cur \<le> unat ofst" "4096 dvd unat ofst" "unat cur' = unat ofst + unat n * 64" "unat cur' \<le> unat sz"
proof -
  have o: "ofst = nvme_align_up cur (2 ^ 12)" and c: "cur' = ofst + ucast n * 64" and s: "cur' \<le> sz"
    using assms(1) by (auto simp: nvme_ctrlr_reserve_sq_in_cmb_def nvme_align_up_def nvme_align_down_def Let_def not_less add.commute [of cur] split: if_splits)
  have u: "unat ofst = (unat cur + 2 ^ 12 - 1) div 2 ^ 12 * 2 ^ 12"
    unfolding o by (rule unat_align_up) (use assms(2) in simp_all)
  then have "unat ofst = (unat cur + 4095) - (unat cur + 4095) mod 4096" by (simp add: minus_mod_eq_div_mult)
  moreover have "(unat cur + 4095) mod 4096 < 4096" by simp
  ultimately have b: "unat cur \<le> unat ofst" "unat ofst \<le> unat cur + 4095" by linarith+
  show "4096 dvd unat ofst" using u by simp
  show "unat cur \<le> unat ofst" by (rule b(1))
  have "unat n < 2 ^ 16" using unsigned_less [of n, where 'a = nat] by simp
  then have "unat ofst + unat n * 64 < 2 ^ 64" using assms(2) b(2) by simp
  then show "unat cur' = unat ofst + unat n * 64"
    using unat_queue_bytes [of n] by (simp add: c unat_word_ariths)
  show "unat cur' \<le> unat sz" using s by (simp add: word_le_nat_alt)
qed

subsection \<open>All reservations\<close>

text \<open>
  The regions reserved by a sequence of requests for queues with the given numbers of entries, as offset and length; a request that
  does not fit reserves nothing, and its queue is placed in memory of the host.
\<close>

fun cmb_regions :: "u64 \<Rightarrow> u64 \<Rightarrow> u16 list \<Rightarrow> (nat \<times> nat) list" where
  "cmb_regions cur sz [] = []"
| "cmb_regions cur sz (n # ns) =
     (case nvme_ctrlr_reserve_sq_in_cmb cur sz n (of_nat PAGE_SIZE) of
        None \<Rightarrow> cmb_regions cur sz ns
      | Some (ofst, cur') \<Rightarrow> (unat ofst, unat n * 64) # cmb_regions cur' sz ns)"

abbreviation apart :: "(nat \<times> nat) list \<Rightarrow> bool" where
  "apart rs \<equiv> sorted_wrt (\<lambda>r r'. fst r + snd r \<le> fst r') rs"

lemma cmb_regions_from:
  assumes "unat cur < 2 ^ 63" and "unat sz < 2 ^ 63"
  shows "(\<forall>r\<in>set (cmb_regions cur sz ns). unat cur \<le> fst r \<and> fst r + snd r \<le> unat sz \<and> PAGE_SIZE dvd fst r) \<and> apart (cmb_regions cur sz ns)"
  using assms(1)
proof (induction ns arbitrary: cur)
  case (Cons n ns)
  show ?case
  proof (cases "nvme_ctrlr_reserve_sq_in_cmb cur sz n (of_nat PAGE_SIZE)")
    case None
    then show ?thesis using Cons by simp
  next
    case (Some x)
    obtain ofst cur' where x: "x = (ofst, cur')" by fastforce
    have "nvme_ctrlr_reserve_sq_in_cmb cur sz n 4096 = Some (ofst, cur')" using Some x by (simp add: PAGE_SIZE_def)
    note r = reserve_step [OF this Cons.prems]
    have "unat cur' < 2 ^ 63" using r(4) assms(2) by simp
    note ih = Cons.IH [OF this]
    have "unat cur \<le> a" if "unat cur' \<le> a" for a using r(1,3) that by simp
    then have "\<forall>r\<in>set (cmb_regions cur' sz ns). unat cur \<le> fst r" using ih by blast
    then show ?thesis using Some x r ih by (simp add: PAGE_SIZE_def)
  qed
qed simp

lemma map_cmb_sizes:
  assumes "nvme_ctrlr_map_cmb env c = Inr c'" and "cmb_bar_virt_addr c' \<noteq> None"
  shows "unat (cmb_current_offset c') + unat (cmb_size c') \<le> unat (snd (pci_bar env (cmbloc_bits (r_cmbloc c) CMBLOC_BIR)))"
proof -
  obtain pa bs where b: "pci_bar env (cmbloc_bits (r_cmbloc c) CMBLOC_BIR) = (pa, bs)" by fastforce
  obtain ret a where m: "pci_map_bar env (c_tick c) = (ret, a)" by fastforce
  have "cmb_current_offset c' \<le> bs" "cmb_size c' \<le> bs - cmb_current_offset c'"
    using assms b m by (auto simp: nvme_ctrlr_map_cmb_def Let_def next_tick_def not_less split: if_splits)
  then have "unat (cmb_size c') \<le> unat bs - unat (cmb_current_offset c')" "unat (cmb_current_offset c') \<le> unat bs"
    by (simp_all add: word_le_nat_alt unat_sub)
  then show ?thesis using b by simp
qed

text \<open>
  C21. When the controller memory buffer is mapped, the rooms reserved in it for any sequence of submission queues are aligned on pages, lie
  inside the buffer and inside the BAR it belongs to, and do not overlap.
\<close>

theorem cmb_queues_apart:
  assumes "nvme_ctrlr_map_cmb env c = Inr c'" and "cmb_bar_virt_addr c' \<noteq> None"
    and "unat (snd (pci_bar env (cmbloc_bits (r_cmbloc c) CMBLOC_BIR))) < 2 ^ 63"
  shows "(\<forall>r\<in>set (cmb_regions (cmb_current_offset c') (cmb_size c') ns).
      unat (cmb_current_offset c') \<le> fst r \<and> fst r + snd r \<le> unat (cmb_current_offset c') + unat (cmb_size c')
      \<and> fst r + snd r \<le> unat (snd (pci_bar env (cmbloc_bits (r_cmbloc c) CMBLOC_BIR))) \<and> PAGE_SIZE dvd fst r)
    \<and> sorted_wrt (\<lambda>r r'. fst r + snd r \<le> fst r') (cmb_regions (cmb_current_offset c') (cmb_size c') ns)"
proof -
  note s = map_cmb_sizes [OF assms(1,2)]
  have "unat (cmb_current_offset c') < 2 ^ 63" "unat (cmb_size c') < 2 ^ 63" using s assms(3) by simp_all
  from cmb_regions_from [OF this, of ns] s show ?thesis by fastforce
qed

text \<open>A buffer of 16 KiB at the start of its BAR, for queues of 100, 10 and 200 entries: the third does not fit.\<close>

definition ex_cmb_env :: ctrlr_env where
  "ex_cmb_env = \<lparr>hw_csts = (\<lambda>_ _. 0), hw_dev = (\<lambda>_. qp_cpl), hw_identify = (\<lambda>_. cdata_zero), hw_ns_data = (\<lambda>_. nsdata_zero),
     hw_log_dir = (\<lambda>_. \<lparr>ld_read_latency_log_len = 0, ld_write_latency_log_len = 0, ld_temperature_statistics_log_len = 0,
       ld_smart_log_len = 0, ld_marketing_description_log_len = 0\<rparr>),
     os_time = (\<lambda>_. 0), os_calloc = (\<lambda>_. True), os_alloc = (\<lambda>_. None),
     os_qpair = (\<lambda>_. \<lparr>sq_cmb_reserved = None, alloc_cmd = None, alloc_cpl = None, calloc_reqs = True, alloc_tr = None\<rparr>), cdata_addr = 0,
     pci_devid = 0, pci_bar = (\<lambda>_. (0xf0000000, 0x10000)), pci_map_bar = (\<lambda>_. (0, Some 0x8000)), pci_unmap_bar = (\<lambda>_. 0)\<rparr>"

definition ex_cmb :: nvme_ctrlr where
  "ex_cmb = ctrlr_zero \<lparr>r_cap = 0, r_cc = 0, r_aqa = 0, r_asq = 0, r_acq = 0, r_cmbloc = 2, r_cmbsz = push_bit 12 4\<rparr> (\<lambda>_. 0) 0"

theorem cmb_queues_apart_witness:
  "\<exists>c'. nvme_ctrlr_map_cmb ex_cmb_env ex_cmb = Inr c' \<and> cmb_regions (cmb_current_offset c') (cmb_size c') [100, 10, 200] = [(0, 6400), (8192, 640)]
    \<and> sorted_wrt (\<lambda>r r'. fst r + snd r \<le> fst r') [(0 :: nat, 6400 :: nat), (8192, 640)]"
proof -
  have r: "r_cmbloc ex_cmb = 2" "r_cmbsz ex_cmb = 0x4000" by (simp_all add: ex_cmb_def ctrlr_zero_def nvme_registers.defs nvme_ctrlr.defs)
  obtain c' where c: "nvme_ctrlr_map_cmb ex_cmb_env ex_cmb = Inr c'" "cmb_bar_virt_addr c' \<noteq> None" "cmb_current_offset c' = 0" "cmb_size c' = 0x4000"
    by (simp add: nvme_ctrlr_map_cmb_def r ex_cmb_env_def bf_get_def Let_def next_tick_def take_bit_eq_mask mask_eq_exp_minus_1)
  have e: "cmb_regions 0 0x4000 [100, 10, 200] = [(0, 6400), (8192, 640)]"
    by (simp add: nvme_ctrlr_reserve_sq_in_cmb_def PAGE_SIZE_def Let_def)
  have "unat (snd (pci_bar ex_cmb_env (cmbloc_bits (r_cmbloc ex_cmb) CMBLOC_BIR))) < 2 ^ 63" by (simp add: ex_cmb_env_def)
  from cmb_queues_apart [OF c(1,2) this, of "[100, 10, 200]"] c(3,4) e have "apart [(0, 6400), (8192, 640)]"
    by (simp del: cmb_regions.simps)
  then show ?thesis using c e by (intro exI [of _ c']) (simp del: cmb_regions.simps)
qed

end
