(* ===== verification/Nvme_Locks.thy ===== *)
theory Nvme_Locks
  imports Nvme_Prelude
begin

text \<open>
  Atomic counters (\<^verbatim>\<open>lib/common/nvme_atomic.h\<close>) and spinlocks (\<^verbatim>\<open>lib/common/nvme_spinlock.h\<close>), which the memory manager uses for its
  list of hugepages. The \<^verbatim>\<open>__sync\<close> built-ins of the compiler are indivisible: each of them is one step, and their arithmetic wraps. Threads
  that share a lock are interleaved by an arbitrary schedule of such steps.
\<close>

subsection \<open>Definitions: 32-bit counters\<close>

record nvme_atomic = at_cnt :: u32

text \<open>\<^verbatim>\<open>__sync_bool_compare_and_swap\<close>, as a result and the new content.\<close>

definition compare_and_swap :: "'a \<Rightarrow> 'a \<Rightarrow> 'a \<Rightarrow> bool \<times> 'a" where
  "compare_and_swap cur old new = (if cur = old then (True, new) else (False, cur))"

definition nvme_atomic_init :: "nvme_atomic \<Rightarrow> nvme_atomic" where
  "nvme_atomic_init v = v\<lparr>at_cnt := 0\<rparr>"

definition nvme_atomic_read :: "nvme_atomic \<Rightarrow> u32" where
  "nvme_atomic_read v = at_cnt v"

definition nvme_atomic_set :: "nvme_atomic \<Rightarrow> u32 \<Rightarrow> nvme_atomic" where
  "nvme_atomic_set v new_value = v\<lparr>at_cnt := new_value\<rparr>"

definition nvme_atomic_add :: "nvme_atomic \<Rightarrow> u32 \<Rightarrow> nvme_atomic" where
  "nvme_atomic_add v i = v\<lparr>at_cnt := at_cnt v + i\<rparr>"

definition nvme_atomic_sub :: "nvme_atomic \<Rightarrow> u32 \<Rightarrow> nvme_atomic" where
  "nvme_atomic_sub v d = v\<lparr>at_cnt := at_cnt v - d\<rparr>"

definition nvme_atomic_inc :: "nvme_atomic \<Rightarrow> nvme_atomic" where
  "nvme_atomic_inc v = nvme_atomic_add v 1"

definition nvme_atomic_dec :: "nvme_atomic \<Rightarrow> nvme_atomic" where
  "nvme_atomic_dec v = nvme_atomic_sub v 1"

definition nvme_atomic_add_return :: "nvme_atomic \<Rightarrow> u32 \<Rightarrow> u32 \<times> nvme_atomic" where
  "nvme_atomic_add_return v i = (at_cnt v + i, v\<lparr>at_cnt := at_cnt v + i\<rparr>)"

definition nvme_atomic_sub_return :: "nvme_atomic \<Rightarrow> u32 \<Rightarrow> u32 \<times> nvme_atomic" where
  "nvme_atomic_sub_return v d = (at_cnt v - d, v\<lparr>at_cnt := at_cnt v - d\<rparr>)"

definition nvme_atomic_inc_and_test :: "nvme_atomic \<Rightarrow> bool \<times> nvme_atomic" where
  "nvme_atomic_inc_and_test v = (at_cnt v + 1 = 0, v\<lparr>at_cnt := at_cnt v + 1\<rparr>)"

definition nvme_atomic_dec_and_test :: "nvme_atomic \<Rightarrow> bool \<times> nvme_atomic" where
  "nvme_atomic_dec_and_test v = (at_cnt v - 1 = 0, v\<lparr>at_cnt := at_cnt v - 1\<rparr>)"

definition nvme_atomic_test_and_set :: "nvme_atomic \<Rightarrow> bool \<times> nvme_atomic" where
  "nvme_atomic_test_and_set v = (case compare_and_swap (at_cnt v) 0 1 of (ok, n) \<Rightarrow> (ok, v\<lparr>at_cnt := n\<rparr>))"

definition nvme_atomic_clear :: "nvme_atomic \<Rightarrow> nvme_atomic" where
  "nvme_atomic_clear v = v\<lparr>at_cnt := 0\<rparr>"

subsection \<open>Definitions: 64-bit counters\<close>

text \<open>
  On a 64-bit machine (\<^verbatim>\<open>__LP64__\<close>) reading and setting is one access. The other branch, for 32-bit machines, repeats a compare-and-swap
  until it succeeds; \<open>cas_loop\<close> models it, with what the other threads make of the counter between reading it and swapping it.
\<close>

record nvme_atomic64 = at64_cnt :: u64

definition nvme_atomic64_init :: "nvme_atomic64 \<Rightarrow> nvme_atomic64" where
  "nvme_atomic64_init v = v\<lparr>at64_cnt := 0\<rparr>"

definition nvme_atomic64_read :: "nvme_atomic64 \<Rightarrow> u64" where
  "nvme_atomic64_read v = at64_cnt v"

definition nvme_atomic64_set :: "nvme_atomic64 \<Rightarrow> u64 \<Rightarrow> nvme_atomic64" where
  "nvme_atomic64_set v new_value = v\<lparr>at64_cnt := new_value\<rparr>"

fun cas_loop :: "(u64 \<Rightarrow> u64) \<Rightarrow> (u64 \<Rightarrow> u64) list \<Rightarrow> u64 \<Rightarrow> (u64 \<times> u64) res" where
  "cas_loop new [] cnt = Inl OutOfFuel"
| "cas_loop new (other # others) cnt =
     (case compare_and_swap (other cnt) cnt (new cnt) of
        (True, cnt') \<Rightarrow> Inr (cnt, cnt')
      | (False, cnt') \<Rightarrow> cas_loop new others cnt')"

definition nvme_atomic64_add :: "nvme_atomic64 \<Rightarrow> u64 \<Rightarrow> nvme_atomic64" where
  "nvme_atomic64_add v i = v\<lparr>at64_cnt := at64_cnt v + i\<rparr>"

definition nvme_atomic64_sub :: "nvme_atomic64 \<Rightarrow> u64 \<Rightarrow> nvme_atomic64" where
  "nvme_atomic64_sub v d = v\<lparr>at64_cnt := at64_cnt v - d\<rparr>"

definition nvme_atomic64_inc :: "nvme_atomic64 \<Rightarrow> nvme_atomic64" where
  "nvme_atomic64_inc v = nvme_atomic64_add v 1"

definition nvme_atomic64_dec :: "nvme_atomic64 \<Rightarrow> nvme_atomic64" where
  "nvme_atomic64_dec v = nvme_atomic64_sub v 1"

definition nvme_atomic64_add_return :: "nvme_atomic64 \<Rightarrow> u64 \<Rightarrow> u64 \<times> nvme_atomic64" where
  "nvme_atomic64_add_return v i = (at64_cnt v + i, v\<lparr>at64_cnt := at64_cnt v + i\<rparr>)"

definition nvme_atomic64_sub_return :: "nvme_atomic64 \<Rightarrow> u64 \<Rightarrow> u64 \<times> nvme_atomic64" where
  "nvme_atomic64_sub_return v d = (at64_cnt v - d, v\<lparr>at64_cnt := at64_cnt v - d\<rparr>)"

definition nvme_atomic64_inc_and_test :: "nvme_atomic64 \<Rightarrow> bool \<times> nvme_atomic64" where
  "nvme_atomic64_inc_and_test v = (case nvme_atomic64_add_return v 1 of (r, v) \<Rightarrow> (r = 0, v))"

definition nvme_atomic64_dec_and_test :: "nvme_atomic64 \<Rightarrow> bool \<times> nvme_atomic64" where
  "nvme_atomic64_dec_and_test v = (case nvme_atomic64_sub_return v 1 of (r, v) \<Rightarrow> (r = 0, v))"

definition nvme_atomic64_test_and_set :: "nvme_atomic64 \<Rightarrow> bool \<times> nvme_atomic64" where
  "nvme_atomic64_test_and_set v = (case compare_and_swap (at64_cnt v) 0 1 of (ok, n) \<Rightarrow> (ok, v\<lparr>at64_cnt := n\<rparr>))"

definition nvme_atomic64_clear :: "nvme_atomic64 \<Rightarrow> nvme_atomic64" where
  "nvme_atomic64_clear v = nvme_atomic64_set v 0"

subsection \<open>Definitions: spinlocks\<close>

record nvme_spinlock = sl_locked :: int

definition nvme_spinlock_init :: "nvme_spinlock \<Rightarrow> nvme_spinlock" where
  "nvme_spinlock_init sl = sl\<lparr>sl_locked := 0\<rparr>"

text \<open>\<^verbatim>\<open>__sync_lock_test_and_set\<close> returns the old content.\<close>

definition lock_test_and_set :: "nvme_spinlock \<Rightarrow> int \<times> nvme_spinlock" where
  "lock_test_and_set sl = (sl_locked sl, sl\<lparr>sl_locked := 1\<rparr>)"

definition nvme_spin_unlock :: "nvme_spinlock \<Rightarrow> nvme_spinlock" where
  "nvme_spin_unlock sl = sl\<lparr>sl_locked := 0\<rparr>"

definition nvme_spinlock_trylock :: "nvme_spinlock \<Rightarrow> int \<times> nvme_spinlock" where
  "nvme_spinlock_trylock sl = (case lock_test_and_set sl of (old, sl) \<Rightarrow> (if old = 0 then 1 else 0, sl))"

definition nvme_spinlock_is_locked :: "nvme_spinlock \<Rightarrow> int" where
  "nvme_spinlock_is_locked sl = sl_locked sl"

text \<open>
  Where a thread is in \<^verbatim>\<open>nvme_spin_lock\<close>: before the test-and-set of the outer loop, in the inner loop, or returned from the call. One step
  of the function is one access to the lock.
\<close>

datatype spin_at = OuterLoop | InnerLoop | Taken

fun nvme_spin_lock :: "spin_at \<Rightarrow> nvme_spinlock \<Rightarrow> spin_at \<times> nvme_spinlock" where
  "nvme_spin_lock OuterLoop sl = (case lock_test_and_set sl of (old, sl) \<Rightarrow> (if old \<noteq> 0 then InnerLoop else Taken, sl))"
| "nvme_spin_lock InnerLoop sl = (if sl_locked sl \<noteq> 0 then InnerLoop else OuterLoop, sl)"
| "nvme_spin_lock Taken sl = (Taken, sl)"

subsection \<open>Definitions: threads that share a lock\<close>

text \<open>
  A thread is outside, within \<^verbatim>\<open>nvme_spin_lock\<close>, holds the lock, or holds it with the shared data read. A critical section reads the shared
  data and writes back what it computes from them (for the hugepage list: a page inserted or removed), two separate accesses; then the thread
  releases the lock. A schedule says which thread runs next and, for a thread outside, whether it calls
  \<^verbatim>\<open>nvme_spin_lock\<close> or \<^verbatim>\<open>nvme_spinlock_trylock\<close>.
\<close>

datatype 'd thread_at = Outside | Locking spin_at | Holding | Loaded 'd | Stored

record 'd lock_sys =
  ls_lock :: nvme_spinlock
  ls_at :: "nat \<Rightarrow> 'd thread_at"
  ls_data :: 'd
  ls_order :: "nat list"

definition enter :: "spin_at \<Rightarrow> 'd thread_at" where
  "enter p = (if p = Taken then Holding else Locking p)"

definition thread_step :: "(nat \<Rightarrow> 'd \<Rightarrow> 'd) \<Rightarrow> nat \<times> bool \<Rightarrow> 'd lock_sys \<Rightarrow> 'd lock_sys" where
  "thread_step f ev s =
     (case ev of (t, trying) \<Rightarrow>
        (case ls_at s t of
           Outside \<Rightarrow>
             if trying
             then (case nvme_spinlock_trylock (ls_lock s) of (r, sl) \<Rightarrow>
                     s\<lparr>ls_lock := sl, ls_at := (ls_at s)(t := if r = 0 then Outside else Holding)\<rparr>)
             else s\<lparr>ls_at := (ls_at s)(t := Locking OuterLoop)\<rparr>
         | Locking p \<Rightarrow>
             (case nvme_spin_lock p (ls_lock s) of (p', sl) \<Rightarrow> s\<lparr>ls_lock := sl, ls_at := (ls_at s)(t := enter p')\<rparr>)
         | Holding \<Rightarrow> s\<lparr>ls_at := (ls_at s)(t := Loaded (ls_data s))\<rparr>
         | Loaded d \<Rightarrow> s\<lparr>ls_data := f t d, ls_at := (ls_at s)(t := Stored), ls_order := ls_order s @ [t]\<rparr>
         | Stored \<Rightarrow> s\<lparr>ls_lock := nvme_spin_unlock (ls_lock s), ls_at := (ls_at s)(t := Outside)\<rparr>))"

definition lock_start :: "nvme_spinlock \<Rightarrow> 'd \<Rightarrow> 'd lock_sys" where
  "lock_start sl d = \<lparr>ls_lock = nvme_spinlock_init sl, ls_at = (\<lambda>_. Outside), ls_data = d, ls_order = []\<rparr>"

definition run_threads :: "(nat \<Rightarrow> 'd \<Rightarrow> 'd) \<Rightarrow> (nat \<times> bool) list \<Rightarrow> nvme_spinlock \<Rightarrow> 'd \<Rightarrow> 'd lock_sys" where
  "run_threads f sched sl d = fold (thread_step f) sched (lock_start sl d)"

subsection \<open>Counters\<close>

text \<open>Additions by any number of threads, in any order, add up; a 64-bit counter likewise, modulo the word size.\<close>

lemma atomic_adds: "at_cnt (fold (\<lambda>i v. nvme_atomic_add v i) ns v) = at_cnt v + sum_list ns"
  by (induction ns arbitrary: v) (simp_all add: nvme_atomic_add_def add.assoc)

lemma atomic64_adds: "at64_cnt (fold (\<lambda>i v. nvme_atomic64_add v i) ns v) = at64_cnt v + sum_list ns"
  by (induction ns arbitrary: v) (simp_all add: nvme_atomic64_add_def add.assoc)

text \<open>The results of calling an operation \<open>k\<close> times.\<close>

fun results :: "('v \<Rightarrow> 'r \<times> 'v) \<Rightarrow> nat \<Rightarrow> 'v \<Rightarrow> 'r list" where
  "results f 0 v = []"
| "results f (Suc k) v = (case f v of (r, v) \<Rightarrow> r # results f k v)"

lemma dec_last:
  assumes "\<And>n v. cnt v = of_nat (Suc n) \<Longrightarrow> Suc n < 2 ^ LENGTH('a) \<Longrightarrow> \<exists>v'. f v = (n = 0, v') \<and> cnt v' = (of_nat n :: 'a::len word)"
    and "cnt v = of_nat (Suc k)" and "Suc k < 2 ^ LENGTH('a)"
  shows "results f (Suc k) v = replicate k False @ [True]"
  using assms(2,3)
proof (induction k arbitrary: v)
  case (Suc k)
  then obtain v' where "f v = (False, v')" "cnt v' = of_nat (Suc k)" using assms(1) [of v "Suc k"] by auto
  then show ?case using Suc.IH [of v'] Suc.prems by simp
next
  case 0
  then show ?case using assms(1) [of v 0] by auto
qed

text \<open>A counter that counts \<open>k + 1\<close> references: only the thread that drops the last one is told so.\<close>

lemma of_nat_Suc_minus: "of_nat (Suc n) - 1 = (of_nat n :: 'a::len word)"
  by simp

lemma of_nat_is_0: "n < 2 ^ LENGTH('a) \<Longrightarrow> (of_nat n :: 'a::len word) = 0 \<longleftrightarrow> n = 0"
  by (simp add: word_of_nat_eq_0_iff dvd_eq_mod_eq_0)

lemma dec_and_test_last:
  "at_cnt v = of_nat (Suc k) \<Longrightarrow> Suc k < 2 ^ 32 \<Longrightarrow> results nvme_atomic_dec_and_test (Suc k) v = replicate k False @ [True]"
  by (rule dec_last [where cnt = at_cnt])
    (auto simp: nvme_atomic_dec_and_test_def of_nat_is_0 simp del: of_nat_Suc simp add: of_nat_Suc_minus)

lemma dec_and_test64_last:
  "at64_cnt v = of_nat (Suc k) \<Longrightarrow> Suc k < 2 ^ 64 \<Longrightarrow> results nvme_atomic64_dec_and_test (Suc k) v = replicate k False @ [True]"
  by (rule dec_last [where cnt = at64_cnt])
    (auto simp: nvme_atomic64_dec_and_test_def nvme_atomic64_sub_return_def of_nat_is_0 simp del: of_nat_Suc simp add: of_nat_Suc_minus)

text \<open>Of any number of threads that test and set a cleared counter exactly the first succeeds.\<close>

lemma test_and_set_lost: "at_cnt v = 1 \<Longrightarrow> results nvme_atomic_test_and_set k v = replicate k False"
  by (induction k arbitrary: v) (simp_all add: nvme_atomic_test_and_set_def compare_and_swap_def)

lemma test_and_set_once: "results nvme_atomic_test_and_set (Suc k) (nvme_atomic_clear v) = True # replicate k False"
  by (simp add: nvme_atomic_test_and_set_def compare_and_swap_def nvme_atomic_clear_def test_and_set_lost)

text \<open>
  The loop for 32-bit machines ends as soon as no other thread changes the counter between its two accesses, and it then has replaced a
  value \<open>c\<close> by \<open>new c\<close> in one step.
\<close>

lemma cas_loop_ends: "id \<in> set others \<Longrightarrow> \<exists>c. cas_loop new others cnt = Inr (c, new c)"
  by (induction others arbitrary: cnt) (auto simp: compare_and_swap_def)

subsection \<open>Mutual exclusion\<close>

definition in_section :: "'d thread_at \<Rightarrow> bool" where
  "in_section p \<longleftrightarrow> (case p of Outside \<Rightarrow> False | Locking _ \<Rightarrow> False | _ \<Rightarrow> True)"

lemma in_section_simps [simp]:
  "\<not> in_section Outside" "\<not> in_section (Locking p)" "in_section Holding" "in_section (Loaded d)" "in_section Stored"
  by (simp_all add: in_section_def)

lemma in_section_enter [simp]: "in_section (enter p) \<longleftrightarrow> p = Taken"
  by (simp add: enter_def)

definition holders :: "'d lock_sys \<Rightarrow> nat set" where
  "holders s = {t. in_section (ls_at s t)}"

definition moved :: "nat \<Rightarrow> 'd thread_at \<Rightarrow> nat set \<Rightarrow> nat set" where
  "moved t p H = (if in_section p then insert t H else H - {t})"

lemma holders_upd: "ls_at s' = (ls_at s)(t := p) \<Longrightarrow> holders s' = moved t p (holders s)"
  by (auto simp: holders_def moved_def)

text \<open>
  The lock is 0 when no thread is in its critical section and 1 when exactly one is; a thread that has read the data has read the current ones;
  the data are the result of the completed updates, one after the other.
\<close>

definition lock_inv :: "(nat \<Rightarrow> 'd \<Rightarrow> 'd) \<Rightarrow> 'd \<Rightarrow> 'd lock_sys \<Rightarrow> bool" where
  "lock_inv f d0 s \<longleftrightarrow>
     (sl_locked (ls_lock s) = 0 \<and> holders s = {} \<or> sl_locked (ls_lock s) = 1 \<and> (\<exists>t. holders s = {t}))
     \<and> (\<forall>t. ls_at s t \<noteq> Locking Taken) \<and> (\<forall>t d. ls_at s t = Loaded d \<longrightarrow> d = ls_data s)
     \<and> ls_data s = fold f (ls_order s) d0"

lemma lock_inv_start: "lock_inv f d (lock_start sl d)"
  by (simp add: lock_inv_def lock_start_def nvme_spinlock_init_def holders_def)

text \<open>A step that does not concern the data keeps the invariant when the lock word still agrees with the threads in their critical section.\<close>

lemma lock_inv_move:
  assumes "lock_inv f d0 s" and "ls_at s' = (ls_at s)(t := p)" and "ls_data s' = ls_data s" and "ls_order s' = ls_order s"
    and "p \<noteq> Locking Taken" and "\<And>d. p = Loaded d \<Longrightarrow> d = ls_data s"
    and "sl_locked (ls_lock s') = 0 \<and> moved t p (holders s) = {} \<or> sl_locked (ls_lock s') = 1 \<and> (\<exists>u. moved t p (holders s) = {u})"
  shows "lock_inv f d0 s'"
  using assms(1,5,6,7) unfolding lock_inv_def holders_upd [OF assms(2)] assms(2,3,4) by (simp, metis)

lemma holder_alone: "lock_inv f d0 s \<Longrightarrow> in_section (ls_at s t) \<Longrightarrow> holders s = {t} \<and> sl_locked (ls_lock s) = 1"
proof -
  assume "lock_inv f d0 s" and "in_section (ls_at s t)"
  then have "t \<in> holders s" "holders s = {} \<or> sl_locked (ls_lock s) = 1 \<and> (\<exists>t. holders s = {t})" by (auto simp: lock_inv_def holders_def)
  then show ?thesis by auto
qed

lemma holder_loaded:
  assumes "lock_inv f d0 s" and "ls_at s t = Loaded d"
  shows "d = ls_data s \<and> (\<forall>u d'. ls_at s u = Loaded d' \<longrightarrow> u = t)"
proof -
  have "u = t" if "ls_at s u = Loaded d'" for u d'
    using holder_alone [OF assms(1), of t] holder_alone [OF assms(1), of u] that assms(2) by auto
  then show ?thesis using assms by (auto simp: lock_inv_def)
qed

lemma lock_word:
  "lock_inv f d0 s \<Longrightarrow> sl_locked (ls_lock s) = 0 \<and> holders s = {} \<or> sl_locked (ls_lock s) = 1 \<and> (\<exists>t. holders s = {t})"
  by (simp add: lock_inv_def)

lemma spin_lock_cases:
  assumes "nvme_spin_lock p sl = (p', sl')" and "p \<noteq> Taken"
  shows "p' = Taken \<and> sl_locked sl = 0 \<and> sl_locked sl' = 1 \<or> p' \<noteq> Taken \<and> sl_locked sl' = 1 \<and> sl_locked sl \<noteq> 0 \<or> p' \<noteq> Taken \<and> sl' = sl"
  using assms by (cases p) (auto simp: lock_test_and_set_def split: if_splits)

lemma thread_step_inv:
  assumes inv: "lock_inv f d0 s"
  shows "lock_inv f d0 (thread_step f (t, trying) s)"
proof (cases "ls_at s t")
  case Outside
  then have "t \<notin> holders s" by (simp add: holders_def)
  then have h: "moved t p (holders s) = (if in_section p then insert t (holders s) else holders s)" for p :: "'a thread_at"
    by (simp add: moved_def)
  define p :: "'a thread_at" where
    "p = (if trying then if sl_locked (ls_lock s) = 0 then Holding else Outside else Locking OuterLoop)"
  show ?thesis
    by (rule lock_inv_move [OF inv, where t = t and p = p])
      (use Outside lock_word [OF inv] in
        \<open>auto simp: p_def thread_step_def nvme_spinlock_trylock_def lock_test_and_set_def h split: if_splits\<close>)
next
  case (Locking p)
  obtain p' sl where l: "nvme_spin_lock p (ls_lock s) = (p', sl)" by fastforce
  have "t \<notin> holders s" using Locking by (simp add: holders_def)
  then have h: "moved t (enter p') (holders s) = (if p' = Taken then insert t (holders s) else holders s)" by (simp add: moved_def)
  have "p \<noteq> Taken" using inv Locking by (auto simp: lock_inv_def)
  from spin_lock_cases [OF l this] lock_word [OF inv]
  have w: "sl_locked sl = 0 \<and> moved t (enter p') (holders s) = {} \<or> sl_locked sl = 1 \<and> (\<exists>u. moved t (enter p') (holders s) = {u})"
    unfolding h by auto
  show ?thesis
    by (rule lock_inv_move [OF inv, where t = t and p = "enter p'"])
      (use Locking l w in \<open>simp_all add: thread_step_def enter_def split: if_splits\<close>)
next
  case Holding
  show ?thesis
    by (rule lock_inv_move [OF inv, where t = t and p = "Loaded (ls_data s)"])
      (use Holding holder_alone [OF inv, of t] in \<open>simp_all add: thread_step_def moved_def\<close>)
next
  case (Loaded d)
  let ?s = "thread_step f (t, trying) s"
  have s: "ls_at ?s = (ls_at s)(t := Stored)" "ls_lock ?s = ls_lock s" "ls_data ?s = f t d" "ls_order ?s = ls_order s @ [t]"
    using Loaded by (simp_all add: thread_step_def)
  have "holders ?s = {t}" using holder_alone [OF inv, of t] Loaded holders_upd [OF s(1)] by (simp add: moved_def)
  moreover have "sl_locked (ls_lock ?s) = 1" using holder_alone [OF inv, of t] Loaded s(2) by simp
  moreover have "ls_at ?s u \<noteq> Loaded d'" for u d' using holder_loaded [OF inv Loaded] s(1) by auto
  moreover have "f t d = fold f (ls_order s @ [t]) d0" using holder_loaded [OF inv Loaded] inv by (simp add: lock_inv_def)
  moreover have "ls_at ?s u \<noteq> Locking Taken" for u using inv s(1) by (simp add: lock_inv_def)
  ultimately show ?thesis unfolding lock_inv_def s(3,4) by simp
next
  case Stored
  show ?thesis
    by (rule lock_inv_move [OF inv, where t = t and p = Outside])
      (use Stored holder_alone [OF inv, of t] in \<open>simp_all add: thread_step_def moved_def nvme_spin_unlock_def\<close>)
qed

lemma run_threads_inv: "lock_inv f d (run_threads f sched sl d)"
proof -
  have "lock_inv f d s \<Longrightarrow> lock_inv f d (fold (thread_step f) sched s)" for s
    by (induction sched arbitrary: s) (auto intro: thread_step_inv)
  then show ?thesis by (simp add: run_threads_def lock_inv_start)
qed

text \<open>A thread that waits takes the lock within two of its own steps when the lock is free and no other thread comes between.\<close>

lemma spin_progress:
  assumes "sl_locked (ls_lock s) = 0" and "ls_at s t = Locking p" and "p \<noteq> Taken"
  shows "\<exists>k\<le>2. ls_at (fold (thread_step f) (replicate k (t, trying)) s) t = Holding"
proof (cases p)
  case OuterLoop
  then have "ls_at (fold (thread_step f) (replicate 1 (t, trying)) s) t = Holding"
    using assms by (simp add: thread_step_def lock_test_and_set_def enter_def)
  then show ?thesis by (intro exI [of _ 1]) simp
next
  case InnerLoop
  then have "ls_at (fold (thread_step f) (replicate 2 (t, trying)) s) t = Holding"
    using assms by (simp add: thread_step_def lock_test_and_set_def enter_def numeral_2_eq_2)
  then show ?thesis by (intro exI [of _ 2]) simp
qed (use assms(3) in simp)

text \<open>
  C20. Spinlock. However the steps of threads that take a lock with \<^verbatim>\<open>nvme_spin_lock\<close> or \<^verbatim>\<open>nvme_spinlock_trylock\<close> are interleaved, the lock
  word is 0 with no thread in its critical section or 1 with exactly one; no update of the data under the lock is lost: the data are the
  result of the completed critical sections one after the other; and when the lock is free a waiting thread takes it within two of its own steps.
\<close>

theorem spinlock_serialises:
  "(nvme_spinlock_is_locked (ls_lock (run_threads f sched sl d)) = 0 \<and> {t. in_section (ls_at (run_threads f sched sl d) t)} = {}
       \<or> nvme_spinlock_is_locked (ls_lock (run_threads f sched sl d)) = 1 \<and> (\<exists>t. {t. in_section (ls_at (run_threads f sched sl d) t)} = {t}))
     \<and> ls_data (run_threads f sched sl d) = fold f (ls_order (run_threads f sched sl d)) d
     \<and> (nvme_spinlock_is_locked (ls_lock (run_threads f sched sl d)) = 0 \<longrightarrow> ls_at (run_threads f sched sl d) t = Locking p
          \<longrightarrow> (\<exists>k\<le>2. ls_at (run_threads f (sched @ replicate k (t, trying)) sl d) t = Holding))"
proof -
  note inv = run_threads_inv [of f d sched sl, unfolded lock_inv_def holders_def]
  show ?thesis
    using inv spin_progress [of "run_threads f sched sl d" t p f trying] unfolding nvme_spinlock_is_locked_def
    by (auto simp: run_threads_def)
qed

definition ex_sched :: "(nat \<times> bool) list" where
  "ex_sched = [(0, False), (0, False), (1, False), (1, False), (1, False), (2, True), (0, False), (0, False), (0, False)]"

lemma ex_sched_run:
  "nvme_spinlock_is_locked (ls_lock (run_threads Cons ex_sched \<lparr>sl_locked = 0\<rparr> [])) = 0"
  "ls_at (run_threads Cons ex_sched \<lparr>sl_locked = 0\<rparr> []) 1 = Locking InnerLoop"
  by (simp_all add: run_threads_def ex_sched_def lock_start_def nvme_spinlock_init_def thread_step_def lock_test_and_set_def enter_def
      nvme_spinlock_trylock_def nvme_spin_unlock_def nvme_spinlock_is_locked_def)

theorem spinlock_serialises_witness:
  "\<exists>k\<le>2. ls_at (run_threads Cons (ex_sched @ replicate k (1, False)) \<lparr>sl_locked = 0\<rparr> []) 1 = Holding"
  using spinlock_serialises [of Cons ex_sched "\<lparr>sl_locked = 0\<rparr>" "[]" 1 InnerLoop False] ex_sched_run by blast

end
