(* ===== verification/Nvme_Sys.thy ===== *)
theory Nvme_Sys
  imports Nvme_Prelude "HOL-Library.Signed_Division"
begin

text \<open>
  Time and files (\<^verbatim>\<open>lib/common/nvme_common.h\<close>, \<^verbatim>\<open>nvme_common.c\<close>). The clock, \<^verbatim>\<open>fstat\<close> and \<^verbatim>\<open>ioctl\<close> are arguments: what they
  return.
\<close>

subsection \<open>Definitions: time\<close>

text \<open>The clock has a number of seconds and of nanoseconds; the sum is computed in 64 bits.\<close>

definition nvme_time_nsec :: "u64 \<Rightarrow> u64 \<Rightarrow> u64" where
  "nvme_time_nsec tv_sec tv_nsec = tv_sec * 1000000000 + tv_nsec"

definition nvme_time_usec :: "u64 \<Rightarrow> u64 \<Rightarrow> u64" where
  "nvme_time_usec tv_sec tv_nsec = nvme_time_nsec tv_sec tv_nsec div 1000"

definition nvme_time_msec :: "u64 \<Rightarrow> u64 \<Rightarrow> u64" where
  "nvme_time_msec tv_sec tv_nsec = nvme_time_nsec tv_sec tv_nsec div 1000000"

text \<open>The seconds and microseconds handed to \<^verbatim>\<open>select\<close>.\<close>

definition nvme_usleep :: "int \<Rightarrow> int \<times> int" where
  "nvme_usleep usecs = (usecs sdiv 1000000, usecs smod 1000000)"

definition nvme_msleep :: "int \<Rightarrow> int \<times> int" where
  "nvme_msleep msecs = (let tv_sec = msecs sdiv 1000 in (tv_sec, (msecs - tv_sec * 1000) * 1000))"

subsection \<open>Definitions: files\<close>

datatype file_type = S_IFLNK | S_IFBLK | S_IFCHR | S_IFREG | S_IFOTHER

record file_env =
  fe_stat :: "(file_type \<times> u64) option"
  fe_blkgetsize64 :: "u64 option"
  fe_blksszget :: "u32 option"

definition nvme_dev_get_blocklen :: "file_env \<Rightarrow> int" where
  "nvme_dev_get_blocklen fe = (case fe_blksszget fe of None \<Rightarrow> -1 | Some blocklen \<Rightarrow> uint blocklen)"

definition nvme_file_get_size :: "file_env \<Rightarrow> u64" where
  "nvme_file_get_size fe =
     (case fe_stat fe of
        None \<Rightarrow> 0
      | Some (st_mode, st_size) \<Rightarrow>
          if st_mode = S_IFLNK then 0
          else if st_mode = S_IFBLK \<or> st_mode = S_IFCHR
          then (case fe_blkgetsize64 fe of Some sz \<Rightarrow> sz | None \<Rightarrow> 0)
          else if st_mode = S_IFREG then st_size
          else 0)"

subsection \<open>Clock and delays\<close>

text \<open>
  Until the nanoseconds no longer fit into 64 bits (more than five centuries after the start of the epoch) the clock in milliseconds is the true
  one, and it does not go back when the clock of the system does not.
\<close>

lemma time_msec_exact:
  assumes "unat s < 2 ^ 34" and "unat n < 1000000000"
  shows "unat (nvme_time_msec s n) = unat s * 1000 + unat n div 1000000"
proof -
  have "unat s * 1000000000 + unat n < 2 ^ 64" using assms by simp
  then have "unat (nvme_time_nsec s n) = unat s * 1000000000 + unat n"
    by (simp add: nvme_time_nsec_def unat_word_ariths)
  moreover have "(unat s * 1000000000 + unat n) div 1000000 = unat s * 1000 + unat n div 1000000"
    using div_mult_self3 [of 1000000 "unat s * 1000" "unat n"] by (simp add: ac_simps)
  ultimately show ?thesis by (simp add: nvme_time_msec_def unat_div)
qed

lemma time_msec_mono:
  assumes "unat s < 2 ^ 34" and "unat n < 1000000000" and "unat s' < 2 ^ 34" and "unat n' < 1000000000"
    and "unat s < unat s' \<or> unat s = unat s' \<and> unat n \<le> unat n'"
  shows "nvme_time_msec s n \<le> nvme_time_msec s' n'"
proof -
  have "unat n div 1000000 < 1000" using assms(2) by simp
  moreover have "unat n \<le> unat n' \<Longrightarrow> unat n div 1000000 \<le> unat n' div 1000000" by (rule div_le_mono)
  ultimately have "unat s * 1000 + unat n div 1000000 \<le> unat s' * 1000 + unat n' div 1000000" using assms(5) by linarith
  then show ?thesis unfolding word_le_nat_alt time_msec_exact [OF assms(1,2)] time_msec_exact [OF assms(3,4)] .
qed

text \<open>The delays are exact and the microseconds a valid part of a \<^verbatim>\<open>timeval\<close>.\<close>

lemma sleep_exact:
  assumes "0 \<le> d"
  shows "case nvme_usleep d of (s, u) \<Rightarrow> s * 1000000 + u = d \<and> 0 \<le> u \<and> u < 1000000"
    "case nvme_msleep d of (s, u) \<Rightarrow> s * 1000000 + u = d * 1000 \<and> 0 \<le> u \<and> u < 1000000"
proof -
  have s: "d sdiv 1000000 = d div 1000000" "d sdiv 1000 = d div 1000" "d smod 1000000 = d mod 1000000"
    using assms by (simp_all add: signed_divide_int_def signed_modulo_int_def minus_div_mult_eq_mod [symmetric] sgn_if)
  show "case nvme_usleep d of (s, u) \<Rightarrow> s * 1000000 + u = d \<and> 0 \<le> u \<and> u < 1000000"
    unfolding nvme_usleep_def s by simp
  have u: "d - d div 1000 * 1000 = d mod 1000" by (simp add: minus_div_mult_eq_mod)
  have "d div 1000 * 1000 + d mod 1000 = d" by simp
  then have "d div 1000 * 1000000 + d mod 1000 * 1000 = d * 1000" by linarith
  moreover have "0 \<le> d mod 1000" "d mod 1000 < 1000" by simp_all
  ultimately show "case nvme_msleep d of (s, u) \<Rightarrow> s * 1000000 + u = d * 1000 \<and> 0 \<le> u \<and> u < 1000000"
    unfolding nvme_msleep_def s Let_def prod.case u by simp
qed

subsection \<open>Register accesses\<close>

text \<open>
  \<^verbatim>\<open>lib/common/nvme_arch.h\<close>: registers are memory of 32-bit words. Without 64-bit accesses (\<^verbatim>\<open>NVME_MMIO_64BIT\<close>) a 64-bit register is read
  and written as two words, the lower one first.
\<close>

definition nvme_mmio_read_4 :: "(nat \<Rightarrow> u32) \<Rightarrow> nat \<Rightarrow> u32" where
  "nvme_mmio_read_4 mem addr = mem addr"

definition nvme_mmio_write_4 :: "nat \<Rightarrow> u32 \<Rightarrow> (nat \<Rightarrow> u32) \<Rightarrow> nat \<Rightarrow> u32" where
  "nvme_mmio_write_4 addr val mem = mem(addr := val)"

definition nvme_mmio_read_8 :: "(nat \<Rightarrow> u32) \<Rightarrow> nat \<Rightarrow> u64" where
  "nvme_mmio_read_8 mem addr = ucast (mem addr) OR push_bit 32 (ucast (mem (addr + 1)))"

definition nvme_mmio_write_8 :: "nat \<Rightarrow> u64 \<Rightarrow> (nat \<Rightarrow> u32) \<Rightarrow> nat \<Rightarrow> u32" where
  "nvme_mmio_write_8 addr val mem = (mem(addr := ucast val))(addr + 1 := ucast (drop_bit 32 val))"

text \<open>The two words hold exactly the value, in little-endian order, and no other word changes.\<close>

lemma mmio_8_roundtrip: "nvme_mmio_read_8 (nvme_mmio_write_8 addr val mem) addr = val"
proof (rule bit_word_eqI)
  fix n
  assume "n < LENGTH(64)"
  then show "bit (nvme_mmio_read_8 (nvme_mmio_write_8 addr val mem) addr) n = bit val n"
    by (auto simp: nvme_mmio_read_8_def nvme_mmio_write_8_def bit_simps)
qed

lemma mmio_8_other: "a \<noteq> addr \<Longrightarrow> a \<noteq> addr + 1 \<Longrightarrow> nvme_mmio_write_8 addr val mem a = mem a"
  by (simp add: nvme_mmio_write_8_def)

end
