(* ===== verification/Nvme_Perf.thy ===== *)
theory Nvme_Perf
  imports Nvme_Text
begin

text \<open>
  The performance test (\<^verbatim>\<open>tools/perf\<close>), a client of the library: the doubly linked queues of its I/O descriptors, the
  command line, the choice of the next I/O and the loop that submits; and the sizes that \<^verbatim>\<open>tools/info\<close> prints. What submitting an I/O
  returns and the numbers of \<^verbatim>\<open>rand\<close> are arguments. A descriptor is its index in the array; the links are in an explicit store.
  Fields of the parameters that only opening the device and printing use are left out.
\<close>

subsection \<open>Definitions: I/O queues\<close>

record nvme_perf_io =
  io_next :: "nat option"
  io_prev :: "nat option"
  io_buf :: nat
  io_at :: u64
  io_sz :: u64

type_synonym io_store = "nat \<Rightarrow> nvme_perf_io"

record nvme_perf_ioq =
  q_head :: "nat option"
  q_tail :: "nat option"

definition set_next :: "nat \<Rightarrow> nat option \<Rightarrow> io_store \<Rightarrow> io_store" where
  "set_next io n h = h(io := (h io)\<lparr>io_next := n\<rparr>)"

definition set_prev :: "nat \<Rightarrow> nat option \<Rightarrow> io_store \<Rightarrow> io_store" where
  "set_prev io p h = h(io := (h io)\<lparr>io_prev := p\<rparr>)"

text \<open>Following a null pointer is an invalid access.\<close>

definition deref :: "nat option \<Rightarrow> nat res" where
  "deref p = (case p of None \<Rightarrow> Inl BadAccess | Some io \<Rightarrow> Inr io)"

definition nvme_perf_ioq_empty :: "nvme_perf_ioq \<Rightarrow> bool" where
  "nvme_perf_ioq_empty q \<longleftrightarrow> q_head q = None"

definition nvme_perf_ioq_add :: "nvme_perf_ioq \<Rightarrow> nat \<Rightarrow> io_store \<Rightarrow> (nvme_perf_ioq \<times> io_store) res" where
  "nvme_perf_ioq_add q io h =
     (let h = set_next io None h
      in if q_head q \<noteq> None
         then rbind (deref (q_tail q)) (\<lambda>t. Inr (q\<lparr>q_tail := Some io\<rparr>, set_prev io (q_tail q) (set_next t (Some io) h)))
         else Inr (q\<lparr>q_head := Some io, q_tail := Some io\<rparr>, set_prev io None h))"

definition nvme_perf_ioq_get :: "nvme_perf_ioq \<Rightarrow> io_store \<Rightarrow> nat option \<times> nvme_perf_ioq \<times> io_store" where
  "nvme_perf_ioq_get q h =
     (case q_head q of
        None \<Rightarrow> (None, q, h)
      | Some io \<Rightarrow>
          let q = q\<lparr>q_head := io_next (h io)\<rparr>;
              (q, h) = (case q_head q of Some n \<Rightarrow> (q, set_prev n None h) | None \<Rightarrow> (q\<lparr>q_tail := None\<rparr>, h))
          in (Some io, q, set_next io None (set_prev io None h)))"

definition nvme_perf_ioq_remove :: "nvme_perf_ioq \<Rightarrow> nat \<Rightarrow> io_store \<Rightarrow> (nvme_perf_ioq \<times> io_store) res" where
  "nvme_perf_ioq_remove q io h =
     rbind (if q_head q = Some io then (case nvme_perf_ioq_get q h of (_, q, h) \<Rightarrow> Inr (q, h))
            else if q_tail q = Some io
            then rbind (deref (io_prev (h io))) (\<lambda>p. Inr (q\<lparr>q_tail := Some p\<rparr>, set_next p None h))
            else rbind (deref (io_next (h io))) (\<lambda>iop.
                 rbind (deref (io_prev (h io))) (\<lambda>p. Inr (q, set_next p (Some iop) (set_prev iop (Some p) h)))))
       (\<lambda>(q, h). Inr (q, set_next io None (set_prev io None h)))"

subsection \<open>Definitions: parameters\<close>

record nvme_perf =
  nt_log_level :: int
  nt_abort :: bool
  nt_path :: string
  nt_cpu :: int
  nt_ns_id :: int
  nt_qd :: int
  nt_rw :: int
  nt_rnd :: bool
  nt_io_size :: u64
  nt_run_secs :: int
  nt_sectsize :: u64
  nt_nr_sectors :: u64
  nt_io_ofst :: u64
  nt_io :: io_store
  nt_free_ioq :: nvme_perf_ioq
  nt_pend_ioq :: nvme_perf_ioq
  nt_io_count :: u64
  nt_io_bytes :: u64

text \<open>\<^verbatim>\<open>atoi\<close> is the conversion of \<^verbatim>\<open>strtol\<close>, which stays in the range of a 64-bit integer, cut to 32 bits.\<close>

definition atoi :: "string \<Rightarrow> int" where
  "atoi s =
     (let (neg, t) = strip_sign (dropWhile isspace s); v = int (fst (digits 10 0 t))
      in sint (of_int (if neg then max (- (2 ^ 63)) (- v) else min (2 ^ 63 - 1) v) :: u32))"

text \<open>Why the program ends: it prints how it is called, or a value or an option is not valid.\<close>

datatype perf_exit = Usage | Invalid | Unknown

type_synonym params = "perf_exit + nvme_perf"

text \<open>
  The loop over the options. The argument is the rest of the command line from position \<^verbatim>\<open>i\<close> on; the loop stops at the last argument, and an
  option whose value would be the last argument is an error.
\<close>

definition opt_value :: "nvme_perf \<Rightarrow> string \<Rightarrow> string \<Rightarrow> params option" where
  "opt_value nt a v =
     (if a = ''-l'' then Some (Inr (nt\<lparr>nt_log_level := atoi v\<rparr>))
      else if a = ''-t'' then Some (if atoi v \<le> 0 then Inl Invalid else Inr (nt\<lparr>nt_run_secs := atoi v\<rparr>))
      else if a = ''-cpu'' then Some (if atoi v < 0 then Inl Invalid else Inr (nt\<lparr>nt_cpu := atoi v\<rparr>))
      else if a = ''-ns'' then Some (if atoi v \<le> 0 then Inl Invalid else Inr (nt\<lparr>nt_ns_id := atoi v\<rparr>))
      else if a = ''-rw'' then Some (if atoi v < 0 \<or> atoi v > 100 then Inl Invalid else Inr (nt\<lparr>nt_rw := atoi v\<rparr>))
      else if a = ''-qd'' then Some (if atoi v \<le> 0 then Inl Invalid else Inr (nt\<lparr>nt_qd := atoi v\<rparr>))
      else None)"

fun perf_options :: "nvme_perf \<Rightarrow> string list \<Rightarrow> perf_exit + (nvme_perf \<times> string list)" where
  "perf_options nt (a # v # r) =
     (if a = ''-h'' \<or> a = ''--help'' then Inl Usage
      else if opt_value nt a v \<noteq> None
      then if r = [] then Inl Usage
           else (case the (opt_value nt a v) of Inl e \<Rightarrow> Inl e | Inr nt \<Rightarrow> perf_options nt r)
      else if a = ''-rnd'' then perf_options (nt\<lparr>nt_rnd := True\<rparr>) (v # r)
      else if take 1 a = ''-'' then Inl Unknown
      else Inr (nt, a # v # r))"
| "perf_options nt r = Inr (nt, r)"

definition perf_defaults :: nvme_perf where
  "perf_defaults = \<lparr>nt_log_level = -1, nt_abort = False, nt_path = [], nt_cpu = 0, nt_ns_id = 1, nt_qd = 1, nt_rw = 100,
     nt_rnd = False, nt_io_size = 0, nt_run_secs = 10, nt_sectsize = 0, nt_nr_sectors = 0, nt_io_ofst = 0,
     nt_io = (\<lambda>_. \<lparr>io_next = None, io_prev = None, io_buf = 0, io_at = 0, io_sz = 0\<rparr>),
     nt_free_ioq = \<lparr>q_head = None, q_tail = None\<rparr>, nt_pend_ioq = \<lparr>q_head = None, q_tail = None\<rparr>, nt_io_count = 0, nt_io_bytes = 0\<rparr>"

text \<open>The I/O size is unsigned: only 0 is refused.\<close>

definition nvme_perf_get_params :: "string list \<Rightarrow> params" where
  "nvme_perf_get_params argv =
     (if length argv < 3 then Inl Usage
      else case perf_options perf_defaults (tl argv) of
             Inl e \<Rightarrow> Inl e
           | Inr (nt, rest) \<Rightarrow>
               (case rest of
                  [path, sz] \<Rightarrow>
                    let nt = nt\<lparr>nt_path := path, nt_io_size := of_int (atoi sz)\<rparr>
                    in if nt_io_size nt = 0 then Inl Invalid else Inr nt
                | _ \<Rightarrow> Inl Usage))"

subsection \<open>Definitions: I/Os\<close>

definition RAND_MAX :: nat where "RAND_MAX = 2147483647"

text \<open>
  \<open>r\<close> is the first number of \<^verbatim>\<open>rand\<close>, and \<open>ofst\<close> the sector that the floating point expression for random offsets gives.
  The result is whether the I/O is a read.
\<close>

definition nvme_perf_set_io :: "nat \<Rightarrow> u64 \<Rightarrow> nat \<Rightarrow> nvme_perf \<Rightarrow> bool \<times> nvme_perf" where
  "nvme_perf_set_io r ofst io nt =
     (let is_read = (if nt_rw nt = 100 then True else if nt_rw nt = 0 then False else int (100 * r div RAND_MAX) \<le> nt_rw nt);
          (ofst, nt) =
            (if nt_rnd nt then (ofst, nt)
             else let next = nt_io_ofst nt + nt_io_size nt
                  in (nt_io_ofst nt div nt_sectsize nt, nt\<lparr>nt_io_ofst := if next \<ge> nt_nr_sectors nt * nt_sectsize nt then 0 else next\<rparr>))
      in (is_read, nt\<lparr>nt_io := (nt_io nt)(io := (nt_io nt io)\<lparr>io_at := ofst\<rparr>)\<rparr>))"

text \<open>The callback of an I/O.\<close>

definition move_io :: "nat \<Rightarrow> nvme_perf \<Rightarrow> nvme_perf res" where
  "move_io io nt =
     rbind (nvme_perf_ioq_remove (nt_pend_ioq nt) io (nt_io nt)) (\<lambda>(pend, h).
     rbind (nvme_perf_ioq_add (nt_free_ioq nt) io h) (\<lambda>(free, h). Inr (nt\<lparr>nt_pend_ioq := pend, nt_free_ioq := free, nt_io := h\<rparr>)))"

definition nvme_perf_io_end :: "nat \<Rightarrow> nvme_perf \<Rightarrow> nvme_perf res" where
  "nvme_perf_io_end io nt =
     rbind (move_io io nt) (\<lambda>nt. Inr (nt\<lparr>nt_io_count := nt_io_count nt + 1, nt_io_bytes := nt_io_bytes nt + nt_io_size nt\<rparr>))"

text \<open>
  The loop that submits every free I/O; \<open>submit\<close> is what the read or write of a descriptor returns. An I/O that is taken from the queue when
  the test is being aborted is in neither queue afterwards. \<open>n\<close> bounds the rounds.
\<close>

fun nvme_perf_submit_io :: "nat \<Rightarrow> (nat \<Rightarrow> nat) \<Rightarrow> (nat \<Rightarrow> u64) \<Rightarrow> (bool \<Rightarrow> nvme_perf_io \<Rightarrow> int) \<Rightarrow> nvme_perf \<Rightarrow> (int \<times> nvme_perf) res" where
  "nvme_perf_submit_io 0 rnd ofst submit nt = Inl OutOfFuel"
| "nvme_perf_submit_io (Suc n) rnd ofst submit nt =
     (case nvme_perf_ioq_get (nt_free_ioq nt) (nt_io nt) of (io, free, h) \<Rightarrow>
        let nt = nt\<lparr>nt_free_ioq := free, nt_io := h\<rparr>
        in case io of
             None \<Rightarrow> Inr (0, nt)
           | Some io \<Rightarrow>
               if nt_abort nt then Inr (0, nt)
               else rbind (nvme_perf_ioq_add (nt_pend_ioq nt) io (nt_io nt)) (\<lambda>(pend, h).
                 let (is_read, nt) = nvme_perf_set_io (rnd n) (ofst n) io (nt\<lparr>nt_pend_ioq := pend, nt_io := h\<rparr>)
                 in if submit is_read (nt_io nt io) \<noteq> 0
                    then rbind (move_io io nt) (\<lambda>nt. Inr (-1, nt\<lparr>nt_abort := True\<rparr>))
                    else nvme_perf_submit_io n rnd ofst submit nt))"

subsection \<open>Definitions: sizes\<close>

definition nvme_info_strsize :: "u64 \<Rightarrow> u64 \<times> string" where
  "nvme_info_strsize val =
     (if val < 1024 then (val, '''')
      else if val div 1024 < 1024 then (val div 1024, ''Ki'')
      else if val div 1024 div 1024 < 1024 then (val div 1024 div 1024, ''Mi'')
      else (val div 1024 div 1024 div 1024, ''Gi''))"

subsection \<open>What the test relies on\<close>

text \<open>
  The contract of the queues: each operation works on the list of descriptors that a queue represents, and it changes nothing that belongs to a queue
  without these descriptors.
\<close>

locale io_queue =
  fixes rep :: "'q \<Rightarrow> nat list \<Rightarrow> 'h \<Rightarrow> bool"
    and add :: "'q \<Rightarrow> nat \<Rightarrow> 'h \<Rightarrow> ('q \<times> 'h) res"
    and get :: "'q \<Rightarrow> 'h \<Rightarrow> nat option \<times> 'q \<times> 'h"
    and rem :: "'q \<Rightarrow> nat \<Rightarrow> 'h \<Rightarrow> ('q \<times> 'h) res"
    and frame :: "nat set \<Rightarrow> 'h \<Rightarrow> 'h \<Rightarrow> bool"
  assumes rep_distinct: "rep q xs h \<Longrightarrow> distinct xs"
    and add_rep: "rep q xs h \<Longrightarrow> io \<notin> set xs \<Longrightarrow> \<exists>q' h'. add q io h = Inr (q', h') \<and> rep q' (xs @ [io]) h' \<and> frame (insert io (set xs)) h h'"
    and get_rep: "rep q xs h \<Longrightarrow> case get q h of (io, q', h') \<Rightarrow>
        io = (case xs of [] \<Rightarrow> None | x # _ \<Rightarrow> Some x) \<and> rep q' (tl xs) h' \<and> frame (set xs) h h'"
    and rem_rep: "rep q xs h \<Longrightarrow> io \<in> set xs \<Longrightarrow> \<exists>q' h'. rem q io h = Inr (q', h') \<and> rep q' (remove1 io xs) h' \<and> frame (set xs) h h'"
    and rep_frame: "frame X h h' \<Longrightarrow> X \<inter> set ys = {} \<Longrightarrow> rep q ys h \<Longrightarrow> rep q ys h'"
begin

text \<open>Moving a descriptor from one queue to the end of another.\<close>

lemma remove_add:
  assumes "rep p ys h" and "rep f xs h" and "set xs \<inter> set ys = {}" and "io \<in> set ys"
  shows "\<exists>p' h1 f' h2. rem p io h = Inr (p', h1) \<and> add f io h1 = Inr (f', h2) \<and> rep p' (remove1 io ys) h2 \<and> rep f' (xs @ [io]) h2"
proof -
  obtain p' h1 where r: "rem p io h = Inr (p', h1)" "rep p' (remove1 io ys) h1" "frame (set ys) h h1"
    using rem_rep [OF assms(1,4)] by blast
  have "rep f xs h1" using rep_frame [OF r(3) _ assms(2)] assms(3) by blast
  moreover have "io \<notin> set xs" using assms(3,4) by blast
  ultimately obtain f' h2 where a: "add f io h1 = Inr (f', h2)" "rep f' (xs @ [io]) h2" "frame (insert io (set xs)) h1 h2"
    using add_rep by blast
  have "io \<notin> set (remove1 io ys)" using rep_distinct [OF assms(1)] by simp
  then have "insert io (set xs) \<inter> set (remove1 io ys) = {}" using assms(3) set_remove1_subset [of io ys] by blast
  then show ?thesis using r(1) a(1,2) rep_frame [OF a(3) _ r(2)] by blast
qed

lemma get_add:
  assumes "rep f (io # xs) h" and "rep p ys h" and "set (io # xs) \<inter> set ys = {}"
  shows "\<exists>f' h1 p' h2. get f h = (Some io, f', h1) \<and> add p io h1 = Inr (p', h2) \<and> rep f' xs h2 \<and> rep p' (ys @ [io]) h2"
proof -
  obtain f' h1 where g: "get f h = (Some io, f', h1)" "rep f' xs h1" "frame (set (io # xs)) h h1"
    using get_rep [OF assms(1)] by (auto split: prod.splits)
  have "rep p ys h1" using rep_frame [OF g(3) assms(3,2)] .
  then obtain p' h2 where a: "add p io h1 = Inr (p', h2)" "rep p' (ys @ [io]) h2" "frame (insert io (set ys)) h1 h2"
    using add_rep assms(3) by fastforce
  have "insert io (set ys) \<inter> set xs = {}" using assms(3) rep_distinct [OF assms(1)] by auto
  then show ?thesis using g(1) a(1,2) rep_frame [OF a(3) _ g(2)] by blast
qed

end

subsection \<open>The queues are lists\<close>

text \<open>A segment of linked descriptors, with what precedes and follows it; and the queue that holds a list of descriptors.\<close>

fun seg :: "io_store \<Rightarrow> nat option \<Rightarrow> nat list \<Rightarrow> nat option \<Rightarrow> bool" where
  "seg h p [] n = True"
| "seg h p (x # xs) n \<longleftrightarrow> io_prev (h x) = p \<and> io_next (h x) = (case xs of [] \<Rightarrow> n | y # _ \<Rightarrow> Some y) \<and> seg h (Some x) xs n"

definition queue :: "nvme_perf_ioq \<Rightarrow> nat list \<Rightarrow> io_store \<Rightarrow> bool" where
  "queue q xs h \<longleftrightarrow> distinct xs \<and> seg h None xs None \<and> q_head q = (if xs = [] then None else Some (hd xs))
     \<and> q_tail q = (if xs = [] then None else Some (last xs))"

lemma first_append [simp]: "(case xs @ y # ys of [] \<Rightarrow> n | z # _ \<Rightarrow> Some z) = (case xs of [] \<Rightarrow> Some y | z # _ \<Rightarrow> Some z)"
  by (cases xs) simp_all

lemma seg_append:
  "seg h p (xs @ ys) n \<longleftrightarrow> seg h p xs (case ys of [] \<Rightarrow> n | y # _ \<Rightarrow> Some y) \<and> seg h (if xs = [] then p else Some (last xs)) ys n"
proof (induction xs arbitrary: p)
  case (Cons x xs)
  then show ?case by (cases xs) (auto split: list.splits)
qed simp

text \<open>A segment depends on the links of its own descriptors only.\<close>

lemma seg_cong: "(\<And>x. x \<in> set xs \<Longrightarrow> io_prev (h x) = io_prev (h' x) \<and> io_next (h x) = io_next (h' x)) \<Longrightarrow> seg h p xs n = seg h' p xs n"
  by (induction xs arbitrary: p) auto

lemma seg_upd [simp]:
  "x \<notin> set xs \<Longrightarrow> seg (set_next x v h) p xs n = seg h p xs n" "x \<notin> set xs \<Longrightarrow> seg (set_prev x v h) p xs n = seg h p xs n"
  by (rule seg_cong; auto simp: set_next_def set_prev_def)+

lemma link_upd [simp]:
  "io_next (set_next x v h y) = (if x = y then v else io_next (h y))" "io_prev (set_next x v h y) = io_prev (h y)"
  "io_prev (set_prev x v h y) = (if x = y then v else io_prev (h y))" "io_next (set_prev x v h y) = io_next (h y)"
  by (auto simp: set_next_def set_prev_def)

text \<open>What an operation on a queue may change: the links of the descriptors of the queue and of the one it is about.\<close>

definition only_links :: "nat set \<Rightarrow> io_store \<Rightarrow> io_store \<Rightarrow> bool" where
  "only_links X h h' \<longleftrightarrow> (\<forall>x. io_buf (h' x) = io_buf (h x) \<and> io_at (h' x) = io_at (h x) \<and> io_sz (h' x) = io_sz (h x))
     \<and> (\<forall>x. x \<notin> X \<longrightarrow> h' x = h x)"

lemma only_links_refl [simp]: "only_links X h h"
  by (simp add: only_links_def)

lemma only_links_upd [simp]:
  "x \<in> X \<Longrightarrow> only_links X h (set_next x v h') = only_links X h h'" "x \<in> X \<Longrightarrow> only_links X h (set_prev x v h') = only_links X h h'"
  by (auto simp: only_links_def set_next_def set_prev_def)

lemma queue_other: "only_links X h h' \<Longrightarrow> X \<inter> set ys = {} \<Longrightarrow> queue q ys h \<Longrightarrow> queue q ys h'"
proof -
  assume "only_links X h h'" "X \<inter> set ys = {}" "queue q ys h"
  moreover from this have "io_prev (h x) = io_prev (h' x) \<and> io_next (h x) = io_next (h' x)" if "x \<in> set ys" for x
    using that by (auto simp: only_links_def)
  then have "seg h None ys None = seg h' None ys None" by (rule seg_cong)
  ultimately show ?thesis by (simp add: queue_def)
qed

lemma ioq_add_list:
  assumes "queue q xs h" and "io \<notin> set xs"
  shows "\<exists>q' h'. nvme_perf_ioq_add q io h = Inr (q', h') \<and> queue q' (xs @ [io]) h' \<and> only_links (insert io (set xs)) h h'"
proof (cases xs rule: rev_cases)
  case Nil
  then show ?thesis using assms by (simp add: nvme_perf_ioq_add_def queue_def)
next
  case (snoc ys y)
  then show ?thesis using assms
    by (auto simp: nvme_perf_ioq_add_def queue_def deref_def seg_append hd_append Let_def)
qed

lemma ioq_get_list:
  assumes "queue q xs h"
  shows "case nvme_perf_ioq_get q h of (io, q', h') \<Rightarrow>
    io = (case xs of [] \<Rightarrow> None | x # _ \<Rightarrow> Some x) \<and> queue q' (tl xs) h' \<and> only_links (set xs) h h'"
proof (cases xs)
  case Nil
  then show ?thesis using assms by (simp add: nvme_perf_ioq_get_def queue_def)
next
  case (Cons x ys)
  then show ?thesis using assms by (cases ys) (auto simp: nvme_perf_ioq_get_def queue_def Let_def)
qed

lemma ioq_remove_list:
  assumes "queue q xs h" and "io \<in> set xs"
  shows "\<exists>q' h'. nvme_perf_ioq_remove q io h = Inr (q', h') \<and> queue q' (remove1 io xs) h' \<and> only_links (set xs) h h'"
proof -
  obtain as bs where xs: "xs = as @ io # bs" "io \<notin> set as" using split_list_first [OF assms(2)] by blast
  consider "as = []" | a as' where "as = as' @ [a]" "bs = []" | a as' b bs' where "as = as' @ [a]" "bs = b # bs'"
    by (metis neq_Nil_conv rev_exhaust)
  then show ?thesis
  proof cases
    case 1
    then have "q_head q = Some io" "remove1 io xs = tl xs" using assms(1) xs by (simp_all add: queue_def)
    moreover obtain r q' h' where "nvme_perf_ioq_get q h = (r, q', h')" by (metis prod_cases3)
    moreover have "io \<notin> set (tl xs)" using assms(1) xs 1 by (simp add: queue_def)
    ultimately show ?thesis using ioq_get_list [OF assms(1)] assms(2) by (auto simp: nvme_perf_ioq_remove_def queue_def)
  next
    case 2
    then show ?thesis using assms xs
      by (cases as') (auto simp: nvme_perf_ioq_remove_def queue_def deref_def seg_append remove1_append)
  next
    case 3
    then show ?thesis using assms xs
      by (cases as') (auto simp: nvme_perf_ioq_remove_def queue_def deref_def seg_append remove1_append)
  qed
qed

interpretation ioq: io_queue queue nvme_perf_ioq_add nvme_perf_ioq_get nvme_perf_ioq_remove only_links
proof
  show "distinct xs" if "queue q xs h" for q xs h using that by (simp add: queue_def)
qed (rule ioq_add_list ioq_get_list ioq_remove_list queue_other; assumption)+

subsection \<open>No I/O is lost\<close>

text \<open>The free and the pending queue hold disjoint lists of descriptors.\<close>

definition perf_queues :: "nvme_perf \<Rightarrow> nat list \<Rightarrow> nat list \<Rightarrow> bool" where
  "perf_queues nt free pend \<longleftrightarrow> queue (nt_free_ioq nt) free (nt_io nt) \<and> queue (nt_pend_ioq nt) pend (nt_io nt) \<and> set free \<inter> set pend = {}"

lemma move_io_ok:
  assumes "perf_queues nt xs ys" and "io \<in> set ys"
  shows "\<exists>p f h. move_io io nt = Inr (nt\<lparr>nt_pend_ioq := p, nt_free_ioq := f, nt_io := h\<rparr>)
    \<and> perf_queues (nt\<lparr>nt_pend_ioq := p, nt_free_ioq := f, nt_io := h\<rparr>) (xs @ [io]) (remove1 io ys)"
proof -
  have d: "distinct ys" using assms(1) by (simp add: perf_queues_def queue_def)
  obtain p' h1 f' h2 where "nvme_perf_ioq_remove (nt_pend_ioq nt) io (nt_io nt) = Inr (p', h1)" "nvme_perf_ioq_add (nt_free_ioq nt) io h1 = Inr (f', h2)"
    "queue p' (remove1 io ys) h2" "queue f' (xs @ [io]) h2"
    using ioq.remove_add [of "nt_pend_ioq nt" ys "nt_io nt" "nt_free_ioq nt" xs io] assms by (auto simp: perf_queues_def)
  then show ?thesis using assms d by (auto simp: move_io_def perf_queues_def)
qed

lemma io_end_ok:
  assumes "perf_queues nt xs ys" and "io \<in> set ys"
  shows "\<exists>nt'. nvme_perf_io_end io nt = Inr nt' \<and> perf_queues nt' (xs @ [io]) (remove1 io ys)
    \<and> nt_io_count nt' = nt_io_count nt + 1 \<and> nt_io_bytes nt' = nt_io_bytes nt + nt_io_size nt"
  using move_io_ok [OF assms] by (auto simp: nvme_perf_io_end_def perf_queues_def)

lemma queue_at [simp]: "queue q xs (h(io := (h io)\<lparr>io_at := v\<rparr>)) = queue q xs h"
proof -
  have "seg (h(io := (h io)\<lparr>io_at := v\<rparr>)) None xs None = seg h None xs None" by (rule seg_cong) simp
  then show ?thesis by (simp add: queue_def)
qed

lemma set_io_queues:
  assumes "nvme_perf_set_io r ofst io nt = (is_read, nt')"
  shows "perf_queues nt' xs ys = perf_queues nt xs ys" "nt_abort nt' = nt_abort nt"
  using assms by (auto simp: nvme_perf_set_io_def perf_queues_def Let_def split: if_splits)

text \<open>One round of the loop: the first free I/O becomes the last pending one.\<close>

lemma submit_round:
  assumes "perf_queues nt (io # xs) ys" and "\<not> nt_abort nt"
  shows "\<exists>is_read nt'. perf_queues nt' xs (ys @ [io]) \<and> \<not> nt_abort nt'
    \<and> nvme_perf_submit_io (Suc n) rnd ofst submit nt
        = (if submit is_read (nt_io nt' io) \<noteq> 0 then rbind (move_io io nt') (\<lambda>nt. Inr (-1, nt\<lparr>nt_abort := True\<rparr>))
           else nvme_perf_submit_io n rnd ofst submit nt')"
proof -
  obtain f' h1 p' h2 where g: "nvme_perf_ioq_get (nt_free_ioq nt) (nt_io nt) = (Some io, f', h1)" "nvme_perf_ioq_add (nt_pend_ioq nt) io h1 = Inr (p', h2)"
    "queue f' xs h2" "queue p' (ys @ [io]) h2"
    using ioq.get_add [of "nt_free_ioq nt" io xs "nt_io nt" "nt_pend_ioq nt" ys] assms(1) by (auto simp: perf_queues_def)
  let ?nt = "nt\<lparr>nt_free_ioq := f', nt_pend_ioq := p', nt_io := h2\<rparr>"
  obtain is_read nt' where s: "nvme_perf_set_io (rnd n) (ofst n) io ?nt = (is_read, nt')" by fastforce
  have "distinct (io # xs)" using assms(1) by (simp add: perf_queues_def queue_def)
  then have "perf_queues ?nt xs (ys @ [io])" using g(3,4) assms(1) by (auto simp: perf_queues_def)
  then show ?thesis using g(1,2) s assms(2) set_io_queues [OF s] by (intro exI [of _ is_read] exI [of _ nt']) simp
qed

lemma submit_loop:
  assumes "perf_queues nt xs ys" and "\<not> nt_abort nt" and "length xs < n"
  shows "\<exists>ret nt'. nvme_perf_submit_io n rnd ofst submit nt = Inr (ret, nt')
    \<and> (ret = 0 \<and> perf_queues nt' [] (ys @ xs) \<and> \<not> nt_abort nt'
       \<or> ret = -1 \<and> (\<exists>k<length xs. perf_queues nt' (drop (Suc k) xs @ [xs ! k]) (ys @ take k xs)) \<and> nt_abort nt' \<and> (\<exists>r d. submit r d \<noteq> 0))"
  using assms
proof (induction xs arbitrary: nt ys n)
  case Nil
  then obtain m where n: "n = Suc m" by (cases n) auto
  have "nvme_perf_ioq_get (nt_free_ioq nt) (nt_io nt) = (None, nt_free_ioq nt, nt_io nt)"
    using Nil(1) by (simp add: perf_queues_def queue_def nvme_perf_ioq_get_def)
  then show ?case using Nil n by (simp add: perf_queues_def)
next
  case (Cons io xs)
  then obtain m where n: "n = Suc m" "length xs < m" by (cases n) auto
  obtain is_read nt' where r: "perf_queues nt' xs (ys @ [io])" "\<not> nt_abort nt'"
    "nvme_perf_submit_io n rnd ofst submit nt
       = (if submit is_read (nt_io nt' io) \<noteq> 0 then rbind (move_io io nt') (\<lambda>nt. Inr (-1, nt\<lparr>nt_abort := True\<rparr>))
          else nvme_perf_submit_io m rnd ofst submit nt')"
    using submit_round [OF Cons(2,3), of m rnd ofst submit] n(1) by blast
  show ?case
  proof (cases "submit is_read (nt_io nt' io) = 0")
    case True
    from Cons.IH [OF r(1,2) n(2)] obtain ret nt2 where i: "nvme_perf_submit_io m rnd ofst submit nt' = Inr (ret, nt2)"
      "ret = 0 \<and> perf_queues nt2 [] ((ys @ [io]) @ xs) \<and> \<not> nt_abort nt2
       \<or> ret = -1 \<and> (\<exists>k<length xs. perf_queues nt2 (drop (Suc k) xs @ [xs ! k]) ((ys @ [io]) @ take k xs)) \<and> nt_abort nt2 \<and> (\<exists>r d. submit r d \<noteq> 0)" by blast
    moreover have "\<exists>k<length (io # xs). perf_queues nt2 (drop (Suc k) (io # xs) @ [(io # xs) ! k]) (ys @ take k (io # xs))"
      if "\<exists>k<length xs. perf_queues nt2 (drop (Suc k) xs @ [xs ! k]) ((ys @ [io]) @ take k xs)"
    proof -
      from that obtain k where "k < length xs" "perf_queues nt2 (drop (Suc k) xs @ [xs ! k]) ((ys @ [io]) @ take k xs)" by blast
      then show ?thesis by (intro exI [of _ "Suc k"]) simp
    qed
    ultimately show ?thesis using True r(3) by auto
  next
    case False
    have "io \<notin> set ys" using Cons(2) by (auto simp: perf_queues_def)
    then have "remove1 io (ys @ [io]) = ys" by (simp add: remove1_append)
    moreover obtain p f h where "move_io io nt' = Inr (nt'\<lparr>nt_pend_ioq := p, nt_free_ioq := f, nt_io := h\<rparr>)"
      "perf_queues (nt'\<lparr>nt_pend_ioq := p, nt_free_ioq := f, nt_io := h\<rparr>) (xs @ [io]) (remove1 io (ys @ [io]))"
      using move_io_ok [OF r(1), of io] by auto
    ultimately show ?thesis using False r(3) by (auto simp: perf_queues_def intro!: exI [of _ 0])
  qed
qed


definition ex_io :: "nat option \<Rightarrow> nat option \<Rightarrow> nvme_perf_io" where
  "ex_io p n = \<lparr>io_next = n, io_prev = p, io_buf = 0, io_at = 0, io_sz = 8\<rparr>"

definition ex_perf :: nvme_perf where
  "ex_perf = perf_defaults\<lparr>nt_io_size := 4096, nt_sectsize := 512, nt_nr_sectors := 1024,
     nt_io := (\<lambda>_. ex_io None None)(0 := ex_io None (Some 1), 1 := ex_io (Some 0) None),
     nt_free_ioq := \<lparr>q_head = Some 0, q_tail = Some 1\<rparr>, nt_pend_ioq := \<lparr>q_head = Some 2, q_tail = Some 2\<rparr>\<rparr>"


subsection \<open>Offsets of sequential I/Os\<close>

text \<open>When the I/O size divides the size of the namespace, sequential I/Os go through it from start to end and start again: none is past its end.\<close>

definition seq_ok :: "nvme_perf \<Rightarrow> nat \<Rightarrow> nat \<Rightarrow> bool" where
  "seq_ok nt m k \<longleftrightarrow> \<not> nt_rnd nt \<and> 0 < unat (nt_sectsize nt) \<and> unat (nt_sectsize nt) dvd unat (nt_io_size nt) \<and> 0 < m
     \<and> unat (nt_nr_sectors nt) * unat (nt_sectsize nt) = m * unat (nt_io_size nt)
     \<and> m * unat (nt_io_size nt) + unat (nt_io_size nt) < 2 ^ 64 \<and> unat (nt_io_ofst nt) = (k mod m) * unat (nt_io_size nt)"

lemma mod_Suc_wrap: "0 < m \<Longrightarrow> Suc k mod m = (if Suc (k mod m) = m then 0 else Suc (k mod m))" for k m :: nat
  by (simp add: mod_Suc)

lemma seq_offsets:
  assumes ok: "seq_ok nt m k" and s: "nvme_perf_set_io r ofst io nt = (is_read, nt')" and z: "0 < unat (nt_io_size nt)"
  shows "seq_ok nt' m (Suc k)"
    "unat (io_at (nt_io nt' io)) * unat (nt_sectsize nt) = (k mod m) * unat (nt_io_size nt)"
    "unat (io_at (nt_io nt' io)) + unat (nt_io_size nt div nt_sectsize nt) \<le> unat (nt_nr_sectors nt)"
proof -
  let ?z = "unat (nt_io_size nt)" and ?s = "unat (nt_sectsize nt)" and ?n = "unat (nt_nr_sectors nt)" and ?o = "unat (nt_io_ofst nt)"
  have o: "?o = (k mod m) * ?z" "?n * ?s = m * ?z" "0 < ?s" "?s dvd ?z" "0 < m" "m * ?z + ?z < 2 ^ 64" "\<not> nt_rnd nt"
    using ok by (auto simp: seq_ok_def)
  have k: "k mod m < m" using o(5) by simp
  then have le: "(k mod m) * ?z + ?z \<le> m * ?z" using mult_le_mono1 [of "Suc (k mod m)" m ?z] by simp
  have nx: "unat (nt_io_ofst nt + nt_io_size nt) = Suc (k mod m) * ?z" using o(1,6) le by (simp add: unat_word_ariths)
  have cap: "unat (nt_nr_sectors nt * nt_sectsize nt) = m * ?z" using o(2,6) by (simp add: unat_word_ariths)
  have "nt_io_ofst nt + nt_io_size nt \<ge> nt_nr_sectors nt * nt_sectsize nt \<longleftrightarrow> Suc (k mod m) = m"
    unfolding word_le_nat_alt nx cap using z k mult_le_cancel2 [of m ?z "Suc (k mod m)"] by linarith
  then have n': "unat (nt_io_ofst nt') = (Suc k mod m) * ?z" and at: "io_at (nt_io nt' io) = nt_io_ofst nt div nt_sectsize nt"
    and same: "nt_rnd nt' = nt_rnd nt" "nt_sectsize nt' = nt_sectsize nt" "nt_io_size nt' = nt_io_size nt" "nt_nr_sectors nt' = nt_nr_sectors nt"
    using s o(5,7) nx mod_Suc_wrap [of m k] by (auto simp: nvme_perf_set_io_def Let_def)
  show "seq_ok nt' m (Suc k)" using ok n' by (simp add: seq_ok_def same)
  have "?s dvd ?o" using o(1,4) by simp
  then show at': "unat (io_at (nt_io nt' io)) * ?s = (k mod m) * ?z" using o(1) by (simp add: at unat_div)
  have "unat (io_at (nt_io nt' io)) * ?s + ?z div ?s * ?s \<le> ?n * ?s" using at' o(2,4) le by simp
  then have "(unat (io_at (nt_io nt' io)) + ?z div ?s) * ?s \<le> ?n * ?s" by (simp add: algebra_simps)
  then show "unat (io_at (nt_io nt' io)) + unat (nt_io_size nt div nt_sectsize nt) \<le> ?n" using o(3) by (simp add: unat_div)
qed

text \<open>Otherwise the last I/O of a round ends past the end of the namespace: 10 sectors, I/Os of 4.\<close>

lemma seq_past_end:
  "\<exists>nt. \<not> nt_rnd nt \<and> nt_nr_sectors nt = 10 \<and> nt_sectsize nt = 512 \<and> nt_io_size nt = 2048 \<and> nt_io_ofst nt = 0
     \<and> (let nt = snd (nvme_perf_set_io 0 0 0 (snd (nvme_perf_set_io 0 0 0 (snd (nvme_perf_set_io 0 0 0 nt)))))
        in unat (io_at (nt_io nt 0)) + unat (nt_io_size nt div nt_sectsize nt) > unat (nt_nr_sectors nt))"
  by (rule exI [of _ "perf_defaults\<lparr>nt_nr_sectors := 10, nt_sectsize := 512, nt_io_size := 2048\<rparr>"])
    (simp add: nvme_perf_set_io_def perf_defaults_def)

subsection \<open>Command line and sizes\<close>

text \<open>Parameters that are accepted are in their ranges.\<close>

definition params_ok :: "nvme_perf \<Rightarrow> bool" where
  "params_ok nt \<longleftrightarrow> 0 < nt_run_secs nt \<and> 0 \<le> nt_cpu nt \<and> 0 < nt_ns_id nt \<and> 0 \<le> nt_rw nt \<and> nt_rw nt \<le> 100 \<and> 0 < nt_qd nt"

lemma opt_value_ok: "opt_value nt a v = Some (Inr nt') \<Longrightarrow> params_ok nt \<Longrightarrow> params_ok nt'"
  by (auto simp: opt_value_def params_ok_def split: if_splits)

lemma perf_options_ok: "perf_options nt args = Inr (nt', rest) \<Longrightarrow> params_ok nt \<Longrightarrow> params_ok nt'"
proof (induction nt args rule: perf_options.induct)
  case (1 nt a v r)
  then show ?case by (auto split: if_splits sum.splits dest: opt_value_ok) (auto simp: params_ok_def)
qed auto

lemma get_params_ok: "nvme_perf_get_params argv = Inr nt \<Longrightarrow> params_ok nt \<and> nt_io_size nt \<noteq> 0"
proof -
  assume "nvme_perf_get_params argv = Inr nt"
  then obtain nt0 path sz where o: "perf_options perf_defaults (tl argv) = Inr (nt0, [path, sz])"
    and n: "nt = nt0\<lparr>nt_path := path, nt_io_size := of_int (atoi sz)\<rparr>" "nt_io_size nt \<noteq> 0"
    by (auto simp: nvme_perf_get_params_def Let_def split: if_splits sum.splits list.splits)
  have "params_ok perf_defaults" by (simp add: params_ok_def perf_defaults_def)
  then have "params_ok nt0" using perf_options_ok [OF o] by blast
  then show ?thesis using n by (simp add: params_ok_def)
qed

text \<open>A negative I/O size is accepted.\<close>

lemma negative_io_size: "\<exists>nt. nvme_perf_get_params [''nvme_perf'', ''pci://0000:01:00.0'', ''-4096''] = Inr nt \<and> nt_io_size nt = - 4096"
  by (simp add: nvme_perf_get_params_def opt_value_def atoi_def strip_sign_def isspace_def digit_val_def Let_def)

text \<open>A printed size is the size in its unit, rounded down, and below 1024 for every unit but the last.\<close>

lemma strsize_ok:
  "case nvme_info_strsize val of (v, unit) \<Rightarrow>
     \<exists>e. unat v = unat val div 1024 ^ e \<and> unit = [[], ''Ki'', ''Mi'', ''Gi''] ! e \<and> e \<le> 3 \<and> (e < 3 \<longrightarrow> v < 1024)"
proof -
  have d: "unat (val div 1024) = unat val div 1024" "unat (val div 1024 div 1024) = unat val div 1024 ^ 2"
    "unat (val div 1024 div 1024 div 1024) = unat val div 1024 ^ 3"
    by (simp_all add: unat_div div_mult2_eq [symmetric])
  consider "val < 1024" | "\<not> val < 1024" "val div 1024 < 1024" | "\<not> val < 1024" "\<not> val div 1024 < 1024" "val div 1024 div 1024 < 1024"
    | "\<not> val < 1024" "\<not> val div 1024 < 1024" "\<not> val div 1024 div 1024 < 1024" by blast
  then show ?thesis
  proof cases
    case 1 then show ?thesis by (simp add: nvme_info_strsize_def exI [of _ 0])
  next
    case 2 then show ?thesis using d(1) by (auto simp: nvme_info_strsize_def intro!: exI [of _ 1])
  next
    case 3 then show ?thesis using d(2) by (auto simp: nvme_info_strsize_def intro!: exI [of _ 2])
  next
    case 4 then show ?thesis using d(3) by (auto simp: nvme_info_strsize_def intro!: exI [of _ 3])
  qed
qed

end
