(* ===== verification/Spec2Isabelle.thy ===== *)
theory Spec2Isabelle
  imports Nvme_Open Nvme_Names Nvme_Cmb Nvme_Locks Nvme_Sys Nvme_Perf
begin

text \<open>
  A verification development for libnvme, a library that drives NVMe controllers from user space (\<^verbatim>\<open>src/lib\<close>, with its interface in
  \<^verbatim>\<open>src/include/libnvme\<close> and two client programs in \<^verbatim>\<open>src/tools\<close>).

  \<^bold>\<open>The program.\<close> A user starts the library (\<^verbatim>\<open>nvme_lib_init\<close>), which reads the CPUs and the hugepage set-up of the machine, and opens
  controllers by the name of their PCI slot. Opening attaches a controller: its registers are mapped, the admin queue pair is constructed, the controller is
  reset and enabled by a state machine that polls its registers, it is identified with its namespaces, and I/O queue pairs are prepared. The user takes
  an I/O queue pair, submits reads and writes on a namespace, and polls the queue pair for completions, which call back. A request that is too
  large or crosses a stripe is split into child requests; requests wait in a queue when no tracker is free; retryable errors are submitted again; a reset
  aborts what is outstanding. Queues, PRP lists and user buffers come from a memory manager on hugepages.

  \<^bold>\<open>The theories.\<close>
  \<^item> \<open>Nvme_Prelude\<close>: machine integers, error numbers, the result type \<open>'a res\<close> (a fault, or a value) with its bind, shared lemmas.
  \<^item> \<open>Nvme_Util\<close>, \<open>Nvme_Text\<close>, \<open>Nvme_Sys\<close> (\<^verbatim>\<open>lib/common/nvme_common.h\<close>, \<^verbatim>\<open>nvme_common.c\<close>, \<^verbatim>\<open>nvme_arch.h\<close>): powers of two, alignment and bitmaps; trimming,
    splitting and sizes in text; clock, delays, file sizes and register accesses. The search of a bitmap by words is the search by bits.
  \<^item> \<open>Nvme_Mem\<close>, \<open>Nvme_Alloc\<close>, \<open>Nvme_Setup\<close> (\<^verbatim>\<open>lib/common/nvme_mem.c\<close>): the record \<open>nvme_mem\<close> is the static \<^verbatim>\<open>mm\<close>; descriptors shared by pointer are in stores keyed
    by address. \<open>Nvme_Mem\<close> has the operations and the invariant \<open>mem_inv\<close>; \<open>Nvme_Alloc\<close> states the contract as the locale \<open>allocator\<close> and
    interprets it: new blocks are large enough, aligned, translated and disjoint from all others, and freeing is exact. \<open>Nvme_Setup\<close> has the
    set-up from \<^verbatim>\<open>/proc\<close> and the cleanup at exit, which leaves no hugepage.
  \<^item> \<open>Nvme_Locks\<close> (\<^verbatim>\<open>lib/common/nvme_atomic.h\<close>, \<^verbatim>\<open>nvme_spinlock.h\<close>): counters with wrap-around; spinlocks with an arbitrary interleaving of
    the single accesses of the threads: mutual exclusion, no lost update, progress.
  \<^item> \<open>Nvme_Types\<close>, \<open>Nvme_Request\<close> (\<^verbatim>\<open>nvme_internal.h\<close>, \<^verbatim>\<open>nvme_spec.h\<close>, \<^verbatim>\<open>nvme_request.c\<close>): commands, completions, requests, trackers, queue pairs, and the
    request pool. Requests and trackers are indices of arrays; intrusive lists are lists of indices.
  \<^item> \<open>Nvme_Prp\<close> (\<^verbatim>\<open>nvme_qpair.c\<close>): the three builders of data pointers, against the list of pages or elements they must describe.
  \<^item> \<open>Nvme_Qpair\<close>, \<open>Nvme_Qinv\<close>, \<open>Nvme_Qprops\<close> (\<^verbatim>\<open>nvme_qpair.c\<close>): submission, completion, polling, enabling, failing, construction. They call
    each other and are one function \<open>exec\<close> over a datatype of calls. The invariant \<open>qp_inv\<close> relates rings, trackers, the request pool and the tree of
    split requests, and accounts for every user callback as called or pending; all operations keep it and return within stated fuel without
    a failed assertion or invalid access.
  \<^item> \<open>Nvme_Names\<close> (\<^verbatim>\<open>nvme_qpair.c\<close>): tables of opcode and status names and the messages built from them.
  \<^item> \<open>Nvme_Ns\<close> (\<^verbatim>\<open>nvme_ns.c\<close>): the I/O commands. The pieces of a split read or write cover the blocks asked for exactly, and submitting them keeps \<open>qp_inv\<close>.
  \<^item> \<open>Nvme_Admin\<close> (\<^verbatim>\<open>nvme_admin.c\<close>): every admin command, with the device as a parameter, returns by the status of its completion.
  \<^item> \<open>Nvme_Regs\<close>, \<open>Nvme_Quirks\<close>, \<open>Nvme_Ctrlr\<close>, \<open>Nvme_Init\<close>, \<open>Nvme_Ioqp\<close>, \<open>Nvme_Cmb\<close> (\<^verbatim>\<open>nvme_ctrlr.c\<close>, \<^verbatim>\<open>nvme_quirks.c\<close>, \<^verbatim>\<open>nvme_spec.h\<close>): register fields as layouts with the locale
    \<open>register_layout\<close>, interpreted for each register; all operations of a controller; the initialisation as a refinement of the
    handshake between CC.EN and CSTS.RDY, with its invariant and that it ends; the lists of I/O queue pairs; queues in the controller memory buffer. The locale
    \<open>ctrlr_frame\<close> carries what all admin commands leave alone.
  \<^item> \<open>Nvme_Pci\<close>, \<open>Nvme_Cpu\<close>, \<open>Nvme_Log\<close> (\<^verbatim>\<open>lib/common\<close>) and \<open>Nvme_Open\<close> (\<^verbatim>\<open>nvme.c\<close>, \<^verbatim>\<open>nvme_common.c\<close>): slot names and devices, CPU detection, log messages, and the entry
    points that compose everything: the list of open controllers never has a device twice, and the exit of the library releases all it holds.
  \<^item> \<open>Nvme_Perf\<close> (\<^verbatim>\<open>tools/perf\<close>, \<^verbatim>\<open>tools/info\<close>): a client: its doubly linked I/O queues refine lists (locale \<open>io_queue\<close>), and no I/O is lost.

  \<^bold>\<open>Faults, parameters.\<close> A failed assertion or panic is \<open>Inl Panic\<close>; an access through a null pointer, outside an array, or an undefined shift is
  \<open>Inl BadAccess\<close>; \<open>Inl OutOfFuel\<close> is the end of a bound on calls or rounds. Parameters stand for what is outside the
  repository: the device (content of the completion queue at each poll, register values at each read with the clock, in the record \<open>ctrlr_env\<close>),
  allocations of the C library, the answers of the operating system (\<open>open\<close>, \<open>mmap\<close>, the page map, files of \<^verbatim>\<open>/proc\<close> and \<^verbatim>\<open>/sys\<close>), libpciaccess, and the callbacks of
  the user, which are logged and do not call the library again.

  \<^bold>\<open>Bounds.\<close> Polling \<open>k\<close> completions needs \<open>NVME_MAX_XFER_SIZE + 15 + 4 q + 5 k\<close> calls with \<open>q\<close> queued requests; submitting
  \<open>2 NVME_MAX_XFER_SIZE + 34 + 9 q + 5 o + 5 k\<close> with \<open>o\<close> outstanding ones and \<open>k\<close> children (a scattered payload has at most one element for each byte, hence the transfer
  size); the initialisation \<open>3 D + 3\<close> calls when the device reacts within \<open>D\<close> reads; the cleanup of the memory manager one round for each list; the
  walk along an ascending list of PCI capabilities 3841 rounds. In each case a theorem or lemma shows that the bound is enough; the theorems on
  code that may not end (a failed controller that is detached, a cyclic capability list, elements of length 0) show that no bound is.

  \<^bold>\<open>Not modelled.\<close> \<^verbatim>\<open>nvme_rwlock.h\<close>, which calls functions the repository does not have and which nothing includes; printing of the stack before
  an abort; memory barriers and the contents of data buffers; the locks of controllers and pools, each taken for the whole of a call, so that
  a call is one step; option parsing, device set-up, time loop and printing of the information tool and the time loop and printing of the performance test;
  data structures of \<^verbatim>\<open>nvme_spec.h\<close> that the library only passes through; build files and scripts.
\<close>

end
